(* ===== verification/Prelude.thy ===== *)
theory Prelude
  imports Main "HOL-Library.Multiset" "HOL-Library.Word"
begin

section \<open>Prelude: transition systems, schedules and shared facts\<close>

text \<open>
  Every threaded program of the repository is modelled as a labelled transition system
  whose step function is executable: \<open>step a s\<close> is \<open>Some t\<close> when the action \<open>a\<close> (a
  thread that runs its next statement, possibly with the outcome of a library call) is
  enabled in \<open>s\<close> and leads to \<open>t\<close>, and \<open>None\<close> when the thread is blocked or has
  finished.  A schedule is a list of actions; \<open>run\<close> executes it.  This theory holds the
  notions all components share: runs, reachable states, and three interfaces (locales)
  that every program's model interprets: an invariant, a terminating program, and a
  program that implements a more abstract one.
\<close>

named_theorems step_defs \<open>definitions unfolded to compute one step of a model\<close>
named_theorems inv_defs \<open>definitions of the models' invariants\<close>

type_synonym ('a, 's) stepfun = "'a \<Rightarrow> 's \<Rightarrow> 's option"

subsection \<open>Runs and reachable states\<close>

fun run :: "('a, 's) stepfun \<Rightarrow> 'a list \<Rightarrow> 's \<Rightarrow> 's option" where
  "run step [] s = Some s"
| "run step (a # as) s = (case step a s of None \<Rightarrow> None | Some t \<Rightarrow> run step as t)"

inductive reachable :: "('a, 's) stepfun \<Rightarrow> 's \<Rightarrow> 's \<Rightarrow> bool" for step s0 where
  start: "reachable step s0 s0"
| move: "reachable step s0 s \<Longrightarrow> step a s = Some t \<Longrightarrow> reachable step s0 t"

definition stuck :: "('a, 's) stepfun \<Rightarrow> 's \<Rightarrow> bool" where
  "stuck step s \<longleftrightarrow> (\<forall>a. step a s = None)"

lemma run_append:
  "run step (as @ bs) s = (case run step as s of None \<Rightarrow> None | Some t \<Rightarrow> run step bs t)"
  by (induction as arbitrary: s) (auto split: option.splits)

lemma run_append_Some:
  "run step as s = Some t \<Longrightarrow> run step (as @ bs) s = run step bs t"
  by (simp add: run_append)

lemma run_snoc:
  "run step (as @ [a]) s = (case run step as s of None \<Rightarrow> None | Some t \<Rightarrow> step a t)"
  by (auto simp: run_append split: option.splits)

lemma reachable_run:
  "reachable step s0 s \<Longrightarrow> run step as s = Some t \<Longrightarrow> reachable step s0 t"
  by (induction as arbitrary: s) (auto split: option.splits intro: reachable.move)

lemma run_reachable: "run step as s0 = Some t \<Longrightarrow> reachable step s0 t"
  by (rule reachable_run [OF reachable.start])

lemma reachable_iff_run: "reachable step s0 s \<longleftrightarrow> (\<exists>as. run step as s0 = Some s)"
proof
  assume "reachable step s0 s"
  then show "\<exists>as. run step as s0 = Some s"
  proof (induction rule: reachable.induct)
    case start
    have "run step [] s0 = Some s0" by simp
    then show ?case by blast
  next
    case (move s a t)
    then obtain as where "run step as s0 = Some s" by blast
    with move.hyps(2) have "run step (as @ [a]) s0 = Some t" by (simp add: run_snoc)
    then show ?case by blast
  qed
qed (auto intro: run_reachable)

text \<open>Repeating a schedule that advances a measured quantity by one.\<close>

lemma run_repeat:
  assumes "\<And>k. k < n \<Longrightarrow> run step as (f k) = Some (f (Suc k))"
  shows "run step (concat (replicate n as)) (f 0) = Some (f n)"
  using assms
proof (induction n)
  case (Suc n)
  then have "run step (concat (replicate n as)) (f 0) = Some (f n)" by simp
  moreover have "concat (replicate (Suc n) as) = concat (replicate n as) @ as"
    by (induction n) auto
  ultimately show ?case using Suc.prems [of n] by (simp add: run_append)
qed simp

subsection \<open>Interface: a program with an invariant\<close>

locale invariant_system =
  fixes step :: "'a \<Rightarrow> 's \<Rightarrow> 's option"
    and init :: 's
    and inv :: "'s \<Rightarrow> bool"
  assumes inv_init: "inv init"
    and inv_step: "inv s \<Longrightarrow> step a s = Some t \<Longrightarrow> inv t"
begin

lemma reachable_inv: "reachable step init s \<Longrightarrow> inv s"
  by (induction rule: reachable.induct) (auto intro: inv_init inv_step)

lemma inv_run: "inv s \<Longrightarrow> run step as s = Some t \<Longrightarrow> inv t"
  by (induction as arbitrary: s) (auto split: option.splits intro: inv_step)

lemma run_inv: "run step as init = Some s \<Longrightarrow> inv s"
  by (rule inv_run [OF inv_init])

end

subsection \<open>Interface: a program every execution of which ends well\<close>

text \<open>
  \<open>msr\<close> decreases with every step, and a state that is not \<open>final\<close> can move.  Hence every
  schedule is finite, and a schedule that cannot be continued has reached \<open>final\<close>: total
  correctness under any scheduler.
\<close>

locale terminating_system = invariant_system +
  fixes msr :: "'s \<Rightarrow> nat"
    and final :: "'s \<Rightarrow> bool"
  assumes decreases: "inv s \<Longrightarrow> step a s = Some t \<Longrightarrow> msr t < msr s"
    and progress: "inv s \<Longrightarrow> \<not> final s \<Longrightarrow> \<exists>a t. step a s = Some t"
begin

lemma run_length: "inv s \<Longrightarrow> run step as s = Some t \<Longrightarrow> length as + msr t \<le> msr s"
proof (induction as arbitrary: s)
  case (Cons a as)
  from Cons.prems obtain u where u: "step a s = Some u" "run step as u = Some t"
    by (auto split: option.splits)
  have "length as + msr t \<le> msr u"
    using Cons.IH u inv_step [OF Cons.prems(1) u(1)] by blast
  with decreases [OF Cons.prems(1) u(1)] show ?case by simp
qed simp

lemma run_bounded: "run step as init = Some t \<Longrightarrow> length as \<le> msr init"
  using run_length [OF inv_init] by fastforce

lemma stuck_final: "inv s \<Longrightarrow> stuck step s \<Longrightarrow> final s"
  using progress unfolding stuck_def by fastforce

lemma finishes: "inv s \<Longrightarrow> \<exists>as t. run step as s = Some t \<and> final t"
proof (induction "msr s" arbitrary: s rule: less_induct)
  case less
  show ?case
  proof (cases "final s")
    case True
    have "run step [] s = Some s" by simp
    with True show ?thesis by blast
  next
    case False
    then obtain a u where u: "step a s = Some u" using progress less.prems by blast
    obtain as t where "run step as u = Some t" "final t"
      using less.hyps [OF decreases [OF less.prems u] inv_step [OF less.prems u]] by blast
    with u have "run step (a # as) s = Some t" by simp
    with \<open>final t\<close> show ?thesis by blast
  qed
qed

lemma reaches_stuck: "inv s \<Longrightarrow> \<exists>as t. run step as s = Some t \<and> stuck step t"
proof (induction "msr s" arbitrary: s rule: less_induct)
  case less
  show ?case
  proof (cases "stuck step s")
    case True
    have "run step [] s = Some s" by simp
    with True show ?thesis by blast
  next
    case False
    then obtain a u where u: "step a s = Some u" by (auto simp: stuck_def)
    obtain as t where "run step as u = Some t" "stuck step t"
      using less.hyps [OF decreases [OF less.prems u] inv_step [OF less.prems u]] by blast
    with u have "run step (a # as) s = Some t" by simp
    with \<open>stuck step t\<close> show ?thesis by blast
  qed
qed

lemma reachable_finishes:
  "reachable step init s \<Longrightarrow> \<exists>as t. run step as s = Some t \<and> final t"
  by (rule finishes [OF reachable_inv])

lemma reachable_stuck_final: "reachable step init s \<Longrightarrow> stuck step s \<Longrightarrow> final s"
  by (rule stuck_final [OF reachable_inv])

end

subsection \<open>Interface: a program that implements an abstract one\<close>

locale refining_system = invariant_system +
  fixes astep :: "'b \<Rightarrow> 'u \<Rightarrow> 'u option"
    and ainit :: 'u
    and abs :: "'s \<Rightarrow> 'u"
  assumes abs_init: "abs init = ainit"
    and simulates: "inv s \<Longrightarrow> step a s = Some t \<Longrightarrow>
      abs t = abs s \<or> (\<exists>b. astep b (abs s) = Some (abs t))"
begin

lemma reachable_abs: "reachable step init s \<Longrightarrow> reachable astep ainit (abs s)"
proof (induction rule: reachable.induct)
  case start
  show ?case by (simp add: abs_init reachable.start)
next
  case (move s a t)
  from simulates [OF reachable_inv [OF move.hyps(1)] move.hyps(2)] move.IH show ?case
    by (auto intro: reachable.move)
qed

end

subsection \<open>Facts on lists shared by the components\<close>

lemma nth_append_first [simp]: "i < length xs \<Longrightarrow> (xs @ ys) ! i = xs ! i"
  by (simp add: nth_append)

lemma length_dropWhile_less: "xs \<noteq> [] \<Longrightarrow> P (hd xs) \<Longrightarrow> length (dropWhile P xs) < length xs"
  by (cases xs) (auto simp: less_Suc_eq_le length_dropWhile_le)

lemma all_less_2: "(\<forall>t < (2::nat). P t) \<longleftrightarrow> P 0 \<and> P 1"
  by (auto simp: less_Suc_eq numeral_2_eq_2)

lemma upt_Suc_snoc: "i \<le> j \<Longrightarrow> [i..<Suc j] = [i..<j] @ [j]"
  by simp

end
