(* ===== verification/C_Runtime.thy ===== *)
theory C_Runtime
  imports Prelude
begin

section \<open>The part of C and its standard library the programs use\<close>

text \<open>
  Undefined behaviour is a value: an operation that may dereference \<open>NULL\<close>, read an
  indeterminate byte, or leave an array returns \<open>Inl\<close> of a \<open>c_error\<close>.  Arrays of
  \<open>char\<close> are functions from indices to cells, together with the size that the access
  functions check.  A stdio input stream is the unread rest of the file with its
  end-of-file flag.  Allocation is assumed to succeed, as the programs assume.
\<close>

datatype c_error = NullDeref | UninitRead | OutOfBounds | BufferOverflow | SignedOverflow

type_synonym 'a c = "c_error + 'a"

definition bindc :: "'a c \<Rightarrow> ('a \<Rightarrow> 'b c) \<Rightarrow> 'b c" where
  "bindc m f = (case m of Inl e \<Rightarrow> Inl e | Inr x \<Rightarrow> f x)"

lemma bindc_simps [simp]:
  "bindc (Inl e) f = Inl e"
  "bindc (Inr x) f = f x"
  by (simp_all add: bindc_def)

lemma bindc_Inr_iff: "bindc m f = Inr y \<longleftrightarrow> (\<exists>x. m = Inr x \<and> f x = Inr y)"
  by (cases m) auto

lemma bindc_cong [fundef_cong]:
  "m = m' \<Longrightarrow> (\<And>x. m' = Inr x \<Longrightarrow> f x = f' x) \<Longrightarrow> bindc m f = bindc m' f'"
  by (cases m') auto

text \<open>A load from an array and a store into it, with the bounds the language leaves to the programmer.\<close>

definition ld :: "'a list \<Rightarrow> nat \<Rightarrow> 'a c" where
  "ld xs i = (if i < length xs then Inr (xs ! i) else Inl OutOfBounds)"

definition sto :: "'a list \<Rightarrow> nat \<Rightarrow> 'a \<Rightarrow> 'a list c" where
  "sto xs i v = (if i < length xs then Inr (xs[i := v]) else Inl OutOfBounds)"

lemma ld_in [simp]: "i < length xs \<Longrightarrow> ld xs i = Inr (xs ! i)"
  by (simp add: ld_def)

lemma sto_in [simp]: "i < length xs \<Longrightarrow> sto xs i v = Inr (xs[i := v])"
  by (simp add: sto_def)

text \<open>An access with an index of type \<open>int\<close>, and the remainder for a positive divisor: it has the sign of the dividend.\<close>

definition ldi :: "'a list \<Rightarrow> int \<Rightarrow> 'a c" where
  "ldi xs i = (if i < 0 then Inl OutOfBounds else ld xs (nat i))"

definition crem :: "int \<Rightarrow> int \<Rightarrow> int" where
  "crem a m = (if a < 0 then - ((- a) mod m) else a mod m)"

text \<open>A computation that may not return.\<close>

type_synonym 'a run = "'a c option"

definition bindr :: "'a run \<Rightarrow> ('a \<Rightarrow> 'b run) \<Rightarrow> 'b run" where
  "bindr m f = (case m of None \<Rightarrow> None | Some (Inl e) \<Rightarrow> Some (Inl e) | Some (Inr x) \<Rightarrow> f x)"

lemma bindr_simps [simp]:
  "bindr None f = None"
  "bindr (Some (Inl e)) f = Some (Inl e)"
  "bindr (Some (Inr x)) f = f x"
  by (simp_all add: bindr_def)

lemma bindr_None_iff: "bindr m f = None \<longleftrightarrow> m = None \<or> (\<exists>x. m = Some (Inr x) \<and> f x = None)"
  by (cases m rule: option.exhaust) (auto simp: bindr_def split: sum.splits)

lemma bindr_Inr_iff: "bindr m f = Some (Inr y) \<longleftrightarrow> (\<exists>x. m = Some (Inr x) \<and> f x = Some (Inr y))"
  by (cases m rule: option.exhaust) (auto simp: bindr_def split: sum.splits)

subsection \<open>Characters and C strings\<close>

definition NUL :: char where "NUL = CHR 0x00"

definition nl :: char where "nl = CHR 0x0A"

text \<open>\<open>isspace\<close> in the C locale.\<close>

definition isspace :: "char \<Rightarrow> bool" where
  "isspace c \<longleftrightarrow> c \<in> set [CHR '' '', CHR 0x09, CHR 0x0A, CHR 0x0B, CHR 0x0C, CHR 0x0D]"

lemma isspace_nl [simp]: "isspace nl" and not_isspace_NUL [simp]: "\<not> isspace NUL"
  by (simp_all add: isspace_def nl_def NUL_def)

text \<open>What a function that stops at the null byte sees of an array: \<open>strlen\<close> is its length.\<close>

definition cstr :: "string \<Rightarrow> string" where
  "cstr s = takeWhile (\<lambda>c. c \<noteq> NUL) s"

lemma cstr_id: "NUL \<notin> set s \<Longrightarrow> cstr s = s"
  unfolding cstr_def by (subst takeWhile_eq_all_conv) blast

lemma NUL_notin_cstr [simp]: "NUL \<notin> set (cstr s)"
  by (auto simp: cstr_def dest: set_takeWhileD)

lemma length_cstr: "length (cstr s) \<le> length s"
  by (simp add: cstr_def length_takeWhile_le)

subsection \<open>Character arrays\<close>

datatype cell = Uninit | Byte char

type_synonym mem = "nat \<Rightarrow> cell"

definition poke :: "nat \<Rightarrow> nat \<Rightarrow> char \<Rightarrow> mem \<Rightarrow> mem c" where
  "poke sz i c m = (if i < sz then Inr (m(i := Byte c)) else Inl OutOfBounds)"

text \<open>Reading the string that starts at cell \<open>i\<close>, with \<open>n\<close> cells left in the array.\<close>

fun peek_str :: "nat \<Rightarrow> nat \<Rightarrow> mem \<Rightarrow> string c" where
  "peek_str 0 i m = Inl OutOfBounds"
| "peek_str (Suc n) i m =
     (case m i of
        Uninit \<Rightarrow> Inl UninitRead
      | Byte c \<Rightarrow> if c = NUL then Inr [] else bindc (peek_str n (Suc i) m) (\<lambda>s. Inr (c # s)))"

definition holds_prefix :: "mem \<Rightarrow> nat \<Rightarrow> string \<Rightarrow> bool" where
  "holds_prefix m i s \<longleftrightarrow> (\<forall>k < length s. m (i + k) = Byte (s ! k))"

lemma holds_prefix_Cons:
  "holds_prefix m i (c # s) \<longleftrightarrow> m i = Byte c \<and> holds_prefix m (Suc i) s"
  by (auto simp: holds_prefix_def nth_Cons split: nat.splits)

lemma peek_str_holds:
  assumes "holds_prefix m i s" "m (i + length s) = Byte NUL" "NUL \<notin> set s" "length s < n"
  shows "peek_str n i m = Inr s"
  using assms
proof (induction s arbitrary: i n)
  case Nil
  then show ?case by (cases n) auto
next
  case (Cons c s)
  then obtain n' where "n = Suc n'" by (cases n) auto
  with Cons show ?case by (auto simp: holds_prefix_Cons)
qed

lemma peek_str_uninit:
  assumes "holds_prefix m i s" "m (i + length s) = Uninit" "NUL \<notin> set s" "length s < n"
  shows "peek_str n i m = Inl UninitRead"
  using assms
proof (induction s arbitrary: i n)
  case Nil
  then show ?case by (cases n) auto
next
  case (Cons c s)
  then obtain n' where "n = Suc n'" by (cases n) auto
  with Cons show ?case by (auto simp: holds_prefix_Cons)
qed

lemma holds_prefix_snoc:
  "holds_prefix m i s \<Longrightarrow> holds_prefix (m(i + length s := Byte c)) i (s @ [c])"
  by (auto simp: holds_prefix_def nth_append less_Suc_eq)

lemma holds_prefix_upd_after:
  "holds_prefix m i s \<Longrightarrow> i + length s \<le> j \<Longrightarrow> holds_prefix (m(j := v)) i s"
  by (auto simp: holds_prefix_def)

text \<open>\<open>sprintf\<close> into a buffer of \<open>sz\<close> bytes: the text and its null byte must fit.\<close>

definition sprintf :: "nat \<Rightarrow> string \<Rightarrow> string c" where
  "sprintf sz s = (if length s < sz then Inr s else Inl BufferOverflow)"

subsection \<open>Decimal output and \<open>atoi\<close>\<close>

definition digit :: "nat \<Rightarrow> char" where
  "digit d = char_of (48 + d)"

fun show_nat :: "nat \<Rightarrow> string" where
  "show_nat n = (if n < 10 then [digit n] else show_nat (n div 10) @ [digit (n mod 10)])"

declare show_nat.simps [simp del]

definition show_int :: "int \<Rightarrow> string" where
  "show_int i = (if i < 0 then CHR ''-'' # show_nat (nat (- i)) else show_nat (nat i))"

text \<open>Evaluation at a numeral.\<close>

lemma digit_simps:
  "digit 0 = CHR ''0''" "digit 1 = CHR ''1''" "digit (Suc 0) = CHR ''1''" "digit 2 = CHR ''2''" "digit 3 = CHR ''3''"
  "digit 4 = CHR ''4''" "digit 5 = CHR ''5''" "digit 6 = CHR ''6''" "digit 7 = CHR ''7''" "digit 8 = CHR ''8''"
  "digit 9 = CHR ''9''"
  by (simp_all add: digit_def char_of_def bit_iff_odd)

lemma show_nat_rec:
  "n < 10 \<Longrightarrow> show_nat n = [digit n]"
  "\<not> n < 10 \<Longrightarrow> show_nat n = show_nat (n div 10) @ [digit (n mod 10)]"
  by (subst show_nat.simps, simp)+

lemmas show_simps = show_int_def show_nat_rec digit_simps

lemma length_show_nat: "n < 10 ^ k \<Longrightarrow> 0 < k \<Longrightarrow> length (show_nat n) \<le> k"
proof (induction n arbitrary: k rule: show_nat.induct)
  case (1 n)
  show ?case
  proof (cases "n < 10")
    case True
    with 1 show ?thesis by (subst show_nat.simps) simp
  next
    case False
    with 1 obtain k' where k: "k = Suc k'" by (cases k) auto
    with 1 False have "0 < k'" by (cases k') auto
    moreover have "n div 10 < 10 ^ k'" using 1 k by (simp add: less_mult_imp_div_less mult.commute)
    ultimately have "length (show_nat (n div 10)) \<le> k'" using 1 False by blast
    with False k show ?thesis by (subst show_nat.simps) simp
  qed
qed

lemma length_show_int: "\<bar>i\<bar> \<le> 2 ^ 31 \<Longrightarrow> length (show_int i) \<le> 11"
proof -
  assume "\<bar>i\<bar> \<le> 2 ^ 31"
  then have "nat \<bar>i\<bar> < 10 ^ 10" by simp
  then have "length (show_nat (nat \<bar>i\<bar>)) \<le> 10" by (rule length_show_nat) simp
  then show ?thesis by (cases "i < 0") (auto simp: show_int_def)
qed

definition isdigit :: "char \<Rightarrow> bool" where
  "isdigit c \<longleftrightarrow> 48 \<le> (of_char c :: nat) \<and> (of_char c :: nat) \<le> 57"

fun digits_val :: "nat \<Rightarrow> string \<Rightarrow> nat" where
  "digits_val n [] = n"
| "digits_val n (c # s) = (if isdigit c then digits_val (10 * n + (of_char c - 48)) s else n)"

text \<open>The values of a 32-bit \<open>int\<close>; leaving them is undefined for \<open>atoi\<close>.\<close>

definition in_int32 :: "int \<Rightarrow> bool" where
  "in_int32 i \<longleftrightarrow> - (2 ^ 31) \<le> i \<and> i < 2 ^ 31"

definition to_int32 :: "int \<Rightarrow> int c" where
  "to_int32 i = (if in_int32 i then Inr i else Inl SignedOverflow)"

definition atoi :: "string \<Rightarrow> int c" where
  "atoi s = (case dropWhile isspace s of
       [] \<Rightarrow> Inr 0
     | c # r \<Rightarrow>
         if c = CHR ''-'' then to_int32 (- int (digits_val 0 r))
         else if c = CHR ''+'' then to_int32 (int (digits_val 0 r))
         else to_int32 (int (digits_val 0 (c # r))))"

lemma of_char_digit: "d < 10 \<Longrightarrow> (of_char (digit d) :: nat) = 48 + d"
  by (simp add: digit_def)

lemma isdigit_digit [simp]: "d < 10 \<Longrightarrow> isdigit (digit d)"
  by (simp add: isdigit_def of_char_digit)

lemma digits_val_append:
  "\<forall>c \<in> set s. isdigit c \<Longrightarrow> digits_val n (s @ t) = digits_val (digits_val n s) t"
  by (induction s arbitrary: n) auto

lemma show_nat_digits: "\<forall>c \<in> set (show_nat n). isdigit c"
proof (induction n rule: show_nat.induct)
  case (1 n)
  then show ?case by (cases "n < 10") (auto simp: show_nat.simps [of n])
qed

lemma show_nat_nonempty: "show_nat n \<noteq> []"
  by (subst show_nat.simps) simp

lemma digits_val_show_nat: "digits_val 0 (show_nat n) = n"
proof (induction n rule: show_nat.induct)
  case (1 n)
  show ?case
  proof (cases "n < 10")
    case True
    then show ?thesis by (simp add: show_nat.simps [of n] of_char_digit)
  next
    case False
    with 1 have "digits_val 0 (show_nat (n div 10)) = n div 10" by simp
    with False show ?thesis
      by (simp add: show_nat.simps [of n] digits_val_append show_nat_digits of_char_digit)
  qed
qed

lemma digits_val_stop: "\<not> isdigit c \<Longrightarrow> digits_val n (c # s) = n"
  by simp

lemma isdigit_not_space: "isdigit c \<Longrightarrow> \<not> isspace c \<and> c \<noteq> CHR ''-'' \<and> c \<noteq> CHR ''+'' \<and> c \<noteq> NUL"
  by (auto simp: isdigit_def isspace_def NUL_def)

text \<open>Round trip: reading a decimal that is followed by a non-digit gives the number back.\<close>

lemma atoi_show_nat:
  assumes "n < 2 ^ 31" and "t = [] \<or> \<not> isdigit (hd t)"
  shows "atoi (show_nat n @ t) = Inr (int n)"
proof -
  obtain c r where cr: "show_nat n = c # r" using show_nat_nonempty by (cases "show_nat n") auto
  then have dig: "isdigit c" using show_nat_digits [of n] by simp
  have "digits_val 0 (show_nat n @ t) = digits_val n t"
    by (simp add: digits_val_append show_nat_digits digits_val_show_nat)
  also have "\<dots> = n" using assms(2) by (cases t) auto
  finally have "digits_val 0 ((c # r) @ t) = n" using cr by simp
  with assms(1) isdigit_not_space [OF dig] cr show ?thesis
    by (simp add: atoi_def to_int32_def in_int32_def)
qed

subsection \<open>Input streams\<close>

text \<open>
  \<open>is_dir\<close> marks a stream opened on a directory: \<open>fopen (path, "r")\<close> succeeds on it, and
  every read fails with an error and leaves the end-of-file flag alone.
\<close>

datatype cfile = Regular string | Directory

record stream =
  rest :: string
  eof :: bool
  is_dir :: bool

definition fopen_stream :: "cfile \<Rightarrow> stream" where
  "fopen_stream f = (case f of
       Regular s \<Rightarrow> \<lparr>rest = s, eof = False, is_dir = False\<rparr>
     | Directory \<Rightarrow> \<lparr>rest = [], eof = False, is_dir = True\<rparr>)"

text \<open>The longest prefix of at most \<open>k\<close> characters that ends at the first newline.\<close>

fun take_line :: "nat \<Rightarrow> string \<Rightarrow> string \<times> string" where
  "take_line 0 s = ([], s)"
| "take_line (Suc k) [] = ([], [])"
| "take_line (Suc k) (c # s) =
     (if c = nl then ([c], s) else (let (l, r) = take_line k s in (c # l, r)))"

definition fgets :: "nat \<Rightarrow> stream \<Rightarrow> string option \<times> stream" where
  "fgets n f =
     (if is_dir f then (None, f)
      else if rest f = [] then (None, f\<lparr>eof := True\<rparr>)
      else let (l, r) = take_line (n - 1) (rest f)
           in (Some l, f\<lparr>rest := r, eof := (eof f \<or> r = [] \<and> length l < n - 1 \<and> last l \<noteq> nl)\<rparr>))"

lemma take_line_split: "take_line k s = (l, r) \<Longrightarrow> s = l @ r"
  by (induction k s arbitrary: l r rule: take_line.induct) (auto split: if_splits prod.splits)

lemma take_line_length: "take_line k s = (l, r) \<Longrightarrow> length l \<le> k"
  by (induction k s arbitrary: l r rule: take_line.induct) (auto split: if_splits prod.splits)

lemma take_line_nonempty: "take_line (Suc k) s = (l, r) \<Longrightarrow> s \<noteq> [] \<Longrightarrow> l \<noteq> []"
  by (cases s) (auto split: if_splits prod.splits)

lemma take_line_line:
  "nl \<notin> set s \<Longrightarrow> length s < k \<Longrightarrow> take_line k (s @ nl # t) = (s @ [nl], t)"
proof (induction s arbitrary: k)
  case Nil
  then show ?case by (cases k) auto
next
  case (Cons c s)
  then show ?case by (cases k) auto
qed

lemma take_line_no_nl: "nl \<notin> set s \<Longrightarrow> length s < k \<Longrightarrow> take_line k s = (s, [])"
proof (induction s arbitrary: k)
  case Nil
  then show ?case by (cases k) auto
next
  case (Cons c s)
  then show ?case by (cases k) auto
qed

end
