(* ===== verification/Web_Config.thy ===== *)
theory Web_Config
  imports C_Runtime
begin

section \<open>The configuration file: \<open>read_config\<close> of \<open>server.c\<close> and \<open>read_port\<close> of \<open>client.c\<close>\<close>

text \<open>
  The file system is a parameter: the contents of \<open>config.txt\<close> if it can be opened, and
  whether a log file of a given name can be opened for appending.  \<open>Exit\<close> stands for
  \<open>perror (msg); exit (1)\<close>.
\<close>

datatype 'a outcome = Exit string | Value 'a

record config =
  port :: int
  logfile :: string
  NWORKERS :: int

text \<open>What \<open>fgets\<close> leaves in an uninitialised array: the line, its null byte, and garbage.\<close>

definition line_mem :: "string \<Rightarrow> mem" where
  "line_mem l = (\<lambda>i. if i < length l then Byte (l ! i) else if i = length l then Byte NUL else Uninit)"

text \<open>
  \<open>for (i = 0; i < n; i++) if (buffer[i] == '\n') { buffer[i] = 0; break; }\<close>.  Past the null
  byte the loop looks at bytes nobody wrote; whatever it finds or clears there is never read.
\<close>

fun strip_newline :: "nat \<Rightarrow> nat \<Rightarrow> mem \<Rightarrow> mem" where
  "strip_newline 0 i m = m"
| "strip_newline (Suc k) i m =
     (if m i = Byte nl then m(i := Byte NUL) else strip_newline k (Suc i) m)"

definition read_config :: "string option \<Rightarrow> (string \<Rightarrow> bool) \<Rightarrow> config outcome c" where
  "read_config config_txt can_open =
     (case config_txt of
        None \<Rightarrow> Inr (Exit ''Error opening config file'')
      | Some txt \<Rightarrow>
          let f0 = fopen_stream (Regular txt) in
          case fgets 100 f0 of
            (None, _) \<Rightarrow> Inr (Exit ''Error reading config'')
          | (Some l1, f1) \<Rightarrow>
              bindc (peek_str (100 - 6) 6 (strip_newline 100 0 (line_mem l1))) (\<lambda>s1.
              bindc (atoi s1) (\<lambda>p.
              case fgets 100 f1 of
                (None, _) \<Rightarrow> Inr (Exit ''Error reading config'')
              | (Some l2, f2) \<Rightarrow>
                  bindc (peek_str (100 - 9) 9 (strip_newline 100 0 (line_mem l2))) (\<lambda>log.
                  if \<not> can_open log then Inr (Exit ''Error opening log file'')
                  else case fgets 20 f2 of
                         (None, _) \<Rightarrow> Inr (Exit ''Error reading config'')
                       | (Some l3, f3) \<Rightarrow>
                           bindc (peek_str (20 - 10) 10 (strip_newline 20 0 (line_mem l3))) (\<lambda>s3.
                           bindc (atoi s3) (\<lambda>n.
                           Inr (Value \<lparr>port = p, logfile = log, NWORKERS = n\<rparr>)))))))"

text \<open>The client reads the first line only, keeps its newline, and answers 0 on an error.\<close>

definition read_port :: "string option \<Rightarrow> int c" where
  "read_port config_txt =
     (case config_txt of
        None \<Rightarrow> Inr 0
      | Some txt \<Rightarrow>
          case fgets 100 (fopen_stream (Regular txt)) of
            (None, _) \<Rightarrow> Inr 0
          | (Some l, _) \<Rightarrow> bindc (peek_str (100 - 6) 6 (line_mem l)) atoi)"

subsection \<open>Lines with a fixed tag\<close>

lemma strip_newline_line:
  assumes "nl \<notin> set s" "length s < k" "i = 0"
  shows "strip_newline k i (line_mem (s @ [nl])) = (line_mem (s @ [nl]))(length s := Byte NUL)"
proof -
  have "strip_newline k' j (line_mem (s @ [nl])) = (line_mem (s @ [nl]))(length s := Byte NUL)"
    if "j \<le> length s" "length s < j + k'" for k' j
    using that
  proof (induction k' arbitrary: j)
    case (Suc k')
    show ?case
    proof (cases "j = length s")
      case True
      then show ?thesis by (simp add: line_mem_def)
    next
      case False
      with Suc.prems have j: "j < length s" by simp
      then have "s ! j \<noteq> nl" using assms(1) nth_mem [OF j] by metis
      with j have "line_mem (s @ [nl]) j \<noteq> Byte nl" by (simp add: line_mem_def nth_append)
      with False Suc show ?thesis by simp
    qed
  qed simp
  with assms show ?thesis by simp
qed

text \<open>The text after the tag \<open>t\<close> of a line \<open>t @ s\<close>, with and without the newline cleared.\<close>

lemma peek_cleared:
  assumes "NUL \<notin> set s" "length (t @ s) < n" and k: "k = length t"
  shows "peek_str (n - k) k ((line_mem (t @ s @ [nl]))(length (t @ s) := Byte NUL)) = Inr s"
  unfolding k by (rule peek_str_holds) (use assms in \<open>auto simp: holds_prefix_def line_mem_def nth_append\<close>)

lemma peek_stripped:
  assumes "nl \<notin> set (t @ s)" "NUL \<notin> set s" "length (t @ s) < n" and k: "k = length t"
  shows "peek_str (n - k) k (strip_newline n 0 (line_mem (t @ s @ [nl]))) = Inr s"
proof -
  have "strip_newline n 0 (line_mem ((t @ s) @ [nl])) =
      (line_mem ((t @ s) @ [nl]))(length (t @ s) := Byte NUL)"
    by (rule strip_newline_line) (use assms in auto)
  with peek_cleared [OF assms(2,3) k] show ?thesis by simp
qed

lemma peek_line:
  assumes "NUL \<notin> set s" "length (t @ s) < n" and k: "k = length t"
  shows "peek_str (n - k) k (line_mem (t @ s)) = Inr s"
  unfolding k by (rule peek_str_holds) (use assms in \<open>auto simp: holds_prefix_def line_mem_def nth_append\<close>)

lemma fgets_line:
  assumes "\<not> is_dir f" "rest f = s @ nl # t" "nl \<notin> set s" "length s < n - 1"
  shows "fgets n f = (Some (s @ [nl]), f\<lparr>rest := t, eof := eof f\<rparr>)"
  using assms take_line_line [of s "n - 1" t] by (simp add: fgets_def)

lemma nl_not_digit [simp]: "\<not> isdigit nl"
  by (simp add: isdigit_def nl_def)

lemma nl_notin_show_nat: "nl \<notin> set (show_nat n)" and NUL_notin_show_nat: "NUL \<notin> set (show_nat n)"
  using show_nat_digits [of n] isdigit_not_space by fastforce+

definition config_text :: "nat \<Rightarrow> string \<Rightarrow> nat \<Rightarrow> string" where
  "config_text p log n =
     (''port: '' @ show_nat p) @ nl # (''logfile: '' @ log) @ nl # (''nworkers: '' @ show_nat n) @ nl # []"

lemma show_nat_int32: "p < 2 ^ 31 \<Longrightarrow> length (show_nat p) \<le> 10"
  using length_show_nat [of p 10] by simp

lemma atoi_port: "p < 2 ^ 31 \<Longrightarrow> atoi (show_nat p) = Inr (int p)"
  using atoi_show_nat [of p "[]"] by simp

lemma fgets_port:
  assumes "p < 2 ^ 31"
  shows "fgets 100 (fopen_stream (Regular (config_text p log n))) =
    (Some ((''port: '' @ show_nat p) @ [nl]), (fopen_stream (Regular (config_text p log n)))
       \<lparr>rest := (''logfile: '' @ log) @ nl # (''nworkers: '' @ show_nat n) @ nl # []\<rparr>)"
  by (subst fgets_line [of _ "''port: '' @ show_nat p"])
    (use show_nat_int32 [OF assms] nl_notin_show_nat [of p] in
      \<open>auto simp: fopen_stream_def config_text_def nl_def\<close>)

lemma read_port_config:
  assumes "p < 2 ^ 31"
  shows "read_port (Some (config_text p log n)) = Inr (int p)"
proof -
  have "peek_str (100 - 6) 6 (line_mem (''port: '' @ show_nat p @ [nl])) = Inr (show_nat p @ [nl])"
    using peek_line [of "show_nat p @ [nl]" "''port: ''" 100 6] show_nat_int32 [OF assms]
      NUL_notin_show_nat [of p] by (simp add: nl_def NUL_def)
  then show ?thesis
    using assms atoi_show_nat [of p "[nl]"]
    unfolding read_port_def option.case fgets_port [OF assms] prod.case by simp
qed

text \<open>
  C16: the configuration round trip.  A file with the three tagged lines is read back by the
  server as the port, the log name and the number of workers it was written with, and the
  client reads the same port from it; the limits are those of the line buffers and of \<open>int\<close>.
\<close>

theorem read_config_roundtrip:
  assumes "p < 2 ^ 31" "n < 10 ^ 8" "nl \<notin> set log" "NUL \<notin> set log" "length log < 90" "can_open log"
  shows "read_config (Some (config_text p log n)) can_open =
      Inr (Value \<lparr>port = int p, logfile = log, NWORKERS = int n\<rparr>) \<and>
    read_port (Some (config_text p log n)) = Inr (int p)"
proof -
  note ln = length_show_nat [of n 8] show_nat_int32 [OF assms(1)]
  let ?f0 = "fopen_stream (Regular (config_text p log n))"
  let ?f1 = "?f0\<lparr>rest := (''logfile: '' @ log) @ nl # (''nworkers: '' @ show_nat n) @ nl # []\<rparr>"
  let ?f2 = "?f0\<lparr>rest := (''nworkers: '' @ show_nat n) @ nl # []\<rparr>"
  note f0 = fgets_port [OF assms(1), of log n]
  have f1: "fgets 100 ?f1 = (Some ((''logfile: '' @ log) @ [nl]), ?f2)"
    by (subst fgets_line [of _ "''logfile: '' @ log"])
      (use assms in \<open>auto simp: fopen_stream_def nl_def\<close>)
  have f2: "fgets 20 ?f2 = (Some ((''nworkers: '' @ show_nat n) @ [nl]), ?f0\<lparr>rest := []\<rparr>)"
    by (subst fgets_line [of _ "''nworkers: '' @ show_nat n"])
      (use assms ln nl_notin_show_nat [of n] in \<open>auto simp: fopen_stream_def nl_def\<close>)
  have p1: "peek_str (100 - 6) 6 (strip_newline 100 0 (line_mem ((''port: '' @ show_nat p) @ [nl]))) =
      Inr (show_nat p)"
    using peek_stripped [of "''port: ''" "show_nat p" 100 6] ln nl_notin_show_nat [of p] NUL_notin_show_nat [of p]
    by (simp add: nl_def)
  have p2: "peek_str (100 - 9) 9 (strip_newline 100 0 (line_mem ((''logfile: '' @ log) @ [nl]))) = Inr log"
    using peek_stripped [of "''logfile: ''" log 100 9] assms by (simp add: nl_def)
  have p3: "peek_str (20 - 10) 10 (strip_newline 20 0 (line_mem ((''nworkers: '' @ show_nat n) @ [nl]))) =
      Inr (show_nat n)"
    using peek_stripped [of "''nworkers: ''" "show_nat n" 20 10] assms ln nl_notin_show_nat [of n]
      NUL_notin_show_nat [of n] by (simp add: nl_def)
  have n31: "n < 2 ^ 31" using assms(2) by simp
  have srv: "read_config (Some (config_text p log n)) can_open =
      Inr (Value \<lparr>port = int p, logfile = log, NWORKERS = int n\<rparr>)"
    using assms(6) unfolding read_config_def option.case Let_def f0 f1 f2 prod.case
    by (simp only: p1 p2 p3 f1 f2 bindc_simps atoi_port [OF assms(1)] atoi_port [OF n31] prod.case option.case)
      simp
  have "read_port (Some (config_text p log n)) = Inr (int p)"
    by (rule read_port_config) (use assms in auto)
  with srv show ?thesis by simp
qed

theorem read_config_roundtrip_witness:
  "read_config (Some (config_text 8888 ''log.txt'' 5)) (\<lambda>_. True) =
     Inr (Value \<lparr>port = 8888, logfile = ''log.txt'', NWORKERS = 5\<rparr>)"
  using read_config_roundtrip [of 8888 5 "''log.txt''" "\<lambda>_. True"] by (simp add: nl_def NUL_def)

end
