(* ===== verification/Web_Request.thy ===== *)
theory Web_Request
  imports C_Runtime
begin

section \<open>The web server's request tokenizer: \<open>read_command\<close> of \<open>server.c\<close>\<close>

text \<open>
  The tokenizer copies the received characters into separately allocated token arrays.
  The model keeps the arrays: a slot of \<open>tok\<close> is \<open>NULL\<close> until the code allocates it, the
  first token is zero-filled (\<open>calloc\<close>), the others are indeterminate (\<open>malloc\<close>), and
  every store is checked against the array it goes to.  The reference definition is
  \<open>complete_words\<close>: the maximal runs of non-space characters that are followed by a space.
\<close>

definition MAXTOKS :: nat where "MAXTOKS = 1000"
definition MAXTOKSIZE :: nat where "MAXTOKSIZE = 1000"
definition MAXBUFF :: nat where "MAXBUFF = 1000"

datatype status_value = NORMAL | EOF_FOUND | INPUT_OVERFLOW | OVERSIZE_TOKEN | TOO_MANY_TOKENS

text \<open>\<open>struct command\<close>; an unset \<open>status\<close> is \<open>None\<close>.\<close>

record command =
  tok :: "nat \<Rightarrow> mem option"
  count :: nat
  status :: "status_value option"

definition calloc_tok :: mem where "calloc_tok = (\<lambda>_. Byte NUL)"
definition malloc_tok :: mem where "malloc_tok = (\<lambda>_. Uninit)"

text \<open>\<open>n->tok[t][ti] = c\<close>: \<open>tok\<close> has \<open>MAXTOKS + 1\<close> slots, a token \<open>MAXTOKSIZE + 1\<close> cells.\<close>

definition put_tok :: "nat \<Rightarrow> nat \<Rightarrow> char \<Rightarrow> command \<Rightarrow> command c" where
  "put_tok t ti c n =
     (if t > MAXTOKS then Inl OutOfBounds
      else case tok n t of
             None \<Rightarrow> Inl NullDeref
           | Some m \<Rightarrow> bindc (poke (MAXTOKSIZE + 1) ti c m)
                        (\<lambda>m'. Inr (n\<lparr>tok := (tok n)(t \<mapsto> m')\<rparr>)))"

text \<open>
  The \<open>for\<close> loop over \<open>buff[j]\<close>; the list is the unread rest of the string, so
  \<open>buff[j+1] != 0\<close> is \<open>r \<noteq> []\<close>.  The flag of the result is \<open>False\<close> when the loop returned 0.
\<close>

fun read_loop :: "string \<Rightarrow> nat \<Rightarrow> nat \<Rightarrow> command \<Rightarrow> (command \<times> bool) c" where
  "read_loop [] t ti n = Inr (n, True)"
| "read_loop (c # r) t ti n =
     (if \<not> isspace c then bindc (put_tok t ti c n) (\<lambda>n'. read_loop r t (ti + 1) n')
      else if ti = 0 then read_loop r t ti n
      else if ti < MAXTOKSIZE then
        bindc (put_tok t ti NUL n) (\<lambda>n'.
          if t + 1 < MAXTOKS \<and> r \<noteq> [] then
            read_loop r (t + 1) 0
              (n'\<lparr>tok := (tok n')(t + 1 \<mapsto> malloc_tok), count := count n' + 1\<rparr>)
          else if t + 1 = MAXTOKS \<and> r \<noteq> [] then
            Inr (n'\<lparr>status := Some TOO_MANY_TOKENS\<rparr>, False)
          else read_loop r (t + 1) 0 (n'\<lparr>count := count n' + 1\<rparr>))
      else Inr (n\<lparr>status := Some OVERSIZE_TOKEN\<rparr>, False))"

definition empty_command :: command where
  "empty_command = \<lparr>tok = [0 \<mapsto> calloc_tok], count = 0, status = None\<rparr>"

text \<open>\<open>buff[strlen(buff)-1]\<close> on the empty string is a read before the array.\<close>

definition read_command :: "string \<Rightarrow> (command \<times> int) c" where
  "read_command buff =
     bindc (read_loop buff 0 0 empty_command) (\<lambda>(n, ended).
       if \<not> ended then Inr (n, 0)
       else if buff = [] then Inl OutOfBounds
       else if last buff \<noteq> nl then Inr (n\<lparr>status := Some INPUT_OVERFLOW\<rparr>, 0)
       else Inr (n\<lparr>status := Some NORMAL\<rparr>, 1))"

text \<open>The string at \<open>tok[k] + off\<close>.\<close>

definition tok_str :: "command \<Rightarrow> nat \<Rightarrow> nat \<Rightarrow> string c" where
  "tok_str n k off =
     (if k > MAXTOKS then Inl OutOfBounds
      else case tok n k of
             None \<Rightarrow> Inl NullDeref
           | Some m \<Rightarrow> peek_str (MAXTOKSIZE + 1 - off) off m)"

subsection \<open>The reference: complete words\<close>

function complete_words :: "string \<Rightarrow> string list" where
  "complete_words s =
     (let s' = dropWhile isspace s;
          w = takeWhile (\<lambda>c. \<not> isspace c) s';
          r = dropWhile (\<lambda>c. \<not> isspace c) s'
      in if r = [] then [] else w # complete_words r)"
  by pat_completeness auto
termination
proof (relation "measure length", simp)
  fix s s' w r :: string
  assume s': "s' = dropWhile isspace s" and r: "r = dropWhile (\<lambda>c. \<not> isspace c) s'" "r \<noteq> []"
  then have ne: "s' \<noteq> []" by (metis dropWhile.simps(1))
  then have "\<not> isspace (hd s')" using s' hd_dropWhile [of isspace s] by metis
  then have "length r < length s'" unfolding r(1) by (rule length_dropWhile_less [OF ne])
  also have "\<dots> \<le> length s" unfolding s' by (rule length_dropWhile_le)
  finally show "(r, s) \<in> measure length" by simp
qed

declare complete_words.simps [simp del]

lemma complete_words_space: "isspace c \<Longrightarrow> complete_words (c # s) = complete_words s"
  by (subst (1 2) complete_words.simps) (simp add: Let_def)

lemma complete_words_Nil [simp]: "complete_words [] = []"
  by (subst complete_words.simps) simp

lemma complete_words_word:
  assumes "w \<noteq> []" "\<forall>c \<in> set w. \<not> isspace c" "isspace c"
  shows "complete_words (w @ c # s) = w # complete_words s"
proof -
  have hd: "dropWhile isspace (w @ c # s) = w @ c # s"
    using assms(1,2) by (cases w) auto
  have tk: "takeWhile (\<lambda>c. \<not> isspace c) (w @ c # s) = w"
    and dr: "dropWhile (\<lambda>c. \<not> isspace c) (w @ c # s) = c # s"
    using assms(2,3) by (auto simp: takeWhile_append dropWhile_append)
  have "complete_words (w @ c # s) = w # complete_words (c # s)"
    by (subst complete_words.simps) (simp only: Let_def hd tk dr list.distinct if_False)
  then show ?thesis using complete_words_space [OF assms(3)] by simp
qed

lemma complete_words_partial:
  assumes "\<forall>c \<in> set w. \<not> isspace c"
  shows "complete_words w = []"
proof -
  have "dropWhile (\<lambda>c. \<not> isspace c) (dropWhile isspace w) = []"
    using assms by (auto simp: dropWhile_eq_Nil_conv dest: set_dropWhileD)
  then show ?thesis by (subst complete_words.simps) (simp add: Let_def)
qed

subsection \<open>What the loop keeps\<close>

text \<open>
  After some input: \<open>ws\<close> are the finished tokens, \<open>cur\<close> the characters of the current one.
\<close>

definition tok_done :: "command \<Rightarrow> string list \<Rightarrow> bool" where
  "tok_done n ws \<longleftrightarrow>
     (\<forall>k < length ws. \<exists>m. tok n k = Some m \<and> holds_prefix m 0 (ws ! k) \<and>
        m (length (ws ! k)) = Byte NUL \<and> NUL \<notin> set (ws ! k) \<and> length (ws ! k) < MAXTOKSIZE)"

definition tok_cur :: "command \<Rightarrow> nat \<Rightarrow> string \<Rightarrow> bool" where
  "tok_cur n t cur \<longleftrightarrow>
     (case tok n t of
        None \<Rightarrow> cur = [] \<and> t > 0
      | Some m \<Rightarrow> holds_prefix m 0 cur \<and>
          (\<forall>i \<ge> length cur. m i = (if t = 0 then Byte NUL else Uninit)))"

definition loop_inv :: "string list \<Rightarrow> string \<Rightarrow> string \<Rightarrow> command \<Rightarrow> bool" where
  "loop_inv ws cur r n \<longleftrightarrow>
     count n = length ws \<and> tok_done n ws \<and> tok_cur n (length ws) cur \<and>
     (\<forall>k > length ws. tok n k = None) \<and> (r \<noteq> [] \<longrightarrow> tok n (length ws) \<noteq> None) \<and>
     (\<forall>c \<in> set cur. \<not> isspace c \<and> c \<noteq> NUL) \<and> status n = None"

lemmas loop_inv_defs = loop_inv_def tok_done_def tok_cur_def

lemma loop_inv_init: "loop_inv [] [] s empty_command"
  by (simp add: loop_inv_defs empty_command_def holds_prefix_def calloc_tok_def)

lemma put_tok_char:
  assumes inv: "loop_inv ws cur (c # r) n" and c: "\<not> isspace c" "c \<noteq> NUL"
    and sz: "length ws \<le> MAXTOKS" "length cur \<le> MAXTOKSIZE"
  shows "\<exists>n'. put_tok (length ws) (length cur) c n = Inr n' \<and> loop_inv ws (cur @ [c]) r n'"
proof -
  from inv obtain m where m: "tok n (length ws) = Some m" "holds_prefix m 0 cur"
    "\<forall>i \<ge> length cur. m i = (if length ws = 0 then Byte NUL else Uninit)"
    by (auto simp: loop_inv_defs)
  let ?n' = "n\<lparr>tok := (tok n)(length ws \<mapsto> m(length cur := Byte c))\<rparr>"
  have "put_tok (length ws) (length cur) c n = Inr ?n'"
    using m sz by (simp add: put_tok_def poke_def)
  moreover have "loop_inv ws (cur @ [c]) r ?n'"
    using inv c m holds_prefix_snoc [OF m(2), of c] by (auto simp: loop_inv_defs)
  ultimately show ?thesis by blast
qed

lemma put_tok_end:
  assumes inv: "loop_inv ws cur (c # r) n" and cur: "cur \<noteq> []"
    and sz: "length ws < MAXTOKS" "length cur < MAXTOKSIZE"
  shows "\<exists>n'. put_tok (length ws) (length cur) NUL n = Inr n' \<and>
     loop_inv (ws @ [cur]) [] r (n'\<lparr>tok := (tok n')(Suc (length ws) \<mapsto> malloc_tok),
        count := count n' + 1\<rparr>) \<and>
     loop_inv (ws @ [cur]) [] [] (n'\<lparr>count := count n' + 1\<rparr>)"
proof -
  from inv obtain m where m: "tok n (length ws) = Some m" "holds_prefix m 0 cur"
    by (auto simp: loop_inv_defs)
  let ?n' = "n\<lparr>tok := (tok n)(length ws \<mapsto> m(length cur := Byte NUL))\<rparr>"
  have put: "put_tok (length ws) (length cur) NUL n = Inr ?n'"
    using m sz by (simp add: put_tok_def poke_def)
  have "holds_prefix (m(length cur := Byte NUL)) 0 cur"
    using m(2) by (rule holds_prefix_upd_after) simp
  then have dn: "tok_done ?n' (ws @ [cur])"
    using inv sz by (auto simp: loop_inv_defs nth_append less_Suc_eq)
  then have dn': "tok_done (?n'\<lparr>tok := (tok ?n')(Suc (length ws) \<mapsto> malloc_tok)\<rparr>) (ws @ [cur])"
    by (auto simp: tok_done_def)
  show ?thesis
    using put dn dn' inv
    by (auto simp: loop_inv_def tok_cur_def tok_done_def malloc_tok_def holds_prefix_def)
qed

text \<open>
  The loop on any rest of at most 1000 characters in all: it stores only inside its
  arrays, never reports an oversized token or too many of them, and ends with the
  complete words of the whole input in its tokens.
\<close>

lemma read_loop_words:
  assumes "loop_inv ws cur r n" "NUL \<notin> set r"
    and "2 * length ws + length cur + length r < MAXBUFF"
  shows "\<exists>n' cur'. read_loop r (length ws) (length cur) n = Inr (n', True) \<and>
     loop_inv (ws @ complete_words (cur @ r)) cur' [] n' \<and> length cur' \<le> MAXTOKSIZE"
  using assms
proof (induction r arbitrary: ws cur n)
  case Nil
  then have "complete_words cur = []" by (intro complete_words_partial) (auto simp: loop_inv_def)
  with Nil show ?case by (auto simp: loop_inv_def MAXBUFF_def MAXTOKSIZE_def)
next
  case (Cons c r)
  have sz: "length ws + 1 < MAXTOKS" "length cur < MAXTOKSIZE"
    using Cons.prems(3) by (simp_all add: MAXBUFF_def MAXTOKS_def MAXTOKSIZE_def)
  consider (char) "\<not> isspace c" | (skip) "isspace c" "cur = []" | (fin) "isspace c" "cur \<noteq> []"
    by blast
  then show ?case
  proof cases
    case char
    then obtain n' where n': "put_tok (length ws) (length cur) c n = Inr n'"
        "loop_inv ws (cur @ [c]) r n'"
      using put_tok_char [OF Cons.prems(1) char] Cons.prems(2) sz by auto
    from Cons.IH [OF n'(2)] Cons.prems(2,3) n'(1) char show ?thesis by auto
  next
    case skip
    then have "loop_inv ws cur r n" using Cons.prems(1) by (auto simp: loop_inv_def)
    from Cons.IH [OF this] Cons.prems(2,3) skip show ?thesis
      by (auto simp: complete_words_space)
  next
    case fin
    obtain n' where n': "put_tok (length ws) (length cur) NUL n = Inr n'"
      "loop_inv (ws @ [cur]) [] r (n'\<lparr>tok := (tok n')(Suc (length ws) \<mapsto> malloc_tok),
          count := count n' + 1\<rparr>)"
      "loop_inv (ws @ [cur]) [] [] (n'\<lparr>count := count n' + 1\<rparr>)"
      using put_tok_end [OF Cons.prems(1) fin(2)] sz by auto
    have words: "complete_words (cur @ c # r) = cur # complete_words r"
      using complete_words_word [of cur c r] Cons.prems(1) fin by (simp add: loop_inv_def)
    show ?thesis
    proof (cases "r = []")
      case True
      with n' fin sz words show ?thesis by fastforce
    next
      case False
      have "2 * length (ws @ [cur]) + length [] + length r < MAXBUFF"
        using Cons.prems(3) fin(2) by (cases cur) auto
      from Cons.IH [OF n'(2) _ this] Cons.prems(2) n'(1) fin sz False words show ?thesis by auto
    qed
  qed
qed

lemma read_command_ok:
  assumes "buff \<noteq> []" "NUL \<notin> set buff" "length buff < MAXBUFF"
  obtains n cur where "loop_inv (complete_words buff) cur [] n"
    and "read_command buff =
       (if last buff = nl then Inr (n\<lparr>status := Some NORMAL\<rparr>, 1)
        else Inr (n\<lparr>status := Some INPUT_OVERFLOW\<rparr>, 0))"
    and "length cur \<le> MAXTOKSIZE"
proof -
  from read_loop_words [OF loop_inv_init assms(2)] assms(3)
  obtain n cur where "read_loop buff 0 0 empty_command = Inr (n, True)"
    "loop_inv (complete_words buff) cur [] n" "length cur \<le> MAXTOKSIZE" by auto
  with assms(1) that show ?thesis by (auto simp: read_command_def)
qed

subsection \<open>What the tokens of a parsed request read as\<close>

lemma tok_str_done:
  assumes "tok_done n ws" "k < length ws" "k \<le> MAXTOKS" "off \<le> length (ws ! k)"
  shows "tok_str n k off = Inr (drop off (ws ! k))"
proof -
  from assms obtain m where m: "tok n k = Some m" "holds_prefix m 0 (ws ! k)"
    "m (length (ws ! k)) = Byte NUL" "NUL \<notin> set (ws ! k)" "length (ws ! k) < MAXTOKSIZE"
    by (auto simp: tok_done_def)
  have "holds_prefix m off (drop off (ws ! k))"
    using m(2) assms(4) by (auto simp: holds_prefix_def)
  moreover have "NUL \<notin> set (drop off (ws ! k))" using m(4) by (auto dest: in_set_dropD)
  ultimately have "peek_str (MAXTOKSIZE + 1 - off) off m = Inr (drop off (ws ! k))"
    using m assms(4) by (intro peek_str_holds) auto
  with m(1) assms(3) show ?thesis by (simp add: tok_str_def)
qed

text \<open>A token after the first that the input did not complete cannot be read as a string.\<close>

lemma tok_str_missing:
  assumes "loop_inv ws cur [] n" "length ws \<le> k" "0 < k" "length cur \<le> MAXTOKSIZE"
  shows "\<exists>e. tok_str n k 0 = Inl e"
proof (cases "tok n k")
  case None
  then show ?thesis by (simp add: tok_str_def)
next
  case (Some m)
  with assms have "k = length ws" by (cases "length ws < k") (auto simp: loop_inv_def)
  with Some assms have "holds_prefix m 0 cur" "m (0 + length cur) = Uninit" "NUL \<notin> set cur"
    by (auto simp: loop_inv_def tok_cur_def)
  then have "peek_str (MAXTOKSIZE + 1) 0 m = Inl UninitRead"
    using assms(4) by (intro peek_str_uninit) auto
  with Some show ?thesis by (auto simp: tok_str_def)
qed

lemma length_complete_words: "2 * length (complete_words s) \<le> length s"
proof (induction "length s" arbitrary: s rule: less_induct)
  case (less s)
  let ?s = "dropWhile isspace s"
  let ?r = "dropWhile (\<lambda>c. \<not> isspace c) ?s"
  show ?case
  proof (cases "?r = []")
    case True
    then show ?thesis by (simp add: complete_words.simps [of s])
  next
    case False
    then have ne: "?s \<noteq> []" by (metis dropWhile.simps(1))
    then have "\<not> isspace (hd ?s)" using hd_dropWhile [of isspace s] by metis
    then have lt: "length ?r < length ?s" by (rule length_dropWhile_less [OF ne])
    have sp: "isspace (hd ?r)" using hd_dropWhile [OF False] by simp
    have "complete_words s = takeWhile (\<lambda>c. \<not> isspace c) ?s # complete_words ?r"
      using False by (subst complete_words.simps) (simp only: Let_def if_False)
    moreover obtain c r where r: "?r = c # r" using False by (cases ?r) auto
    moreover have "complete_words ?r = complete_words r"
      using complete_words_space [of c r] sp r by simp
    moreover have "length ?s \<le> length s" by (rule length_dropWhile_le)
    ultimately show ?thesis using lt less [of r] by simp
  qed
qed



end
