(* ===== verification/Web_Server.thy ===== *)
theory Web_Server
  imports Web_Request
begin

section \<open>The web server's request handlers: \<open>server.c\<close>, from \<open>sendHeader\<close> to one pass of \<open>process_requests\<close>\<close>

text \<open>
  What a worker does to the outside is a trace of events, in order.  The operating system
  is the record \<open>os\<close>, a parameter: what \<open>send\<close>, \<open>fputs\<close> and \<open>close\<close> return may depend on
  everything that happened before, and \<open>fopen\<close> on the path.  A handler returns \<open>None\<close> when
  it never returns, \<open>Some (Inl e)\<close> when it reaches undefined behaviour, and otherwise the
  extended trace.
\<close>

datatype event =
    Logged string        \<comment> \<open>\<open>fputs\<close> to the log file succeeded\<close>
  | Sent int string      \<comment> \<open>bytes handed to the socket\<close>
  | Closed int
  | ShutDown int
  | Printed string
  | Perror string

record os =
  fputs_fails :: "event list \<Rightarrow> string \<Rightarrow> bool"
  send_ret :: "event list \<Rightarrow> string \<Rightarrow> int"
  close_ret :: "event list \<Rightarrow> int \<Rightarrow> int"
  fopen_read :: "string \<Rightarrow> cfile option"
  dir_size :: nat

subsection \<open>System calls\<close>

definition do_fputs :: "os \<Rightarrow> string \<Rightarrow> event list \<Rightarrow> event list" where
  "do_fputs w s tr = (if fputs_fails w tr s then tr else tr @ [Logged s])"

text \<open>\<open>send\<close> may take fewer bytes than it was given; the code looks only for an error.\<close>

definition do_send :: "os \<Rightarrow> int \<Rightarrow> string \<Rightarrow> event list \<Rightarrow> event list" where
  "do_send w fd s tr =
     (if send_ret w tr s < 0 then tr else tr @ [Sent fd (take (nat (send_ret w tr s)) s)])"

definition do_close :: "os \<Rightarrow> int \<Rightarrow> event list \<Rightarrow> event list" where
  "do_close w fd tr =
     (if close_ret w tr fd < 0 then tr @ [Perror ''close(clientd)''] else tr @ [Closed fd])"

text \<open>\<open>int size = st.st_size\<close>: the size is cut to 32 bits.\<close>

definition st_size :: "os \<Rightarrow> cfile \<Rightarrow> int" where
  "st_size w f = sint (of_nat (case f of Regular s \<Rightarrow> length s | Directory \<Rightarrow> dir_size w) :: 32 word)"

subsection \<open>The handlers\<close>

definition header_text :: "int \<Rightarrow> string \<Rightarrow> string \<Rightarrow> int \<Rightarrow> string" where
  "header_text code str time n =
     ''HTTP/1.1 '' @ show_int code @ '' '' @ str @ [nl] @
     ''Date: '' @ time @ [nl] @ ''Connection: close'' @ [nl] @
     ''Content-Type: text/html; charset=utf-8'' @ [nl] @
     ''Content-Length: '' @ show_int n @ [nl, nl]"

definition sendHeader ::
  "os \<Rightarrow> int \<Rightarrow> int \<Rightarrow> string \<Rightarrow> string \<Rightarrow> int \<Rightarrow> int \<Rightarrow> bool \<Rightarrow> event list \<Rightarrow> event list c" where
  "sendHeader w clientd code str time n request_id closeClient tr =
     bindc (sprintf MAXBUFF (''HTTP/1.1 '' @ show_int code @ '' '' @ str)) (\<lambda>protocol.
     bindc (sprintf MAXBUFF (show_int request_id @ '' '' @ protocol @ [nl])) (\<lambda>logbuff.
       if fputs_fails w tr logbuff then Inr (tr @ [Printed ''errno: '', Perror ''fputs()''])
       else
         let tr1 = do_fputs w logbuff tr in
         bindc (sprintf MAXBUFF (header_text code str time n)) (\<lambda>buffer.
           let tr2 = do_send w clientd buffer tr1;
               tr3 = (if send_ret w tr1 buffer < 0
                      then tr2 @ [Printed ''sendHeader '', Perror ''send()''] else tr2)
           in Inr (if closeClient then do_close w clientd tr3 else tr3))))"

text \<open>\<open>while (!feof (inFile)) if (fgets (buffer, 100, inFile) != NULL) send (...)\<close>\<close>

partial_function (option) get_loop :: "os \<Rightarrow> int \<Rightarrow> stream \<Rightarrow> event list \<Rightarrow> event list option" where
  "get_loop w clientd f tr =
     (if eof f then Some tr
      else case fst (fgets 100 f) of
             None \<Rightarrow> get_loop w clientd (snd (fgets 100 f)) tr
           | Some buffer \<Rightarrow>
               if send_ret w tr (cstr buffer) < 0
               then Some (do_send w clientd (cstr buffer) tr @ [Perror ''send()''])
               else get_loop w clientd (snd (fgets 100 f)) (do_send w clientd (cstr buffer) tr))"

definition process_GET :: "os \<Rightarrow> command \<Rightarrow> int \<Rightarrow> int \<Rightarrow> string \<Rightarrow> event list \<Rightarrow> event list run" where
  "process_GET w n clientd request_id timestamp tr =
     bindr (Some (tok_str n 1 1)) (\<lambda>path.
       bindr
         (case fopen_read w path of
            None \<Rightarrow>
              bindr (Some (sendHeader w clientd 404 ''Not Found'' timestamp 0 request_id False tr))
                (\<lambda>tr. Some (Inr (tr @ [Perror ''Error opening input file''])))
          | Some f \<Rightarrow>
              bindr (Some (sendHeader w clientd 200 ''OK'' timestamp (st_size w f) request_id False tr))
                (\<lambda>tr. map_option Inr (get_loop w clientd (fopen_stream f) tr)))
         (\<lambda>tr. Some (Inr (tr @ [ShutDown clientd]))))"

definition process_HEAD :: "os \<Rightarrow> command \<Rightarrow> int \<Rightarrow> int \<Rightarrow> string \<Rightarrow> event list \<Rightarrow> event list c" where
  "process_HEAD w n clientd request_id timestamp tr =
     bindc (tok_str n 1 1) (\<lambda>path.
       bindc
         (case fopen_read w path of
            None \<Rightarrow>
              bindc (sendHeader w clientd 404 ''Not Found'' timestamp 0 request_id False tr)
                (\<lambda>tr. Inr (tr @ [Perror ''Error opening input file'']))
          | Some f \<Rightarrow>
              sendHeader w clientd 200 ''OK'' timestamp (st_size w f) request_id False tr)
         (\<lambda>tr. Inr (tr @ [ShutDown clientd])))"

definition options_text :: "string \<Rightarrow> string" where
  "options_text time =
     ''HTTP/1.1 200 OK'' @ [nl] @ ''Date: '' @ time @ [nl] @ ''Connection: close'' @ [nl] @
     ''Allow: OPTIONS, GET, HEAD, TRACE'' @ [nl] @ ''Content-Length: 0'' @ [nl, nl]"

definition process_OPTIONS :: "os \<Rightarrow> int \<Rightarrow> int \<Rightarrow> string \<Rightarrow> event list \<Rightarrow> event list c" where
  "process_OPTIONS w clientd request_id time tr =
     bindc (sprintf MAXBUFF ''HTTP/1.1 200 OK'') (\<lambda>protocol.
     bindc (sprintf MAXBUFF (show_int request_id @ '' '' @ protocol @ [nl])) (\<lambda>logbuff.
       let tr1 = do_fputs w logbuff tr @ (if fputs_fails w tr logbuff then [Perror ''fputs()''] else [])
       in bindc (sprintf MAXBUFF (options_text time)) (\<lambda>buffer.
            let tr2 = do_send w clientd buffer tr1 @
                        (if send_ret w tr1 buffer < 0
                         then [Printed ''sendHeader '', Perror ''send()''] else [])
            in Inr (tr2 @ [ShutDown clientd]))))"

definition process_TRACE :: "os \<Rightarrow> string \<Rightarrow> int \<Rightarrow> int \<Rightarrow> string \<Rightarrow> event list \<Rightarrow> event list c" where
  "process_TRACE w message clientd request_id timestamp tr =
     bindc (sendHeader w clientd 200 ''OK'' timestamp (int (length message)) request_id False tr)
       (\<lambda>tr. let tr1 = do_send w clientd message tr @
                         (if send_ret w tr message < 0
                          then [Printed ''trace '', Perror ''send()''] else [])
             in Inr (tr1 @ [ShutDown clientd]))"

subsection \<open>One pass of the worker's loop, after \<open>accept\<close> and the request number\<close>

text \<open>\<open>recv\<close> delivers at most \<open>MAXBUFF - 1\<close> bytes; no bytes means the peer has closed.\<close>

datatype recv_result = RecvError | Received string

definition status_message :: "status_value option \<Rightarrow> string" where
  "status_message st = (case st of
       Some EOF_FOUND \<Rightarrow> [nl] @ ''Error: EOF_FOUND'' @ [nl]
     | Some INPUT_OVERFLOW \<Rightarrow> ''Error: INPUT_OVERFLOW'' @ [nl]
     | Some OVERSIZE_TOKEN \<Rightarrow> ''Error: OVERSIZE_TOKEN'' @ [nl]
     | Some TOO_MANY_TOKENS \<Rightarrow> ''Error: TOO_MANY_TOKENS'' @ [nl]
     | _ \<Rightarrow> ''Unknown Error!'' @ [nl])"

definition bad_request :: "os \<Rightarrow> int \<Rightarrow> int \<Rightarrow> string \<Rightarrow> string \<Rightarrow> event list \<Rightarrow> event list c" where
  "bad_request w clientd request_id timestamp msg tr =
     bindc (sendHeader w clientd 400 ''Bad Request'' timestamp 0 request_id True tr)
       (\<lambda>tr. Inr (tr @ (if msg = [] then [] else [Printed msg]) @ [ShutDown clientd]))"

text \<open>The request line of the log: the first three tokens as strings.\<close>

definition request_line :: "int \<Rightarrow> command \<Rightarrow> string c" where
  "request_line request_id n =
     bindc (tok_str n 0 0) (\<lambda>t0. bindc (tok_str n 1 0) (\<lambda>t1. bindc (tok_str n 2 0) (\<lambda>t2.
       sprintf MAXBUFF (show_int request_id @ '' '' @ t0 @ '' '' @ t1 @ '' '' @ t2 @ [nl]))))"

definition dispatch ::
  "os \<Rightarrow> command \<Rightarrow> string \<Rightarrow> int \<Rightarrow> int \<Rightarrow> string \<Rightarrow> event list \<Rightarrow> event list run" where
  "dispatch w n buff clientd request_id timestamp tr =
     bindr (Some (tok_str n 0 0)) (\<lambda>t0.
       bindr
         (if t0 = ''GET'' then process_GET w n clientd request_id timestamp tr
          else if t0 = ''HEAD'' then Some (process_HEAD w n clientd request_id timestamp tr)
          else if t0 = ''OPTIONS'' then Some (process_OPTIONS w clientd request_id timestamp tr)
          else if t0 = ''TRACE'' then Some (process_TRACE w buff clientd request_id timestamp tr)
          else Some (bindc (sendHeader w clientd 501 ''Not Implemented'' timestamp 0 request_id False tr)
                       (\<lambda>tr. Inr (tr @ [ShutDown clientd]))))
         (\<lambda>tr. Some (Inr (do_fputs w [nl] tr))))"

definition answer_command ::
  "os \<Rightarrow> command \<Rightarrow> int \<Rightarrow> string \<Rightarrow> int \<Rightarrow> int \<Rightarrow> string \<Rightarrow> event list \<Rightarrow> event list run" where
  "answer_command w Tommy read buff clientd request_id timestamp tr =
     bindr (Some (tok_str Tommy 1 0)) (\<lambda>t1. bindr (Some (tok_str Tommy 2 0)) (\<lambda>t2.
       if t1 = [] \<or> hd t1 \<noteq> CHR ''/'' \<or> t2 \<noteq> ''HTTP/1.1''
       then Some (bad_request w clientd request_id timestamp [] tr)
       else if read = 0
       then Some (bad_request w clientd request_id timestamp (status_message (status Tommy)) tr)
       else dispatch w Tommy buff clientd request_id timestamp tr))"

definition received_message :: "int \<Rightarrow> string \<Rightarrow> string" where
  "received_message thread_index bytes =
     ''TID='' @ show_int thread_index @ ''---------------Received message ('' @
     show_int (int (length bytes)) @ '' chars):---------------'' @ [nl] @
     ''<<<'' @ cstr bytes @ ''>>>'' @ [nl]"

definition process_request ::
  "os \<Rightarrow> int \<Rightarrow> int \<Rightarrow> int \<Rightarrow> recv_result \<Rightarrow> string option \<Rightarrow> event list \<Rightarrow> event list run" where
  "process_request w thread_index request_id clientd rcv strftime tr =
     (case rcv of
        RecvError \<Rightarrow> Some (Inr (tr @ [Perror ''recv()'']))
      | Received bytes \<Rightarrow>
          if bytes = [] then Some (Inr tr)
          else
            let buff = cstr bytes;
                tr0 = tr @ [Printed (received_message thread_index bytes)]
            in case strftime of
                 None \<Rightarrow> Some (Inr (tr0 @ [Perror ''strftime()'']))
               | Some timestamp \<Rightarrow>
                   bindr (Some (sprintf MAXBUFF
                     (show_int request_id @ '' '' @ show_int thread_index @ '' '' @ timestamp @ [nl])))
                   (\<lambda>logbuff.
                   let tr1 = do_fputs w logbuff tr0 in
                   bindr (Some (read_command buff)) (\<lambda>(Tommy, read).
                   bindr (Some (request_line request_id Tommy)) (\<lambda>logbuff.
                     answer_command w Tommy read buff clientd request_id timestamp
                       (do_fputs w logbuff tr1)))))"

subsection \<open>The file loop of \<open>process_GET\<close>\<close>

lemma fgets_regular:
  assumes "\<not> is_dir f" "rest f \<noteq> []"
  obtains l r where "take_line 99 (rest f) = (l, r)" "rest f = l @ r" "l \<noteq> []"
    "fst (fgets 100 f) = Some l" "rest (snd (fgets 100 f)) = r" "is_dir (snd (fgets 100 f)) = False"
    "eof (snd (fgets 100 f)) \<longrightarrow> eof f \<or> r = []"
proof -
  obtain l r where lr: "take_line 99 (rest f) = (l, r)" by fastforce
  then have "l \<noteq> []" using take_line_nonempty [of 98 "rest f" l r] assms(2) by (simp add: numeral_eq_Suc)
  with lr that show ?thesis
    using assms take_line_split [OF lr] by (simp add: fgets_def)
qed

lemma get_loop_returns: "\<not> is_dir f \<Longrightarrow> \<exists>tr'. get_loop w fd f tr = Some tr'"
proof (induction "length (rest f)" arbitrary: f tr rule: less_induct)
  case less
  show ?case
  proof (cases "eof f \<or> rest f = []")
    case True
    then show ?thesis
      using less.prems by (subst get_loop.simps) (auto simp: fgets_def get_loop.simps)
  next
    case False
    then obtain l r where *: "rest f = l @ r" "l \<noteq> []" "fst (fgets 100 f) = Some l"
      "rest (snd (fgets 100 f)) = r" "\<not> is_dir (snd (fgets 100 f))"
      using fgets_regular [OF less.prems] by metis
    then have "length (rest (snd (fgets 100 f))) < length (rest f)" by simp
    with less.hyps * have "\<exists>tr'. get_loop w fd (snd (fgets 100 f)) tr1 = Some tr'" for tr1 by blast
    with * False show ?thesis by (subst get_loop.simps) auto
  qed
qed

definition full_io :: "os \<Rightarrow> bool" where
  "full_io w \<longleftrightarrow> (\<forall>tr s. send_ret w tr s = int (length s) \<and> \<not> fputs_fails w tr s)"

lemma do_send_full: "full_io w \<Longrightarrow> do_send w fd s tr = tr @ [Sent fd s]"
  and do_fputs_full: "full_io w \<Longrightarrow> do_fputs w s tr = tr @ [Logged s]"
  by (simp_all add: full_io_def do_send_def do_fputs_def)

lemma get_loop_body:
  assumes "full_io w" "\<not> is_dir f" "NUL \<notin> set (rest f)" "eof f \<longrightarrow> rest f = []"
  shows "\<exists>ls. get_loop w fd f tr = Some (tr @ map (Sent fd) ls) \<and> concat ls = rest f"
  using assms(2-)
proof (induction "length (rest f)" arbitrary: f tr rule: less_induct)
  case less
  show ?case
  proof (cases "rest f = []")
    case True
    with less.prems have "get_loop w fd f tr = Some (tr @ map (Sent fd) [])"
      by (subst get_loop.simps) (simp add: fgets_def get_loop.simps)
    with True show ?thesis by (metis concat.simps(1))
  next
    case False
    then obtain l r where *: "rest f = l @ r" "l \<noteq> []" "fst (fgets 100 f) = Some l"
      "rest (snd (fgets 100 f)) = r" "\<not> is_dir (snd (fgets 100 f))"
      "eof (snd (fgets 100 f)) \<longrightarrow> r = []"
      using fgets_regular [OF less.prems(1)] less.prems(3) by (metis append_is_Nil_conv)
    then have "NUL \<notin> set l" "NUL \<notin> set r" using less.prems(2) by auto
    with * less.hyps obtain ls
      where "get_loop w fd (snd (fgets 100 f)) (tr @ [Sent fd l]) = Some ((tr @ [Sent fd l]) @ map (Sent fd) ls)"
        "concat ls = r" by (metis length_append length_greater_0_conv less_add_same_cancel2)
    with * False less.prems \<open>NUL \<notin> set l\<close> assms(1)
    have "get_loop w fd f tr = Some (tr @ map (Sent fd) (l # ls)) \<and> concat (l # ls) = rest f"
      by (subst get_loop.simps) (auto simp: do_send_full cstr_id full_io_def)
    then show ?thesis by blast
  qed
qed

text \<open>On a directory every read fails without reaching the end of the file: the loop never ends.\<close>

lemma get_loop_directory: "get_loop w fd (fopen_stream Directory) tr = None"
proof (cases "get_loop w fd (fopen_stream Directory) tr")
  case (Some r)
  have "\<not> (is_dir f \<and> \<not> eof f)" if "get_loop w fd f tr = Some r" for f tr r
    using that
    by (rule get_loop.raw_induct [where P = "\<lambda>w fd f tr r. \<not> (is_dir f \<and> \<not> eof f)", rotated])
      (auto simp: fgets_def split: if_splits option.splits)
  from this [OF Some] show ?thesis by (simp add: fopen_stream_def)
qed simp

subsection \<open>The response each request gets\<close>

definition sent_to :: "int \<Rightarrow> event list \<Rightarrow> string" where
  "sent_to fd tr = concat (map (\<lambda>e. case e of Sent d s \<Rightarrow> if d = fd then s else [] | _ \<Rightarrow> []) tr)"

lemma sent_to_append [simp]: "sent_to fd (a @ b) = sent_to fd a @ sent_to fd b"
  by (simp add: sent_to_def)

lemma sent_to_simps [simp]:
  "sent_to fd [] = []"
  "sent_to fd (Sent d s # tr) = (if d = fd then s else []) @ sent_to fd tr"
  "sent_to fd (Logged s # tr) = sent_to fd tr" "sent_to fd (Closed d # tr) = sent_to fd tr"
  "sent_to fd (ShutDown d # tr) = sent_to fd tr" "sent_to fd (Printed s # tr) = sent_to fd tr"
  "sent_to fd (Perror s # tr) = sent_to fd tr"
  by (simp_all add: sent_to_def)

lemma sent_to_chunks: "sent_to fd (map (Sent fd) ls) = concat ls"
  by (induction ls) auto

lemma sent_to_close [simp]: "sent_to fd (do_close w d tr) = sent_to fd tr"
  by (simp add: do_close_def)

lemma in_int32_abs: "in_int32 i \<Longrightarrow> \<bar>i\<bar> \<le> 2 ^ 31"
  by (auto simp: in_int32_def)

lemma sint_in_int32: "in_int32 (sint (x :: 32 word))"
  using sint_ge [of x] sint_lt [of x] by (simp add: in_int32_def)

lemma header_fits:
  assumes "in_int32 n" "length time < 30" "length str < 100" "\<bar>code\<bar> \<le> 2 ^ 31"
  shows "length (header_text code str time n) < MAXBUFF"
  using assms length_show_int [OF assms(4)] length_show_int [OF in_int32_abs [OF assms(1)]]
  by (simp add: header_text_def MAXBUFF_def)

lemma sendHeader_full:
  assumes "full_io w" "in_int32 n" "in_int32 rid" "length time < 30" "length str < 100" "\<bar>code\<bar> \<le> 2 ^ 31"
  shows "\<exists>tr'. sendHeader w fd code str time n rid cl tr = Inr tr' \<and>
     sent_to fd tr' = sent_to fd tr @ header_text code str time n"
proof -
  have "length (''HTTP/1.1 '' @ show_int code @ '' '' @ str) < MAXBUFF"
    "length (show_int rid @ '' '' @ (''HTTP/1.1 '' @ show_int code @ '' '' @ str) @ [nl]) < MAXBUFF"
    using assms length_show_int [OF assms(6)] length_show_int [OF in_int32_abs [OF assms(3)]]
    by (simp_all add: MAXBUFF_def)
  with header_fits [OF assms(2,4,5,6)] assms(1) show ?thesis
    by (simp add: sendHeader_def sprintf_def do_send_full do_fputs_full Let_def)
      (simp add: full_io_def)
qed

text \<open>
  The response the handlers are meant to produce for a request line of at least three
  words, \<open>None\<close> when none is ever completed.
\<close>

definition http_response :: "os \<Rightarrow> string \<Rightarrow> string \<Rightarrow> string option" where
  "http_response w time buff =
     (let ws = complete_words buff; m = ws ! 0; p = ws ! 1; v = ws ! 2 in
      if hd p \<noteq> CHR ''/'' \<or> v \<noteq> ''HTTP/1.1'' \<or> last buff \<noteq> nl
      then Some (header_text 400 ''Bad Request'' time 0)
      else if m = ''GET'' then
        (case fopen_read w (tl p) of
           None \<Rightarrow> Some (header_text 404 ''Not Found'' time 0)
         | Some (Regular s) \<Rightarrow> Some (header_text 200 ''OK'' time (int (length s)) @ s)
         | Some Directory \<Rightarrow> None)
      else if m = ''HEAD'' then
        (case fopen_read w (tl p) of
           None \<Rightarrow> Some (header_text 404 ''Not Found'' time 0)
         | Some f \<Rightarrow> Some (header_text 200 ''OK'' time (st_size w f)))
      else if m = ''OPTIONS'' then Some (options_text time)
      else if m = ''TRACE'' then Some (header_text 200 ''OK'' time (int (length buff)) @ buff)
      else Some (header_text 501 ''Not Implemented'' time 0))"

text \<open>The line written to the log for a request line of at least three words.\<close>

definition log_line :: "int \<Rightarrow> string \<Rightarrow> string" where
  "log_line rid buff =
     (let ws = complete_words buff in
      show_int rid @ '' '' @ ws ! 0 @ '' '' @ ws ! 1 @ '' '' @ ws ! 2 @ [nl])"

definition servable_files :: "os \<Rightarrow> bool" where
  "servable_files w \<longleftrightarrow>
     (\<forall>p s. fopen_read w p = Some (Regular s) \<longrightarrow> NUL \<notin> set s \<and> length s < 2 ^ 31)"

lemma complete_words_nonempty: "x \<in> set (complete_words s) \<Longrightarrow> x \<noteq> []"
proof (induction s rule: complete_words.induct)
  case (1 s)
  let ?s = "dropWhile isspace s"
  let ?r = "dropWhile (\<lambda>c. \<not> isspace c) ?s"
  show ?case
  proof (cases "?r = []")
    case True
    with "1.prems" show ?thesis by (simp add: complete_words.simps [of s])
  next
    case False
    then have "?s \<noteq> []" by (metis dropWhile.simps(1))
    then have "takeWhile (\<lambda>c. \<not> isspace c) ?s \<noteq> []"
      using hd_dropWhile [of isspace s] by (metis takeWhile_eq_Nil_iff)
    moreover have "complete_words s = takeWhile (\<lambda>c. \<not> isspace c) ?s # complete_words ?r"
      using False by (subst complete_words.simps) (simp only: Let_def if_False)
    ultimately show ?thesis using "1.prems" "1.IH" [OF refl refl refl False] by auto
  qed
qed

lemma request_parsed:
  assumes "buff \<noteq> []" "NUL \<notin> set buff" "length buff < MAXBUFF" "3 \<le> length (complete_words buff)"
  obtains n where "read_command buff = Inr (n, if last buff = nl then 1 else 0)"
    and "\<And>k off. k < 3 \<Longrightarrow> off \<le> length (complete_words buff ! k) \<Longrightarrow>
           tok_str n k off = Inr (drop off (complete_words buff ! k))"
proof -
  obtain n cur where n: "loop_inv (complete_words buff) cur [] n"
    and rc: "read_command buff =
       (if last buff = nl then Inr (n\<lparr>status := Some NORMAL\<rparr>, 1)
        else Inr (n\<lparr>status := Some INPUT_OVERFLOW\<rparr>, 0))"
    by (rule read_command_ok [OF assms(1-3)]) blast
  have "tok_str (n\<lparr>status := x\<rparr>) k off = Inr (drop off (complete_words buff ! k))"
    if "k < 3" "off \<le> length (complete_words buff ! k)" for x k off
    using n that assms(4) by (intro tok_str_done) (auto simp: loop_inv_def tok_done_def MAXTOKS_def)
  with rc that show ?thesis by (cases "last buff = nl") auto
qed

lemma tok_str_status [simp]: "tok_str (n\<lparr>status := x\<rparr>) k off = tok_str n k off"
  by (simp add: tok_str_def)

lemma request_line_status [simp]: "request_line rid (n\<lparr>status := x\<rparr>) = request_line rid n"
  by (simp add: request_line_def)

lemma first_line_fits:
  assumes "in_int32 rid" "in_int32 ti" "length time < 30"
  shows "length (show_int rid @ '' '' @ show_int ti @ '' '' @ time @ [nl]) < MAXBUFF"
  using assms length_show_int [OF in_int32_abs [OF assms(1)]] length_show_int [OF in_int32_abs [OF assms(2)]]
  by (simp add: MAXBUFF_def)

subsection \<open>Each handler's contribution to the stream\<close>

definition good_call :: "os \<Rightarrow> int \<Rightarrow> string \<Rightarrow> bool" where
  "good_call w rid time \<longleftrightarrow> full_io w \<and> in_int32 rid \<and> length time < 30"

lemma header_sent:
  assumes "good_call w rid time" "in_int32 n" "length str < 100" "\<bar>code\<bar> \<le> 2 ^ 31"
  obtains tr' where "sendHeader w fd code str time n rid cl tr = Inr tr'"
    "sent_to fd tr' = sent_to fd tr @ header_text code str time n"
  using sendHeader_full assms unfolding good_call_def by blast

lemma zero_int32 [simp]: "in_int32 0"
  by (simp add: in_int32_def)

lemma bad_request_sent:
  assumes "good_call w rid time"
  shows "\<exists>tr'. bad_request w fd rid time msg tr = Inr tr' \<and>
     sent_to fd tr' = sent_to fd tr @ header_text 400 ''Bad Request'' time 0"
  by (rule header_sent [OF assms, of 0 "''Bad Request''" 400 fd True tr]) (auto simp: bad_request_def)

lemma st_size_int32 [simp]: "in_int32 (st_size w f)"
  by (simp add: st_size_def sint_in_int32)

lemma sint_of_nat_small:
  assumes "n < 2 ^ 31"
  shows "sint (of_nat n :: 32 word) = int n"
  using assms by (simp add: signed_of_nat signed_take_bit_int_eq_self)

lemma st_size_regular: "length s < 2 ^ 31 \<Longrightarrow> st_size w (Regular s) = int (length s)"
  by (simp add: st_size_def sint_of_nat_small)

lemma GET_sent:
  assumes good: "good_call w rid time" and files: "servable_files w"
    and path: "tok_str n 1 1 = Inr path"
  shows "case fopen_read w path of
      None \<Rightarrow> \<exists>tr'. process_GET w n fd rid time tr = Some (Inr tr') \<and>
        sent_to fd tr' = sent_to fd tr @ header_text 404 ''Not Found'' time 0
    | Some (Regular s) \<Rightarrow> \<exists>tr'. process_GET w n fd rid time tr = Some (Inr tr') \<and>
        sent_to fd tr' = sent_to fd tr @ header_text 200 ''OK'' time (int (length s)) @ s
    | Some Directory \<Rightarrow> process_GET w n fd rid time tr = None"
proof (cases "fopen_read w path")
  case None
  show ?thesis
    by (rule header_sent [OF good, of 0 "''Not Found''" 404 fd False tr])
      (auto simp: None path process_GET_def simp del: One_nat_def)
next
  case (Some f)
  obtain tr1 where tr1: "sendHeader w fd 200 ''OK'' time (st_size w f) rid False tr = Inr tr1"
    "sent_to fd tr1 = sent_to fd tr @ header_text 200 ''OK'' time (st_size w f)"
    by (rule header_sent [OF good, of "st_size w f" "''OK''" 200 fd False tr]) auto
  show ?thesis
  proof (cases f)
    case (Regular s)
    with Some files have s: "NUL \<notin> set s" "length s < 2 ^ 31" by (auto simp: servable_files_def)
    obtain ls where "get_loop w fd (fopen_stream f) tr1 = Some (tr1 @ map (Sent fd) ls)" "concat ls = s"
      using get_loop_body [of w "fopen_stream f" fd tr1] good s(1) Regular
      by (auto simp: good_call_def fopen_stream_def)
    with Some Regular tr1 path s(2) show ?thesis
      by (simp add: process_GET_def sent_to_chunks st_size_regular)
  next
    case Directory
    with Some tr1 path show ?thesis by (simp add: process_GET_def get_loop_directory)
  qed
qed

lemma HEAD_sent:
  assumes good: "good_call w rid time" and path: "tok_str n 1 1 = Inr path"
  shows "\<exists>tr'. process_HEAD w n fd rid time tr = Inr tr' \<and>
     sent_to fd tr' = sent_to fd tr @
       (case fopen_read w path of
          None \<Rightarrow> header_text 404 ''Not Found'' time 0
        | Some f \<Rightarrow> header_text 200 ''OK'' time (st_size w f))"
proof (cases "fopen_read w path")
  case None
  show ?thesis
    by (rule header_sent [OF good, of 0 "''Not Found''" 404 fd False tr])
      (auto simp: None path process_HEAD_def simp del: One_nat_def)
next
  case (Some f)
  show ?thesis
    by (rule header_sent [OF good, of "st_size w f" "''OK''" 200 fd False tr])
      (auto simp: Some path process_HEAD_def simp del: One_nat_def)
qed

lemma OPTIONS_sent:
  assumes good: "good_call w rid time"
  shows "\<exists>tr'. process_OPTIONS w fd rid time tr = Inr tr' \<and>
     sent_to fd tr' = sent_to fd tr @ options_text time"
proof -
  have "length (options_text time) < MAXBUFF" "length (show_int rid) \<le> 11"
    using good length_show_int [OF in_int32_abs, of rid] by (auto simp: good_call_def options_text_def MAXBUFF_def)
  with good show ?thesis
    by (simp add: process_OPTIONS_def sprintf_def good_call_def do_send_full do_fputs_full Let_def MAXBUFF_def)
qed

lemma TRACE_sent:
  assumes good: "good_call w rid time" and msg: "length message < 2 ^ 31"
  shows "\<exists>tr'. process_TRACE w message fd rid time tr = Inr tr' \<and>
     sent_to fd tr' = sent_to fd tr @ header_text 200 ''OK'' time (int (length message)) @ message"
proof (rule header_sent [OF good, of "int (length message)" "''OK''" 200 fd False tr])
  show "in_int32 (int (length message))" using msg by (simp add: in_int32_def)
qed (use good in \<open>auto simp: process_TRACE_def good_call_def do_send_full Let_def\<close>)

lemma not_implemented_sent:
  assumes good: "good_call w rid time"
  shows "\<exists>tr'. sendHeader w fd 501 ''Not Implemented'' time 0 rid False tr = Inr tr' \<and>
     sent_to fd tr' = sent_to fd tr @ header_text 501 ''Not Implemented'' time 0"
  by (rule header_sent [OF good, of 0 "''Not Implemented''" 501 fd False tr]) auto

lemma dispatch_sent:
  assumes good: "good_call w rid time" and files: "servable_files w"
    and ws: "ws = complete_words buff" "length (ws ! 1) > 0" "length buff < MAXBUFF"
    and toks: "\<And>k off. k < 3 \<Longrightarrow> off \<le> length (ws ! k) \<Longrightarrow> tok_str n k off = Inr (drop off (ws ! k))"
    and ok: "hd (ws ! 1) = CHR ''/''" "ws ! 2 = ''HTTP/1.1''" "last buff = nl"
  shows "case http_response w time buff of
      None \<Rightarrow> dispatch w n buff fd rid time tr = None
    | Some resp \<Rightarrow> \<exists>tr'. dispatch w n buff fd rid time tr = Some (Inr tr') \<and>
        sent_to fd tr' = sent_to fd tr @ resp"
proof -
  have t0: "tok_str n 0 0 = Inr (ws ! 0)" and t1: "tok_str n 1 1 = Inr (tl (ws ! 1))"
    using toks [of 0 0] toks [of 1 1] ws(2) by (simp_all add: drop_Suc Suc_le_eq)
  have fputs: "do_fputs w [nl] tr' = tr' @ [Logged [nl]]" for tr'
    using good by (simp add: good_call_def do_fputs_full)
  have msg: "length buff < 2 ^ 31" using ws(3) by (simp add: MAXBUFF_def)
  have bad: "\<not> (hd (ws ! 1) \<noteq> CHR ''/'' \<or> ws ! 2 \<noteq> ''HTTP/1.1'' \<or> last buff \<noteq> nl)"
    using ok by simp
  note resp = http_response_def [of w time buff, folded ws(1), unfolded Let_def if_not_P [OF bad]]
  consider (get) "ws ! 0 = ''GET''" | (head) "ws ! 0 = ''HEAD''" | (opts) "ws ! 0 = ''OPTIONS''"
    | (trace) "ws ! 0 = ''TRACE''"
    | (other) "ws ! 0 \<notin> {''GET'', ''HEAD'', ''OPTIONS'', ''TRACE''}" by auto
  then show ?thesis
  proof cases
    case get
    then show ?thesis using GET_sent [OF good files t1, of fd tr]
      by (auto simp: dispatch_def t0 resp fputs split: option.splits cfile.splits)
  next
    case head
    then show ?thesis using HEAD_sent [OF good t1, of fd tr]
      by (auto simp: dispatch_def t0 resp fputs split: option.splits)
  next
    case opts
    then show ?thesis using OPTIONS_sent [OF good, of fd tr] by (auto simp: dispatch_def t0 resp fputs)
  next
    case trace
    then show ?thesis using TRACE_sent [OF good msg, of fd tr] by (auto simp: dispatch_def t0 resp fputs)
  next
    case other
    then show ?thesis using not_implemented_sent [OF good, of fd tr]
      by (auto simp: dispatch_def t0 resp fputs)
  qed
qed

lemma process_request_reads:
  assumes "cstr bytes \<noteq> []" "length bytes < MAXBUFF" "in_int32 rid" "in_int32 ti" "length time < 30"
    "3 \<le> length (complete_words (cstr bytes))" "length (log_line rid (cstr bytes)) < MAXBUFF"
  obtains n tr' where
    "\<And>k off. k < 3 \<Longrightarrow> off \<le> length (complete_words (cstr bytes) ! k) \<Longrightarrow>
       tok_str n k off = Inr (drop off (complete_words (cstr bytes) ! k))"
    "sent_to fd tr' = sent_to fd tr"
    "process_request w ti rid fd (Received bytes) (Some time) tr =
       (if hd (complete_words (cstr bytes) ! 1) \<noteq> CHR ''/'' \<or> complete_words (cstr bytes) ! 2 \<noteq> ''HTTP/1.1''
        then Some (bad_request w fd rid time [] tr')
        else if last (cstr bytes) \<noteq> nl
        then Some (bad_request w fd rid time (status_message (status n)) tr')
        else dispatch w n (cstr bytes) fd rid time tr')"
proof -
  let ?ws = "complete_words (cstr bytes)"
  have len: "length (cstr bytes) < MAXBUFF" using assms(2) length_cstr [of bytes] by simp
  obtain n where n: "read_command (cstr bytes) = Inr (n, if last (cstr bytes) = nl then 1 else 0)"
    and toks: "\<And>k off. k < 3 \<Longrightarrow> off \<le> length (?ws ! k) \<Longrightarrow> tok_str n k off = Inr (drop off (?ws ! k))"
    by (rule request_parsed [OF assms(1) NUL_notin_cstr len assms(6)]) blast
  have t: "tok_str n 0 0 = Inr (?ws ! 0)" "tok_str n 1 0 = Inr (?ws ! 1)" "tok_str n 2 0 = Inr (?ws ! 2)"
    using toks [of 0 0] toks [of 1 0] toks [of 2 0] by simp_all
  have "request_line rid n = Inr (log_line rid (cstr bytes))"
    using assms(7) by (simp add: request_line_def t sprintf_def log_line_def Let_def del: One_nat_def)
  moreover have "?ws ! 1 \<noteq> []"
    using assms(6) by (intro complete_words_nonempty [OF nth_mem]) linarith
  moreover have "bytes \<noteq> []" using assms(1) by (auto simp: cstr_def)
  moreover have "sent_to fd (do_fputs w s tr) = sent_to fd tr" for s tr
    by (simp add: do_fputs_def)
  ultimately show ?thesis
    using n t first_line_fits [OF assms(3,4,5)]
    by (intro that [OF toks, where tr' = "do_fputs w (log_line rid (cstr bytes)) (do_fputs w
          (show_int rid @ '' '' @ show_int ti @ '' '' @ time @ [nl])
          (tr @ [Printed (received_message ti bytes)]))"])
      (auto simp: process_request_def answer_command_def Let_def sprintf_def simp del: One_nat_def)
qed

lemma request_answered:
  assumes "full_io w" "servable_files w" "in_int32 rid" "in_int32 ti" "length time < 30"
    and "cstr bytes \<noteq> []" "length bytes < MAXBUFF" "3 \<le> length (complete_words (cstr bytes))"
    and "length (log_line rid (cstr bytes)) < MAXBUFF"
  shows "case http_response w time (cstr bytes) of
      None \<Rightarrow> process_request w ti rid fd (Received bytes) (Some time) tr = None
    | Some resp \<Rightarrow> \<exists>tr'. process_request w ti rid fd (Received bytes) (Some time) tr = Some (Inr tr') \<and>
        sent_to fd tr' = sent_to fd tr @ resp"
proof -
  let ?ws = "complete_words (cstr bytes)"
  have good: "good_call w rid time" using assms by (simp add: good_call_def)
  obtain n tr1 where toks: "\<And>k off. k < 3 \<Longrightarrow> off \<le> length (?ws ! k) \<Longrightarrow> tok_str n k off = Inr (drop off (?ws ! k))"
    and tr1: "sent_to fd tr1 = sent_to fd tr"
    and pr: "process_request w ti rid fd (Received bytes) (Some time) tr =
       (if hd (?ws ! 1) \<noteq> CHR ''/'' \<or> ?ws ! 2 \<noteq> ''HTTP/1.1'' then Some (bad_request w fd rid time [] tr1)
        else if last (cstr bytes) \<noteq> nl then Some (bad_request w fd rid time (status_message (status n)) tr1)
        else dispatch w n (cstr bytes) fd rid time tr1)"
    using process_request_reads [OF assms(6,7,3,4,5,8,9), of fd tr w] by metis
  show ?thesis
  proof (cases "hd (?ws ! 1) \<noteq> CHR ''/'' \<or> ?ws ! 2 \<noteq> ''HTTP/1.1'' \<or> last (cstr bytes) \<noteq> nl")
    case True
    then have "http_response w time (cstr bytes) = Some (header_text 400 ''Bad Request'' time 0)"
      by (simp add: http_response_def Let_def)
    moreover from True obtain msg
      where "process_request w ti rid fd (Received bytes) (Some time) tr = Some (bad_request w fd rid time msg tr1)"
      unfolding pr by metis
    ultimately show ?thesis using bad_request_sent [OF good, of fd msg tr1] tr1 by auto
  next
    case False
    have "?ws ! 1 \<noteq> []" using assms(8) by (intro complete_words_nonempty [OF nth_mem]) linarith
    moreover have "length (cstr bytes) < MAXBUFF" using assms(7) length_cstr [of bytes] by simp
    ultimately have "case http_response w time (cstr bytes) of
        None \<Rightarrow> dispatch w n (cstr bytes) fd rid time tr1 = None
      | Some resp \<Rightarrow> \<exists>tr'. dispatch w n (cstr bytes) fd rid time tr1 = Some (Inr tr') \<and>
          sent_to fd tr' = sent_to fd tr1 @ resp"
      using False by (intro dispatch_sent [OF good assms(2) refl _ _ toks]) auto
    with False pr tr1 show ?thesis by (simp split: option.splits)
  qed
qed

text \<open>
  C1: the server answers as its specification \<open>http_response\<close> says.  When sends and log
  writes succeed, files hold no null byte and fit an \<open>int\<close>, and the request has three words
  whose log line fits its buffer, then one pass of \<open>process_requests\<close> sends the client exactly
  that response (400, 404, 501, the options, the echoed request, or a 200 header with the file's
  length followed by the file), and it never returns where the specification has no response.
\<close>

theorem process_request_implements_http:
  assumes "full_io w" "servable_files w" "in_int32 rid" "in_int32 ti" "length time < 30"
    and "cstr bytes \<noteq> []" "length bytes < MAXBUFF" "3 \<le> length (complete_words (cstr bytes))"
    and "length (log_line rid (cstr bytes)) < MAXBUFF"
  shows "case http_response w time (cstr bytes) of
      None \<Rightarrow> process_request w ti rid fd (Received bytes) (Some time) tr = None
    | Some resp \<Rightarrow> \<exists>tr'. process_request w ti rid fd (Received bytes) (Some time) tr = Some (Inr tr') \<and>
        sent_to fd tr' = sent_to fd tr @ resp"
  using assms by (rule request_answered)

definition demo_os :: os where
  "demo_os = \<lparr>fputs_fails = (\<lambda>_ _. False), send_ret = (\<lambda>_ s. int (length s)), close_ret = (\<lambda>_ _. 0),
     fopen_read = (\<lambda>p. if p = ''a'' then Some (Regular ''hello'') else None), dir_size = 4096\<rparr>"

theorem process_request_implements_http_witness:
  "\<exists>tr'. process_request demo_os 0 7 4 (Received (''GET /a HTTP/1.1'' @ [nl])) (Some ''now'') [] = Some (Inr tr') \<and>
     sent_to 4 tr' = header_text 200 ''OK'' ''now'' 5 @ ''hello''"
proof -
  let ?b = "''GET /a HTTP/1.1'' @ [nl]"
  have b: "cstr ?b = ?b" by (simp add: cstr_def NUL_def nl_def)
  have w: "complete_words ?b = [''GET'', ''/a'', ''HTTP/1.1'']"
    by (simp add: complete_words.simps isspace_def nl_def)
  have io: "full_io demo_os" by (simp add: full_io_def demo_os_def)
  have sf: "servable_files demo_os" by (simp add: servable_files_def demo_os_def NUL_def)
  have i: "in_int32 7" "in_int32 0" "length ''now'' < 30" by (simp_all add: in_int32_def)
  have m: "cstr ?b \<noteq> []" "length ?b < MAXBUFF" "3 \<le> length (complete_words (cstr ?b))"
    "length (log_line 7 (cstr ?b)) < MAXBUFF"
    unfolding b log_line_def w by (simp_all add: MAXBUFF_def show_int_def show_nat.simps)
  have "http_response demo_os ''now'' (cstr ?b) = Some (header_text 200 ''OK'' ''now'' 5 @ ''hello'')"
    unfolding b http_response_def w by (simp add: demo_os_def)
  with process_request_implements_http [OF io sf i(1,2,3) m, of 4 "[]"] show ?thesis by simp
qed



text \<open>
  A request of three words whose log line (the request number, the words and the
  separators) does not fit \<open>logbuff\<close> overflows it, although the request itself fits its buffer.
\<close>

theorem long_request_overflows_log:
  assumes "cstr bytes \<noteq> []" "length bytes < MAXBUFF" "in_int32 rid" "in_int32 ti" "length time < 30"
    and "3 \<le> length (complete_words (cstr bytes))" "MAXBUFF \<le> length (log_line rid (cstr bytes))"
  shows "process_request w ti rid fd (Received bytes) (Some time) tr = Some (Inl BufferOverflow)"
proof -
  let ?ws = "complete_words (cstr bytes)"
  have len: "length (cstr bytes) < MAXBUFF" using assms(2) length_cstr [of bytes] by simp
  obtain n where n: "read_command (cstr bytes) = Inr (n, if last (cstr bytes) = nl then 1 else 0)"
    and toks: "\<And>k off. k < 3 \<Longrightarrow> off \<le> length (?ws ! k) \<Longrightarrow> tok_str n k off = Inr (drop off (?ws ! k))"
    by (rule request_parsed [OF assms(1) NUL_notin_cstr len assms(6)]) blast
  have "request_line rid n = Inl BufferOverflow"
    using assms(7) toks [of 0 0] toks [of 1 0] toks [of 2 0]
    by (simp add: request_line_def sprintf_def log_line_def Let_def)
  moreover have "bytes \<noteq> []" using assms(1) by (auto simp: cstr_def)
  ultimately show ?thesis
    using n first_line_fits [OF assms(3,4,5)] by (simp add: process_request_def Let_def sprintf_def)
qed

theorem long_request_overflows_log_witness:
  "process_request demo_os 0 0 4
     (Received (''GET /'' @ replicate 984 (CHR ''a'') @ '' HTTP/1.1'' @ [nl])) (Some ''now'') []
   = Some (Inl BufferOverflow)"
proof -
  let ?p = "CHR ''/'' # replicate 984 (CHR ''a'')"
  let ?b = "''GET /'' @ replicate 984 (CHR ''a'') @ '' HTTP/1.1'' @ [nl]"
  have b: "cstr ?b = ?b" by (rule cstr_id) (simp add: NUL_def nl_def)
  have "complete_words (''GET'' @ CHR '' '' # ?p @ CHR '' '' # ''HTTP/1.1'' @ nl # []) =
      [''GET'', ?p, ''HTTP/1.1'']"
    by (subst complete_words_word, simp, simp add: isspace_def, simp add: isspace_def nl_def)+ simp
  then have w: "complete_words ?b = [''GET'', ?p, ''HTTP/1.1'']" by simp
  show ?thesis
    by (rule long_request_overflows_log)
      (simp_all only: b w log_line_def Let_def,
       simp_all add: MAXBUFF_def in_int32_def show_int_def show_nat.simps)
qed

subsection \<open>Returning, and what happens to the descriptor\<close>

lemma process_GET_diverges:
  "process_GET w n fd rid time tr = None \<Longrightarrow>
     \<exists>path. tok_str n 1 1 = Inr path \<and> fopen_read w path = Some Directory"
proof (rule ccontr)
  assume none: "process_GET w n fd rid time tr = None"
    and no: "\<nexists>path. tok_str n 1 1 = Inr path \<and> fopen_read w path = Some Directory"
  from none no obtain path f tr1 where "tok_str n 1 1 = Inr path" "fopen_read w path = Some f"
    "get_loop w fd (fopen_stream f) tr1 = None"
    by (auto simp: process_GET_def bindr_def split: sum.splits option.splits)
  with no get_loop_returns [of "fopen_stream f" w fd tr1] show False
    by (cases f) (auto simp: fopen_stream_def)
qed

lemma answer_None:
  "answer_command w n read buff fd rid time tr = None \<Longrightarrow> dispatch w n buff fd rid time tr = None"
  by (auto simp: answer_command_def bindr_None_iff split: if_splits)



text \<open>The events a handler adds: it only appends, and whether it closes a descriptor.\<close>

definition extends :: "event list \<Rightarrow> event list \<Rightarrow> bool" where
  "extends tr tr' \<longleftrightarrow> (\<exists>ev. tr' = tr @ ev \<and> (\<forall>d. Closed d \<notin> set ev))"

lemma extends_refl [simp, intro]: "extends tr tr"
  by (simp add: extends_def)

lemma extends_trans: "extends a b \<Longrightarrow> extends b d \<Longrightarrow> extends a d"
  by (fastforce simp: extends_def)

lemma extends_snoc: "extends a b \<Longrightarrow> (\<And>d. e \<noteq> Closed d) \<Longrightarrow> extends a (b @ [e])"
  by (fastforce simp: extends_def)

lemma extends_two: "extends a b \<Longrightarrow> extends a (b @ [Printed x, Perror y])"
  by (fastforce simp: extends_def)

lemma extends_fputs: "extends a b \<Longrightarrow> extends a (do_fputs w s b)"
  by (auto simp: do_fputs_def intro: extends_snoc)

lemma extends_send: "extends a b \<Longrightarrow> extends a (do_send w fd s b)"
  by (auto simp: do_send_def intro: extends_snoc)

lemmas extends_intros = extends_snoc extends_two extends_fputs extends_send

lemma sendHeader_extends:
  "sendHeader w fd code str time n rid False tr = Inr tr' \<Longrightarrow> extends tr tr'"
  by (auto simp: sendHeader_def bindc_Inr_iff Let_def split: if_splits intro!: extends_intros)

lemma get_loop_extends:
  assumes "get_loop w fd f tr = Some tr'"
  shows "extends tr tr'"
proof (rule get_loop.raw_induct [where P = "\<lambda>w fd f tr tr'. extends tr tr'", OF _ assms])
  fix loop w fd f tr tr'
  assume IH: "\<And>w fd f tr tr'. loop w fd f tr = Some tr' \<Longrightarrow> extends tr tr'"
    and eq: "(if eof f then Some tr else case fst (fgets 100 f) of
        None \<Rightarrow> loop w fd (snd (fgets 100 f)) tr
      | Some buffer \<Rightarrow> if send_ret w tr (cstr buffer) < 0
          then Some (do_send w fd (cstr buffer) tr @ [Perror ''send()''])
          else loop w fd (snd (fgets 100 f)) (do_send w fd (cstr buffer) tr)) = Some tr'"
  have "extends tr tr'" if "loop w fd f' (do_send w fd s tr) = Some tr'" for f' s
    using IH [OF that] extends_send [OF extends_refl] extends_trans by blast
  with eq IH show "extends tr tr'"
    by (auto split: if_splits option.splits intro!: extends_snoc extends_send)
qed

definition shut_only :: "int \<Rightarrow> event list \<Rightarrow> event list \<Rightarrow> bool" where
  "shut_only fd tr tr' \<longleftrightarrow> (\<exists>u. extends tr u \<and> tr' = u @ [ShutDown fd])"

lemma GET_shut: "process_GET w n fd rid time tr = Some (Inr tr') \<Longrightarrow> shut_only fd tr tr'"
  by (auto simp: shut_only_def process_GET_def bindr_def split: sum.splits option.splits
      dest!: sendHeader_extends get_loop_extends intro: extends_trans extends_snoc)

lemma HEAD_shut: "process_HEAD w n fd rid time tr = Inr tr' \<Longrightarrow> shut_only fd tr tr'"
  by (auto simp: shut_only_def process_HEAD_def bindc_Inr_iff split: option.splits
      dest!: sendHeader_extends intro: extends_snoc)

lemma shut_onlyI: "extends tr u \<Longrightarrow> shut_only fd tr (u @ [ShutDown fd])"
  by (auto simp: shut_only_def)

lemma OPTIONS_shut: "process_OPTIONS w fd rid time tr = Inr tr' \<Longrightarrow> shut_only fd tr tr'"
  unfolding process_OPTIONS_def bindc_Inr_iff Let_def sum.inject
  by (elim exE conjE, hypsubst, rule shut_onlyI) (auto intro!: extends_intros)

lemma TRACE_shut: "process_TRACE w msg fd rid time tr = Inr tr' \<Longrightarrow> shut_only fd tr tr'"
  by (auto simp: shut_only_def process_TRACE_def bindc_Inr_iff Let_def dest!: sendHeader_extends
      split: if_splits intro!: extends_intros)

lemma other_shut:
  "sendHeader w fd 501 ''Not Implemented'' time 0 rid False tr = Inr tr' \<Longrightarrow>
     shut_only fd tr (tr' @ [ShutDown fd])"
  by (rule shut_onlyI) (rule sendHeader_extends)

lemma shut_only_fputs:
  "shut_only fd tr u \<Longrightarrow> \<exists>ev. do_fputs w s u = tr @ ev \<and> ShutDown fd \<in> set ev \<and> (\<forall>d. Closed d \<notin> set ev)"
  by (auto simp: shut_only_def extends_def do_fputs_def)

text \<open>
  A request that is well formed is answered with a \<open>shutdown\<close> of the client's descriptor
  but never with a \<open>close\<close>: whatever the system calls return, the events of \<open>dispatch\<close> close
  no descriptor, so every answered request leaves one open.
\<close>

theorem dispatch_leaves_descriptor_open:
  assumes "dispatch w n buff fd rid time tr = Some (Inr tr')"
  shows "\<exists>ev. tr' = tr @ ev \<and> ShutDown fd \<in> set ev \<and> (\<forall>d. Closed d \<notin> set ev)"
proof -
  from assms obtain u where u: "tr' = do_fputs w [nl] u" "shut_only fd tr u"
    by (auto simp: dispatch_def bindr_Inr_iff bindc_Inr_iff split: if_splits
        intro: GET_shut HEAD_shut OPTIONS_shut TRACE_shut other_shut)
  from shut_only_fputs [OF u(2), of w "[nl]"] u(1) show ?thesis by simp
qed

theorem dispatch_leaves_descriptor_open_witness:
  "\<exists>ev. dispatch demo_os empty_command [] 4 0 ''now'' [] = Some (Inr ([] @ ev)) \<and>
     ShutDown 4 \<in> set ev \<and> (\<forall>d. Closed d \<notin> set ev)"
proof -
  have t: "tok_str empty_command 0 0 = Inr []"
    using peek_str_holds [of calloc_tok 0 "[]" 1001]
    by (simp add: tok_str_def empty_command_def MAXTOKSIZE_def holds_prefix_def calloc_tok_def)
  have "good_call demo_os 0 ''now''" by (simp add: good_call_def full_io_def demo_os_def in_int32_def)
  from not_implemented_sent [OF this, of 4 "[]"] obtain u
    where "sendHeader demo_os 4 501 ''Not Implemented'' ''now'' 0 0 False [] = Inr u" by blast
  then have "dispatch demo_os empty_command [] 4 0 ''now'' [] =
      Some (Inr (do_fputs demo_os [nl] (u @ [ShutDown 4])))"
    by (simp add: dispatch_def t)
  from dispatch_leaves_descriptor_open [OF this] this show ?thesis by auto
qed

end
