(* ===== verification/Web_Client.thy ===== *)
theory Web_Client
  imports Web_Config Web_Server
begin

section \<open>The web client: \<open>client.c\<close>\<close>

text \<open>
  \<open>client_main\<close> translates \<open>main\<close>: read the port, read a request line and a host line from
  standard input, join them into \<open>message\<close>, connect, send, and copy what the server sends to
  standard output.  The network is a parameter; \<open>replies\<close> are the results of the successive
  \<open>recv\<close> calls, and after them the peer has closed the connection.
\<close>

definition CLIENT_MAXBUFF :: nat where "CLIENT_MAXBUFF = 250"

record net =
  socket_ok :: bool
  host_known :: "string \<Rightarrow> bool"
  connect_ok :: bool
  net_send_ret :: "string \<Rightarrow> int"
  replies :: "recv_result list"
  close_ok :: bool

datatype client_event = Out string | Err string | ClientSent string

text \<open>The \<open>do ... while (ret != 0)\<close> loop; the flag says whether \<open>recv\<close> failed.\<close>

fun recv_loop :: "recv_result list \<Rightarrow> client_event list \<times> bool" where
  "recv_loop [] = ([Out []], False)"
| "recv_loop (RecvError # rs) = ([Err ''recv()''], True)"
| "recv_loop (Received s # rs) =
     (if s = [] then ([Out []], False)
      else (let (ev, failed) = recv_loop rs in (Out (cstr s) # ev, failed)))"

definition client_talk :: "net \<Rightarrow> string \<Rightarrow> string \<Rightarrow> int \<times> client_event list" where
  "client_talk w message hostname =
     (if \<not> socket_ok w then (1, [Err ''socket()''])
      else if \<not> host_known w hostname then (1, [Err ''gethostbyname()''])
      else if \<not> connect_ok w then (1, [Err ''connect()''])
      else if net_send_ret w message < 0 then (1, [Err ''send()''])
      else
        (let sent = take (nat (net_send_ret w message)) message;
             (ev, failed) = recv_loop (replies w);
             evs = [ClientSent sent, Out (''send: '' @ message @ [nl])] @ ev
         in if failed then (1, evs)
            else if \<not> close_ok w then (1, evs @ [Err ''close()''])
            else (0, evs)))"

definition client_main :: "string option \<Rightarrow> string \<Rightarrow> net \<Rightarrow> (int \<times> client_event list) c" where
  "client_main config_txt stdin w =
     bindc (read_port config_txt) (\<lambda>port.
       if port = 0 then Inr (1, [Out (''Error reading the port.'' @ [nl])])
       else
         let ev0 = [Out (''port='' @ show_int port @ [nl]), Out (''Enter your request:'' @ [nl])] in
         case fgets CLIENT_MAXBUFF (fopen_stream (Regular stdin)) of
           (None, _) \<Rightarrow> Inr (1, ev0 @ [Out (''Error or end of input -- aborting'' @ [nl])])
         | (Some buff, f1) \<Rightarrow>
             let ev1 = ev0 @ [Out (''request='' @ cstr buff @ [nl])] in
             case fgets CLIENT_MAXBUFF f1 of
               (None, _) \<Rightarrow> Inr (1, ev1 @ [Out (''Error or end of input -- aborting'' @ [nl])])
             | (Some host, f2) \<Rightarrow>
                 let ev2 = ev1 @ [Out (''host='' @ cstr host @ [nl])] in
                 bindc (sprintf CLIENT_MAXBUFF (cstr buff @ cstr host)) (\<lambda>message.
                 bindc (peek_str (CLIENT_MAXBUFF - 6) 6
                          (strip_newline (length (cstr host)) 0 (line_mem host))) (\<lambda>hostname.
                   let (ret, ev) = client_talk w message hostname
                   in Inr (ret, ev2 @ [Out [nl]] @ ev))))"

definition stdout_of :: "client_event list \<Rightarrow> string" where
  "stdout_of ev = concat (map (\<lambda>e. case e of Out s \<Rightarrow> s | _ \<Rightarrow> []) ev)"

definition client_sent :: "client_event list \<Rightarrow> string" where
  "client_sent ev = concat (map (\<lambda>e. case e of ClientSent s \<Rightarrow> s | _ \<Rightarrow> []) ev)"

lemma stdout_simps [simp]:
  "stdout_of [] = []" "stdout_of (a @ b) = stdout_of a @ stdout_of b"
  "stdout_of (Out s # ev) = s @ stdout_of ev" "stdout_of (Err s # ev) = stdout_of ev"
  "stdout_of (ClientSent s # ev) = stdout_of ev"
  by (simp_all add: stdout_of_def)

lemma client_sent_simps [simp]:
  "client_sent [] = []" "client_sent (a @ b) = client_sent a @ client_sent b"
  "client_sent (Out s # ev) = client_sent ev" "client_sent (Err s # ev) = client_sent ev"
  "client_sent (ClientSent s # ev) = s @ client_sent ev"
  by (simp_all add: client_sent_def)

text \<open>However the server's bytes are cut into pieces, the client prints them all, in order.\<close>

lemma recv_loop_prints:
  assumes "\<forall>c \<in> set chunks. c \<noteq> [] \<and> NUL \<notin> set c"
  shows "\<exists>ev. recv_loop (map Received chunks) = (ev, False) \<and> stdout_of ev = concat chunks \<and> client_sent ev = []"
  using assms by (induction chunks) (auto simp: cstr_id)

lemma client_talk_ok:
  assumes "socket_ok w" "host_known w h" "connect_ok w" "close_ok w" "\<And>s. net_send_ret w s = int (length s)"
    and "replies w = map Received chunks" "\<forall>c \<in> set chunks. c \<noteq> [] \<and> NUL \<notin> set c"
  shows "\<exists>ev. client_talk w message h = (0, ev) \<and> client_sent ev = message \<and>
     stdout_of ev = ''send: '' @ message @ [nl] @ concat chunks"
  using recv_loop_prints [OF assms(7)] assms by (auto simp: client_talk_def Let_def)

lemma strip_newline_host:
  assumes "nl \<notin> set h" "NUL \<notin> set h"
  shows "strip_newline (length (cstr (h @ [nl]))) 0 (line_mem (h @ [nl])) = (line_mem (h @ [nl]))(length h := Byte NUL)"
proof -
  have "cstr (h @ [nl]) = h @ [nl]" using assms(2) by (intro cstr_id) (auto simp: nl_def NUL_def)
  then show ?thesis using strip_newline_line [OF assms(1), of "Suc (length h)" 0] by (simp del: strip_newline.simps)
qed

lemma client_exchange:
  assumes "p < 2 ^ 31" "0 < p" "n < 10 ^ 8" "nl \<notin> set log" "length log < 90"
    and "nl \<notin> set req" "NUL \<notin> set req" "nl \<notin> set h" "NUL \<notin> set h"
    and "length req + length h + 8 < CLIENT_MAXBUFF"
    and "socket_ok w" "host_known w h" "connect_ok w" "close_ok w" "\<And>s. net_send_ret w s = int (length s)"
    and "replies w = map Received chunks" "\<forall>c \<in> set chunks. c \<noteq> [] \<and> NUL \<notin> set c"
  shows "\<exists>ev pre. client_main (Some (config_text p log n)) (req @ nl # ''Host: '' @ h @ [nl]) w = Inr (0, ev) \<and>
     client_sent ev = req @ nl # ''Host: '' @ h @ [nl] \<and> stdout_of ev = pre @ concat chunks"
proof -
  let ?host = "''Host: '' @ h @ [nl]"
  let ?msg = "(req @ [nl]) @ ?host"
  have port: "read_port (Some (config_text p log n)) = Inr (int p)"
    by (rule read_port_config) (use assms in auto)
  let ?f0 = "fopen_stream (Regular (req @ nl # (''Host: '' @ h) @ nl # []))"
  let ?f1 = "?f0\<lparr>rest := (''Host: '' @ h) @ nl # []\<rparr>"
  have f0: "fgets CLIENT_MAXBUFF ?f0 = (Some (req @ [nl]), ?f1)"
    by (subst fgets_line [of _ req]) (use assms in \<open>auto simp: fopen_stream_def CLIENT_MAXBUFF_def\<close>)
  have f1: "fgets CLIENT_MAXBUFF ?f1 = (Some ((''Host: '' @ h) @ [nl]), ?f0\<lparr>rest := []\<rparr>)"
    by (subst fgets_line [of _ "''Host: '' @ h"])
      (use assms in \<open>auto simp: fopen_stream_def CLIENT_MAXBUFF_def nl_def\<close>)
  have c: "cstr (req @ [nl]) = req @ [nl]" "cstr ((''Host: '' @ h) @ [nl]) = (''Host: '' @ h) @ [nl]"
    by (rule cstr_id, use assms in \<open>auto simp: nl_def NUL_def\<close>)+
  have pk: "peek_str (CLIENT_MAXBUFF - 6) 6
      (strip_newline (length (cstr ((''Host: '' @ h) @ [nl]))) 0 (line_mem ((''Host: '' @ h) @ [nl]))) = Inr h"
  proof -
    have *: "nl \<notin> set (''Host: '' @ h)" "NUL \<notin> set (''Host: '' @ h)" using assms(8,9) by (simp_all add: nl_def NUL_def)
    have "peek_str (CLIENT_MAXBUFF - 6) 6
        ((line_mem (''Host: '' @ h @ [nl]))(length (''Host: '' @ h) := Byte NUL)) = Inr h"
      by (rule peek_cleared) (use assms(9,10) in auto)
    with strip_newline_host [OF *] show ?thesis by simp
  qed
  obtain ev where ev: "client_talk w ?msg h = (0, ev)" "client_sent ev = ?msg"
      "stdout_of ev = ''send: '' @ ?msg @ [nl] @ concat chunks"
    using client_talk_ok [OF assms(11-17), of ?msg] by blast
  have sp: "sprintf CLIENT_MAXBUFF ((req @ [nl]) @ (''Host: '' @ h) @ [nl]) = Inr ?msg"
    using assms(10) by (simp add: sprintf_def)
  let ?pre = "''port='' @ show_int (int p) @ [nl] @ ''Enter your request:'' @ [nl] @
      ''request='' @ req @ [nl, nl] @ ''host='' @ ''Host: '' @ h @ [nl, nl, nl] @ ''send: '' @ ?msg @ [nl]"
  have "\<exists>ev'. client_main (Some (config_text p log n)) (req @ nl # (''Host: '' @ h) @ nl # []) w = Inr (0, ev') \<and>
      client_sent ev' = ?msg \<and> stdout_of ev' = ?pre @ concat chunks"
    using assms(2) ev unfolding client_main_def port bindc_simps Let_def f0 f1 prod.case option.case c
    by (simp add: sp [simplified] pk [unfolded c, simplified])
  then show ?thesis by auto
qed

text \<open>
  The client's whole exchange.  For a request line and a host line of the documented
  form whose joined length fits \<open>message\<close>, and a network that works, the client sends exactly
  the two lines and prints exactly the bytes the server sent, whatever pieces they arrive in,
  and exits with 0.
\<close>

theorem client_main_exchange:
  assumes "p < 2 ^ 31" "0 < p" "n < 10 ^ 8" "nl \<notin> set log" "length log < 90"
    and "nl \<notin> set req" "NUL \<notin> set req" "nl \<notin> set h" "NUL \<notin> set h"
    and "length req + length h + 8 < CLIENT_MAXBUFF"
    and "socket_ok w" "host_known w h" "connect_ok w" "close_ok w" "\<And>s. net_send_ret w s = int (length s)"
    and "replies w = map Received chunks" "\<forall>c \<in> set chunks. c \<noteq> [] \<and> NUL \<notin> set c"
  shows "\<exists>ev pre. client_main (Some (config_text p log n)) (req @ nl # ''Host: '' @ h @ [nl]) w = Inr (0, ev) \<and>
     client_sent ev = req @ nl # ''Host: '' @ h @ [nl] \<and> stdout_of ev = pre @ concat chunks"
  using assms by (rule client_exchange)

definition demo_net :: net where
  "demo_net = \<lparr>socket_ok = True, host_known = (\<lambda>_. True), connect_ok = True,
     net_send_ret = (\<lambda>s. int (length s)), replies = [Received ''HTTP'', Received ''/1.1 200''], close_ok = True\<rparr>"

theorem client_main_exchange_witness:
  "\<exists>ev pre. client_main (Some (config_text 8888 ''log.txt'' 5)) (''GET /a HTTP/1.1'' @ nl # ''Host: '' @ ''h'' @ [nl]) demo_net = Inr (0, ev) \<and>
     client_sent ev = ''GET /a HTTP/1.1'' @ nl # ''Host: '' @ ''h'' @ [nl] \<and> stdout_of ev = pre @ concat [''HTTP'', ''/1.1 200'']"
  by (rule client_main_exchange) (simp_all add: demo_net_def nl_def NUL_def CLIENT_MAXBUFF_def)

text \<open>
  The client's \<open>message\<close> array overflows as soon as the two lines together have
  \<open>MAXBUFF\<close> characters, although each of them fits the array it was read into.
\<close>

theorem client_message_overflow:
  assumes "p < 2 ^ 31" "0 < p"
    and "nl \<notin> set req" "NUL \<notin> set req" "nl \<notin> set h" "NUL \<notin> set h"
    and "length req + 1 < CLIENT_MAXBUFF" "length h + 1 < CLIENT_MAXBUFF"
    and "CLIENT_MAXBUFF \<le> length req + length h + 2"
  shows "client_main (Some (config_text p log n)) (req @ nl # h @ [nl]) w = Inl BufferOverflow"
proof -
  let ?f0 = "fopen_stream (Regular (req @ nl # h @ nl # []))"
  let ?f1 = "?f0\<lparr>rest := h @ nl # []\<rparr>"
  have f0: "fgets CLIENT_MAXBUFF ?f0 = (Some (req @ [nl]), ?f1)"
    by (subst fgets_line [of _ req]) (use assms in \<open>auto simp: fopen_stream_def\<close>)
  have f1: "fgets CLIENT_MAXBUFF ?f1 = (Some (h @ [nl]), ?f0\<lparr>rest := []\<rparr>)"
    by (subst fgets_line [of _ h]) (use assms in \<open>auto simp: fopen_stream_def\<close>)
  have c: "cstr (req @ [nl]) = req @ [nl]" "cstr (h @ [nl]) = h @ [nl]"
    by (rule cstr_id, use assms in \<open>auto simp: nl_def NUL_def\<close>)+
  have sp: "sprintf CLIENT_MAXBUFF ((req @ [nl]) @ h @ [nl]) = Inl BufferOverflow"
    using assms(9) by (simp add: sprintf_def)
  show ?thesis
    using assms(2) unfolding client_main_def read_port_config [OF assms(1)] bindc_simps Let_def f0 f1 prod.case option.case c
    by (simp add: sp [simplified])
qed

theorem client_message_overflow_witness:
  "client_main (Some (config_text 8888 ''log.txt'' 5))
     (replicate 200 (CHR ''a'') @ nl # replicate 100 (CHR ''b'') @ [nl]) demo_net = Inl BufferOverflow"
  by (rule client_message_overflow) (simp_all add: nl_def NUL_def CLIENT_MAXBUFF_def)

end
