(* ===== verification/Pthread_Lib.thy ===== *)
theory Pthread_Lib
  imports Prelude
begin

section \<open>Mutexes, semaphores, condition variables and barriers of POSIX threads\<close>

text \<open>
  The objects of the thread library as values, with the operations the programs call.  An
  operation that blocks is \<open>None\<close>.  A default mutex blocks whoever locks it while it is
  held (its holder too); \<open>unlock\<close> frees it.  A condition variable is the queue of the
  threads blocked in \<open>pthread_cond_wait\<close>; a thread that has left the queue still has to
  take the mutex again.
\<close>

type_synonym tid = nat
type_synonym mutex = "tid option"
type_synonym sem = nat
type_synonym cond = "tid list"

definition mutex_lock :: "tid \<Rightarrow> mutex \<Rightarrow> mutex option" where
  "mutex_lock t m = (case m of None \<Rightarrow> Some (Some t) | Some _ \<Rightarrow> None)"

definition mutex_unlock :: "mutex \<Rightarrow> mutex" where
  "mutex_unlock m = None"

definition sem_wait :: "sem \<Rightarrow> sem option" where
  "sem_wait v = (if v = 0 then None else Some (v - 1))"

definition sem_post :: "sem \<Rightarrow> sem" where
  "sem_post v = v + 1"

definition cond_enqueue :: "tid \<Rightarrow> cond \<Rightarrow> cond" where
  "cond_enqueue t c = c @ [t]"

definition cond_signal :: "cond \<Rightarrow> cond" where
  "cond_signal c = tl c"

definition cond_broadcast :: "cond \<Rightarrow> cond" where
  "cond_broadcast c = []"

lemma mutex_lock_Some [simp]: "mutex_lock t m = Some m' \<longleftrightarrow> m = None \<and> m' = Some t"
  by (auto simp: mutex_lock_def split: option.splits)

lemma mutex_lock_None [simp]: "mutex_lock t m = None \<longleftrightarrow> m \<noteq> None"
  by (auto simp: mutex_lock_def split: option.splits)

lemma sem_wait_Some [simp]: "sem_wait v = Some v' \<longleftrightarrow> v = Suc v'"
  by (auto simp: sem_wait_def)

lemma sem_wait_None [simp]: "sem_wait v = None \<longleftrightarrow> v = 0"
  by (auto simp: sem_wait_def)

lemma sync_simps [simp]:
  "mutex_unlock m = None" "sem_post v = Suc v" "cond_signal [] = []" "cond_signal [t] = []"
  "cond_broadcast c = []" "cond_enqueue t [] = [t]"
  by (simp_all add: mutex_unlock_def sem_post_def cond_signal_def cond_broadcast_def cond_enqueue_def)

subsection \<open>Interface: a lock\<close>

text \<open>
  What a client that brackets a critical section needs from a lock, whatever it is made of:
  it can be acquired exactly when nobody holds it, and releasing an acquired lock frees it.
\<close>

locale lock =
  fixes acquire :: "tid \<Rightarrow> 'l \<Rightarrow> 'l option"
    and release :: "'l \<Rightarrow> 'l"
    and held :: "'l \<Rightarrow> bool"
    and valid :: "'l \<Rightarrow> bool"
    and unlocked :: 'l
  assumes unlocked_free: "valid unlocked \<and> \<not> held unlocked"
    and acquire_free: "valid l \<Longrightarrow> \<not> held l \<Longrightarrow> \<exists>l'. acquire t l = Some l' \<and> valid l' \<and> held l'"
    and acquire_held: "valid l \<Longrightarrow> held l \<Longrightarrow> acquire t l = None"
    and release_free: "valid l \<Longrightarrow> held l \<Longrightarrow> valid (release l) \<and> \<not> held (release l)"
begin

lemma acquire_SomeD: "valid l \<Longrightarrow> acquire t l = Some l' \<Longrightarrow> \<not> held l \<and> valid l' \<and> held l'"
  using acquire_free [of l t] acquire_held [of l t] by (cases "held l") auto

lemma acquire_None_iff: "valid l \<Longrightarrow> acquire t l = None \<longleftrightarrow> held l"
  using acquire_free [of l t] acquire_held [of l t] by (cases "held l") auto

end

text \<open>The mutex, and a semaphore used as one (initialised to 1), are locks.\<close>

definition mutex_held :: "mutex \<Rightarrow> bool" where
  "mutex_held m \<longleftrightarrow> m \<noteq> None"

definition sem_acquire :: "tid \<Rightarrow> sem \<Rightarrow> sem option" where
  "sem_acquire t v = sem_wait v"

definition sem_held :: "sem \<Rightarrow> bool" where
  "sem_held v \<longleftrightarrow> v = 0"

definition sem_binary :: "sem \<Rightarrow> bool" where
  "sem_binary v \<longleftrightarrow> v \<le> 1"

interpretation mutex: lock mutex_lock mutex_unlock mutex_held "\<lambda>_. True" None
  by unfold_locales (auto simp: mutex_held_def)

interpretation binsem: lock sem_acquire sem_post sem_held sem_binary 1
  by unfold_locales (auto simp: sem_acquire_def sem_held_def sem_binary_def)

subsection \<open>The main thread\<close>

text \<open>
  The \<open>main\<close> functions of the thread programs create threads, join them and print.  Such a
  \<open>main\<close> is the list of the calls it still has to make; \<open>on_error\<close> says what the code does
  when a call fails: the result is ignored, \<open>printf\<close> and \<open>exit (1)\<close>, or \<open>assert\<close>.  Joining
  a thread that was never created (its handle is uninitialised) is undefined.  Main's own
  prints are numbered; \<open>report\<close> gives their text.  A \<open>pthread_exit\<close> in \<open>main\<close> lets the other
  threads run on, \<open>return\<close> and \<open>exit\<close> end the process.
\<close>

datatype on_error = Ignored | Reports string | Asserts

datatype main_op = Create tid on_error | Joins tid on_error | Report nat | Return int | PthreadExit

datatype ending = Running | Exited int | Aborted | Undefined

datatype thread_status = Unborn | Live | Dead

record process =
  todo :: "main_op list"
  console :: "string list"
  ending :: ending

definition call_failed :: "on_error \<Rightarrow> main_op list \<Rightarrow> 'a process_scheme \<Rightarrow> 'a process_scheme" where
  "call_failed e ops s =
     (case e of
        Ignored \<Rightarrow> s\<lparr>todo := ops\<rparr>
      | Reports msg \<Rightarrow> s\<lparr>console := console s @ [msg], ending := Exited 1\<rparr>
      | Asserts \<Rightarrow> s\<lparr>ending := Aborted\<rparr>)"

definition main_next ::
  "(tid \<Rightarrow> 'a process_scheme \<Rightarrow> 'a process_scheme) \<Rightarrow> (tid \<Rightarrow> 'a process_scheme \<Rightarrow> thread_status) \<Rightarrow>
   (nat \<Rightarrow> 'a process_scheme \<Rightarrow> string) \<Rightarrow> bool \<Rightarrow> 'a process_scheme \<Rightarrow> 'a process_scheme option" where
  "main_next begins alive report ok s =
     (case todo s of
        [] \<Rightarrow> None
      | Create t e # ops \<Rightarrow> Some (if ok then begins t (s\<lparr>todo := ops\<rparr>) else call_failed e ops s)
      | Joins t e # ops \<Rightarrow>
          (case alive t s of
             Unborn \<Rightarrow> Some (s\<lparr>ending := Undefined\<rparr>)
           | Live \<Rightarrow> None
           | Dead \<Rightarrow> Some (if ok then s\<lparr>todo := ops\<rparr> else call_failed e ops s))
      | Report k # ops \<Rightarrow> Some (s\<lparr>todo := ops, console := console s @ [report k s]\<rparr>)
      | Return r # ops \<Rightarrow> Some (s\<lparr>ending := Exited r\<rparr>)
      | PthreadExit # ops \<Rightarrow> Some (s\<lparr>todo := []\<rparr>))"

text \<open>An action of the process: main makes its next call (with its success), or a thread runs.\<close>

datatype act = Main bool | Thread tid

definition creates :: "tid \<Rightarrow> main_op list \<Rightarrow> bool" where
  "creates t ops \<longleftrightarrow> t \<in> set (concat (map (\<lambda>q. case q of Create u _ \<Rightarrow> [u] | _ \<Rightarrow> []) ops))"

definition joins :: "tid \<Rightarrow> main_op list \<Rightarrow> bool" where
  "joins t ops \<longleftrightarrow> t \<in> set (concat (map (\<lambda>q. case q of Joins u _ \<Rightarrow> [u] | _ \<Rightarrow> []) ops))"

lemma creates_simps [simp]:
  "\<not> creates t []"
  "creates t (Create u e # ops) \<longleftrightarrow> t = u \<or> creates t ops"
  "creates t (Joins u e # ops) \<longleftrightarrow> creates t ops"
  "creates t (Report k # ops) \<longleftrightarrow> creates t ops"
  "creates t (Return r # ops) \<longleftrightarrow> creates t ops"
  "creates t (PthreadExit # ops) \<longleftrightarrow> creates t ops"
  by (auto simp: creates_def)

lemma joins_simps [simp]:
  "\<not> joins t []"
  "joins t (Create u e # ops) \<longleftrightarrow> joins t ops"
  "joins t (Joins u e # ops) \<longleftrightarrow> t = u \<or> joins t ops"
  "joins t (Report k # ops) \<longleftrightarrow> joins t ops"
  "joins t (Return r # ops) \<longleftrightarrow> joins t ops"
  "joins t (PthreadExit # ops) \<longleftrightarrow> joins t ops"
  by (auto simp: joins_def)

text \<open>
  A well-formed \<open>main\<close> for \<open>n\<close> threads: it creates no thread twice, and reports or ends only
  after all its joins.
\<close>

fun wf_main :: "nat \<Rightarrow> main_op list \<Rightarrow> bool" where
  "wf_main n [] \<longleftrightarrow> True"
| "wf_main n (Create t e # ops) \<longleftrightarrow> t < n \<and> \<not> creates t ops \<and> wf_main n ops"
| "wf_main n (Joins t e # ops) \<longleftrightarrow> t < n \<and> wf_main n ops"
| "wf_main n (Report k # ops) \<longleftrightarrow> (\<forall>t < n. \<not> joins t ops) \<and> wf_main n ops"
| "wf_main n (Return r # ops) \<longleftrightarrow> ops = []"
| "wf_main n (PthreadExit # ops) \<longleftrightarrow> ops = []"

end
