(* ===== verification/Web_Workers.thy ===== *)
theory Web_Workers
  imports Web_Server Web_Config Pthread_Lib
begin

section \<open>The worker pool: \<open>process_requests\<close> and \<open>main\<close> of \<open>server.c\<close>\<close>

text \<open>
  \<open>main\<close> creates \<open>NWORKERS\<close> threads that share the listening socket, the counter
  \<open>next_request_id\<close> and the mutex \<open>gLock\<close>, and waits for the line \<open>exit\<close>.  One step of the pool
  is one thread executing its next statement; the label says which, and what the system call
  in it returned.  Serving a request (\<open>process_request\<close>) is one step.  \<open>handed\<close> records the
  request numbers in the order they were taken.
\<close>

datatype worker_pc = AtAccept | AtLock | AtRead | AtBump | AtUnlock | Serving | Exited | Hung

record worker =
  w_pc :: worker_pc
  clientd :: int
  request_id :: int

datatype main_pc = Reading | Joining nat | Returned int

record pool =
  next_request_id :: int
  gLock :: mutex
  workers :: "tid \<Rightarrow> worker"
  socket_open :: bool
  main_at :: main_pc
  crashed :: bool
  trace :: "event list"
  handed :: "int list"

datatype pool_action =
    Accept tid int                          \<comment> \<open>\<open>accept\<close> returned a descriptor\<close>
  | AcceptFails tid int                     \<comment> \<open>\<open>accept\<close> failed with this \<open>errno\<close>\<close>
  | Work tid                                \<comment> \<open>next statement of the numbered section\<close>
  | Serve tid recv_result "string option"   \<comment> \<open>one request, with what \<open>recv\<close> and \<open>strftime\<close> gave\<close>
  | TypedExit bool                          \<comment> \<open>the line \<open>exit\<close>; whether \<open>close\<close> succeeded\<close>
  | Join

definition wrap32 :: "int \<Rightarrow> int" where
  "wrap32 i = sint (word_of_int i :: 32 word)"

definition set_pc :: "tid \<Rightarrow> worker_pc \<Rightarrow> pool \<Rightarrow> pool" where
  "set_pc t p s = s\<lparr>workers := (workers s)(t := (workers s t)\<lparr>w_pc := p\<rparr>)\<rparr>"

text \<open>The statements between \<open>pthread_mutex_lock\<close> and \<open>pthread_mutex_unlock\<close>.\<close>

definition work_step :: "tid \<Rightarrow> pool \<Rightarrow> pool option" where
  "work_step t s =
     (case w_pc (workers s t) of
        AtLock \<Rightarrow> (case mutex_lock t (gLock s) of
                     None \<Rightarrow> None | Some m \<Rightarrow> Some (set_pc t AtRead (s\<lparr>gLock := m\<rparr>)))
      | AtRead \<Rightarrow> Some (s\<lparr>workers := (workers s)
                     (t := (workers s t)\<lparr>w_pc := AtBump, request_id := next_request_id s\<rparr>),
                     handed := handed s @ [next_request_id s]\<rparr>)
      | AtBump \<Rightarrow> Some (set_pc t AtUnlock (s\<lparr>next_request_id := wrap32 (next_request_id s + 1)\<rparr>))
      | AtUnlock \<Rightarrow> Some (set_pc t Serving (s\<lparr>gLock := mutex_unlock (gLock s)\<rparr>))
      | _ \<Rightarrow> None)"

definition serve_step :: "os \<Rightarrow> tid \<Rightarrow> recv_result \<Rightarrow> string option \<Rightarrow> pool \<Rightarrow> pool option" where
  "serve_step w t rcv strf s =
     (if w_pc (workers s t) \<noteq> Serving then None
      else case process_request w (int t) (request_id (workers s t)) (clientd (workers s t)) rcv strf (trace s) of
             None \<Rightarrow> Some (set_pc t Hung s)
           | Some (Inl e) \<Rightarrow> Some (s\<lparr>crashed := True\<rparr>)
           | Some (Inr tr) \<Rightarrow> Some (set_pc t AtAccept (s\<lparr>trace := tr\<rparr>)))"

definition main_step :: "nat \<Rightarrow> pool_action \<Rightarrow> pool \<Rightarrow> pool option" where
  "main_step n a s =
     (case (a, main_at s) of
        (TypedExit ok, Reading) \<Rightarrow>
          Some (s\<lparr>socket_open := False, main_at := (if ok then Joining 0 else Returned 1)\<rparr>)
      | (Join, Joining j) \<Rightarrow>
          if j = n then Some (s\<lparr>main_at := Returned 0\<rparr>)
          else if w_pc (workers s j) = Exited then Some (s\<lparr>main_at := Joining (Suc j)\<rparr>)
          else None
      | _ \<Rightarrow> None)"

text \<open>
  When \<open>main\<close> has returned or a thread has hit undefined behaviour, the process is over.
  After the socket is shut down \<open>accept\<close> fails with 22 (or 9 once it is closed).
\<close>

fun returned :: "main_pc \<Rightarrow> bool" where
  "returned (Returned r) = True"
| "returned _ = False"

definition pool_step :: "os \<Rightarrow> nat \<Rightarrow> pool_action \<Rightarrow> pool \<Rightarrow> pool option" where
  "pool_step w n a s =
     (if crashed s \<or> returned (main_at s) then None
      else case a of
        Accept t fd \<Rightarrow>
          if t < n \<and> socket_open s \<and> w_pc (workers s t) = AtAccept
          then Some (s\<lparr>workers := (workers s)(t := (workers s t)\<lparr>w_pc := AtLock, clientd := fd\<rparr>)\<rparr>) else None
      | AcceptFails t errno \<Rightarrow>
          if t < n \<and> w_pc (workers s t) = AtAccept \<and> (socket_open s \<or> errno = 22 \<or> errno = 9)
          then if errno = 22 \<or> errno = 9 \<or> errno = 53 then Some (set_pc t Exited s)
               else Some (s\<lparr>trace := trace s @ [Printed (''error '' @ show_int errno), Perror ''accept()'']\<rparr>)
          else None
      | Work t \<Rightarrow> if t < n then work_step t s else None
      | Serve t rcv strf \<Rightarrow> if t < n then serve_step w t rcv strf s else None
      | _ \<Rightarrow> main_step n a s)"

definition pool_init :: "nat \<Rightarrow> pool" where
  "pool_init n = \<lparr>next_request_id = 0, gLock = None,
     workers = (\<lambda>_. \<lparr>w_pc = AtAccept, clientd = 0, request_id = 0\<rparr>),
     socket_open = True, main_at = Reading, crashed = False, trace = [], handed = []\<rparr>"

subsection \<open>Starting up\<close>

text \<open>
  \<open>main\<close> up to the creation of the threads.  The arrays \<open>tdarray\<close> and \<open>tHandles\<close> have
  \<open>NWORKERS\<close> elements, which is undefined unless positive.  \<open>sin_port\<close> has 16 bits.
\<close>

datatype startup = Failed string | Running nat nat pool

definition server_start ::
  "config outcome c \<Rightarrow> bool \<Rightarrow> bool \<Rightarrow> bool \<Rightarrow> (nat \<Rightarrow> bool) \<Rightarrow> startup c" where
  "server_start cfg socket_ok bind_ok listen_ok create_ok =
     bindc cfg (\<lambda>r. case r of
         Exit msg \<Rightarrow> Inr (Failed msg)
       | Value cf \<Rightarrow>
           if \<not> socket_ok then Inr (Failed ''socket()'')
           else if \<not> bind_ok then Inr (Failed ''bind()'')
           else if \<not> listen_ok then Inr (Failed ''listen()'')
           else if NWORKERS cf \<le> 0 then Inl OutOfBounds
           else if \<exists>n \<in> set [0..<nat (NWORKERS cf)]. \<not> create_ok n then Inr (Failed ''Error creating thread'')
           else Inr (Running (nat (port cf mod 65536)) (nat (NWORKERS cf)) (pool_init (nat (NWORKERS cf)))))"

subsection \<open>What every reachable state satisfies\<close>

definition in_section :: "worker \<Rightarrow> bool" where
  "in_section x \<longleftrightarrow> w_pc x \<in> {AtRead, AtBump, AtUnlock}"

text \<open>
  The lock names the only worker in the numbered section, and the counter is one behind
  \<open>handed\<close> exactly while that worker has read it and not yet stored its successor.
\<close>

definition pool_inv :: "pool \<Rightarrow> bool" where
  "pool_inv s \<longleftrightarrow>
     (\<forall>t. in_section (workers s t) \<longleftrightarrow> gLock s = Some t) \<and>
     handed s = map (\<lambda>k. wrap32 (int k)) [0..<length (handed s)] \<and>
     next_request_id s =
       wrap32 (int (length (handed s)) -
         (if \<exists>t. gLock s = Some t \<and> w_pc (workers s t) = AtBump then 1 else 0))"

lemma wrap32_Suc: "wrap32 (wrap32 i + 1) = wrap32 (i + 1)"
  by (simp add: wrap32_def)

lemma pool_init_inv: "pool_inv (pool_init n)"
  by (simp add: pool_inv_def pool_init_def in_section_def wrap32_def)

lemma pool_inv_frame:
  assumes "pool_inv s" "\<not> in_section (workers s t)" "\<not> in_section x"
  shows "pool_inv (s\<lparr>workers := (workers s)(t := x)\<rparr>)"
proof -
  from assms(1,2) have "gLock s \<noteq> Some t" by (auto simp: pool_inv_def)
  with assms show ?thesis by (auto simp: pool_inv_def in_section_def)
qed

lemma work_step_inv:
  assumes inv: "pool_inv s" and st: "work_step t s = Some s'"
  shows "pool_inv s'"
proof (cases "w_pc (workers s t)")
  case AtLock
  with st inv show ?thesis
    by (auto simp: work_step_def set_pc_def pool_inv_def in_section_def split: option.splits if_splits)
next
  case AtRead
  with inv have l: "gLock s = Some t" by (auto simp: pool_inv_def in_section_def)
  from st AtRead have s': "s' = s\<lparr>workers := (workers s)
      (t := (workers s t)\<lparr>w_pc := AtBump, request_id := next_request_id s\<rparr>),
      handed := handed s @ [next_request_id s]\<rparr>" by (simp add: work_step_def)
  from inv l AtRead have nx: "next_request_id s = wrap32 (int (length (handed s)))" by (simp add: pool_inv_def)
  have "handed s @ [next_request_id s] = map (\<lambda>k. wrap32 (int k)) [0..<Suc (length (handed s))]"
    using inv nx by (simp add: pool_inv_def)
  then show ?thesis
    using inv l nx AtRead unfolding s' by (auto simp: pool_inv_def in_section_def)
next
  case AtBump
  with inv have l: "gLock s = Some t" by (auto simp: pool_inv_def in_section_def)
  with inv AtBump have "next_request_id s = wrap32 (int (length (handed s)) - 1)" by (simp add: pool_inv_def)
  then have "wrap32 (next_request_id s + 1) = wrap32 (int (length (handed s)))" by (simp add: wrap32_Suc)
  with st AtBump inv l show ?thesis
    by (auto simp: work_step_def set_pc_def pool_inv_def in_section_def)
next
  case AtUnlock
  with inv have l: "gLock s = Some t" by (auto simp: pool_inv_def in_section_def)
  with st AtUnlock inv show ?thesis
    by (auto simp: work_step_def set_pc_def pool_inv_def in_section_def split: if_splits)
qed (use st in \<open>simp_all add: work_step_def\<close>)

lemma serve_step_inv:
  assumes inv: "pool_inv s" and st: "serve_step w t rcv strf s = Some s'"
  shows "pool_inv s'"
proof -
  have ns: "\<not> in_section (workers s t)" using st by (auto simp: serve_step_def in_section_def split: if_splits)
  have set_pc: "pool_inv (set_pc t p s)" if "p \<in> {Hung, AtAccept}" for p
    unfolding set_pc_def by (rule pool_inv_frame [OF inv ns]) (use that in \<open>auto simp: in_section_def\<close>)
  have "pool_inv (u\<lparr>trace := tr\<rparr>) = pool_inv u" "pool_inv (u\<lparr>crashed := b\<rparr>) = pool_inv u" for u tr b
    by (simp_all add: pool_inv_def)
  moreover have "set_pc t AtAccept (s\<lparr>trace := tr\<rparr>) = (set_pc t AtAccept s)\<lparr>trace := tr\<rparr>" for tr
    by (simp add: set_pc_def)
  ultimately show ?thesis
    using st set_pc inv by (auto simp: serve_step_def split: if_splits option.splits sum.splits)
qed

lemma pool_step_inv: "pool_inv s \<Longrightarrow> pool_step w n a s = Some s' \<Longrightarrow> pool_inv s'"
proof -
  assume inv: "pool_inv s" and st: "pool_step w n a s = Some s'"
  have fr: "pool_inv (u\<lparr>socket_open := b, main_at := m\<rparr>) = pool_inv u" "pool_inv (u\<lparr>main_at := m\<rparr>) = pool_inv u"
    "pool_inv (u\<lparr>trace := tr\<rparr>) = pool_inv u" for u b m tr
    by (simp_all add: pool_inv_def)
  show ?thesis
  proof (cases a)
    case (Accept t fd)
    with st inv show ?thesis
      by (auto simp: pool_step_def in_section_def split: if_splits intro: pool_inv_frame)
  next
    case (AcceptFails t e)
    with st inv fr show ?thesis
      by (auto simp: pool_step_def in_section_def set_pc_def split: if_splits intro: pool_inv_frame)
  next
    case (Work t)
    with st inv work_step_inv show ?thesis by (auto simp: pool_step_def split: if_splits)
  next
    case (Serve t rcv strf)
    with st inv serve_step_inv show ?thesis by (auto simp: pool_step_def split: if_splits)
  qed (use st inv fr in \<open>auto simp: pool_step_def main_step_def split: if_splits main_pc.splits\<close>)
qed

interpretation pool: invariant_system "pool_step w n" "pool_init n" pool_inv for w n
  by unfold_locales (auto intro: pool_init_inv pool_step_inv)

lemma wrap32_inj: "i < 2 ^ 32 \<Longrightarrow> j < 2 ^ 32 \<Longrightarrow> wrap32 (int i) = wrap32 (int j) \<Longrightarrow> i = j"
proof -
  assume *: "i < 2 ^ 32" "j < 2 ^ 32" "wrap32 (int i) = wrap32 (int j)"
  then have "(word_of_int (int i) :: 32 word) = word_of_int (int j)" by (simp only: wrap32_def signed_word_eqI)
  then have "unat (of_nat i :: 32 word) = unat (of_nat j :: 32 word)" by simp
  with * show "i = j" by (simp add: unat_of_nat take_bit_nat_eq_self)
qed

text \<open>
  C7: request numbers.  In every reachable state of the pool, for any number of workers and
  any behaviour of the system calls, the numbers handed out so far are 0, 1, 2, ... in order
  (wrapping as a 32-bit \<open>int\<close>), at most one worker is between lock and unlock, and so the
  numbers of fewer than \<open>2 ^ 32\<close> requests are all different.
\<close>

theorem pool_request_ids:
  assumes "reachable (pool_step w n) (pool_init n) s"
  shows "handed s = map (\<lambda>k. wrap32 (int k)) [0..<length (handed s)] \<and>
     (\<forall>t u. in_section (workers s t) \<and> in_section (workers s u) \<longrightarrow> t = u) \<and>
     (length (handed s) \<le> 2 ^ 32 \<longrightarrow> distinct (handed s))"
proof -
  from assms have inv: "pool_inv s" by (rule pool.reachable_inv)
  then have h: "handed s = map (\<lambda>k. wrap32 (int k)) [0..<length (handed s)]"
    and one: "\<forall>t u. in_section (workers s t) \<and> in_section (workers s u) \<longrightarrow> t = u"
    by (simp_all add: pool_inv_def) (metis option.inject)
  have "distinct (handed s)" if "length (handed s) \<le> 2 ^ 32"
  proof (subst h, subst distinct_map, intro conjI distinct_upt)
    show "inj_on (\<lambda>k. wrap32 (int k)) (set [0..<length (handed s)])"
      by (rule inj_onI) (use that in \<open>auto intro: wrap32_inj\<close>)
  qed
  with h one show ?thesis by blast
qed

theorem pool_request_ids_witness:
  "\<exists>s. run (pool_step demo_os 2) [Accept 0 4, Accept 1 5, Work 0, Work 0, Work 0, Work 0, Work 1, Work 1]
       (pool_init 2) = Some s \<and> handed s = [0, 1] \<and> distinct (handed s)"
proof -
  let ?sched = "[Accept 0 4, Accept 1 5, Work 0, Work 0, Work 0, Work 0, Work 1, Work 1]"
  obtain s where s: "run (pool_step demo_os 2) ?sched (pool_init 2) = Some s" "handed s = [0, 1]"
    by (simp add: pool_step_def pool_init_def work_step_def set_pc_def wrap32_def mutex_lock_def)
  from pool_request_ids [OF run_reachable [OF s(1)]] s(2) have "distinct (handed s)" by simp
  with s show ?thesis by blast
qed

subsection \<open>Shutting down\<close>

text \<open>
  After \<open>exit\<close> has been typed every worker has only a bounded number of statements left: the
  measure is 6 for a worker that has a connection and 1 for one waiting in \<open>accept\<close>.
\<close>

fun left :: "worker_pc \<Rightarrow> nat" where
  "left AtLock = 6" | "left AtRead = 5" | "left AtBump = 4" | "left AtUnlock = 3"
| "left Serving = 2" | "left AtAccept = 1" | "left Exited = 0" | "left Hung = 0"

definition closing_inv :: "nat \<Rightarrow> pool \<Rightarrow> bool" where
  "closing_inv n s \<longleftrightarrow> pool_inv s \<and> \<not> socket_open s \<and> main_at s \<noteq> Reading \<and>
     (\<forall>j. main_at s = Joining j \<longrightarrow> j \<le> n) \<and> (\<forall>t. gLock s = Some t \<longrightarrow> t < n)"

definition main_left :: "nat \<Rightarrow> main_pc \<Rightarrow> nat" where
  "main_left n m = (case m of Reading \<Rightarrow> n + 2 | Joining j \<Rightarrow> Suc (n - j) | Returned r \<Rightarrow> 0)"

definition closing_msr :: "nat \<Rightarrow> pool \<Rightarrow> nat" where
  "closing_msr n s = (\<Sum>t < n. left (w_pc (workers s t))) + main_left n (main_at s) +
     (if crashed s then 0 else 1)"

text \<open>The end: \<open>main\<close> returned, a thread crashed the process, or a worker never returns.\<close>

definition closing_final :: "nat \<Rightarrow> pool \<Rightarrow> bool" where
  "closing_final n s \<longleftrightarrow> crashed s \<or> returned (main_at s) \<or> (\<exists>t < n. w_pc (workers s t) = Hung)"

lemma sum_left_less:
  fixes n t :: nat
  assumes "t < n" "\<And>u. u \<noteq> t \<Longrightarrow> g u = f u" "g t < f t"
  shows "(\<Sum>u < n. (g u :: nat)) < (\<Sum>u < n. f u)"
proof (rule sum_strict_mono_ex1)
  show "\<forall>u \<in> {..<n}. g u \<le> f u"
  proof
    fix u show "g u \<le> f u" using assms by (cases "u = t") auto
  qed
qed (use assms in auto)

lemma msr_set_pc:
  assumes "t < n" "left p < left (w_pc (workers s t))" "workers u = workers s" "main_at u = main_at s"
    "crashed u = crashed s"
  shows "closing_msr n (set_pc t p u) < closing_msr n s"
proof -
  have "(\<Sum>v < n. left (w_pc (workers (set_pc t p u) v))) < (\<Sum>v < n. left (w_pc (workers s v)))"
    by (rule sum_left_less [OF assms(1)]) (use assms in \<open>auto simp: set_pc_def\<close>)
  with assms(3-) show ?thesis by (simp add: closing_msr_def set_pc_def)
qed

lemma closing_work:
  assumes "work_step t s = Some s'" "t < n"
  shows "closing_msr n s' < closing_msr n s"
proof -
  have "closing_msr n (s\<lparr>workers := (workers s)(t := (workers s t)\<lparr>w_pc := AtBump, request_id := x\<rparr>),
      handed := h\<rparr>) = closing_msr n (set_pc t AtBump s)" for x h
    unfolding closing_msr_def set_pc_def by (auto intro: sum.cong)
  with assms show ?thesis
    by (cases "w_pc (workers s t)")
      (auto simp: work_step_def split: option.splits intro!: msr_set_pc)
qed

lemma closing_serve:
  assumes "serve_step w t rcv strf s = Some s'" "t < n" "\<not> crashed s"
  shows "closing_msr n s' < closing_msr n s"
  using assms
  by (auto simp: serve_step_def split: if_splits option.splits sum.splits intro!: msr_set_pc)
    (simp add: closing_msr_def)

lemma closing_decreases:
  assumes inv: "closing_inv n s" and st: "pool_step w n a s = Some s'"
  shows "closing_msr n s' < closing_msr n s"
proof (cases a)
  case (AcceptFails t e)
  with inv st show ?thesis
    by (auto simp: pool_step_def closing_inv_def split: if_splits intro!: msr_set_pc)
next
  case (Work t)
  with st closing_work show ?thesis by (auto simp: pool_step_def split: if_splits)
next
  case (Serve t rcv strf)
  with st closing_serve show ?thesis by (auto simp: pool_step_def split: if_splits)
next
  case Join
  with inv st show ?thesis
    by (auto simp: pool_step_def main_step_def closing_inv_def closing_msr_def main_left_def
        split: if_splits main_pc.splits)
qed (use inv st in \<open>auto simp: pool_step_def main_step_def closing_inv_def split: if_splits main_pc.splits\<close>)

lemma closing_keeps:
  assumes inv: "closing_inv n s" and st: "pool_step w n a s = Some s'"
  shows "closing_inv n s'"
proof -
  have p: "pool_inv s'" using inv st pool_step_inv by (auto simp: closing_inv_def)
  have fr: "\<not> socket_open s' \<and> main_at s' \<noteq> Reading \<and> (\<forall>j. main_at s' = Joining j \<longrightarrow> j \<le> n) \<and>
      (\<forall>t. gLock s' = Some t \<longrightarrow> t < n)"
    using inv st
    by (cases a)
      (auto simp: closing_inv_def pool_step_def work_step_def serve_step_def set_pc_def main_step_def
        split: if_splits option.splits sum.splits worker_pc.splits main_pc.splits)
  from p fr show ?thesis by (simp add: closing_inv_def)
qed

lemma closing_progress:
  assumes inv: "closing_inv n s" and nf: "\<not> closing_final n s"
  shows "\<exists>a s'. pool_step w n a s = Some s'"
proof -
  have go: "\<not> crashed s" "\<not> returned (main_at s)" using nf by (simp_all add: closing_final_def)
  from inv go(2) obtain j where j: "main_at s = Joining j" "j \<le> n"
    by (cases "main_at s") (auto simp: closing_inv_def)
  have work: "\<exists>a s'. pool_step w n a s = Some s'" if "t < n" "in_section (workers s t)" for t
  proof -
    from that(2) obtain s' where "work_step t s = Some s'"
      by (cases "w_pc (workers s t)") (auto simp: in_section_def work_step_def)
    with that(1) go have "pool_step w n (Work t) s = Some s'" by (simp add: pool_step_def)
    then show ?thesis by blast
  qed
  show ?thesis
  proof (cases "j = n \<or> w_pc (workers s j) = Exited")
    case True
    then have "\<exists>s'. pool_step w n Join s = Some s'" using go j by (auto simp: pool_step_def main_step_def)
    then show ?thesis by blast
  next
    case False
    with j have jn: "j < n" "w_pc (workers s j) \<noteq> Exited" by auto
    then have nh: "w_pc (workers s j) \<noteq> Hung" using nf by (auto simp: closing_final_def)
    show ?thesis
    proof (cases "w_pc (workers s j)")
      case AtAccept
      then have "pool_step w n (AcceptFails j 22) s = Some (set_pc j Exited s)"
        using go jn by (simp add: pool_step_def)
      then show ?thesis by blast
    next
      case AtLock
      show ?thesis
      proof (cases "gLock s")
        case None
        with AtLock jn(1) go have "\<exists>s'. pool_step w n (Work j) s = Some s'"
          by (simp add: pool_step_def work_step_def mutex_lock_def)
        then show ?thesis by blast
      next
        case (Some t)
        with inv have "t < n" "in_section (workers s t)" by (auto simp: closing_inv_def pool_inv_def)
        then show ?thesis by (rule work)
      qed
    next
      case Serving
      then have "pool_step w n (Serve j RecvError None) s =
          Some (set_pc j AtAccept (s\<lparr>trace := trace s @ [Perror ''recv()'']\<rparr>))"
        using go jn by (simp add: pool_step_def serve_step_def process_request_def)
      then show ?thesis by blast
    qed (use jn nh work in \<open>auto simp: in_section_def\<close>)
  qed
qed

lemma closing_terminates:
  assumes "closing_inv n s0"
  shows "terminating_system (pool_step w n) s0 (closing_inv n) (closing_msr n) (closing_final n)"
proof unfold_locales
qed (use assms closing_keeps closing_decreases closing_progress in blast)+

lemma pool_holder_bound:
  "reachable (pool_step w n) (pool_init n) s \<Longrightarrow> gLock s = Some t \<Longrightarrow> t < n"
proof (induction arbitrary: t rule: reachable.induct)
  case start
  then show ?case by (simp add: pool_init_def)
next
  case (move s a u)
  then show ?case
    by (cases a)
      (auto simp: pool_step_def work_step_def serve_step_def set_pc_def main_step_def
        split: if_splits option.splits sum.splits worker_pc.splits main_pc.splits)
qed



end
