(* ===== verification/Counters.thy ===== *)
theory Counters
  imports Pthread_Lib C_Runtime
begin

section \<open>Two threads that count together\<close>

text \<open>
  The programs \<open>thread_with_mutex.c\<close>, \<open>thread_with_sem.c\<close>, \<open>thread_no_sem.c\<close>, \<open>2thread_count.c\<close>,
  \<open>2thread_error_count.c\<close>, \<open>2thread_error_count_1.c\<close> and \<open>2thread_join.c\<close> of \<open>src/Pthread\<close>:
  two threads increment the global \<open>count\<close> in a loop, inside a lock or not, and \<open>main\<close> prints it.
  The loop is the same in all of them up to the lock; an increment is a load, an addition and a
  store (\<open>count++\<close> as well as the version with \<open>tmp\<close>).  \<open>acquire\<close> and \<open>release\<close> are the calls that
  bracket it, the number of iterations may differ per thread.
\<close>

datatype add_pc = NotStarted | AtTest | AtAcquire | AtLoad | AtAdd | AtStore | AtRelease | AtNext | Finished

record adder =
  apc :: add_pc
  idx :: nat
  tmp :: int

record 'l adders = process +
  count :: int
  lck :: 'l
  adder :: "tid \<Rightarrow> adder"

definition goto :: "tid \<Rightarrow> add_pc \<Rightarrow> ('l, 'z) adders_scheme \<Rightarrow> ('l, 'z) adders_scheme" where
  "goto t p s = s\<lparr>adder := (adder s)(t := (adder s t)\<lparr>apc := p\<rparr>)\<rparr>"

text \<open>One statement of \<open>ThreadAdd\<close> (\<open>count_function\<close>).\<close>

definition ThreadAdd ::
  "(tid \<Rightarrow> 'l \<Rightarrow> 'l option) \<Rightarrow> ('l \<Rightarrow> 'l) \<Rightarrow> (tid \<Rightarrow> nat) \<Rightarrow> tid \<Rightarrow> 'l adders \<Rightarrow> 'l adders option" where
  "ThreadAdd acquire release niter t s =
     (let a = adder s t in
      case apc a of
        AtTest \<Rightarrow> Some (goto t (if idx a < niter t then AtAcquire else Finished) s)
      | AtAcquire \<Rightarrow> (case acquire t (lck s) of None \<Rightarrow> None | Some l \<Rightarrow> Some (goto t AtLoad (s\<lparr>lck := l\<rparr>)))
      | AtLoad \<Rightarrow> Some (s\<lparr>adder := (adder s)(t := a\<lparr>apc := AtAdd, tmp := count s\<rparr>)\<rparr>)
      | AtAdd \<Rightarrow> Some (s\<lparr>adder := (adder s)(t := a\<lparr>apc := AtStore, tmp := tmp a + 1\<rparr>)\<rparr>)
      | AtStore \<Rightarrow> Some (goto t AtRelease (s\<lparr>count := tmp a\<rparr>))
      | AtRelease \<Rightarrow> Some (goto t AtNext (s\<lparr>lck := release (lck s)\<rparr>))
      | AtNext \<Rightarrow> Some (s\<lparr>adder := (adder s)(t := a\<lparr>apc := AtTest, idx := idx a + 1\<rparr>)\<rparr>)
      | _ \<Rightarrow> None)"

definition adder_status :: "tid \<Rightarrow> 'l adders \<Rightarrow> thread_status" where
  "adder_status t s =
     (case apc (adder s t) of NotStarted \<Rightarrow> Unborn | Finished \<Rightarrow> Dead | _ \<Rightarrow> Live)"

text \<open>The texts \<open>main\<close> prints: number 0 is the check of \<open>thread_*.c\<close>, number 1 that of \<open>2thread_*.c\<close>.\<close>

definition check_text :: "nat \<Rightarrow> int \<Rightarrow> string" where
  "check_text n c =
     (if c < 2 * int n
      then [nl] @ '' BOOM! count is ['' @ show_int c @ ''], should be '' @ show_int (2 * int n) @ [nl]
      else [nl] @ '' OK! count is ['' @ show_int c @ '']'' @ [nl])"

definition count_text :: "int \<Rightarrow> string" where
  "count_text c = ''count= '' @ show_int c @ [nl]"

definition adders_report :: "(tid \<Rightarrow> nat) \<Rightarrow> nat \<Rightarrow> 'l adders \<Rightarrow> string" where
  "adders_report niter k s = (if k = 0 then check_text (niter 0) (count s) else count_text (count s))"

definition adders_step ::
  "(tid \<Rightarrow> 'l \<Rightarrow> 'l option) \<Rightarrow> ('l \<Rightarrow> 'l) \<Rightarrow> (tid \<Rightarrow> nat) \<Rightarrow> act \<Rightarrow> 'l adders \<Rightarrow> 'l adders option" where
  "adders_step acquire release niter a s =
     (if ending s \<noteq> Running then None
      else case a of
        Main ok \<Rightarrow> main_next (\<lambda>t. goto t AtTest) adder_status (adders_report niter) ok s
      | Thread t \<Rightarrow> ThreadAdd acquire release niter t s)"

definition adders_init :: "main_op list \<Rightarrow> 'l \<Rightarrow> 'l adders" where
  "adders_init ops l = \<lparr>todo = ops, console = [], ending = Running, count = 0, lck = l,
     adder = (\<lambda>_. \<lparr>apc = NotStarted, idx = 0, tmp = 0\<rparr>)\<rparr>"

subsection \<open>The programs\<close>

definition NITER :: nat where "NITER = 1000000"

definition thread_main :: "main_op list" where
  "thread_main =
     [Create 0 (Reports ([nl] @ '' ERROR creating thread 1'')),
      Create 1 (Reports ([nl] @ '' ERROR creating thread 2'')),
      Joins 0 (Reports ([nl] @ '' ERROR joining thread'')),
      Joins 1 (Reports ([nl] @ '' ERROR joining thread'')),
      Report 0, PthreadExit]"

definition thread_with_mutex :: "act \<Rightarrow> mutex adders \<Rightarrow> mutex adders option" where
  "thread_with_mutex = adders_step mutex_lock mutex_unlock (\<lambda>_. NITER)"

definition thread_with_sem :: "act \<Rightarrow> sem adders \<Rightarrow> sem adders option" where
  "thread_with_sem = adders_step sem_acquire sem_post (\<lambda>_. NITER)"

text \<open>Without a lock the two bracketing calls do nothing.\<close>

definition thread_no_sem :: "act \<Rightarrow> unit adders \<Rightarrow> unit adders option" where
  "thread_no_sem = adders_step (\<lambda>t l. Some l) id (\<lambda>_. NITER)"

definition count_main :: "main_op list" where
  "count_main = [Create 0 Ignored, Create 1 Ignored, Joins 0 Ignored, Joins 1 Ignored, Report 1, Return 0]"

definition twothread_count :: "act \<Rightarrow> mutex adders \<Rightarrow> mutex adders option" where
  "twothread_count = adders_step mutex_lock mutex_unlock (\<lambda>_. 1000000)"

definition error_count_main :: "main_op list" where
  "error_count_main = [Create 0 Asserts, Create 1 Asserts, Report 1, Return 0]"

definition error_count_1_main :: "main_op list" where
  "error_count_1_main = [Create 0 Ignored, Create 1 Ignored, Joins 1 Ignored, Report 1, Return 0]"

definition twothread_error_count :: "act \<Rightarrow> unit adders \<Rightarrow> unit adders option" where
  "twothread_error_count = adders_step (\<lambda>t l. Some l) id (\<lambda>_. 1000000)"

subsection \<open>What holds with a lock\<close>

definition in_lock :: "adder \<Rightarrow> bool" where
  "in_lock a \<longleftrightarrow> apc a \<in> {AtLoad, AtAdd, AtStore, AtRelease}"

definition incs :: "adder \<Rightarrow> nat" where
  "incs a = idx a + (if apc a \<in> {AtRelease, AtNext} then 1 else 0)"

definition in_loop :: "adder \<Rightarrow> bool" where
  "in_loop a \<longleftrightarrow> apc a \<in> {AtAcquire, AtLoad, AtAdd, AtStore, AtRelease, AtNext}"

text \<open>Life of the threads and of \<open>main\<close>: independent of the lock.\<close>

definition adder_ok :: "nat \<Rightarrow> adder \<Rightarrow> bool" where
  "adder_ok n a \<longleftrightarrow> idx a \<le> n \<and> (in_loop a \<longrightarrow> idx a < n) \<and>
     (apc a = NotStarted \<longrightarrow> idx a = 0) \<and> (apc a = Finished \<longrightarrow> idx a = n)"

definition life_inv :: "(tid \<Rightarrow> nat) \<Rightarrow> 'l adders \<Rightarrow> bool" where
  "life_inv niter s \<longleftrightarrow>
     wf_main 2 (todo s) \<and>
     (\<forall>t. t \<ge> 2 \<or> creates t (todo s) \<longrightarrow> apc (adder s t) = NotStarted) \<and>
     (\<forall>t. adder_ok (niter t) (adder s t))"

definition joined :: "'l adders \<Rightarrow> bool" where
  "joined s \<longleftrightarrow> (\<forall>t < 2. \<not> joins t (todo s) \<longrightarrow> apc (adder s t) = Finished)"

definition tmp_ok :: "int \<Rightarrow> adder \<Rightarrow> bool" where
  "tmp_ok c a \<longleftrightarrow> (apc a = AtAdd \<longrightarrow> tmp a = c) \<and> (apc a = AtStore \<longrightarrow> tmp a = c + 1)"

definition total_incs :: "(tid \<Rightarrow> adder) \<Rightarrow> int" where
  "total_incs f = int (incs (f 0) + incs (f 1))"

text \<open>\<open>owner\<close> is the thread inside the lock, if any.\<close>

definition guarded ::
  "('l \<Rightarrow> bool) \<Rightarrow> ('l \<Rightarrow> bool) \<Rightarrow> tid option \<Rightarrow> 'l adders \<Rightarrow> bool" where
  "guarded held valid owner s \<longleftrightarrow>
     valid (lck s) \<and> (held (lck s) \<longleftrightarrow> owner \<noteq> None) \<and>
     (\<forall>t. in_lock (adder s t) \<longleftrightarrow> owner = Some t) \<and>
     (\<forall>t. tmp_ok (count s) (adder s t)) \<and>
     count s = total_incs (adder s)"

text \<open>What main has printed, followed by what it is going to print.\<close>

definition pending :: "main_op list \<Rightarrow> nat list" where
  "pending ops = concat (map (\<lambda>q. case q of Report k \<Rightarrow> [k] | _ \<Rightarrow> []) ops)"

definition total_text :: "(tid \<Rightarrow> nat) \<Rightarrow> nat \<Rightarrow> string" where
  "total_text niter k =
     (let c = int (niter 0 + niter 1) in if k = 0 then check_text (niter 0) c else count_text c)"

definition printed :: "(tid \<Rightarrow> nat) \<Rightarrow> main_op list \<Rightarrow> 'l adders \<Rightarrow> bool" where
  "printed niter ops s \<longleftrightarrow>
     (ending s \<in> {Running, Exited 0} \<longrightarrow>
       console s @ map (total_text niter) (pending (todo s)) = map (total_text niter) (pending ops))"

lemma pending_simps [simp]:
  "pending [] = []"
  "pending (Create u e # ops) = pending ops"
  "pending (Joins u e # ops) = pending ops"
  "pending (Report k # ops) = k # pending ops"
  "pending (Return r # ops) = pending ops"
  "pending (PthreadExit # ops) = pending ops"
  by (auto simp: pending_def)

lemmas adder_defs = goto_def in_lock_def in_loop_def incs_def Let_def

text \<open>A step is a call of main or a statement of a thread; the thread steps change one adder only.\<close>

lemma adders_stepE:
  assumes "adders_step acquire release niter a s = Some s'"
  obtains (main) ok where "a = Main ok" "ending s = Running"
      "main_next (\<lambda>t. goto t AtTest) adder_status (adders_report niter) ok s = Some s'"
    | (thread) t where "a = Thread t" "ending s = Running" "ThreadAdd acquire release niter t s = Some s'"
  using assms by (auto simp: adders_step_def split: if_splits act.splits)

lemma main_nextE:
  assumes "main_next (\<lambda>t. goto t AtTest) adder_status r ok (s :: 'l adders) = Some s'"
  obtains (create) t e ops where "todo s = Create t e # ops" "s' = goto t AtTest (s\<lparr>todo := ops\<rparr>)"
    | (failed) q e ops where "todo s = q # ops" "(\<exists>t. q = Create t e) \<or> (\<exists>t. q = Joins t e \<and> apc (adder s t) = Finished)"
        "s' = call_failed e ops s"
    | (unborn) t e ops where "todo s = Joins t e # ops" "s' = s\<lparr>ending := Undefined\<rparr>"
    | (join) t e ops where "todo s = Joins t e # ops" "apc (adder s t) = Finished" "s' = s\<lparr>todo := ops\<rparr>"
    | (report) k ops where "todo s = Report k # ops" "s' = s\<lparr>todo := ops, console := console s @ [r k s]\<rparr>"
    | (return) x ops where "todo s = Return x # ops" "s' = s\<lparr>ending := Exited x\<rparr>"
    | (pexit) ops where "todo s = PthreadExit # ops" "s' = s\<lparr>todo := []\<rparr>"
  using assms
  by (cases "todo s")
    (auto simp: main_next_def adder_status_def split: main_op.splits if_splits add_pc.splits thread_status.splits)

lemma call_failed_cases:
  "call_failed e ops s = s\<lparr>todo := ops\<rparr> \<or>
   (\<exists>c x. call_failed e ops s = s\<lparr>console := c, ending := x\<rparr> \<and> x \<noteq> Running \<and> x \<noteq> Exited 0)"
proof (cases e)
  case Asserts
  then have "call_failed e ops s = s\<lparr>console := console s, ending := Aborted\<rparr>"
    by (simp add: call_failed_def)
  then show ?thesis by blast
next
  case (Reports msg)
  then have "call_failed e ops s = s\<lparr>console := console s @ [msg], ending := Exited 1\<rparr>"
    by (simp add: call_failed_def)
  moreover have "Exited 1 \<noteq> Running" "Exited 1 \<noteq> Exited 0" by simp_all
  ultimately show ?thesis by blast
qed (simp add: call_failed_def)

lemma ThreadAddE:
  assumes "ThreadAdd acquire release niter t s = Some s'"
  obtains (test) "apc (adder s t) = AtTest" "idx (adder s t) < niter t" "s' = goto t AtAcquire s"
    | (leave) "apc (adder s t) = AtTest" "\<not> idx (adder s t) < niter t" "s' = goto t Finished s"
    | (acquire) l where "apc (adder s t) = AtAcquire" "acquire t (lck s) = Some l" "s' = goto t AtLoad (s\<lparr>lck := l\<rparr>)"
    | (load) "apc (adder s t) = AtLoad"
        "s' = s\<lparr>adder := (adder s)(t := (adder s t)\<lparr>apc := AtAdd, tmp := count s\<rparr>)\<rparr>"
    | (add) "apc (adder s t) = AtAdd"
        "s' = s\<lparr>adder := (adder s)(t := (adder s t)\<lparr>apc := AtStore, tmp := tmp (adder s t) + 1\<rparr>)\<rparr>"
    | (store) "apc (adder s t) = AtStore" "s' = goto t AtRelease (s\<lparr>count := tmp (adder s t)\<rparr>)"
    | (release) "apc (adder s t) = AtRelease" "s' = goto t AtNext (s\<lparr>lck := release (lck s)\<rparr>)"
    | (again) "apc (adder s t) = AtNext"
        "s' = s\<lparr>adder := (adder s)(t := (adder s t)\<lparr>apc := AtTest, idx := idx (adder s t) + 1\<rparr>)\<rparr>"
proof (cases "apc (adder s t)")
  case AtTest
  then show ?thesis using assms that(1,2) by (cases "idx (adder s t) < niter t") (simp_all add: ThreadAdd_def)
next
  case AtAcquire
  then obtain l where "acquire t (lck s) = Some l" "s' = goto t AtLoad (s\<lparr>lck := l\<rparr>)"
    using assms by (auto simp: ThreadAdd_def split: option.splits)
  with AtAcquire show ?thesis by (rule that(3))
next
  case AtLoad
  then show ?thesis using assms by (intro that(4)) (simp_all add: ThreadAdd_def)
next
  case AtAdd
  then show ?thesis using assms by (intro that(5)) (simp_all add: ThreadAdd_def Let_def)
next
  case AtStore
  then show ?thesis using assms by (intro that(6)) (simp_all add: ThreadAdd_def)
next
  case AtRelease
  then show ?thesis using assms by (intro that(7)) (simp_all add: ThreadAdd_def)
next
  case AtNext
  then show ?thesis using assms by (intro that(8)) (simp_all add: ThreadAdd_def Let_def)
qed (use assms in \<open>simp_all add: ThreadAdd_def\<close>)

lemma life_inv_init: "wf_main 2 ops \<Longrightarrow> life_inv niter (adders_init ops l)"
  by (simp add: life_inv_def adders_init_def in_loop_def adder_ok_def)

lemma ThreadAdd_frame:
  assumes "ThreadAdd acquire release niter t s = Some s'"
  shows "todo s' = todo s" "console s' = console s" "ending s' = ending s"
    "adder s' = (adder s)(t := adder s' t)"
    "apc (adder s t) \<noteq> NotStarted" "apc (adder s t) \<noteq> Finished"
  using assms by (cases rule: ThreadAddE; simp add: goto_def)+

lemma life_inv_thread:
  assumes inv: "life_inv niter s" and st: "ThreadAdd acquire release niter t s = Some s'"
  shows "life_inv niter s'"
proof -
  have "adder_ok (niter t) (adder s t)" using inv by (simp add: life_inv_def)
  with st have t: "adder_ok (niter t) (adder s' t)"
    by (cases rule: ThreadAddE) (auto simp: adder_ok_def adder_defs)
  have b: "t < 2" "\<not> creates t (todo s)"
    using inv ThreadAdd_frame(5) [OF st] unfolding life_inv_def by (meson not_less)+
  show ?thesis
    using inv t b unfolding life_inv_def ThreadAdd_frame(1) [OF st]
    by (subst (1 2) ThreadAdd_frame(4) [OF st]) auto
qed

lemma life_inv_main:
  assumes inv: "life_inv niter s"
    and st: "main_next (\<lambda>t. goto t AtTest) adder_status r ok s = Some s'"
  shows "life_inv niter s'"
  using st
proof (cases rule: main_nextE)
  case (create t e ops)
  have "apc (adder s t) = NotStarted" "t < 2" "\<not> creates t ops" "wf_main 2 ops" "adder_ok (niter t) (adder s t)"
    using inv create by (auto simp: life_inv_def)
  then show ?thesis using inv create by (auto simp: life_inv_def goto_def adder_ok_def in_loop_def)
next
  case (failed q e ops)
  with inv show ?thesis
    using call_failed_cases [of e ops s] by (auto simp: life_inv_def)
qed (use inv in \<open>auto simp: life_inv_def\<close>)

lemma joined_step:
  assumes "joined s" "adders_step acquire release niter a s = Some s'" "life_inv niter s"
  shows "joined s'"
  using assms(2)
proof (cases rule: adders_stepE)
  case (main ok)
  from main(3) show ?thesis
  proof (cases rule: main_nextE)
    case (create t e ops)
    then have "apc (adder s t) = NotStarted" using assms(3) by (auto simp: life_inv_def)
    with create assms(1) show ?thesis by (auto simp: joined_def goto_def)
  next
    case (failed q e ops)
    with assms(1) show ?thesis using call_failed_cases [of e ops s] by (auto simp: joined_def)
  qed (use assms in \<open>auto simp: joined_def life_inv_def\<close>)
next
  case (thread t)
  have "apc (adder s t) \<noteq> Finished" "todo s' = todo s" using ThreadAdd_frame [OF thread(3)] by auto
  then show ?thesis
    using assms(1) unfolding joined_def by (subst ThreadAdd_frame(4) [OF thread(3)]) auto
qed

subsection \<open>The lock's client\<close>

text \<open>The process can still move, with a bound on how often.\<close>

definition thread_left :: "nat \<Rightarrow> adder \<Rightarrow> nat" where
  "thread_left n a =
     (case apc a of
        NotStarted \<Rightarrow> 8 * n + 9 | AtTest \<Rightarrow> 8 * (n - idx a) + 8 | AtAcquire \<Rightarrow> 8 * (n - idx a) + 7
      | AtLoad \<Rightarrow> 8 * (n - idx a) + 6 | AtAdd \<Rightarrow> 8 * (n - idx a) + 5 | AtStore \<Rightarrow> 8 * (n - idx a) + 4
      | AtRelease \<Rightarrow> 8 * (n - idx a) + 3 | AtNext \<Rightarrow> 8 * (n - idx a) + 2 | Finished \<Rightarrow> 0)"

definition adders_left :: "(tid \<Rightarrow> nat) \<Rightarrow> 'l adders \<Rightarrow> nat" where
  "adders_left niter s =
     thread_left (niter 0) (adder s 0) + thread_left (niter 1) (adder s 1) + 2 * length (todo s)
     + (if ending s = Running then 1 else 0)"

definition adders_over :: "'l adders \<Rightarrow> bool" where
  "adders_over s \<longleftrightarrow> ending s \<noteq> Running \<or> (todo s = [] \<and> (\<forall>t < 2. apc (adder s t) = Finished))"

definition adders_inv ::
  "('l \<Rightarrow> bool) \<Rightarrow> ('l \<Rightarrow> bool) \<Rightarrow> (tid \<Rightarrow> nat) \<Rightarrow> main_op list \<Rightarrow> 'l adders \<Rightarrow> bool" where
  "adders_inv held valid niter ops s \<longleftrightarrow>
     life_inv niter s \<and> joined s \<and> (\<exists>owner. guarded held valid owner s) \<and> printed niter ops s"

lemma printed_step:
  assumes inv: "life_inv niter s" "joined s" "printed niter ops s"
    and cnt: "count s = total_incs (adder s)"
    and st: "adders_step acquire release niter a s = Some s'"
  shows "printed niter ops s'"
  using st
proof (cases rule: adders_stepE)
  case (main ok)
  from main(3) show ?thesis
  proof (cases rule: main_nextE)
    case (report k ops')
    then have "apc (adder s 0) = Finished" "apc (adder s 1) = Finished"
      using inv(1,2) by (simp_all add: life_inv_def joined_def all_less_2)
    then have "count s = int (niter 0 + niter 1)"
      using inv(1) cnt by (simp add: life_inv_def adder_ok_def total_incs_def incs_def)
    then show ?thesis
      using inv(3) report main(2) by (auto simp: printed_def total_text_def adders_report_def Let_def split: if_splits)
  next
    case (failed q e ops')
    with inv(3) main(2) show ?thesis
      using call_failed_cases [of e ops' s] by (auto simp: printed_def)
  qed (use inv main(2) in \<open>auto simp: printed_def life_inv_def goto_def\<close>)
next
  case (thread t)
  show ?thesis using inv(3) ThreadAdd_frame(1-3) [OF thread(3)] by (simp add: printed_def)
qed

lemma adders_left_step:
  assumes inv: "life_inv niter s" and st: "adders_step acquire release niter a s = Some s'"
  shows "adders_left niter s' < adders_left niter s"
  using st
proof (cases rule: adders_stepE)
  case (main ok)
  from main(3) show ?thesis
  proof (cases rule: main_nextE)
    case (create t e ops)
    then have "apc (adder s t) = NotStarted" "t < 2" "adder_ok (niter t) (adder s t)"
      using inv by (auto simp: life_inv_def)
    with create main(2) show ?thesis
      by (auto simp: adders_left_def thread_left_def goto_def adder_ok_def all_less_2 numeral_2_eq_2 less_Suc_eq)
  next
    case (failed q e ops)
    with main(2) show ?thesis using call_failed_cases [of e ops s] by (auto simp: adders_left_def)
  qed (use main(2) in \<open>auto simp: adders_left_def\<close>)
next
  case (thread t)
  have "t < 2" using inv ThreadAdd_frame(5) [OF thread(3)] unfolding life_inv_def by (meson not_less)
  then have t: "t = 0 \<or> t = 1" by auto
  have "adder_ok (niter t) (adder s t)" using inv by (simp add: life_inv_def)
  with thread(3) have "thread_left (niter t) (adder s' t) < thread_left (niter t) (adder s t)"
    by (cases rule: ThreadAddE) (auto simp: adder_ok_def adder_defs thread_left_def)
  moreover have "adder s' u = adder s u" if "u \<noteq> t" for u
    by (subst ThreadAdd_frame(4) [OF thread(3)]) (use that in simp)
  ultimately show ?thesis
    using t ThreadAdd_frame(1,3) [OF thread(3)] by (auto simp: adders_left_def)
qed

lemma guarded_frame [simp]:
  "guarded held valid owner (s\<lparr>todo := ops\<rparr>) = guarded held valid owner s"
  "guarded held valid owner (s\<lparr>console := c\<rparr>) = guarded held valid owner s"
  "guarded held valid owner (s\<lparr>ending := x\<rparr>) = guarded held valid owner s"
  by (simp_all add: guarded_def)

lemma adder_status_Live [simp]: "adder_status t s = Live \<longleftrightarrow> apc (adder s t) \<notin> {NotStarted, Finished}"
  by (auto simp: adder_status_def split: add_pc.splits)

lemma guarded_update:
  assumes "guarded held valid owner s" "t < 2" "valid l" "held l \<longleftrightarrow> owner' \<noteq> None"
    and "in_lock x \<longleftrightarrow> owner' = Some t" "\<And>u. u \<noteq> t \<Longrightarrow> owner = Some u \<longleftrightarrow> owner' = Some u"
    and "tmp_ok c x" "\<And>u. u \<noteq> t \<Longrightarrow> tmp_ok c (adder s u)"
    and "c - int (incs x) = count s - int (incs (adder s t))"
    and "s' = s\<lparr>adder := (adder s)(t := x), lck := l, count := c\<rparr>"
  shows "guarded held valid owner' s'"
proof -
  have "t = 0 \<or> t = 1" using assms(2) by auto
  then have "c = total_incs ((adder s)(t := x))"
    using assms(1,9) by (auto simp: guarded_def total_incs_def)
  then show ?thesis using assms(1,3-8) unfolding assms(10) guarded_def by auto
qed

text \<open>
  Clients of \<open>lock\<close>: the counter is the number of increments done, nobody is stuck, and what
  \<open>main\<close> prints is the total.
\<close>

context lock
begin

lemma guarded_thread:
  assumes inv: "guarded held valid owner s" and ok: "life_inv niter s"
    and st: "ThreadAdd acquire release niter t s = Some s'"
  shows "\<exists>owner'. guarded held valid owner' s'"
proof -
  have t: "t < 2" using ok ThreadAdd_frame(5) [OF st] unfolding life_inv_def by (meson not_less)
  have v: "valid (lck s)" "held (lck s) \<longleftrightarrow> owner \<noteq> None" "tmp_ok (count s) (adder s u)"
    "in_lock (adder s u) \<longleftrightarrow> owner = Some u" for u
    using inv unfolding guarded_def by blast+
  note upd = guarded_update [OF inv t, where s' = s']
  have keep: "\<exists>owner'. guarded held valid owner' s'"
    if "s' = s\<lparr>adder := (adder s)(t := x)\<rparr>" "in_lock x \<longleftrightarrow> in_lock (adder s t)"
      "tmp_ok (count s) x" "incs x = incs (adder s t)" for x
    using that v by (intro exI [of _ owner] upd [of "lck s" owner x "count s"]) auto
  from st show ?thesis
  proof (cases rule: ThreadAddE)
    case (acquire l)
    then have "\<not> held (lck s)" "valid l" "held l" using acquire_SomeD v(1) by auto
    with acquire v show ?thesis
      by (intro exI [of _ "Some t"] upd [of l _ "(adder s t)\<lparr>apc := AtLoad\<rparr>" "count s"])
        (auto simp: adder_defs tmp_ok_def)
  next
    case release
    then have "owner = Some t" using v(4) [of t] by (simp add: in_lock_def)
    moreover from this have "valid (release (lck s))" "\<not> held (release (lck s))"
      using release_free v(1,2) by auto
    ultimately show ?thesis using release v(3)
      by (intro exI [of _ None] upd [of "release (lck s)" _ "(adder s t)\<lparr>apc := AtNext\<rparr>" "count s"])
        (auto simp: adder_defs tmp_ok_def)
  next
    case store
    then have o: "owner = Some t" using v(4) [of t] by (simp add: in_lock_def)
    then have "\<not> in_lock (adder s u)" if "u \<noteq> t" for u using v(4) [of u] that by simp
    then have "tmp_ok c (adder s u)" if "u \<noteq> t" for u c
      using that by (auto simp: tmp_ok_def in_lock_def)
    moreover have "tmp (adder s t) = count s + 1" using v(3) [of t] store by (simp add: tmp_ok_def)
    ultimately show ?thesis using store v(1,2) o
      by (intro exI [of _ owner] upd [of "lck s" _ "(adder s t)\<lparr>apc := AtRelease\<rparr>" "tmp (adder s t)"])
        (auto simp: adder_defs tmp_ok_def)
  qed ((rule keep [of "adder s' t"]; use v(3) [of t] in \<open>simp add: adder_defs tmp_ok_def\<close>)+)
qed

lemma guarded_main:
  assumes inv: "guarded held valid owner s" and ok: "life_inv niter s"
    and st: "main_next (\<lambda>t. goto t AtTest) adder_status r b s = Some s'"
  shows "\<exists>owner'. guarded held valid owner' s'"
  using st
proof (cases rule: main_nextE)
  case (create t e ops)
  then have u: "apc (adder s t) = NotStarted" "t < 2" using ok by (auto simp: life_inv_def)
  then have "\<not> in_lock (adder s t)" by (simp add: in_lock_def)
  then have "owner \<noteq> Some t" using inv unfolding guarded_def by blast
  have "guarded held valid owner (s\<lparr>todo := ops\<rparr>)" using inv by simp
  then have "guarded held valid owner s'"
    by (rule guarded_update [where t = t and l = "lck s" and x = "(adder s t)\<lparr>apc := AtTest\<rparr>" and c = "count s"])
      (use create u inv \<open>owner \<noteq> Some t\<close> in \<open>auto simp: adder_defs tmp_ok_def guarded_def\<close>)
  then show ?thesis by blast
next
  case (failed q e ops)
  with inv show ?thesis using call_failed_cases [of e ops s] by auto
qed (use inv in auto)

lemma adders_inv_step:
  assumes inv: "adders_inv held valid niter ops s" and st: "adders_step acquire release niter a s = Some s'"
  shows "adders_inv held valid niter ops s'"
proof -
  from inv obtain owner where i: "life_inv niter s" "joined s" "guarded held valid owner s" "printed niter ops s"
    by (auto simp: adders_inv_def)
  have "count s = total_incs (adder s)" using i(3) by (simp add: guarded_def)
  then have "printed niter ops s'" by (rule printed_step [OF i(1,2,4) _ st])
  moreover have "joined s'" by (rule joined_step [OF i(2) st i(1)])
  moreover have "life_inv niter s' \<and> (\<exists>owner'. guarded held valid owner' s')"
    using st
  proof (cases rule: adders_stepE)
    case (main ok)
    show ?thesis using life_inv_main [OF i(1) main(3)] guarded_main [OF i(3,1) main(3)] by simp
  next
    case (thread t)
    show ?thesis using life_inv_thread [OF i(1) thread(3)] guarded_thread [OF i(3,1) thread(3)] by simp
  qed
  ultimately show ?thesis by (simp add: adders_inv_def)
qed

lemma live_moves:
  assumes g: "guarded held valid owner s" and "ending s = Running"
    and live: "apc (adder s t) \<notin> {NotStarted, Finished}"
  shows "\<exists>a s'. adders_step acquire release niter a s = Some s'"
proof -
  have go: "\<exists>s'. ThreadAdd acquire release niter u s = Some s'"
    if "apc (adder s u) \<notin> {NotStarted, Finished, AtAcquire}" for u
    using that by (cases "apc (adder s u)") (auto simp: ThreadAdd_def Let_def)
  have "\<exists>u s'. ThreadAdd acquire release niter u s = Some s'"
  proof (cases "apc (adder s t) = AtAcquire")
    case True
    show ?thesis
    proof (cases "held (lck s)")
      case True
      then obtain u where "in_lock (adder s u)" using g by (auto simp: guarded_def)
      then show ?thesis using go [of u] by (auto simp: in_lock_def)
    next
      case False
      moreover have "valid (lck s)" using g by (simp add: guarded_def)
      ultimately obtain l where "acquire t (lck s) = Some l" using acquire_free by blast
      with True have "ThreadAdd acquire release niter t s = Some (goto t AtLoad (s\<lparr>lck := l\<rparr>))"
        by (simp add: ThreadAdd_def)
      then show ?thesis by blast
    qed
  next
    case False
    with live go [of t] show ?thesis by auto
  qed
  then obtain u s' where "ThreadAdd acquire release niter u s = Some s'" by blast
  with assms(2) have "adders_step acquire release niter (Thread u) s = Some s'" by (simp add: adders_step_def)
  then show ?thesis by blast
qed

lemma adders_progress:
  assumes inv: "adders_inv held valid niter ops s" and nf: "\<not> adders_over s"
  shows "\<exists>a s'. adders_step acquire release niter a s = Some s'"
proof -
  from inv obtain owner where g: "guarded held valid owner s" by (auto simp: adders_inv_def)
  have e: "ending s = Running" using nf by (simp add: adders_over_def)
  show ?thesis
  proof (cases "\<exists>t. apc (adder s t) \<notin> {NotStarted, Finished}")
    case True
    then show ?thesis using live_moves [OF g e] by blast
  next
    case False
    then have "main_next (\<lambda>t. goto t AtTest) adder_status (adders_report niter) True s = None \<Longrightarrow> todo s = []"
      by (auto simp: main_next_def split: list.splits main_op.splits thread_status.splits)
    moreover have "todo s = [] \<Longrightarrow> adders_over s"
      using inv by (simp add: adders_inv_def joined_def adders_over_def)
    ultimately obtain s' where "adders_step acquire release niter (Main True) s = Some s'"
      using nf e by (cases "main_next (\<lambda>t. goto t AtTest) adder_status (adders_report niter) True s")
        (auto simp: adders_step_def)
    then show ?thesis by blast
  qed
qed

lemma adders_inv_init:
  assumes "wf_main 2 ops" "joins 0 ops" "joins 1 ops"
  shows "adders_inv held valid niter ops (adders_init ops unlocked)"
  using assms life_inv_init [OF assms(1)] unlocked_free
  by (auto simp: adders_inv_def joined_def guarded_def printed_def adders_init_def all_less_2
      in_lock_def tmp_ok_def total_incs_def incs_def)

lemma adders_terminate:
  assumes "wf_main 2 ops" "joins 0 ops" "joins 1 ops"
  shows "terminating_system (adders_step acquire release niter) (adders_init ops unlocked)
    (adders_inv held valid niter ops) (adders_left niter) adders_over"
proof unfold_locales
  show "adders_inv held valid niter ops (adders_init ops unlocked)" by (rule adders_inv_init [OF assms])
  show "adders_left niter t < adders_left niter s"
    if "adders_inv held valid niter ops s" "adders_step acquire release niter a s = Some t" for s a t
    using that adders_left_step by (auto simp: adders_inv_def)
qed (fact adders_inv_step adders_progress)+

end

subsection \<open>The programs with a lock\<close>

text \<open>The number of iterations is a parameter here; the programs' value is only put in at the end.\<close>

interpretation mutex_adders: terminating_system
  "adders_step mutex_lock mutex_unlock (\<lambda>_. n)" "adders_init thread_main None"
  "adders_inv mutex_held (\<lambda>_. True) (\<lambda>_. n) thread_main" "adders_left (\<lambda>_. n)" adders_over for n
  by (rule mutex.adders_terminate) (simp_all add: thread_main_def)

interpretation sem_adders: terminating_system
  "adders_step sem_acquire sem_post (\<lambda>_. n)" "adders_init thread_main 1"
  "adders_inv sem_held sem_binary (\<lambda>_. n) thread_main" "adders_left (\<lambda>_. n)" adders_over for n
  by (rule binsem.adders_terminate) (simp_all add: thread_main_def)

interpretation count_adders: terminating_system
  "adders_step mutex_lock mutex_unlock (\<lambda>_. n)" "adders_init count_main None"
  "adders_inv mutex_held (\<lambda>_. True) (\<lambda>_. n) count_main" "adders_left (\<lambda>_. n)" adders_over for n
  by (rule mutex.adders_terminate) (simp_all add: count_main_def)

lemma adders_final_text:
  assumes "adders_inv held valid (\<lambda>_. n) ops s" "adders_over s" "ending s = Running"
  shows "console s = map (total_text (\<lambda>_. n)) (pending ops)"
  using assms by (simp add: adders_inv_def printed_def adders_over_def)

lemma check_text_total: "total_text (\<lambda>_. n) 0 = [nl] @ '' OK! count is ['' @ show_int (2 * int n) @ '']'' @ [nl]"
  by (simp add: total_text_def check_text_def Let_def)

lemma adders_text_total:
  assumes "adders_inv held valid (\<lambda>_. n) thread_main s" "adders_over s" "ending s = Running"
  shows "console s = [[nl] @ '' OK! count is ['' @ show_int (2 * int n) @ '']'' @ [nl]]"
  using adders_final_text [OF assms] by (simp add: thread_main_def check_text_total)

lemma adders_left_init:
  "adders_left (\<lambda>_. n) (adders_init thread_main l) = 16 * n + 31"
  by (simp add: adders_left_def adders_init_def thread_left_def thread_main_def)



text \<open>
  \<open>thread_with_sem.c\<close>: a semaphore initialised to 1 does as well as the mutex.
\<close>

theorem thread_with_sem_correct:
  assumes "run thread_with_sem as (adders_init thread_main 1) = Some s"
  shows "length as \<le> 16 * NITER + 31 \<and>
      (stuck thread_with_sem s \<longrightarrow> ending s \<noteq> Running \<or>
         console s = [[nl] @ '' OK! count is ['' @ show_int (2 * int NITER) @ '']'' @ [nl]])"
proof -
  note r = assms [unfolded thread_with_sem_def]
  show ?thesis unfolding thread_with_sem_def
    using sem_adders.run_bounded [OF r] sem_adders.stuck_final [OF sem_adders.run_inv [OF r]]
      adders_text_total [OF sem_adders.run_inv [OF r]] by (auto simp: adders_left_init)
qed

theorem thread_with_sem_correct_witness:
  "\<exists>s. run thread_with_sem [Main True, Thread 0, Thread 0, Main False] (adders_init thread_main 1) = Some s \<and>
     length [Main True, Thread 0, Thread 0, Main False] \<le> 16 * NITER + 31 \<and>
     stuck thread_with_sem s \<and> ending s = Exited 1"
proof -
  obtain s where s: "run thread_with_sem [Main True, Thread 0, Thread 0, Main False] (adders_init thread_main 1) = Some s"
      "ending s = Exited 1"
    by (simp add: thread_with_sem_def adders_step_def adders_init_def thread_main_def main_next_def goto_def
        call_failed_def ThreadAdd_def NITER_def sem_acquire_def sem_wait_def)
  moreover have "stuck thread_with_sem s" using s(2) by (simp add: stuck_def thread_with_sem_def adders_step_def)
  ultimately show ?thesis using thread_with_sem_correct [OF s(1)] by blast
qed

text \<open>
  \<open>2thread_count.c\<close>: whenever the process returns 0, the only thing it has printed is
  \<open>count= 2000000\<close>.
\<close>

theorem twothread_count_prints:
  assumes "reachable twothread_count (adders_init count_main None) s" "ending s = Exited 0"
  shows "console s = [count_text 2000000]"
proof -
  have "adders_inv mutex_held (\<lambda>_. True) (\<lambda>_. 1000000) count_main s"
    using assms(1) unfolding twothread_count_def by (rule count_adders.reachable_inv)
  moreover have "todo s = [] \<or> (\<exists>r. todo s = [Return r])" using assms
  proof (induction rule: reachable.induct)
    case (move s a u)
    from move.hyps(2) show ?case unfolding twothread_count_def
    proof (cases rule: adders_stepE)
      case (main ok)
      have "wf_main 2 (todo s)" using move.hyps(1) unfolding twothread_count_def
        using count_adders.reachable_inv by (fastforce simp: adders_inv_def life_inv_def)
      with main(3,2) move.prems show ?thesis
        by (cases rule: main_nextE) (auto simp: call_failed_def goto_def split: on_error.splits)
    next
      case (thread t)
      then show ?thesis using ThreadAdd_frame(3) [OF thread(3)] move.prems by simp
    qed
  qed (simp add: adders_init_def)
  ultimately show ?thesis using assms(2)
    by (auto simp: adders_inv_def printed_def count_main_def total_text_def)
qed

subsection \<open>Schedules\<close>

text \<open>A thread that runs \<open>n\<close> iterations undisturbed adds \<open>n\<close>.\<close>

definition after :: "tid \<Rightarrow> nat \<Rightarrow> 'l adders \<Rightarrow> 'l adders" where
  "after t n s = s\<lparr>count := count s + int n,
     adder := (adder s)(t := \<lparr>apc = AtTest, idx = idx (adder s t) + n,
       tmp = (if n = 0 then tmp (adder s t) else count s + int n)\<rparr>)\<rparr>"

lemma solo_run:
  assumes "apc (adder s t) = AtTest" "ending s = Running" "idx (adder s t) + n \<le> niter t"
    and l: "acquire t (lck s) = Some l" "release l = lck s"
  shows "run (adders_step acquire release niter) (concat (replicate n (replicate 7 (Thread t)))) s = Some (after t n s)"
proof -
  have "run (adders_step acquire release niter) (replicate 7 (Thread t)) (after t k s) = Some (after t (Suc k) s)"
    if "k < n" for k
    using that assms(2,3) l
    by (simp add: numeral_eq_Suc adders_step_def ThreadAdd_def goto_def after_def Let_def ac_simps)
  then have "run (adders_step acquire release niter) (concat (replicate n (replicate 7 (Thread t)))) (after t 0 s)
      = Some (after t n s)" by (rule run_repeat)
  moreover have "\<lparr>apc = AtTest, idx = idx (adder s t), tmp = tmp (adder s t)\<rparr> = adder s t"
    using assms(1) by (cases "adder s t") simp
  then have "after t 0 s = s" by (simp add: after_def)
  ultimately show ?thesis by simp
qed

lemma run_then: "run step as s = Some s1 \<Longrightarrow> run step bs s1 = Some s2 \<Longrightarrow> run step (as @ bs) s = Some s2"
  by (simp add: run_append)

lemmas act_defs = adders_step_def ThreadAdd_def goto_def main_next_def adder_status_def after_def Let_def
  adders_init_def

text \<open>First one thread, then the other: the program ends with the total.\<close>

definition serial_schedule :: "nat \<Rightarrow> act list" where
  "serial_schedule n =
     [Main True, Main True] @ concat (replicate n (replicate 7 (Thread 0))) @ [Thread 0] @
     concat (replicate n (replicate 7 (Thread 1))) @ [Thread 1, Main True, Main True, Main True, Main True]"

lemma serial_run:
  "\<exists>s. run (adders_step mutex_lock mutex_unlock (\<lambda>_. n)) (serial_schedule n) (adders_init count_main None) = Some s \<and>
     ending s = Exited 0"
proof -
  let ?run = "run (adders_step mutex_lock mutex_unlock (\<lambda>_. n))"
  let ?s0 = "goto 1 AtTest (goto 0 AtTest (adders_init (drop 2 count_main) (None :: mutex)))"
  let ?s1 = "goto 0 Finished (after 0 n ?s0)"
  let ?s2 = "goto 1 Finished (after 1 n ?s1)"
  have a: "?run [Main True, Main True] (adders_init count_main None) = Some ?s0"
    by (simp add: act_defs count_main_def)
  have b: "?run (concat (replicate n (replicate 7 (Thread 0)))) ?s0 = Some (after 0 n ?s0)"
    by (rule solo_run) (simp_all add: act_defs mutex_lock_def)
  have c: "?run [Thread 0] (after 0 n ?s0) = Some ?s1" by (simp add: act_defs)
  have d: "?run (concat (replicate n (replicate 7 (Thread 1)))) ?s1 = Some (after 1 n ?s1)"
    by (rule solo_run) (simp_all add: act_defs mutex_lock_def)
  have e: "\<exists>s. ?run [Thread 1, Main True, Main True, Main True, Main True] (after 1 n ?s1) = Some s \<and> ending s = Exited 0"
    by (simp add: act_defs count_main_def)
  then obtain s where "?run [Thread 1, Main True, Main True, Main True, Main True] (after 1 n ?s1) = Some s"
    "ending s = Exited 0" by blast
  then have "?run (serial_schedule n) (adders_init count_main None) = Some s"
    unfolding serial_schedule_def by (intro run_then [OF a] run_then [OF b] run_then [OF c] run_then [OF d])
  with \<open>ending s = Exited 0\<close> show ?thesis by blast
qed

theorem twothread_count_prints_witness:
  "\<exists>s. run twothread_count (serial_schedule 1000000) (adders_init count_main None) = Some s \<and>
     ending s = Exited 0 \<and> console s = [count_text 2000000]"
proof -
  obtain s where s: "run twothread_count (serial_schedule 1000000) (adders_init count_main None) = Some s"
      "ending s = Exited 0"
    using serial_run [of 1000000] unfolding twothread_count_def by blast
  show ?thesis using twothread_count_prints [OF run_reachable [OF s(1)] s(2)] s by blast
qed

subsection \<open>The programs without a lock\<close>

text \<open>Whatever the lock does, the counter never exceeds the number of increments done.\<close>

definition tmp_bound :: "int \<Rightarrow> adder \<Rightarrow> bool" where
  "tmp_bound c a \<longleftrightarrow> 0 \<le> tmp a \<and> (apc a = AtAdd \<longrightarrow> tmp a \<le> c) \<and> (apc a = AtStore \<longrightarrow> tmp a \<le> c + 1)"

definition bound_inv :: "(tid \<Rightarrow> nat) \<Rightarrow> 'l adders \<Rightarrow> bool" where
  "bound_inv niter s \<longleftrightarrow> life_inv niter s \<and> 0 \<le> count s \<and> count s \<le> total_incs (adder s) \<and>
     (\<forall>t. tmp_bound (total_incs (adder s)) (adder s t))"

lemma tmp_bound_mono: "tmp_bound c a \<Longrightarrow> c \<le> c' \<Longrightarrow> tmp_bound c' a"
  by (auto simp: tmp_bound_def)

lemma bound_thread:
  assumes inv: "bound_inv niter s" and st: "ThreadAdd acquire release niter t s = Some s'"
  shows "bound_inv niter s'"
proof -
  have life: "life_inv niter s" using inv by (simp add: bound_inv_def)
  have "t < 2" using life ThreadAdd_frame(5) [OF st] unfolding life_inv_def by (meson not_less)
  then have t: "t = 0 \<or> t = 1" by auto
  have b: "tmp_bound (total_incs (adder s)) (adder s t)" using inv by (simp add: bound_inv_def)
  have o: "adder s' u = adder s u" if "u \<noteq> t" for u
    by (subst ThreadAdd_frame(4) [OF st]) (use that in simp)
  have inc: "total_incs (adder s') - total_incs (adder s) = int (incs (adder s' t)) - int (incs (adder s t))"
    using t o by (auto simp: total_incs_def)
  have mono: "total_incs (adder s) \<le> total_incs (adder s')"
    using st inc by (cases rule: ThreadAddE) (auto simp: adder_defs)
  have "tmp_bound (total_incs (adder s')) (adder s' t) \<and> 0 \<le> count s' \<and> count s' \<le> total_incs (adder s')"
    using st
  proof (cases rule: ThreadAddE)
    case store
    then have "total_incs (adder s') = total_incs (adder s) + 1" using inc by (simp add: adder_defs)
    with store b show ?thesis by (simp add: tmp_bound_def adder_defs)
  qed (use b inv mono in \<open>auto simp: bound_inv_def tmp_bound_def adder_defs\<close>)
  moreover have "tmp_bound (total_incs (adder s')) (adder s' u)" if "u \<noteq> t" for u
    using inv mono o [OF that] tmp_bound_mono by (auto simp: bound_inv_def)
  ultimately show ?thesis using life_inv_thread [OF life st] unfolding bound_inv_def by metis
qed

lemma bound_main:
  assumes inv: "bound_inv niter s" and st: "main_next (\<lambda>t. goto t AtTest) adder_status r ok s = Some s'"
  shows "bound_inv niter s'"
proof -
  have life: "life_inv niter s" using inv by (simp add: bound_inv_def)
  have fr: "count s' = count s \<and> (\<forall>t. tmp (adder s' t) = tmp (adder s t) \<and> incs (adder s' t) = incs (adder s t) \<and>
      (apc (adder s' t) = apc (adder s t) \<or> apc (adder s' t) = AtTest))"
    using st
  proof (cases rule: main_nextE)
    case (create t e ops)
    then have "apc (adder s t) = NotStarted" using life by (auto simp: life_inv_def)
    with create show ?thesis by (auto simp: goto_def incs_def)
  next
    case (failed q e ops)
    then show ?thesis using call_failed_cases [of e ops s] by auto
  qed auto
  then have "total_incs (adder s') = total_incs (adder s)" by (simp add: total_incs_def)
  then have "tmp_bound (total_incs (adder s')) (adder s' t)" for t
    using inv spec [OF conjunct2 [OF fr], of t] unfolding bound_inv_def tmp_bound_def
    by (metis add_pc.distinct)
  with fr \<open>total_incs (adder s') = _\<close> inv life_inv_main [OF life st] show ?thesis by (auto simp: bound_inv_def)
qed

lemma bound_system:
  assumes "wf_main 2 ops"
  shows "invariant_system (adders_step acquire release niter) (adders_init ops l) (bound_inv niter)"
proof unfold_locales
  show "bound_inv niter (adders_init ops l)"
    using life_inv_init [OF assms] by (simp add: bound_inv_def adders_init_def total_incs_def tmp_bound_def incs_def)
  show "bound_inv niter t" if "bound_inv niter s" "adders_step acquire release niter a s = Some t" for s a t
    using that(2) by (cases rule: adders_stepE) (use that(1) bound_thread bound_main in blast)+
qed

interpretation no_sem: invariant_system "adders_step (\<lambda>t l. Some l) id niter" "adders_init thread_main ()" "bound_inv niter" for niter
  by (rule bound_system) (simp add: thread_main_def)

interpretation error_count: invariant_system "adders_step (\<lambda>t l. Some l) id niter" "adders_init error_count_main ()" "bound_inv niter" for niter
  by (rule bound_system) (simp add: error_count_main_def)

interpretation error_count_1: invariant_system "adders_step (\<lambda>t l. Some l) id niter" "adders_init error_count_1_main ()" "bound_inv niter" for niter
  by (rule bound_system) (simp add: error_count_1_main_def)

lemma incs_le: "adder_ok n a \<Longrightarrow> incs a \<le> n"
  by (auto simp: adder_ok_def incs_def in_loop_def)

lemma bound_count:
  assumes "bound_inv (\<lambda>_. n) s"
  shows "0 \<le> count s \<and> count s \<le> 2 * int n"
proof -
  have "incs (adder s t) \<le> n" for t
    by (rule incs_le) (use assms in \<open>simp add: bound_inv_def life_inv_def\<close>)
  from this [of 0] this [of 1] have "total_incs (adder s) \<le> 2 * int n" by (simp add: total_incs_def)
  with assms show ?thesis by (simp add: bound_inv_def)
qed

text \<open>
  Nearly all updates can be lost: one thread reads 0, the other counts to \<open>n - 1\<close>, the first
  stores 1, which the second reads before the first counts to \<open>n\<close>; then the second stores 2.
\<close>

definition lossy_schedule :: "nat \<Rightarrow> act list" where
  "lossy_schedule n =
     [Main True, Main True, Thread 0, Thread 0, Thread 0] @
     concat (replicate (n - 1) (replicate 7 (Thread 1))) @
     [Thread 0, Thread 0, Thread 0, Thread 0, Thread 1, Thread 1, Thread 1] @
     concat (replicate (n - 1) (replicate 7 (Thread 0))) @
     [Thread 0, Thread 1, Thread 1, Thread 1, Thread 1, Thread 1, Main True, Main True, Main True, Main True]"

definition both :: "main_op list \<Rightarrow> int \<Rightarrow> adder \<Rightarrow> adder \<Rightarrow> unit adders" where
  "both ops c x y = (adders_init ops ())\<lparr>count := c, adder := (adder (adders_init ops ()))(0 := x, 1 := y)\<rparr>"

lemma lossy_run:
  assumes "2 \<le> n"
  shows "\<exists>s. run (adders_step (\<lambda>t l. Some l) id (\<lambda>_. n)) (lossy_schedule n) (adders_init thread_main ()) = Some s \<and>
     count s = 2 \<and> ending s = Running \<and> todo s = [] \<and> console s = [check_text n 2]"
proof -
  let ?run = "run (adders_step (\<lambda>t l. Some l) id (\<lambda>_. n))"
  let ?ops = "drop 2 thread_main"
  let ?s1 = "both ?ops 0 \<lparr>apc = AtAdd, idx = 0, tmp = 0\<rparr> \<lparr>apc = AtTest, idx = 0, tmp = 0\<rparr>"
  let ?s2 = "both ?ops 1 \<lparr>apc = AtTest, idx = 1, tmp = 1\<rparr> \<lparr>apc = AtAdd, idx = n - 1, tmp = 1\<rparr>"
  have a: "?run [Main True, Main True, Thread 0, Thread 0, Thread 0] (adders_init thread_main ()) = Some ?s1"
    using assms by (simp add: act_defs thread_main_def both_def fun_upd_twist)
  have b: "?run (concat (replicate (n - 1) (replicate 7 (Thread 1)))) ?s1 = Some (after 1 (n - 1) ?s1)"
    by (rule solo_run) (simp_all add: act_defs both_def)
  have c: "?run [Thread 0, Thread 0, Thread 0, Thread 0, Thread 1, Thread 1, Thread 1] (after 1 (n - 1) ?s1) = Some ?s2"
    using assms by (simp add: act_defs both_def fun_upd_twist)
  have d: "?run (concat (replicate (n - 1) (replicate 7 (Thread 0)))) ?s2 = Some (after 0 (n - 1) ?s2)"
    by (rule solo_run) (use assms in \<open>simp_all add: act_defs both_def\<close>)
  have e: "\<exists>s. ?run [Thread 0, Thread 1, Thread 1, Thread 1, Thread 1, Thread 1, Main True, Main True, Main True, Main True]
      (after 0 (n - 1) ?s2) = Some s \<and>
     count s = 2 \<and> ending s = Running \<and> todo s = [] \<and> console s = [check_text n 2]"
    using assms by (simp add: act_defs both_def thread_main_def adders_report_def)
  then obtain s where s: "?run [Thread 0, Thread 1, Thread 1, Thread 1, Thread 1, Thread 1, Main True, Main True, Main True, Main True]
      (after 0 (n - 1) ?s2) = Some s"
     "count s = 2 \<and> ending s = Running \<and> todo s = [] \<and> console s = [check_text n 2]" by blast
  have "?run (lossy_schedule n) (adders_init thread_main ()) = Some s"
    unfolding lossy_schedule_def by (intro run_then [OF a] run_then [OF b] run_then [OF c] run_then [OF d] s(1))
  with s(2) show ?thesis by blast
qed

text \<open>
  \<open>thread_no_sem.c\<close>.  \<open>count\<close> stays between 0 and \<open>2 NITER\<close> (so the addition never
  overflows an \<open>int\<close>), but without a lock there is a schedule of the whole program after
  which both threads have done all their increments and it prints
  \<open>BOOM! count is [2], should be 2000000\<close>.
\<close>

theorem thread_no_sem_loses_updates:
  "(\<forall>s. reachable thread_no_sem (adders_init thread_main ()) s \<longrightarrow> 0 \<le> count s \<and> count s \<le> 2 * int NITER) \<and>
   (\<exists>as s. run thread_no_sem as (adders_init thread_main ()) = Some s \<and> todo s = [] \<and> ending s = Running \<and>
      console s = [[nl] @ '' BOOM! count is [2], should be 2000000'' @ [nl]])"
proof (intro conjI allI impI)
  have t: "check_text NITER 2 = [nl] @ '' BOOM! count is [2], should be 2000000'' @ [nl]"
    by (simp add: check_text_def NITER_def show_simps)
  show "\<exists>as s. run thread_no_sem as (adders_init thread_main ()) = Some s \<and> todo s = [] \<and> ending s = Running \<and>
      console s = [[nl] @ '' BOOM! count is [2], should be 2000000'' @ [nl]]"
    using lossy_run [of NITER] unfolding thread_no_sem_def t [symmetric] NITER_def by fastforce
qed (use no_sem.reachable_inv bound_count in \<open>force simp: thread_no_sem_def\<close>)+

theorem thread_no_sem_loses_updates_witness:
  "reachable thread_no_sem (adders_init thread_main ()) (adders_init thread_main ()) \<and>
   0 \<le> count (adders_init thread_main ()) \<and> count (adders_init thread_main ()) \<le> 2 * int NITER"
  using thread_no_sem_loses_updates by (blast intro: reachable.start)

text \<open>Without the joins: main may print while a thread has not even started.\<close>

lemma main_console:
  assumes "main_next (\<lambda>t. goto t AtTest) adder_status (adders_report niter) ok s = Some s'"
    and "x \<in> set (console s')" "wf_main 2 (todo s)" "\<forall>q \<in> set (todo s). \<forall>msg t. q \<noteq> Create t (Reports msg) \<and> q \<noteq> Joins t (Reports msg) \<and> q \<noteq> Report 0"
  shows "x \<in> set (console s) \<or> x = count_text (count s)"
  using assms(1)
proof (cases rule: main_nextE)
  case (failed q e ops)
  with assms(2,4) show ?thesis by (cases e) (auto simp: call_failed_def)
next
  case (report k ops)
  with assms(2,4) show ?thesis by (auto simp: adders_report_def)
qed (use assms(2) in \<open>auto simp: goto_def\<close>)

definition quiet :: "main_op list \<Rightarrow> bool" where
  "quiet ops \<longleftrightarrow> (\<forall>q \<in> set ops. \<forall>msg t. q \<noteq> Create t (Reports msg) \<and> q \<noteq> Joins t (Reports msg) \<and> q \<noteq> Report 0)"

lemma prints_in_range:
  assumes "reachable (adders_step acquire release (\<lambda>_. n)) (adders_init ops l) s" "wf_main 2 ops" "quiet ops"
  shows "quiet (todo s) \<and> (\<forall>x \<in> set (console s). \<exists>c. 0 \<le> c \<and> c \<le> 2 * int n \<and> x = count_text c)"
  using assms(1)
proof (induction rule: reachable.induct)
  case start
  then show ?case using assms(3) by (simp add: adders_init_def)
next
  case (move s a u)
  have b: "bound_inv (\<lambda>_. n) s"
    using invariant_system.reachable_inv [OF bound_system [OF assms(2)] move.hyps(1)] .
  from move.hyps(2) show ?case
  proof (cases rule: adders_stepE)
    case (main ok)
    have "quiet (todo u)"
      using main(3) move.IH
      by (cases rule: main_nextE) (auto simp: quiet_def goto_def call_failed_def split: on_error.splits)
    moreover have "\<exists>c. 0 \<le> c \<and> c \<le> 2 * int n \<and> x = count_text c" if "x \<in> set (console u)" for x
      using main_console [OF main(3) that] b move.IH bound_count [OF b]
      by (auto simp: quiet_def bound_inv_def life_inv_def)
    ultimately show ?thesis by blast
  next
    case (thread t)
    then show ?thesis using ThreadAdd_frame(1,2) [OF thread(3)] move.IH by simp
  qed
qed

lemma early_print: "\<exists>s. run twothread_error_count [Main True, Main True, Main True, Main True] (adders_init error_count_main ()) = Some s \<and>
    ending s = Exited 0 \<and> console s = [count_text 0]"
  by (simp add: twothread_error_count_def act_defs error_count_main_def adders_report_def)

lemma half_print:
  "\<exists>as s. run twothread_error_count as (adders_init error_count_1_main ()) = Some s \<and>
    ending s = Exited 0 \<and> console s = [count_text 1000000]"
proof -
  let ?run = "run (adders_step (\<lambda>t l. Some l) id (\<lambda>_. 1000000))"
  let ?s0 = "goto 1 AtTest (goto 0 AtTest (adders_init (drop 2 error_count_1_main) ()))"
  have a: "?run [Main True, Main True] (adders_init error_count_1_main ()) = Some ?s0"
    by (simp add: act_defs error_count_1_main_def)
  have b: "?run (concat (replicate 1000000 (replicate 7 (Thread 1)))) ?s0 = Some (after 1 1000000 ?s0)"
    by (rule solo_run) (simp_all add: act_defs)
  have "\<exists>s. ?run [Thread 1, Main True, Main True, Main True] (after 1 1000000 ?s0) = Some s \<and>
      ending s = Exited 0 \<and> console s = [count_text 1000000]"
    by (simp add: act_defs error_count_1_main_def adders_report_def)
  then show ?thesis unfolding twothread_error_count_def using run_then [OF a run_then [OF b]] by blast
qed

text \<open>
  \<open>2thread_error_count.c\<close> (no join) and \<open>2thread_error_count_1.c\<close> (only the second thread
  joined, no lock): every number they print lies between 0 and 2000000, and the first can print
  0 and the second 1000000 although both threads have been created.
\<close>

theorem error_counts_print:
  "(\<forall>s ops. ops \<in> {error_count_main, error_count_1_main} \<longrightarrow> reachable twothread_error_count (adders_init ops ()) s \<longrightarrow>
      (\<forall>x \<in> set (console s). \<exists>c. 0 \<le> c \<and> c \<le> 2000000 \<and> x = count_text c)) \<and>
   (\<exists>as s. run twothread_error_count as (adders_init error_count_main ()) = Some s \<and>
      ending s = Exited 0 \<and> console s = [count_text 0]) \<and>
   (\<exists>as s. run twothread_error_count as (adders_init error_count_1_main ()) = Some s \<and>
      ending s = Exited 0 \<and> console s = [count_text 1000000])"
proof (intro conjI allI impI)
  fix s ops assume ops: "ops \<in> {error_count_main, error_count_1_main}"
    and r: "reachable twothread_error_count (adders_init ops ()) s"
  have "wf_main 2 ops" "quiet ops" using ops by (auto simp: error_count_main_def error_count_1_main_def quiet_def)
  from prints_in_range [OF r [unfolded twothread_error_count_def] this]
  show "\<forall>x \<in> set (console s). \<exists>c. 0 \<le> c \<and> c \<le> 2000000 \<and> x = count_text c" by simp
qed (use early_print half_print in blast)+

theorem error_counts_print_witness:
  "\<exists>s. run twothread_error_count [Main True, Main True, Main True, Main True] (adders_init error_count_main ()) = Some s \<and>
     (\<exists>c. 0 \<le> c \<and> c \<le> 2000000 \<and> hd (console s) = count_text c)"
proof -
  obtain s where s: "run twothread_error_count [Main True, Main True, Main True, Main True] (adders_init error_count_main ()) = Some s"
    "console s = [count_text 0]" using early_print by blast
  have "\<forall>x \<in> set (console s). \<exists>c. 0 \<le> c \<and> c \<le> 2000000 \<and> x = count_text c"
    using error_counts_print run_reachable [OF s(1)] by blast
  with s show ?thesis by simp
qed

end
