(* ===== verification/Thread_Program.thy ===== *)
theory Thread_Program
  imports Pthread_Lib
begin

section \<open>A program: shared state, threads, and the main thread that starts and joins them\<close>

text \<open>
  The thread programs differ in what their threads do; their \<open>main\<close> functions create the
  threads, join them and return.  \<open>prog_step\<close> puts a system of threads (actions with an owner,
  on a shared state) under such a \<open>main\<close>: a thread runs only after it has been created, and a
  join returns only when the thread is over.  Two facts about the threads alone carry over:
  a state of the program is a state of its threads (safety), and if the threads always finish
  then so does the program (locale \<open>thread_program\<close>).
\<close>

record 'c prog = process +
  shared :: 'c
  started :: "tid \<Rightarrow> bool"

datatype 'a pact = MainDo bool | Do 'a

definition spawn :: "tid \<Rightarrow> 'c prog \<Rightarrow> 'c prog" where
  "spawn t s = s\<lparr>started := (started s)(t := True)\<rparr>"

definition prog_status :: "(tid \<Rightarrow> 'c \<Rightarrow> bool) \<Rightarrow> tid \<Rightarrow> 'c prog \<Rightarrow> thread_status" where
  "prog_status dead t s = (if \<not> started s t then Unborn else if dead t (shared s) then Dead else Live)"

definition prog_step ::
  "('a \<Rightarrow> tid) \<Rightarrow> ('a \<Rightarrow> 'c \<Rightarrow> 'c option) \<Rightarrow> (tid \<Rightarrow> 'c \<Rightarrow> bool) \<Rightarrow> (nat \<Rightarrow> 'c \<Rightarrow> string) \<Rightarrow>
   'a pact \<Rightarrow> 'c prog \<Rightarrow> 'c prog option" where
  "prog_step owner tstep dead report a s =
     (if ending s \<noteq> Running then None
      else case a of
        MainDo ok \<Rightarrow> main_next spawn (prog_status dead) (\<lambda>k s. report k (shared s)) ok s
      | Do x \<Rightarrow> if started s (owner x) then map_option (\<lambda>c. s\<lparr>shared := c\<rparr>) (tstep x (shared s)) else None)"

definition prog_init :: "main_op list \<Rightarrow> 'c \<Rightarrow> 'c prog" where
  "prog_init ops c = \<lparr>todo = ops, console = [], ending = Running, shared = c, started = (\<lambda>_. False)\<rparr>"

text \<open>The program when no call of \<open>main\<close> fails.\<close>

definition prog_ok ::
  "('a \<Rightarrow> tid) \<Rightarrow> ('a \<Rightarrow> 'c \<Rightarrow> 'c option) \<Rightarrow> (tid \<Rightarrow> 'c \<Rightarrow> bool) \<Rightarrow> (nat \<Rightarrow> 'c \<Rightarrow> string) \<Rightarrow>
   'a pact \<Rightarrow> 'c prog \<Rightarrow> 'c prog option" where
  "prog_ok owner tstep dead report a s =
     (case a of MainDo False \<Rightarrow> None | _ \<Rightarrow> prog_step owner tstep dead report a s)"

text \<open>
  A \<open>main\<close> of the usual shape: it creates each thread before the first join, joins all, and
  ends with \<open>return 0\<close> or \<open>pthread_exit\<close>.
\<close>

fun ordered_main :: "main_op list \<Rightarrow> bool" where
  "ordered_main [] \<longleftrightarrow> True"
| "ordered_main (Create t e # ops) \<longleftrightarrow> ops \<noteq> [] \<and> ordered_main ops"
| "ordered_main (Joins t e # ops) \<longleftrightarrow> list_all (\<lambda>q. case q of Create _ _ \<Rightarrow> False | _ \<Rightarrow> True) ops \<and> ops \<noteq> [] \<and> ordered_main ops"
| "ordered_main (Report k # ops) \<longleftrightarrow> ops \<noteq> [] \<and> ordered_main ops"
| "ordered_main (Return r # ops) \<longleftrightarrow> r = 0"
| "ordered_main (PthreadExit # ops) \<longleftrightarrow> True"

lemma no_creates: "list_all (\<lambda>q. case q of Create _ _ \<Rightarrow> False | _ \<Rightarrow> True) ops \<Longrightarrow> \<not> creates t ops"
  by (induction ops) (auto split: main_op.splits)

lemma wf_main_tail: "wf_main n (q # ops) \<Longrightarrow> wf_main n ops"
  by (cases q) auto

lemma prog_okE:
  assumes "prog_ok owner tstep dead report a s = Some s'"
  obtains (create) t e ops where "a = MainDo True" "ending s = Running" "todo s = Create t e # ops"
        "s' = spawn t (s\<lparr>todo := ops\<rparr>)"
    | (unborn) t e ops where "a = MainDo True" "ending s = Running" "todo s = Joins t e # ops" "\<not> started s t"
        "s' = s\<lparr>ending := Undefined\<rparr>"
    | (join) t e ops where "a = MainDo True" "ending s = Running" "todo s = Joins t e # ops" "started s t"
        "dead t (shared s)" "s' = s\<lparr>todo := ops\<rparr>"
    | (report) k ops where "a = MainDo True" "ending s = Running" "todo s = Report k # ops"
        "s' = s\<lparr>todo := ops, console := console s @ [report k (shared s)]\<rparr>"
    | (return) r ops where "a = MainDo True" "ending s = Running" "todo s = Return r # ops" "s' = s\<lparr>ending := Exited r\<rparr>"
    | (pexit) ops where "a = MainDo True" "ending s = Running" "todo s = PthreadExit # ops" "s' = s\<lparr>todo := []\<rparr>"
    | (thread) x c where "a = Do x" "ending s = Running" "started s (owner x)" "tstep x (shared s) = Some c"
        "s' = s\<lparr>shared := c\<rparr>"
  using assms
  by (cases "todo s")
    (auto simp: prog_ok_def prog_step_def main_next_def prog_status_def
      split: pact.splits bool.splits if_splits main_op.splits)

subsection \<open>Safety: the threads of a program run as if they had been started all at once\<close>

lemma prog_shared_reachable:
  "reachable (prog_step owner tstep dead report) (prog_init ops c0) s \<Longrightarrow> reachable tstep c0 (shared s)"
proof (induction rule: reachable.induct)
  case start
  show ?case by (simp add: prog_init_def reachable.start)
next
  case (move s a u)
  have "shared u = shared s \<or> (\<exists>x. tstep x (shared s) = Some (shared u))"
    using move.hyps(2)
    by (cases "todo s")
      (auto simp: prog_step_def main_next_def call_failed_def spawn_def
        split: pact.splits if_splits main_op.splits thread_status.splits on_error.splits)
  with move.IH show ?case by (auto intro: reachable.move)
qed

lemma prog_ok_step: "prog_ok owner tstep dead report a s = Some s' \<Longrightarrow> prog_step owner tstep dead report a s = Some s'"
  by (auto simp: prog_ok_def split: pact.splits bool.splits)

lemma prog_ok_reachable:
  "reachable (prog_ok owner tstep dead report) s0 s \<Longrightarrow> reachable (prog_step owner tstep dead report) s0 s"
  by (induction rule: reachable.induct) (auto intro: reachable.intros prog_ok_step)

lemma prog_ok_shared_reachable:
  "reachable (prog_ok owner tstep dead report) (prog_init ops c0) s \<Longrightarrow> reachable tstep c0 (shared s)"
  by (rule prog_shared_reachable [OF prog_ok_reachable])

subsection \<open>Termination: if the threads finish, the program returns\<close>

locale thread_program = terminating_system tstep tinit inv msr final
  for tstep :: "'a \<Rightarrow> 'c \<Rightarrow> 'c option" and tinit inv msr final +
  fixes owner :: "'a \<Rightarrow> tid"
    and dead :: "tid \<Rightarrow> 'c \<Rightarrow> bool"
    and report :: "nat \<Rightarrow> 'c \<Rightarrow> string"
    and n :: nat
    and ops :: "main_op list"
  assumes main_shape: "wf_main n ops \<and> ordered_main ops \<and> ops \<noteq> [] \<and> (\<forall>t < n. creates t ops \<and> joins t ops)"
    and owner_bound: "inv c \<Longrightarrow> tstep x c = Some c' \<Longrightarrow> owner x < n"
    and dead_stays: "inv c \<Longrightarrow> tstep x c = Some c' \<Longrightarrow> dead t c \<Longrightarrow> dead t c'"
    and final_dead: "inv c \<Longrightarrow> final c \<Longrightarrow> t < n \<Longrightarrow> dead t c"
begin

definition prog_inv :: "'c prog \<Rightarrow> bool" where
  "prog_inv s \<longleftrightarrow> inv (shared s) \<and> wf_main n (todo s) \<and> ordered_main (todo s) \<and>
     (\<forall>t < n. started s t \<longleftrightarrow> \<not> creates t (todo s)) \<and>
     (\<forall>t < n. \<not> joins t (todo s) \<longrightarrow> dead t (shared s)) \<and>
     (ending s = Running \<or> ending s = Exited 0 \<and> (\<forall>t < n. dead t (shared s))) \<and>
     (PthreadExit \<notin> set ops \<longrightarrow> todo s \<noteq> [] \<and> PthreadExit \<notin> set (todo s))"

definition prog_over :: "'c prog \<Rightarrow> bool" where
  "prog_over s \<longleftrightarrow> (ending s = Exited 0 \<or> ending s = Running \<and> todo s = []) \<and> (\<forall>t < n. dead t (shared s))"

definition prog_msr :: "'c prog \<Rightarrow> nat" where
  "prog_msr s = msr (shared s) + 2 * length (todo s) + (if ending s = Running then 1 else 0)"

lemma prog_inv_init: "prog_inv (prog_init ops tinit)"
  using inv_init main_shape by (auto simp: prog_inv_def prog_init_def)

lemma prog_inv_step:
  assumes "prog_inv s" "prog_ok owner tstep dead report a s = Some s'"
  shows "prog_inv s'"
  using assms(2)
proof (cases rule: prog_okE)
  case (create t e ops)
  then show ?thesis using assms(1) by (auto simp: prog_inv_def spawn_def)
next
  case (unborn t e ops)
  then have "creates t ops" using assms(1) by (auto simp: prog_inv_def)
  moreover have "\<not> creates t ops" using unborn assms(1) no_creates by (auto simp: prog_inv_def)
  ultimately show ?thesis by blast
next
  case (thread x c)
  then show ?thesis using assms(1) inv_step dead_stays by (auto simp: prog_inv_def)
qed (use assms(1) in \<open>auto simp: prog_inv_def\<close>)

lemma prog_msr_step:
  assumes "prog_inv s" "prog_ok owner tstep dead report a s = Some s'"
  shows "prog_msr s' < prog_msr s"
  using assms(2)
proof (cases rule: prog_okE)
  case (thread x c)
  then show ?thesis using decreases assms(1) by (auto simp: prog_msr_def prog_inv_def)
qed (auto simp: prog_msr_def spawn_def)

lemma prog_progress:
  assumes "prog_inv s" "\<not> prog_over s"
  shows "\<exists>a s'. prog_ok owner tstep dead report a s = Some s'"
proof -
  have r: "ending s = Running" "todo s \<noteq> []" using assms by (auto simp: prog_inv_def prog_over_def)
  have main: ?thesis if "\<exists>s'. prog_ok owner tstep dead report (MainDo True) s = Some s'" using that by blast
  show ?thesis
  proof (cases "\<exists>t e ops. todo s = Joins t e # ops \<and> \<not> dead t (shared s)")
    case True
    then obtain t e ops where t: "todo s = Joins t e # ops" "\<not> dead t (shared s)" by blast
    then have "t < n" "inv (shared s)" "\<And>u. \<not> creates u ops"
      using assms(1) no_creates by (auto simp: prog_inv_def)
    then obtain x c where x: "tstep x (shared s) = Some c" using progress final_dead t(2) by blast
    then have "started s (owner x)"
      using owner_bound \<open>inv (shared s)\<close> \<open>\<And>u. \<not> creates u ops\<close> t(1) assms(1) by (auto simp: prog_inv_def)
    with x r have "prog_ok owner tstep dead report (Do x) s = Some (s\<lparr>shared := c\<rparr>)"
      by (simp add: prog_ok_def prog_step_def)
    then show ?thesis by blast
  next
    case False
    obtain q ops where q: "todo s = q # ops" using r(2) by (cases "todo s") auto
    then show ?thesis using False r(1)
      by (intro main, cases q) (auto simp: prog_ok_def prog_step_def main_next_def prog_status_def split: thread_status.splits)
  qed
qed

text \<open>
  Every schedule of the program is bounded, and one that cannot go on has ended: all threads
  are over and \<open>main\<close> has returned 0 (or left with \<open>pthread_exit\<close>).
\<close>

lemma program_terminates:
  "terminating_system (prog_ok owner tstep dead report) (prog_init ops tinit) prog_inv prog_msr prog_over"
proof unfold_locales
qed (fact prog_inv_init prog_inv_step prog_msr_step prog_progress)+

lemma program_returns:
  assumes "run (prog_ok owner tstep dead report) as (prog_init ops tinit) = Some s"
  shows "length as \<le> msr tinit + 2 * length ops + 1"
    and "stuck (prog_ok owner tstep dead report) s \<Longrightarrow>
      (if PthreadExit \<in> set ops then ending s = Running \<and> todo s = [] \<or> ending s = Exited 0 else ending s = Exited 0) \<and>
      (\<forall>t < n. dead t (shared s))"
proof -
  note T = program_terminates
  show "length as \<le> msr tinit + 2 * length ops + 1"
    using terminating_system.run_bounded [OF T assms] by (simp add: prog_msr_def prog_init_def)
  assume "stuck (prog_ok owner tstep dead report) s"
  then have "prog_over s" by (rule terminating_system.reachable_stuck_final [OF T run_reachable [OF assms]])
  moreover have "prog_inv s" using invariant_system.run_inv [OF terminating_system.axioms(1) [OF T] assms] .
  ultimately show "(if PthreadExit \<in> set ops then ending s = Running \<and> todo s = [] \<or> ending s = Exited 0 else ending s = Exited 0) \<and>
      (\<forall>t < n. dead t (shared s))"
    by (auto simp: prog_over_def prog_inv_def)
qed

lemma program_run: "\<exists>as s. run (prog_ok owner tstep dead report) as (prog_init ops tinit) = Some s \<and>
    stuck (prog_ok owner tstep dead report) s"
  by (rule terminating_system.reaches_stuck [OF program_terminates prog_inv_init])

end

end
