(* ===== verification/Products.thy ===== *)
theory Products
  imports Thread_Program
begin

section \<open>The bounded buffer of \<open>condition.c\<close> and its producer and consumer\<close>

text \<open>
  The interface of a bounded queue, the ring buffer of \<open>condition.c\<close> that implements it, the
  producer and consumer threads that share it under a mutex and two condition variables, and the whole program.
\<close>

subsection \<open>Interface: a bounded queue\<close>

text \<open>
  What producers and consumers rely on: a queue of bounded length that keeps the order of
  what is put into it.
\<close>

locale bounded_queue =
  fixes put :: "'v \<Rightarrow> 'b \<Rightarrow> 'b"
    and get :: "'b \<Rightarrow> 'v \<times> 'b"
    and full :: "'b \<Rightarrow> bool"
    and none :: "'b \<Rightarrow> bool"
    and wf :: "'b \<Rightarrow> bool"
    and contents :: "'b \<Rightarrow> 'v list"
    and capacity :: nat
  assumes put_contents: "wf b \<Longrightarrow> \<not> full b \<Longrightarrow> wf (put v b) \<and> contents (put v b) = contents b @ [v]"
    and get_contents: "wf b \<Longrightarrow> \<not> none b \<Longrightarrow>
      wf (snd (get b)) \<and> contents b = fst (get b) # contents (snd (get b))"
    and none_iff: "wf b \<Longrightarrow> none b \<longleftrightarrow> contents b = []"
    and full_iff: "wf b \<Longrightarrow> full b \<longleftrightarrow> length (contents b) = capacity"
    and capacity_pos: "0 < capacity"
begin

text \<open>What went in is what came out followed by what is stored: both operations keep that.\<close>

lemma stream_put: "wf b \<Longrightarrow> \<not> full b \<Longrightarrow> ins = outs @ contents b \<Longrightarrow> ins @ [v] = outs @ contents (put v b)"
  using put_contents by simp

lemma stream_get:
  "wf b \<Longrightarrow> \<not> none b \<Longrightarrow> ins = outs @ contents b \<Longrightarrow> ins = (outs @ [fst (get b)]) @ contents (snd (get b))"
  using get_contents [of b] by simp

lemma full_not_none: "wf b \<Longrightarrow> full b \<Longrightarrow> \<not> none b"
  using capacity_pos by (auto simp: none_iff full_iff)

end

subsection \<open>The ring buffer\<close>

definition BUFFER_SIZE :: nat where "BUFFER_SIZE = 8"

record Products =
  buffer :: "int list"
  posReadFrom :: nat
  posWriteTo :: nat

definition BufferIsFull :: "Products \<Rightarrow> bool" where
  "BufferIsFull p \<longleftrightarrow> (posWriteTo p + 1) mod BUFFER_SIZE = posReadFrom p"

definition BufferIsEmpty :: "Products \<Rightarrow> bool" where
  "BufferIsEmpty p \<longleftrightarrow> posWriteTo p = posReadFrom p"

text \<open>The stores of \<open>Produce\<close> and \<open>Consume\<close> inside the mutex.\<close>

definition buffer_put :: "int \<Rightarrow> Products \<Rightarrow> Products" where
  "buffer_put item p =
     (let w = posWriteTo p + 1 in
      p\<lparr>buffer := (buffer p)[posWriteTo p := item], posWriteTo := (if w \<ge> BUFFER_SIZE then 0 else w)\<rparr>)"

definition buffer_get :: "Products \<Rightarrow> int \<times> Products" where
  "buffer_get p =
     (let r = posReadFrom p + 1 in
      (buffer p ! posReadFrom p, p\<lparr>posReadFrom := (if r \<ge> BUFFER_SIZE then 0 else r)\<rparr>))"

definition products_init :: Products where
  "products_init = \<lparr>buffer = replicate BUFFER_SIZE 0, posReadFrom = 0, posWriteTo = 0\<rparr>"

definition ring_wf :: "Products \<Rightarrow> bool" where
  "ring_wf p \<longleftrightarrow> length (buffer p) = BUFFER_SIZE \<and> posReadFrom p < BUFFER_SIZE \<and> posWriteTo p < BUFFER_SIZE"

definition ring_length :: "Products \<Rightarrow> nat" where
  "ring_length p = (posWriteTo p + BUFFER_SIZE - posReadFrom p) mod BUFFER_SIZE"

definition ring_contents :: "Products \<Rightarrow> int list" where
  "ring_contents p = map (\<lambda>k. buffer p ! ((posReadFrom p + k) mod BUFFER_SIZE)) [0..<ring_length p]"

lemma mod_once: "i < 2 * n \<Longrightarrow> i mod n = (if i < n then i else i - (n :: nat))"
  by (auto simp: mod_if)

lemma ring_length_cases:
  "ring_wf p \<Longrightarrow> ring_length p =
     (if posReadFrom p \<le> posWriteTo p then posWriteTo p - posReadFrom p
      else posWriteTo p + BUFFER_SIZE - posReadFrom p)"
  by (auto simp: ring_length_def ring_wf_def mod_once)

lemma ring_full_cases:
  "ring_wf p \<Longrightarrow> BufferIsFull p \<longleftrightarrow>
     (if posWriteTo p + 1 = BUFFER_SIZE then posReadFrom p = 0 else posReadFrom p = posWriteTo p + 1)"
  by (auto simp: BufferIsFull_def ring_wf_def mod_once)

lemma ring_put:
  assumes wf: "ring_wf p" and nf: "\<not> BufferIsFull p"
  shows "ring_wf (buffer_put v p)" "ring_contents (buffer_put v p) = ring_contents p @ [v]"
proof -
  let ?r = "posReadFrom p" and ?w = "posWriteTo p"
  show wf': "ring_wf (buffer_put v p)" using wf by (auto simp: ring_wf_def buffer_put_def Let_def)
  have len: "ring_length (buffer_put v p) = Suc (ring_length p)"
    using nf ring_length_cases [OF wf] ring_length_cases [OF wf'] ring_full_cases [OF wf] wf
    by (auto simp: buffer_put_def Let_def ring_wf_def split: if_splits)
  have w: "(?r + ring_length p) mod BUFFER_SIZE = ?w"
    using ring_length_cases [OF wf] wf by (auto simp: ring_wf_def mod_once)
  have o: "(?r + k) mod BUFFER_SIZE \<noteq> ?w" if "k < ring_length p" for k
    using that ring_length_cases [OF wf] wf by (auto simp: ring_wf_def mod_once split: if_splits)
  have old: "buffer (buffer_put v p) ! ((?r + k) mod BUFFER_SIZE) = buffer p ! ((?r + k) mod BUFFER_SIZE)"
    if "k < ring_length p" for k
    using o [OF that] by (simp add: buffer_put_def Let_def)
  have new: "buffer (buffer_put v p) ! ((?r + ring_length p) mod BUFFER_SIZE) = v"
    using wf w by (simp add: buffer_put_def Let_def ring_wf_def)
  have r: "posReadFrom (buffer_put v p) = ?r" by (simp add: buffer_put_def Let_def)
  show "ring_contents (buffer_put v p) = ring_contents p @ [v]"
    using old new by (simp add: ring_contents_def len r)
qed

lemma ring_get:
  assumes wf: "ring_wf p" and ne: "\<not> BufferIsEmpty p"
  shows "ring_wf (snd (buffer_get p))"
    "ring_contents p = fst (buffer_get p) # ring_contents (snd (buffer_get p))"
proof -
  let ?r = "posReadFrom p" and ?q = "snd (buffer_get p)"
  show wf': "ring_wf ?q" using wf by (auto simp: ring_wf_def buffer_get_def Let_def)
  have len: "ring_length p = Suc (ring_length ?q)"
    using ne ring_length_cases [OF wf] ring_length_cases [OF wf'] wf
    by (auto simp: buffer_get_def Let_def ring_wf_def BufferIsEmpty_def split: if_splits)
  have q: "(posReadFrom ?q + k) mod BUFFER_SIZE = (?r + Suc k) mod BUFFER_SIZE" for k
  proof (cases "Suc ?r < BUFFER_SIZE")
    case False
    with wf have "?r + Suc k = BUFFER_SIZE + k" by (simp add: ring_wf_def)
    then have "(?r + Suc k) mod BUFFER_SIZE = k mod BUFFER_SIZE" by (simp only: mod_add_self1)
    with False show ?thesis by (simp add: buffer_get_def Let_def)
  qed (simp add: buffer_get_def Let_def)
  have b: "buffer ?q = buffer p" by (simp add: buffer_get_def Let_def)
  have "ring_contents p = buffer p ! (?r mod BUFFER_SIZE) #
      map (\<lambda>k. buffer p ! ((?r + Suc k) mod BUFFER_SIZE)) [0..<ring_length ?q]"
    unfolding ring_contents_def len by (simp add: upt_conv_Cons map_Suc_upt [symmetric] o_def del: upt_Suc)
  moreover have "ring_contents ?q = map (\<lambda>k. buffer p ! ((?r + Suc k) mod BUFFER_SIZE)) [0..<ring_length ?q]"
    by (simp only: ring_contents_def q b)
  moreover have "fst (buffer_get p) = buffer p ! (?r mod BUFFER_SIZE)"
    using wf by (simp add: ring_wf_def buffer_get_def Let_def)
  ultimately show "ring_contents p = fst (buffer_get p) # ring_contents ?q" by simp
qed

interpretation ring: bounded_queue buffer_put buffer_get BufferIsFull BufferIsEmpty ring_wf ring_contents "BUFFER_SIZE - 1"
proof
  fix b assume wf: "ring_wf b"
  show "BufferIsEmpty b \<longleftrightarrow> ring_contents b = []"
    using wf ring_length_cases [OF wf] by (auto simp: BufferIsEmpty_def ring_contents_def ring_wf_def)
  show "BufferIsFull b \<longleftrightarrow> length (ring_contents b) = BUFFER_SIZE - 1"
    using wf ring_length_cases [OF wf] ring_full_cases [OF wf] by (auto simp: ring_contents_def ring_wf_def)
qed (simp_all add: ring_put ring_get BUFFER_SIZE_def)

subsection \<open>The producer and the consumer\<close>

text \<open>
  Thread 0 is \<open>ProducerThread\<close>, which calls \<open>Produce\<close> for 0 to 15 and then for \<open>END_FLAG\<close>, thread
  1 is \<open>ConsumerThread\<close>.  Every statement is a step, except that the stores to the buffer inside
  the mutex are one.  A thread in \<open>pthread_cond_wait\<close> has released the mutex and stands in the
  queue of the condition variable; once a signal has taken it out it must get the mutex again.
  \<open>taken\<close> counts the items consumed.
\<close>

definition END_FLAG :: int where "END_FLAG = -1"

datatype prod_pc = PFor | PLock | PTest | PWait | PPut | PSignal | PUnlock | PDone
datatype cons_pc = CLock | CTest | CWait | CGet | CSignal | CUnlock | CCheck | CDone
datatype says = Producer int | Consumer int

record factory =
  products :: Products
  locker :: mutex
  notEmpty :: cond
  notFull :: cond
  p_at :: prod_pc
  p_i :: nat
  c_at :: cons_pc
  c_item :: int
  taken :: nat
  said :: "says list"

definition item_of :: "nat \<Rightarrow> int" where
  "item_of i = (if i < 16 then int i else END_FLAG)"

definition ProducerThread :: "factory \<Rightarrow> factory option" where
  "ProducerThread s =
     (case p_at s of
        PFor \<Rightarrow> if p_i s < 16 then Some (s\<lparr>p_at := PLock, said := said s @ [Producer (int (p_i s))]\<rparr>)
                else if p_i s = 16 then Some (s\<lparr>p_at := PLock\<rparr>) else Some (s\<lparr>p_at := PDone\<rparr>)
      | PLock \<Rightarrow> map_option (\<lambda>m. s\<lparr>locker := m, p_at := PTest\<rparr>) (mutex_lock 0 (locker s))
      | PTest \<Rightarrow> if BufferIsFull (products s)
                 then Some (s\<lparr>locker := mutex_unlock (locker s), notFull := cond_enqueue 0 (notFull s), p_at := PWait\<rparr>)
                 else Some (s\<lparr>p_at := PPut\<rparr>)
      | PWait \<Rightarrow> if 0 \<in> set (notFull s) then None
                 else map_option (\<lambda>m. s\<lparr>locker := m, p_at := PTest\<rparr>) (mutex_lock 0 (locker s))
      | PPut \<Rightarrow> Some (s\<lparr>products := buffer_put (item_of (p_i s)) (products s), p_at := PSignal\<rparr>)
      | PSignal \<Rightarrow> Some (s\<lparr>notEmpty := cond_signal (notEmpty s), p_at := PUnlock\<rparr>)
      | PUnlock \<Rightarrow> Some (s\<lparr>locker := mutex_unlock (locker s), p_at := PFor, p_i := p_i s + 1\<rparr>)
      | PDone \<Rightarrow> None)"

definition ConsumerThread :: "factory \<Rightarrow> factory option" where
  "ConsumerThread s =
     (case c_at s of
        CLock \<Rightarrow> map_option (\<lambda>m. s\<lparr>locker := m, c_at := CTest\<rparr>) (mutex_lock 1 (locker s))
      | CTest \<Rightarrow> if BufferIsEmpty (products s)
                 then Some (s\<lparr>locker := mutex_unlock (locker s), notEmpty := cond_enqueue 1 (notEmpty s), c_at := CWait\<rparr>)
                 else Some (s\<lparr>c_at := CGet\<rparr>)
      | CWait \<Rightarrow> if 1 \<in> set (notEmpty s) then None
                 else map_option (\<lambda>m. s\<lparr>locker := m, c_at := CTest\<rparr>) (mutex_lock 1 (locker s))
      | CGet \<Rightarrow> Some (s\<lparr>c_item := fst (buffer_get (products s)), products := snd (buffer_get (products s)),
                  taken := taken s + 1, c_at := CSignal\<rparr>)
      | CSignal \<Rightarrow> Some (s\<lparr>notFull := cond_signal (notFull s), c_at := CUnlock\<rparr>)
      | CUnlock \<Rightarrow> Some (s\<lparr>locker := mutex_unlock (locker s), c_at := CCheck\<rparr>)
      | CCheck \<Rightarrow> if c_item s = END_FLAG then Some (s\<lparr>c_at := CDone\<rparr>)
                  else Some (s\<lparr>c_at := CLock, said := said s @ [Consumer (c_item s)]\<rparr>)
      | CDone \<Rightarrow> None)"

definition factory_step :: "tid \<Rightarrow> factory \<Rightarrow> factory option" where
  "factory_step t s = (if t = 0 then ProducerThread s else if t = 1 then ConsumerThread s else None)"

text \<open>POSIX allows a waiting thread to wake up without a signal.\<close>

datatype wakeup = Step tid | Spurious tid

definition factory_any :: "wakeup \<Rightarrow> factory \<Rightarrow> factory option" where
  "factory_any a s =
     (case a of
        Step t \<Rightarrow> factory_step t s
      | Spurious t \<Rightarrow>
          if t \<in> set (notFull s) \<union> set (notEmpty s)
          then Some (s\<lparr>notFull := removeAll t (notFull s), notEmpty := removeAll t (notEmpty s)\<rparr>) else None)"

definition factory_init :: factory where
  "factory_init = \<lparr>products = products_init, locker = None, notEmpty = [], notFull = [],
     p_at = PFor, p_i = 0, c_at = CLock, c_item = 0, taken = 0, said = []\<rparr>"

definition condition_main :: "main_op list" where
  "condition_main = [Create 0 Ignored, Create 1 Ignored, Joins 0 Ignored, Joins 1 Ignored, Return 0]"

definition factory_dead :: "tid \<Rightarrow> factory \<Rightarrow> bool" where
  "factory_dead t s = (if t = 0 then p_at s = PDone else c_at s = CDone)"

subsection \<open>Invariant\<close>

text \<open>Where the threads hold the mutex, and where their current item is already in or out.\<close>

fun p_holds :: "prod_pc \<Rightarrow> bool" where
  "p_holds PTest = True" | "p_holds PPut = True" | "p_holds PSignal = True" | "p_holds PUnlock = True"
| "p_holds _ = False"

fun c_holds :: "cons_pc \<Rightarrow> bool" where
  "c_holds CTest = True" | "c_holds CGet = True" | "c_holds CSignal = True" | "c_holds CUnlock = True"
| "c_holds _ = False"

fun p_sent :: "prod_pc \<Rightarrow> nat" where
  "p_sent PSignal = 1" | "p_sent PUnlock = 1" | "p_sent _ = 0"

fun c_got :: "cons_pc \<Rightarrow> nat" where
  "c_got CSignal = 1" | "c_got CUnlock = 1" | "c_got CCheck = 1" | "c_got CDone = 1" | "c_got _ = 0"

fun p_said :: "prod_pc \<Rightarrow> nat" where
  "p_said PFor = 0" | "p_said PDone = 0" | "p_said _ = 1"

definition sent :: "factory \<Rightarrow> nat" where
  "sent s = p_i s + p_sent (p_at s)"

definition eaten :: "factory \<Rightarrow> nat" where
  "eaten s = taken s - c_got (c_at s)"

definition lock_inv :: "factory \<Rightarrow> bool" where
  "lock_inv s \<longleftrightarrow> (locker s = Some 0 \<longleftrightarrow> p_holds (p_at s)) \<and> (locker s = Some 1 \<longleftrightarrow> c_holds (c_at s)) \<and>
     (p_holds (p_at s) \<or> c_holds (c_at s) \<or> locker s = None)"

text \<open>\<open>n\<close> items have been put in, \<open>k\<close> taken out, in order, and the rest is in the buffer.\<close>

definition flow :: "nat \<Rightarrow> nat \<Rightarrow> Products \<Rightarrow> bool" where
  "flow n k p \<longleftrightarrow> ring_wf p \<and> k \<le> n \<and> map item_of [0..<n] = map item_of [0..<k] @ ring_contents p"

lemma flow_wf [simp]: "flow n k p \<Longrightarrow> ring_wf p"
  by (simp add: flow_def)

lemma flow_put:
  assumes "flow n k p" "\<not> BufferIsFull p"
  shows "flow (Suc n) k (buffer_put (item_of n) p)"
  using assms ring.put_contents [of p "item_of n"] ring.stream_put [of p "map item_of [0..<n]" "map item_of [0..<k]" "item_of n"]
  by (simp add: flow_def)

lemma flow_get:
  assumes "flow n k p" "\<not> BufferIsEmpty p"
  shows "fst (buffer_get p) = item_of k" "k < n" "flow n (Suc k) (snd (buffer_get p))"
proof -
  have wf: "ring_wf p" and all: "map item_of [0..<n] = map item_of [0..<k] @ ring_contents p"
    using assms by (simp_all add: flow_def)
  note g = ring.get_contents [OF wf assms(2)]
  have "length (map item_of [0..<n]) = length (map item_of [0..<k] @ ring_contents p)"
    using all by (rule arg_cong)
  with g show lt: "k < n" by simp
  have "fst (buffer_get p) = (map item_of [0..<k] @ ring_contents p) ! k"
    using g by (simp add: nth_append)
  with lt show it: "fst (buffer_get p) = item_of k" unfolding all [symmetric] by simp
  have "map item_of [0..<n] = (map item_of [0..<k] @ [item_of k]) @ ring_contents (snd (buffer_get p))"
    using ring.stream_get [OF wf assms(2) all] it by simp
  then show "flow n (Suc k) (snd (buffer_get p))" using g lt by (simp add: flow_def)
qed

lemma flow_length: "flow n k p \<Longrightarrow> n = k + length (ring_contents p)"
  unfolding flow_def by (metis diff_zero length_append length_map length_upt)

definition queue_inv :: "factory \<Rightarrow> bool" where
  "queue_inv s \<longleftrightarrow> flow (sent s) (taken s) (products s) \<and>
     (p_at s = PPut \<longrightarrow> \<not> BufferIsFull (products s)) \<and> (c_at s = CGet \<longrightarrow> \<not> BufferIsEmpty (products s))"

definition wait_inv :: "factory \<Rightarrow> bool" where
  "wait_inv s \<longleftrightarrow>
     (notFull s = [] \<or> notFull s = [0] \<and> p_at s = PWait \<and> (BufferIsFull (products s) \<or> c_at s = CSignal)) \<and>
     (notEmpty s = [] \<or> notEmpty s = [1] \<and> c_at s = CWait \<and> (BufferIsEmpty (products s) \<or> p_at s = PSignal))"

fun p_bound :: "prod_pc \<Rightarrow> nat \<Rightarrow> bool" where
  "p_bound PDone i \<longleftrightarrow> i = 17" | "p_bound PFor i \<longleftrightarrow> i \<le> 17" | "p_bound _ i \<longleftrightarrow> i \<le> 16"

lemma p_bound_sent: "p_bound p i \<Longrightarrow> i + p_sent p \<le> 17"
  by (cases p) auto

definition factory_life :: "factory \<Rightarrow> bool" where
  "factory_life s \<longleftrightarrow>
     p_bound (p_at s) (p_i s) \<and>
     (c_got (c_at s) = 0 \<longrightarrow> taken s \<le> 16) \<and>
     (c_got (c_at s) = 1 \<longrightarrow> 1 \<le> taken s \<and> c_item s = item_of (taken s - 1)) \<and>
     (c_at s = CDone \<longrightarrow> taken s = 17)"

text \<open>What has been printed.\<close>

fun consumed :: "says list \<Rightarrow> int list" where
  "consumed [] = []"
| "consumed (Consumer x # l) = x # consumed l"
| "consumed (Producer x # l) = consumed l"

fun produced :: "says list \<Rightarrow> int list" where
  "produced [] = []"
| "produced (Producer x # l) = x # produced l"
| "produced (Consumer x # l) = produced l"

lemma consumed_append [simp]: "consumed (l @ m) = consumed l @ consumed m"
  by (induction l rule: consumed.induct) auto

lemma produced_append [simp]: "produced (l @ m) = produced l @ produced m"
  by (induction l rule: produced.induct) auto

definition said_inv :: "factory \<Rightarrow> bool" where
  "said_inv s \<longleftrightarrow>
     consumed (said s) = map int [0..<eaten s] \<and> eaten s \<le> 16 \<and>
     produced (said s) = map int [0..<min 16 (p_i s + p_said (p_at s))]"

definition factory_inv :: "factory \<Rightarrow> bool" where
  "factory_inv s \<longleftrightarrow> lock_inv s \<and> queue_inv s \<and> wait_inv s \<and> factory_life s \<and> said_inv s"

lemma factory_inv_init: "factory_inv factory_init"
  by (simp add: factory_inv_def factory_init_def lock_inv_def queue_inv_def flow_def wait_inv_def factory_life_def said_inv_def
      sent_def eaten_def products_init_def ring_wf_def ring_contents_def ring_length_def BUFFER_SIZE_def)

lemma lock_inv_producer: "lock_inv s \<Longrightarrow> ProducerThread s = Some s' \<Longrightarrow> lock_inv s'"
  by (cases "p_at s") (auto simp: ProducerThread_def lock_inv_def split: if_splits)

lemma lock_inv_consumer: "lock_inv s \<Longrightarrow> ConsumerThread s = Some s' \<Longrightarrow> lock_inv s'"
  by (cases "c_at s") (auto simp: ConsumerThread_def lock_inv_def split: if_splits)

text \<open>The steps that touch the buffer, and the others.\<close>

lemma put_step:
  assumes "p_at s = PPut" "ProducerThread s = Some s'"
  shows "s' = s\<lparr>products := buffer_put (item_of (p_i s)) (products s), p_at := PSignal\<rparr>"
  using assms by (simp add: ProducerThread_def)

lemma get_step:
  assumes "c_at s = CGet" "ConsumerThread s = Some s'"
  shows "s' = s\<lparr>c_item := fst (buffer_get (products s)), products := snd (buffer_get (products s)),
        taken := taken s + 1, c_at := CSignal\<rparr>"
  using assms by (simp add: ConsumerThread_def)

lemma queue_inv_producer:
  assumes q: "queue_inv s" and l: "lock_inv s" and st: "ProducerThread s = Some s'"
  shows "queue_inv s'"
proof (cases "p_at s = PPut")
  case p: True
  then have "flow (p_i s) (taken s) (products s)" "\<not> BufferIsFull (products s)" "c_at s \<noteq> CGet"
    using q l by (auto simp: queue_inv_def sent_def lock_inv_def)
  then show ?thesis using flow_put unfolding put_step [OF p st] by (simp add: queue_inv_def sent_def)
next
  case False
  with q st show ?thesis
    by (cases "p_at s") (auto simp: ProducerThread_def queue_inv_def sent_def split: if_splits)
qed

lemma queue_inv_consumer:
  assumes q: "queue_inv s" and l: "lock_inv s" and st: "ConsumerThread s = Some s'"
  shows "queue_inv s'"
proof (cases "c_at s = CGet")
  case c: True
  then have "flow (sent s) (taken s) (products s)" "\<not> BufferIsEmpty (products s)" "p_at s \<noteq> PPut"
    using q l by (auto simp: queue_inv_def lock_inv_def)
  then show ?thesis using flow_get(3) unfolding get_step [OF c st] by (simp add: queue_inv_def sent_def)
next
  case False
  with q st show ?thesis
    by (cases "c_at s") (auto simp: ConsumerThread_def queue_inv_def sent_def split: if_splits)
qed

lemma wait_inv_producer:
  assumes w: "wait_inv s" and l: "lock_inv s" and st: "ProducerThread s = Some s'"
  shows "wait_inv s'"
proof (cases "p_at s = PPut")
  case p: True
  then show ?thesis using w unfolding put_step [OF p st] by (auto simp: wait_inv_def)
next
  case False
  with w l st show ?thesis
    by (cases "p_at s") (auto simp: ProducerThread_def wait_inv_def lock_inv_def split: if_splits)
qed

lemma wait_inv_consumer:
  assumes w: "wait_inv s" and l: "lock_inv s" and st: "ConsumerThread s = Some s'"
  shows "wait_inv s'"
proof (cases "c_at s = CGet")
  case c: True
  then show ?thesis using w unfolding get_step [OF c st] by (auto simp: wait_inv_def)
next
  case False
  with w l st show ?thesis
    by (cases "c_at s") (auto simp: ConsumerThread_def wait_inv_def lock_inv_def split: if_splits)
qed

lemma factory_life_producer:
  "factory_life s \<Longrightarrow> ProducerThread s = Some s' \<Longrightarrow> factory_life s'"
  by (cases "p_at s") (auto simp: ProducerThread_def factory_life_def split: if_splits)

lemma item_END: "item_of i = END_FLAG \<longleftrightarrow> 16 \<le> i"
  by (auto simp: item_of_def END_FLAG_def)

lemma factory_life_consumer:
  assumes "factory_life s" "queue_inv s" "ConsumerThread s = Some s'"
  shows "factory_life s'"
proof (cases "c_at s = CGet")
  case c: True
  then have "fst (buffer_get (products s)) = item_of (taken s)"
    using assms(2) flow_get(1) by (auto simp: queue_inv_def)
  then show ?thesis using assms(1) c unfolding get_step [OF c assms(3)] by (simp add: factory_life_def)
next
  case False
  have "sent s \<le> 17" using assms(1) p_bound_sent by (simp add: factory_life_def sent_def)
  then have "taken s \<le> 17" using assms(2) by (auto simp: queue_inv_def flow_def)
  with False assms(1,3) show ?thesis
    by (cases "c_at s") (auto simp: ConsumerThread_def factory_life_def item_END split: if_splits)
qed

lemma said_inv_producer:
  assumes "said_inv s" "factory_life s" "ProducerThread s = Some s'"
  shows "said_inv s'"
proof (cases "p_at s = PFor \<and> p_i s < 16")
  case True
  then have "s' = s\<lparr>p_at := PLock, said := said s @ [Producer (int (p_i s))]\<rparr>"
    using assms(3) by (simp add: ProducerThread_def)
  then show ?thesis using assms(1) True by (simp add: said_inv_def eaten_def)
next
  case False
  then have "said s' = said s" "eaten s' = eaten s"
    "min 16 (p_i s' + p_said (p_at s')) = min 16 (p_i s + p_said (p_at s))"
    using assms(3) by (cases "p_at s"; auto simp: ProducerThread_def eaten_def split: if_splits)+
  with assms(1) show ?thesis unfolding said_inv_def by presburger
qed

lemma said_inv_consumer:
  assumes "said_inv s" "factory_life s" "ConsumerThread s = Some s'"
  shows "said_inv s'"
proof (cases "c_at s = CCheck \<and> c_item s \<noteq> END_FLAG")
  case True
  then obtain k where k: "taken s = Suc k" "k < 16" "c_item s = int k"
    using assms(2) by (cases "taken s") (auto simp: factory_life_def item_of_def split: if_splits)
  then have "s' = s\<lparr>c_at := CLock, said := said s @ [Consumer (int k)]\<rparr>"
    using True assms(3) by (simp add: ConsumerThread_def)
  then show ?thesis using assms(1) k True by (simp add: said_inv_def eaten_def)
next
  case False
  with assms show ?thesis
    by (cases "c_at s") (auto simp: ConsumerThread_def said_inv_def eaten_def factory_life_def split: if_splits)
qed

lemma factory_step_inv:
  assumes "factory_inv s" "factory_step t s = Some s'"
  shows "factory_inv s'"
proof -
  have i: "lock_inv s" "queue_inv s" "wait_inv s" "factory_life s" "said_inv s"
    using assms(1) by (simp_all add: factory_inv_def)
  show ?thesis
  proof (cases "t = 0")
    case True
    then have st: "ProducerThread s = Some s'" using assms(2) by (simp add: factory_step_def)
    show ?thesis
      using lock_inv_producer [OF i(1) st] queue_inv_producer [OF i(2,1) st] wait_inv_producer [OF i(3,1) st] factory_life_producer [OF i(4) st]
        said_inv_producer [OF i(5,4) st] by (simp add: factory_inv_def)
  next
    case False
    then have st: "ConsumerThread s = Some s'" using assms(2) by (simp add: factory_step_def split: if_splits)
    show ?thesis
      using lock_inv_consumer [OF i(1) st] queue_inv_consumer [OF i(2,1) st] wait_inv_consumer [OF i(3,1) st] factory_life_consumer [OF i(4,2) st]
        said_inv_consumer [OF i(5,4) st] by (simp add: factory_inv_def)
  qed
qed

lemma factory_any_inv:
  assumes "factory_inv s" "factory_any a s = Some s'"
  shows "factory_inv s'"
proof (cases a)
  case (Step t)
  with assms factory_step_inv show ?thesis by (simp add: factory_any_def)
next
  case (Spurious t)
  then have s': "s' = s\<lparr>notFull := removeAll t (notFull s), notEmpty := removeAll t (notEmpty s)\<rparr>"
    using assms(2) by (simp add: factory_any_def split: if_splits)
  have "wait_inv s'" using assms(1) unfolding s' by (auto simp: factory_inv_def wait_inv_def split: if_splits)
  then show ?thesis using assms(1) unfolding s'
    by (simp add: factory_inv_def lock_inv_def queue_inv_def factory_life_def said_inv_def sent_def eaten_def)
qed

interpretation factory_spurious: invariant_system factory_any factory_init factory_inv
  by unfold_locales (fact factory_inv_init factory_any_inv)+

subsection \<open>Termination\<close>

fun p_weight :: "bool \<Rightarrow> prod_pc \<Rightarrow> nat" where
  "p_weight q PFor = 9" | "p_weight q PLock = 8" | "p_weight q PTest = 6"
| "p_weight q PWait = (if q then 5 else 7)" | "p_weight q PPut = 5" | "p_weight q PSignal = 4"
| "p_weight q PUnlock = 1" | "p_weight q PDone = 0"

fun c_weight :: "bool \<Rightarrow> cons_pc \<Rightarrow> nat" where
  "c_weight q CLock = 8" | "c_weight q CTest = 6" | "c_weight q CWait = (if q then 5 else 7)"
| "c_weight q CGet = 5" | "c_weight q CSignal = 15" | "c_weight q CUnlock = 11" | "c_weight q CCheck = 10"
| "c_weight q CDone = 0"

definition factory_left :: "factory \<Rightarrow> nat" where
  "factory_left s = 10 * (17 - p_i s) + p_weight (0 \<in> set (notFull s)) (p_at s)
     + 20 * (17 - taken s) + c_weight (1 \<in> set (notEmpty s)) (c_at s)"

definition factory_over :: "factory \<Rightarrow> bool" where
  "factory_over s \<longleftrightarrow> p_at s = PDone \<and> c_at s = CDone"

lemma p_weight_wake: "p_weight q p \<le> p_weight q' p + 2"
  by (cases p) auto

lemma c_weight_wake: "c_weight q c \<le> c_weight q' c + 2"
  by (cases c) auto

lemma factory_left_producer:
  assumes "factory_inv s" "ProducerThread s = Some s'"
  shows "factory_left s' < factory_left s"
proof -
  have w: "wait_inv s" "p_bound (p_at s) (p_i s)" using assms(1) by (auto simp: factory_inv_def factory_life_def)
  show ?thesis
  proof (cases "p_at s")
    case PSignal
    then have "s' = s\<lparr>notEmpty := cond_signal (notEmpty s), p_at := PUnlock\<rparr>"
      using assms(2) by (simp add: ProducerThread_def)
    with PSignal show ?thesis
      using c_weight_wake [of "1 \<in> set (cond_signal (notEmpty s))" "c_at s" "1 \<in> set (notEmpty s)"]
      by (simp add: factory_left_def)
  qed (use assms(2) w in \<open>auto simp: ProducerThread_def factory_left_def cond_enqueue_def split: if_splits\<close>)
qed

lemma factory_left_consumer:
  assumes "factory_inv s" "ConsumerThread s = Some s'"
  shows "factory_left s' < factory_left s"
proof -
  have w: "wait_inv s" "c_got (c_at s) = 0 \<Longrightarrow> taken s \<le> 16"
    using assms(1) by (auto simp: factory_inv_def factory_life_def)
  show ?thesis
  proof (cases "c_at s")
    case CSignal
    then have "s' = s\<lparr>notFull := cond_signal (notFull s), c_at := CUnlock\<rparr>"
      using assms(2) by (simp add: ConsumerThread_def)
    with CSignal show ?thesis
      using p_weight_wake [of "0 \<in> set (cond_signal (notFull s))" "p_at s" "0 \<in> set (notFull s)"]
      by (simp add: factory_left_def)
  qed (use assms(2) w in \<open>auto simp: ConsumerThread_def factory_left_def cond_enqueue_def split: if_splits\<close>)
qed

lemma factory_progress:
  assumes inv: "factory_inv s" and nf: "\<not> factory_over s"
  shows "\<exists>t s'. factory_step t s = Some s'"
proof (rule ccontr)
  assume "\<not> ?thesis"
  then have "factory_step 0 s = None" "factory_step 1 s = None" by (metis option.exhaust)+
  then have p: "ProducerThread s = None" and c: "ConsumerThread s = None" by (simp_all add: factory_step_def)
  have i: "lock_inv s" "queue_inv s" "wait_inv s" "factory_life s"
    using inv by (simp_all add: factory_inv_def)
  have "\<not> p_holds (p_at s)" using p by (cases "p_at s") (auto simp: ProducerThread_def split: if_splits)
  moreover have "\<not> c_holds (c_at s)" using c by (cases "c_at s") (auto simp: ConsumerThread_def split: if_splits)
  ultimately have free: "locker s = None" using i(1) by (simp add: lock_inv_def)
  have pw: "p_at s = PDone \<or> p_at s = PWait \<and> BufferIsFull (products s)"
    using p free i(3) \<open>\<not> c_holds (c_at s)\<close>
    by (cases "p_at s") (auto simp: ProducerThread_def mutex_lock_def wait_inv_def split: if_splits)
  have cw: "c_at s = CDone \<or> c_at s = CWait \<and> BufferIsEmpty (products s)"
    using c free i(3) \<open>\<not> p_holds (p_at s)\<close>
    by (cases "c_at s") (auto simp: ConsumerThread_def mutex_lock_def wait_inv_def split: if_splits)
  have f: "sent s = taken s + length (ring_contents (products s))" "ring_wf (products s)"
    using i(2) flow_length by (auto simp: queue_inv_def)
  have "taken s < sent s" if "p_at s = PWait"
    using that pw f ring.full_not_none ring.none_iff by auto
  moreover have "taken s = sent s" if "c_at s = CWait"
    using that cw f ring.none_iff by auto
  ultimately show False
    using pw cw nf i(4) by (auto simp: factory_over_def factory_life_def sent_def)
qed

interpretation factory: terminating_system factory_step factory_init factory_inv factory_left factory_over
proof
  show "factory_left t < factory_left s" if "factory_inv s" "factory_step a s = Some t" for s a t
    using that factory_left_producer factory_left_consumer by (auto simp: factory_step_def split: if_splits)
qed (fact factory_inv_init factory_step_inv factory_progress)+

interpretation condition: thread_program factory_step factory_init factory_inv factory_left factory_over
  id factory_dead "\<lambda>k s. []" 2 condition_main
proof
  show "wf_main 2 condition_main \<and> ordered_main condition_main \<and> condition_main \<noteq> [] \<and>
      (\<forall>t < 2. creates t condition_main \<and> joins t condition_main)"
    by (auto simp: condition_main_def)
  show "id x < 2" if "factory_step x c = Some c'" for x c c'
    using that by (simp add: factory_step_def split: if_splits)
  show "factory_dead t c'" if "factory_step x c = Some c'" "factory_dead t c" for x c c' t
    using that by (auto simp: factory_step_def factory_dead_def ProducerThread_def ConsumerThread_def
        split: if_splits prod_pc.splits cons_pc.splits)
qed (simp add: factory_over_def factory_dead_def)

definition condition_step :: "tid pact \<Rightarrow> factory prog \<Rightarrow> factory prog option" where
  "condition_step = prog_ok id factory_step factory_dead (\<lambda>k s. [])"

subsection \<open>Properties of \<open>condition.c\<close>\<close>

text \<open>
  C18: safety of \<open>condition.c\<close>, spurious wakeups included.  Whatever the schedule, the consumer
  has printed a prefix of 0, 1, 2, ... and the producer another one at least as long: every
  item arrives once and in order; the buffer never holds more than seven items, and what it
  holds is exactly what was produced and not yet taken.
\<close>

theorem condition_fifo:
  assumes "reachable factory_any factory_init s"
  shows "\<exists>k n. consumed (said s) = map int [0..<k] \<and> produced (said s) = map int [0..<n] \<and> k \<le> n \<and> n \<le> 16 \<and>
     ring_contents (products s) = map item_of [taken s..<sent s] \<and> length (ring_contents (products s)) \<le> 7"
proof -
  have "factory_inv s" using assms by (rule factory_spurious.reachable_inv)
  then have i: "flow (sent s) (taken s) (products s)" "said_inv s" "factory_life s"
    by (simp_all add: factory_inv_def queue_inv_def)
  have "map item_of [0..<sent s] = map item_of [0..<taken s] @ ring_contents (products s)" "taken s \<le> sent s"
    using i(1) by (simp_all add: flow_def)
  then have c: "ring_contents (products s) = map item_of [taken s..<sent s]"
    by (metis append_eq_conv_conj diff_zero drop_map drop_upt length_map length_upt add_0)
  have "ring_length (products s) \<le> 7" using i(1) by (simp add: ring_length_def BUFFER_SIZE_def)
  then have l: "length (ring_contents (products s)) \<le> 7" by (simp add: ring_contents_def)
  have "eaten s \<le> min 16 (p_i s + p_said (p_at s))"
  proof -
    have "p_sent (p_at s) \<le> p_said (p_at s)" by (cases "p_at s") auto
    moreover have "eaten s \<le> taken s" by (simp add: eaten_def)
    ultimately show ?thesis using \<open>taken s \<le> sent s\<close> i(2) by (simp add: sent_def said_inv_def)
  qed
  with i(2) c l show ?thesis unfolding said_inv_def by (intro exI [of _ "eaten s"] exI [of _ "min 16 (p_i s + p_said (p_at s))"]) simp
qed

theorem condition_fifo_witness:
  "\<exists>s. run factory_any [Step 1, Step 1, Spurious 1, Step 0] factory_init = Some s \<and>
     (\<exists>k n. consumed (said s) = map int [0..<k] \<and> produced (said s) = map int [0..<n] \<and> k \<le> n \<and> n \<le> 16)"
proof -
  obtain s where s: "run factory_any [Step 1, Step 1, Spurious 1, Step 0] factory_init = Some s"
    by (simp add: factory_any_def factory_step_def ProducerThread_def ConsumerThread_def factory_init_def products_init_def
        mutex_lock_def BufferIsEmpty_def)
  show ?thesis using condition_fifo [OF run_reachable [OF s]] s by blast
qed

text \<open>
  C5: total correctness of \<open>condition.c\<close> when the condition variables wake nobody without a
  signal and the calls of \<open>main\<close> succeed.  Every schedule has at most 538 steps, and one
  that cannot be continued has ended with \<open>exit (EXIT_SUCCESS)\<close> after the consumer printed
  exactly 0 to 15: no wakeup is lost and the threads never deadlock.
\<close>

theorem condition_program_returns:
  assumes "run condition_step as (prog_init condition_main factory_init) = Some s"
  shows "length as \<le> 538 \<and>
     (stuck condition_step s \<longrightarrow> ending s = Exited 0 \<and> consumed (said (shared s)) = map int [0..<16] \<and>
        produced (said (shared s)) = map int [0..<16])"
proof (intro conjI impI)
  note r = assms [unfolded condition_step_def]
  have m: "factory_left factory_init = 527" by (simp add: factory_left_def factory_init_def)
  show "length as \<le> 538" using condition.program_returns(1) [OF r] by (simp add: m condition_main_def)
  assume st: "stuck condition_step s"
  have d: "ending s = Exited 0" "p_at (shared s) = PDone" "c_at (shared s) = CDone"
    using condition.program_returns(2) [OF r st [unfolded condition_step_def]]
    by (auto simp: condition_main_def factory_dead_def all_less_2)
  have "factory_inv (shared s)"
    by (rule factory.reachable_inv [OF prog_ok_shared_reachable [OF run_reachable [OF r]]])
  then have "factory_life (shared s)" "said_inv (shared s)" by (simp_all add: factory_inv_def)
  with d show "ending s = Exited 0" "consumed (said (shared s)) = map int [0..<16]"
    "produced (said (shared s)) = map int [0..<16]"
    by (simp_all add: factory_life_def said_inv_def eaten_def)
qed

theorem condition_program_returns_witness:
  "\<exists>as s. run condition_step as (prog_init condition_main factory_init) = Some s \<and> stuck condition_step s \<and>
     length as \<le> 538 \<and> ending s = Exited 0 \<and> consumed (said (shared s)) = map int [0..<16]"
proof -
  obtain as s where r: "run condition_step as (prog_init condition_main factory_init) = Some s" "stuck condition_step s"
    using condition.program_run unfolding condition_step_def by blast
  then show ?thesis using condition_program_returns [OF r(1)] by blast
qed

end
