(* ===== verification/Products_Variants.thy ===== *)
theory Products_Variants
  imports Products
begin

section \<open>The other producers and consumers: \<open>condition_no_cond.c\<close>, \<open>condition_sem.c\<close>, \<open>condition_sem1.c\<close>\<close>

text \<open>
  Three programs on the pattern of \<open>condition.c\<close>: one without condition variables, which can spin for ever,
  one with semaphores around the wrong loop, which loses items, and one with two semaphores, which is correct.
\<close>

subsection \<open>\<open>condition_no_cond.c\<close>: waiting without releasing the mutex\<close>

text \<open>
  The waits and signals are commented out: a thread that finds the buffer full (empty) goes
  round its empty loop and keeps the mutex.
\<close>

definition ProducerSpin :: "factory \<Rightarrow> factory option" where
  "ProducerSpin s =
     (case p_at s of
        PTest \<Rightarrow> if BufferIsFull (products s) then Some s else Some (s\<lparr>p_at := PPut\<rparr>)
      | PPut \<Rightarrow> Some (s\<lparr>products := buffer_put (item_of (p_i s)) (products s), p_at := PUnlock\<rparr>)
      | PFor \<Rightarrow> ProducerThread s
      | PLock \<Rightarrow> ProducerThread s
      | PUnlock \<Rightarrow> ProducerThread s
      | _ \<Rightarrow> None)"

definition ConsumerSpin :: "factory \<Rightarrow> factory option" where
  "ConsumerSpin s =
     (case c_at s of
        CTest \<Rightarrow> if BufferIsEmpty (products s) then Some s else Some (s\<lparr>c_at := CGet\<rparr>)
      | CGet \<Rightarrow> Some (s\<lparr>c_item := fst (buffer_get (products s)), products := snd (buffer_get (products s)),
                  taken := taken s + 1, c_at := CUnlock\<rparr>)
      | CLock \<Rightarrow> ConsumerThread s
      | CUnlock \<Rightarrow> ConsumerThread s
      | CCheck \<Rightarrow> ConsumerThread s
      | _ \<Rightarrow> None)"

definition spin_step :: "tid \<Rightarrow> factory \<Rightarrow> factory option" where
  "spin_step t s = (if t = 0 then ProducerSpin s else if t = 1 then ConsumerSpin s else None)"

definition spin_inv :: "factory \<Rightarrow> bool" where
  "spin_inv s \<longleftrightarrow> lock_inv s \<and> queue_inv s \<and> factory_life s \<and> said_inv s"

lemma spin_put:
  assumes "spin_inv s" "p_at s = PPut"
  shows "spin_inv (s\<lparr>products := buffer_put (item_of (p_i s)) (products s), p_at := PUnlock\<rparr>)"
proof -
  have "flow (p_i s) (taken s) (products s)" "\<not> BufferIsFull (products s)" "c_at s \<noteq> CGet"
    using assms by (auto simp: spin_inv_def queue_inv_def sent_def lock_inv_def)
  from flow_put [OF this(1,2)] this(3) assms show ?thesis
    by (auto simp: spin_inv_def queue_inv_def sent_def lock_inv_def factory_life_def said_inv_def eaten_def)
qed

lemma spin_get:
  assumes "spin_inv s" "c_at s = CGet"
  shows "spin_inv (s\<lparr>c_item := fst (buffer_get (products s)), products := snd (buffer_get (products s)),
      taken := taken s + 1, c_at := CUnlock\<rparr>)"
proof -
  have "flow (sent s) (taken s) (products s)" "\<not> BufferIsEmpty (products s)" "p_at s \<noteq> PPut"
    using assms by (auto simp: spin_inv_def queue_inv_def lock_inv_def)
  from flow_get [OF this(1,2)] this(3) assms show ?thesis
    by (auto simp: spin_inv_def queue_inv_def sent_def lock_inv_def factory_life_def said_inv_def eaten_def)
qed

lemma spin_step_inv:
  assumes inv: "spin_inv s" and st: "spin_step t s = Some s'"
  shows "spin_inv s'"
proof -
  have i: "lock_inv s" "queue_inv s" "factory_life s" "said_inv s" using inv by (simp_all add: spin_inv_def)
  consider "ProducerSpin s = Some s'" | "ConsumerSpin s = Some s'" using st by (auto simp: spin_step_def split: if_splits)
  then show ?thesis
  proof cases
    case 1
    have P: "spin_inv s'" if "ProducerThread s = Some s'"
      using lock_inv_producer [OF i(1) that] queue_inv_producer [OF i(2,1) that] factory_life_producer [OF i(3) that]
        said_inv_producer [OF i(4,3) that] by (simp add: spin_inv_def)
    have "spin_inv (s\<lparr>p_at := PPut\<rparr>)" if "p_at s = PTest" "\<not> BufferIsFull (products s)"
      using that i by (auto simp: spin_inv_def queue_inv_def sent_def lock_inv_def factory_life_def said_inv_def eaten_def)
    with 1 P inv spin_put show ?thesis by (cases "p_at s") (auto simp: ProducerSpin_def split: if_splits)
  next
    case 2
    have C: "spin_inv s'" if "ConsumerThread s = Some s'"
      using lock_inv_consumer [OF i(1) that] queue_inv_consumer [OF i(2,1) that] factory_life_consumer [OF i(3,2) that]
        said_inv_consumer [OF i(4,3) that] by (simp add: spin_inv_def)
    have "spin_inv (s\<lparr>c_at := CGet\<rparr>)" if "c_at s = CTest" "\<not> BufferIsEmpty (products s)"
      using that i by (auto simp: spin_inv_def queue_inv_def sent_def lock_inv_def factory_life_def said_inv_def eaten_def)
    with 2 C inv spin_get show ?thesis by (cases "c_at s") (auto simp: ConsumerSpin_def split: if_splits)
  qed
qed

interpretation spin: invariant_system spin_step factory_init spin_inv
proof
  show "spin_inv factory_init" using factory_inv_init by (simp only: factory_inv_def spin_inv_def)
qed (fact spin_step_inv)

definition spinning :: "factory \<Rightarrow> bool" where
  "spinning s \<longleftrightarrow> c_at s = CTest \<and> BufferIsEmpty (products s) \<and> locker s = Some 1 \<and> p_i s = 0 \<and>
     (p_at s = PFor \<or> p_at s = PLock) \<and> consumed (said s) = []"

lemma spinning_step:
  assumes "spinning s" "spin_step t s = Some s'"
  shows "spinning s'"
proof (cases "t = 0")
  case True
  with assms show ?thesis
    by (cases "p_at s") (auto simp: spinning_def spin_step_def ProducerSpin_def ProducerThread_def)
next
  case False
  with assms show ?thesis
    by (auto simp: spinning_def spin_step_def ConsumerSpin_def split: if_splits)
qed

interpretation spinner: invariant_system spin_step "factory_init\<lparr>locker := Some 1, c_at := CTest\<rparr>" spinning
proof
  show "spinning (factory_init\<lparr>locker := Some 1, c_at := CTest\<rparr>)"
    by (simp add: spinning_def factory_init_def products_init_def BufferIsEmpty_def)
qed (fact spinning_step)

text \<open>
  \<open>condition_no_cond.c\<close> delivers the items in order as far as it gets, but if the consumer
  takes the mutex first it spins for ever: it holds the mutex while waiting for an item, and in
  no state reachable from there has anything been consumed or the producer got past its lock.
\<close>

theorem condition_no_cond_livelock:
  "(\<forall>s. reachable spin_step factory_init s \<longrightarrow> (\<exists>k. consumed (said s) = map int [0..<k] \<and> k \<le> 16)) \<and>
   (\<exists>s. run spin_step [1] factory_init = Some s \<and>
      (\<forall>s'. reachable spin_step s s' \<longrightarrow> c_at s' = CTest \<and> (p_at s' = PFor \<or> p_at s' = PLock) \<and> consumed (said s') = []))"
proof (intro conjI allI impI)
  fix s assume "reachable spin_step factory_init s"
  then have "spin_inv s" by (rule spin.reachable_inv)
  then show "\<exists>k. consumed (said s) = map int [0..<k] \<and> k \<le> 16"
    unfolding spin_inv_def said_inv_def by blast
next
  let ?s = "factory_init\<lparr>locker := Some 1, c_at := CTest\<rparr>"
  have r: "run spin_step [1] factory_init = Some ?s"
    by (simp add: spin_step_def ConsumerSpin_def ConsumerThread_def factory_init_def mutex_lock_def)
  have "c_at s' = CTest \<and> (p_at s' = PFor \<or> p_at s' = PLock) \<and> consumed (said s') = []"
    if "reachable spin_step ?s s'" for s'
    using spinner.reachable_inv [OF that] by (simp add: spinning_def)
  with r show "\<exists>s. run spin_step [1] factory_init = Some s \<and>
      (\<forall>s'. reachable spin_step s s' \<longrightarrow> c_at s' = CTest \<and> (p_at s' = PFor \<or> p_at s' = PLock) \<and> consumed (said s') = [])"
    by blast
qed

theorem condition_no_cond_livelock_witness:
  "\<exists>s. run spin_step [0, 0, 0, 0] factory_init = Some s \<and> (\<exists>k. consumed (said s) = map int [0..<k] \<and> k \<le> 16)"
proof -
  obtain s where s: "run spin_step [0, 0, 0, 0] factory_init = Some s"
    by (simp add: spin_step_def ProducerSpin_def ProducerThread_def factory_init_def products_init_def mutex_lock_def
        BufferIsFull_def BUFFER_SIZE_def)
  have "\<exists>k. consumed (said s) = map int [0..<k] \<and> k \<le> 16"
    by (rule mp [OF spec [OF conjunct1 [OF condition_no_cond_livelock]] run_reachable [OF s]])
  with s show ?thesis by blast
qed

subsection \<open>\<open>condition_sem.c\<close>: loops around semaphores\<close>

text \<open>
  Here \<open>Produce\<close> stores its item again and again until the buffer is full, and \<open>Consume\<close>
  reads until it is empty, returning the last item it read; a call of \<open>Consume\<close> that finds
  the buffer empty returns a variable that was never set (\<open>None\<close>).  There is no mutex: each
  statement is a step, and a write position of 8 is visible before it is reset.
\<close>

datatype sp_pc = SPFor | SPTest | SPWait | SPStore | SPInc | SPPost | SPWrap | SPDone
datatype sc_pc = SCCall | SCTest | SCWait | SCRead | SCInc | SCPost | SCWrap | SCCheck | SCDone

record sem_factory =
  sproducts :: Products
  blank_number :: sem
  product_number :: sem
  sp_at :: sp_pc
  sp_i :: nat
  sc_at :: sc_pc
  sc_item :: "int option"
  sc_undefined :: bool
  ssaid :: "says list"

definition ProducerSem :: "sem_factory \<Rightarrow> sem_factory option" where
  "ProducerSem s =
     (let p = sproducts s in
      case sp_at s of
        SPFor \<Rightarrow> if sp_i s < 16 then Some (s\<lparr>sp_at := SPTest, ssaid := ssaid s @ [Producer (int (sp_i s))]\<rparr>)
                 else if sp_i s = 16 then Some (s\<lparr>sp_at := SPTest\<rparr>) else Some (s\<lparr>sp_at := SPDone\<rparr>)
      | SPTest \<Rightarrow> if BufferIsFull p then Some (s\<lparr>sp_at := SPFor, sp_i := sp_i s + 1\<rparr>) else Some (s\<lparr>sp_at := SPWait\<rparr>)
      | SPWait \<Rightarrow> map_option (\<lambda>v. s\<lparr>blank_number := v, sp_at := SPStore\<rparr>) (sem_wait (blank_number s))
      | SPStore \<Rightarrow> Some (s\<lparr>sproducts := p\<lparr>buffer := (buffer p)[posWriteTo p := item_of (sp_i s)]\<rparr>, sp_at := SPInc\<rparr>)
      | SPInc \<Rightarrow> Some (s\<lparr>sproducts := p\<lparr>posWriteTo := posWriteTo p + 1\<rparr>, sp_at := SPPost\<rparr>)
      | SPPost \<Rightarrow> Some (s\<lparr>product_number := sem_post (product_number s), sp_at := SPWrap\<rparr>)
      | SPWrap \<Rightarrow> Some (s\<lparr>sproducts := p\<lparr>posWriteTo := (if posWriteTo p \<ge> BUFFER_SIZE then 0 else posWriteTo p)\<rparr>, sp_at := SPTest\<rparr>)
      | SPDone \<Rightarrow> None)"

definition ConsumerSem :: "sem_factory \<Rightarrow> sem_factory option" where
  "ConsumerSem s =
     (let p = sproducts s in
      case sc_at s of
        SCCall \<Rightarrow> Some (s\<lparr>sc_at := SCTest, sc_item := None\<rparr>)
      | SCTest \<Rightarrow> if BufferIsEmpty p then Some (s\<lparr>sc_at := SCCheck\<rparr>) else Some (s\<lparr>sc_at := SCWait\<rparr>)
      | SCWait \<Rightarrow> map_option (\<lambda>v. s\<lparr>product_number := v, sc_at := SCRead\<rparr>) (sem_wait (product_number s))
      | SCRead \<Rightarrow> Some (s\<lparr>sc_item := Some (buffer p ! posReadFrom p), sc_at := SCInc\<rparr>)
      | SCInc \<Rightarrow> Some (s\<lparr>sproducts := p\<lparr>posReadFrom := posReadFrom p + 1\<rparr>, sc_at := SCPost\<rparr>)
      | SCPost \<Rightarrow> Some (s\<lparr>blank_number := sem_post (blank_number s), sc_at := SCWrap\<rparr>)
      | SCWrap \<Rightarrow> Some (s\<lparr>sproducts := p\<lparr>posReadFrom := (if posReadFrom p \<ge> BUFFER_SIZE then 0 else posReadFrom p)\<rparr>, sc_at := SCTest\<rparr>)
      | SCCheck \<Rightarrow> (case sc_item s of
            None \<Rightarrow> Some (s\<lparr>sc_undefined := True, sc_at := SCDone\<rparr>)
          | Some x \<Rightarrow> if x = END_FLAG then Some (s\<lparr>sc_at := SCDone\<rparr>)
                      else Some (s\<lparr>sc_at := SCCall, ssaid := ssaid s @ [Consumer x]\<rparr>))
      | SCDone \<Rightarrow> None)"

definition condition_sem_step :: "tid \<Rightarrow> sem_factory \<Rightarrow> sem_factory option" where
  "condition_sem_step t s =
     (if sc_undefined s then None else if t = 0 then ProducerSem s else if t = 1 then ConsumerSem s else None)"

definition condition_sem_init :: sem_factory where
  "condition_sem_init = \<lparr>sproducts = products_init, blank_number = BUFFER_SIZE, product_number = 0,
     sp_at = SPFor, sp_i = 0, sc_at = SCCall, sc_item = None, sc_undefined = False, ssaid = []\<rparr>"

text \<open>The producer alone: one item fills the buffer, all others find it full.\<close>

definition fill_schedule :: "tid list" where
  "fill_schedule = [0] @ replicate (6 * 7) 0 @ [0] @ replicate (2 * 16) 0 @ [0]"

lemma fill_run:
  "map_option (\<lambda>s. (sp_at s = SPDone, produced (ssaid s), ring_contents (sproducts s)))
     (run condition_sem_step fill_schedule condition_sem_init) = Some (True, map int [0..<16], replicate 7 0)"
  by code_simp

lemma drain_run:
  "map_option (\<lambda>s. (sc_undefined s, consumed (ssaid s)))
     (run condition_sem_step (fill_schedule @ replicate 48 1) condition_sem_init) = Some (True, [0])"
  by code_simp

text \<open>
  \<open>condition_sem.c\<close> does not transfer the items.  If the producer runs first, it announces
  0 to 15 and ends with the buffer full of seven copies of 0 (neither the other items nor
  \<open>END_FLAG\<close> is ever stored); the consumer then prints 0 once, and its next call returns a
  variable that was never assigned.  If the consumer runs first this happens at once.
\<close>

theorem condition_sem_loses_items:
  "(\<exists>s. run condition_sem_step fill_schedule condition_sem_init = Some s \<and> sp_at s = SPDone \<and>
      produced (ssaid s) = map int [0..<16] \<and> ring_contents (sproducts s) = replicate 7 0) \<and>
   (\<exists>s. run condition_sem_step (fill_schedule @ replicate 48 1) condition_sem_init = Some s \<and>
      sc_undefined s \<and> consumed (ssaid s) = [0]) \<and>
   (\<exists>s. run condition_sem_step [1, 1, 1] condition_sem_init = Some s \<and> sc_undefined s)"
proof (intro conjI)
  show "\<exists>s. run condition_sem_step [1, 1, 1] condition_sem_init = Some s \<and> sc_undefined s"
    by (simp add: condition_sem_step_def ConsumerSem_def condition_sem_init_def products_init_def BufferIsEmpty_def)
qed (use fill_run drain_run in \<open>auto simp only: map_option_eq_Some prod.inject simp_thms\<close>)

subsection \<open>\<open>condition_sem1.c\<close>: two counting semaphores\<close>

text \<open>
  An endless producer and an endless consumer over a ring of \<open>NUM\<close> cells; \<open>blank_number\<close> counts
  the free cells and \<open>product_number\<close> the filled ones.  The items are 0, 1, ..., 999, 0, ...
  The fields \<open>made\<close> and \<open>used\<close> list what the two threads print.
\<close>

definition NUM :: nat where "NUM = 100"

datatype qp_pc = QPWait | QPStore | QPPrint | QPPost | QPNext
datatype qc_pc = QCWait | QCPrint | QCClear | QCPost | QCNext

record sem_queue =
  cells :: "int list"
  blanks :: sem
  filled :: sem
  qp :: nat
  q_item :: nat
  qp_at :: qp_pc
  qc :: nat
  qc_at :: qc_pc
  made :: "int list"
  used :: "int list"

definition producer_sem1 :: "sem_queue \<Rightarrow> sem_queue option" where
  "producer_sem1 s =
     (case qp_at s of
        QPWait \<Rightarrow> map_option (\<lambda>v. s\<lparr>blanks := v, qp_at := QPStore\<rparr>) (sem_wait (blanks s))
      | QPStore \<Rightarrow> Some (s\<lparr>cells := (cells s)[qp s := int (q_item s)],
                    q_item := (if q_item s + 1 = 1000 then 0 else q_item s + 1), qp_at := QPPrint\<rparr>)
      | QPPrint \<Rightarrow> Some (s\<lparr>made := made s @ [cells s ! qp s], qp_at := QPPost\<rparr>)
      | QPPost \<Rightarrow> Some (s\<lparr>filled := sem_post (filled s), qp_at := QPNext\<rparr>)
      | QPNext \<Rightarrow> Some (s\<lparr>qp := (qp s + 1) mod NUM, qp_at := QPWait\<rparr>))"

definition consumer_sem1 :: "sem_queue \<Rightarrow> sem_queue option" where
  "consumer_sem1 s =
     (case qc_at s of
        QCWait \<Rightarrow> map_option (\<lambda>v. s\<lparr>filled := v, qc_at := QCPrint\<rparr>) (sem_wait (filled s))
      | QCPrint \<Rightarrow> Some (s\<lparr>used := used s @ [cells s ! qc s], qc_at := QCClear\<rparr>)
      | QCClear \<Rightarrow> Some (s\<lparr>cells := (cells s)[qc s := 0], qc_at := QCPost\<rparr>)
      | QCPost \<Rightarrow> Some (s\<lparr>blanks := sem_post (blanks s), qc_at := QCNext\<rparr>)
      | QCNext \<Rightarrow> Some (s\<lparr>qc := (qc s + 1) mod NUM, qc_at := QCWait\<rparr>))"

definition sem1_step :: "tid \<Rightarrow> sem_queue \<Rightarrow> sem_queue option" where
  "sem1_step t s = (if t = 0 then producer_sem1 s else if t = 1 then consumer_sem1 s else None)"

definition sem1_init :: sem_queue where
  "sem1_init = \<lparr>cells = replicate NUM 0, blanks = NUM, filled = 0, qp = 0, q_item = 0, qp_at = QPWait,
     qc = 0, qc_at = QCWait, made = [], used = []\<rparr>"

text \<open>
  \<open>n\<close> cells have been claimed and \<open>k\<close> released in full; the invariant speaks of absolute
  positions: cell \<open>i mod NUM\<close> holds item \<open>i mod 1000\<close> while \<open>i\<close> is between the consumer and
  the producer.
\<close>

fun qp_stored :: "qp_pc \<Rightarrow> nat" where
  "qp_stored QPWait = 0" | "qp_stored QPStore = 0" | "qp_stored _ = 1"

fun qp_posted :: "qp_pc \<Rightarrow> nat" where
  "qp_posted QPNext = 1" | "qp_posted _ = 0"

fun qp_claimed :: "qp_pc \<Rightarrow> nat" where
  "qp_claimed QPWait = 0" | "qp_claimed _ = 1"

fun qp_printed :: "qp_pc \<Rightarrow> nat" where
  "qp_printed QPPost = 1" | "qp_printed QPNext = 1" | "qp_printed _ = 0"

fun qc_claimed :: "qc_pc \<Rightarrow> nat" where
  "qc_claimed QCWait = 0" | "qc_claimed _ = 1"

fun qc_read :: "qc_pc \<Rightarrow> nat" where
  "qc_read QCWait = 0" | "qc_read QCPrint = 0" | "qc_read _ = 1"

fun qc_posted :: "qc_pc \<Rightarrow> nat" where
  "qc_posted QCNext = 1" | "qc_posted _ = 0"

definition sem1_item :: "nat \<Rightarrow> int" where
  "sem1_item i = int (i mod 1000)"

definition sem1_at :: "nat \<Rightarrow> nat \<Rightarrow> sem_queue \<Rightarrow> bool" where
  "sem1_at n k s \<longleftrightarrow>
     length (cells s) = NUM \<and> qp s = n mod NUM \<and> qc s = k mod NUM \<and>
     q_item s = (n + qp_stored (qp_at s)) mod 1000 \<and>
     blanks s + (n + qp_claimed (qp_at s)) = NUM + (k + qc_posted (qc_at s)) \<and>
     filled s + (k + qc_claimed (qc_at s)) = n + qp_posted (qp_at s) \<and>
     (\<forall>i. k + qc_read (qc_at s) \<le> i \<longrightarrow> i < n + qp_stored (qp_at s) \<longrightarrow> cells s ! (i mod NUM) = sem1_item i) \<and>
     made s = map sem1_item [0..<n + qp_printed (qp_at s)] \<and>
     used s = map sem1_item [0..<k + qc_read (qc_at s)]"

definition sem1_inv :: "sem_queue \<Rightarrow> bool" where
  "sem1_inv s \<longleftrightarrow> (\<exists>n k. sem1_at n k s)"

lemma mod_NUM_neq: "i < j \<Longrightarrow> j < i + NUM \<Longrightarrow> i mod NUM \<noteq> j mod NUM"
proof
  assume a: "i < j" "j < i + NUM" "i mod NUM = j mod NUM"
  then have "NUM dvd j - i" using mod_eq_dvd_iff_nat [of i j NUM] by simp
  moreover have "0 < j - i" "j - i < NUM" using a by auto
  ultimately show False by (meson nat_dvd_not_less)
qed

lemma sem1_counts:
  assumes "sem1_at n k s"
  shows "n + qp_claimed (qp_at s) \<le> NUM + k + qc_posted (qc_at s)"
    "k + qc_claimed (qc_at s) \<le> n + qp_posted (qp_at s)"
    "qp_posted (qp_at s) \<le> qp_stored (qp_at s)" "qp_stored (qp_at s) \<le> qp_claimed (qp_at s)"
    "qc_posted (qc_at s) \<le> qc_read (qc_at s)" "qc_read (qc_at s) \<le> qc_claimed (qc_at s)"
proof -
  show "qp_posted (qp_at s) \<le> qp_stored (qp_at s)" "qp_stored (qp_at s) \<le> qp_claimed (qp_at s)"
    by (cases "qp_at s"; simp)+
  show "qc_posted (qc_at s) \<le> qc_read (qc_at s)" "qc_read (qc_at s) \<le> qc_claimed (qc_at s)"
    by (cases "qc_at s"; simp)+
qed (use assms in \<open>simp_all add: sem1_at_def\<close>)

lemma sem1_store:
  assumes inv: "sem1_at n k s" and at: "qp_at s = QPStore"
  shows "sem1_at n k (s\<lparr>cells := (cells s)[qp s := int (q_item s)],
      q_item := (if q_item s + 1 = 1000 then 0 else q_item s + 1), qp_at := QPPrint\<rparr>)"
proof -
  note c = sem1_counts [OF inv]
  have f: "length (cells s) = NUM" "qp s = n mod NUM" "q_item s = n mod 1000" "n mod NUM < NUM"
    using inv at by (auto simp: sem1_at_def NUM_def)
  have "((cells s)[n mod NUM := int (n mod 1000)]) ! (i mod NUM) = sem1_item i"
    if i: "k + qc_read (qc_at s) \<le> i" "i < Suc n" for i
  proof (cases "i = n")
    case True
    then show ?thesis using f by (simp add: sem1_item_def)
  next
    case False
    then have "i < n" "n < i + NUM" using i c(1,5) at by auto
    then have "i mod NUM \<noteq> n mod NUM" by (rule mod_NUM_neq)
    moreover have "cells s ! (i mod NUM) = sem1_item i"
      using inv i \<open>i < n\<close> at by (simp add: sem1_at_def)
    ultimately show ?thesis by simp
  qed
  then show ?thesis using inv at f by (simp add: sem1_at_def mod_Suc)
qed

lemma sem1_clear:
  assumes inv: "sem1_at n k s" and at: "qc_at s = QCClear"
  shows "sem1_at n k (s\<lparr>cells := (cells s)[qc s := 0], qc_at := QCPost\<rparr>)"
proof -
  note c = sem1_counts [OF inv]
  have "(cells s)[qc s := 0] ! (i mod NUM) = sem1_item i"
    if i: "k + 1 \<le> i" "i < n + qp_stored (qp_at s)" for i
  proof -
    have "k < i" "i < k + NUM" using i c(1,4) at by auto
    then have "k mod NUM \<noteq> i mod NUM" by (rule mod_NUM_neq)
    moreover have "cells s ! (i mod NUM) = sem1_item i" "qc s = k mod NUM" using inv i at by (auto simp: sem1_at_def)
    ultimately show ?thesis by simp
  qed
  then show ?thesis using inv at by (simp add: sem1_at_def)
qed

lemma sem1_producer:
  assumes inv: "sem1_at n k s" and st: "producer_sem1 s = Some s'"
  shows "sem1_inv s'"
proof (cases "qp_at s")
  case QPStore
  then show ?thesis using st sem1_store [OF inv] by (auto simp: producer_sem1_def sem1_inv_def)
next
  case QPPrint
  have "cells s ! (n mod NUM) = sem1_item n"
    using inv QPPrint sem1_counts(2,6) [OF inv] by (simp add: sem1_at_def)
  then have "sem1_at n k s'" using inv st QPPrint by (auto simp: producer_sem1_def sem1_at_def)
  then show ?thesis by (auto simp: sem1_inv_def)
next
  case QPNext
  then have "sem1_at (Suc n) k s'" using inv st by (auto simp: producer_sem1_def sem1_at_def mod_Suc_eq)
  then show ?thesis by (auto simp: sem1_inv_def)
next
  case QPWait
  then have "sem1_at n k s'" using inv st by (auto simp: producer_sem1_def sem1_at_def)
  then show ?thesis by (auto simp: sem1_inv_def)
next
  case QPPost
  then have "sem1_at n k s'" using inv st by (auto simp: producer_sem1_def sem1_at_def)
  then show ?thesis by (auto simp: sem1_inv_def)
qed

lemma sem1_consumer:
  assumes inv: "sem1_at n k s" and st: "consumer_sem1 s = Some s'"
  shows "sem1_inv s'"
proof (cases "qc_at s")
  case QCClear
  then show ?thesis using st sem1_clear [OF inv] by (auto simp: consumer_sem1_def sem1_inv_def)
next
  case QCPrint
  have "cells s ! (k mod NUM) = sem1_item k"
    using inv QCPrint sem1_counts(2,3) [OF inv] by (simp add: sem1_at_def)
  then have "sem1_at n k s'" using inv st QCPrint by (auto simp: consumer_sem1_def sem1_at_def)
  then show ?thesis by (auto simp: sem1_inv_def)
next
  case QCNext
  then have "sem1_at n (Suc k) s'" using inv st by (auto simp: consumer_sem1_def sem1_at_def mod_Suc_eq)
  then show ?thesis by (auto simp: sem1_inv_def)
next
  case QCWait
  then have "sem1_at n k s'" using inv st by (auto simp: consumer_sem1_def sem1_at_def)
  then show ?thesis by (auto simp: sem1_inv_def)
next
  case QCPost
  then have "sem1_at n k s'" using inv st by (auto simp: consumer_sem1_def sem1_at_def)
  then show ?thesis by (auto simp: sem1_inv_def)
qed

interpretation sem1: invariant_system sem1_step sem1_init sem1_inv
proof
  show "sem1_inv sem1_init"
    unfolding sem1_inv_def by (rule exI [of _ 0], rule exI [of _ 0]) (simp add: sem1_at_def sem1_init_def NUM_def)
  show "sem1_inv t" if "sem1_inv s" "sem1_step a s = Some t" for s a t
    using that sem1_producer sem1_consumer by (auto simp: sem1_inv_def [of s] sem1_step_def split: if_splits)
qed

text \<open>
  \<open>condition_sem1.c\<close> is a correct bounded queue without any mutex.  In every reachable state
  the producer has printed the first items of the sequence \<open>i mod 1000\<close> and the consumer a prefix
  of them at most \<open>NUM\<close> items shorter, and one of the two threads can always run:
  the two semaphores alone keep order and never deadlock.
\<close>

theorem condition_sem1_fifo:
  assumes "reachable sem1_step sem1_init s"
  shows "(\<exists>k n. used s = map sem1_item [0..<k] \<and> made s = map sem1_item [0..<n] \<and> k \<le> n \<and> n \<le> k + NUM) \<and>
     \<not> stuck sem1_step s"
proof
  have "sem1_inv s" using assms by (rule sem1.reachable_inv)
  then obtain n k where inv: "sem1_at n k s" by (auto simp: sem1_inv_def)
  note c = sem1_counts [OF inv]
  have b: "qp_printed (qp_at s) \<le> qp_claimed (qp_at s)" "qp_posted (qp_at s) \<le> qp_printed (qp_at s)"
    by (cases "qp_at s"; simp)+
  show "\<exists>k n. used s = map sem1_item [0..<k] \<and> made s = map sem1_item [0..<n] \<and> k \<le> n \<and> n \<le> k + NUM"
  proof (intro exI conjI)
    show "used s = map sem1_item [0..<k + qc_read (qc_at s)]" "made s = map sem1_item [0..<n + qp_printed (qp_at s)]"
      using inv by (simp_all add: sem1_at_def)
  qed (use b c in linarith)+
  show "\<not> stuck sem1_step s"
  proof
    assume st: "stuck sem1_step s"
    then have "sem1_step 0 s = None" "sem1_step 1 s = None" by (simp_all add: stuck_def)
    then have "producer_sem1 s = None" "consumer_sem1 s = None" by (simp_all add: sem1_step_def)
    then have "qp_at s = QPWait" "blanks s = 0" "qc_at s = QCWait" "filled s = 0"
      by (auto simp: producer_sem1_def consumer_sem1_def split: qp_pc.splits qc_pc.splits)
    with inv show False by (auto simp: sem1_at_def NUM_def)
  qed
qed

theorem condition_sem1_fifo_witness:
  "\<exists>s. run sem1_step [0, 0, 0, 0, 1, 1] sem1_init = Some s \<and> used s = [0] \<and> \<not> stuck sem1_step s"
proof -
  obtain s where s: "run sem1_step [0, 0, 0, 0, 1, 1] sem1_init = Some s" "used s = [0]"
    by (simp add: sem1_step_def producer_sem1_def consumer_sem1_def sem1_init_def NUM_def sem_wait_def)
  then show ?thesis using condition_sem1_fifo [OF run_reachable [OF s(1)]] by blast
qed

end
