(* ===== verification/Reader_Writer.thy ===== *)
theory Reader_Writer
  imports Thread_Program
begin

section \<open>Readers and writers of a one-item buffer\<close>

text \<open>
  The programs \<open>reader_writer*.c\<close> and \<open>deadlock.c\<close> of \<open>src/Pthread\<close>.  The writer (run by \<open>main\<close>,
  thread 0) stores the characters 0, 1, 2, ... into \<open>buffer\<close> whenever \<open>buffer_has_item\<close> is 0, the
  reader (thread 1) prints and clears it.  The variants differ in the mutexes the two take
  around that, in their order, and in a timed wait at the end of the loop; the record
  \<open>rw_config\<close> says which: the numbers of the mutexes in the order they are locked (they are
  unlocked in the reverse order), and whether the thread then locks mutex 0 for a
  \<open>pthread_cond_timedwait\<close> that only its timeout ends; with \<open>use_cond\<close> they wait and signal on the
  two condition variables of \<open>reader_writer_cond.c\<close>.  Memory is sequentially consistent; the idle
  loops and the lines \<open>buffer is full\<close> and \<open>buffer is empty\<close> are not recorded.
\<close>

record rw_config =
  w_locks :: "nat list"
  r_locks :: "nat list"
  w_delay :: bool
  r_delay :: bool
  use_cond :: bool

datatype w_pc = WLock nat | WTest | WStore | WPrint | WSet | WNext | WSignal | WWait | WWaiting | WUnlock nat | WDLock | WDWait | WDAgain | WDUnlock
datatype r_pc = RLock nat | RTest | RPrint | RClear | RSignal | RWait | RWaiting | RUnlock nat | RDLock | RDWait | RDAgain | RDUnlock

record rw =
  buffer :: "8 word"
  buffer_has_item :: nat
  locks :: "nat \<Rightarrow> mutex"
  buffer_not_full :: cond
  buffer_not_empty :: cond
  w_at :: w_pc
  item :: "8 word"
  r_at :: r_pc
  wrote :: "8 word list"
  got :: "8 word list"

definition take_lock :: "tid \<Rightarrow> nat \<Rightarrow> rw \<Rightarrow> rw option" where
  "take_lock t l s = map_option (\<lambda>m. s\<lparr>locks := (locks s)(l := m)\<rparr>) (mutex_lock t (locks s l))"

definition drop_lock :: "nat \<Rightarrow> rw \<Rightarrow> rw" where
  "drop_lock l s = s\<lparr>locks := (locks s)(l := mutex_unlock (locks s l))\<rparr>"

text \<open>
  \<open>char item\<close> and \<open>unsigned char buffer\<close> have eight bits; \<open>if (item++ == -1) item = 0\<close> adds one
  modulo 256.
\<close>

definition next_item :: "8 word \<Rightarrow> 8 word" where
  "next_item i = (if i = -1 then 0 else i + 1)"

definition writer_function :: "rw_config \<Rightarrow> rw \<Rightarrow> rw option" where
  "writer_function c s =
     (case w_at s of
        WLock j \<Rightarrow> if j < length (w_locks c)
                   then map_option (\<lambda>s. s\<lparr>w_at := WLock (j + 1)\<rparr>) (take_lock 0 (w_locks c ! j) s)
                   else Some (s\<lparr>w_at := WTest\<rparr>)
      | WTest \<Rightarrow> Some (s\<lparr>w_at := (if buffer_has_item s = 0 then WStore
                   else if use_cond c then WWait else WUnlock (length (w_locks c)))\<rparr>)
      | WStore \<Rightarrow> Some (s\<lparr>buffer := item s, w_at := WPrint\<rparr>)
      | WPrint \<Rightarrow> Some (s\<lparr>wrote := wrote s @ [buffer s], w_at := WSet\<rparr>)
      | WSet \<Rightarrow> Some (s\<lparr>buffer_has_item := 1, w_at := WNext\<rparr>)
      | WNext \<Rightarrow> Some (s\<lparr>item := next_item (item s), w_at := (if use_cond c then WSignal else WUnlock (length (w_locks c)))\<rparr>)
      | WSignal \<Rightarrow> Some (s\<lparr>buffer_not_empty := cond_signal (buffer_not_empty s), w_at := WUnlock (length (w_locks c))\<rparr>)
      | WWait \<Rightarrow> Some ((drop_lock 0 s)\<lparr>buffer_not_full := cond_enqueue 0 (buffer_not_full s), w_at := WWaiting\<rparr>)
      | WWaiting \<Rightarrow> if 0 \<in> set (buffer_not_full s) then None
                    else map_option (\<lambda>s. s\<lparr>w_at := WUnlock (length (w_locks c))\<rparr>) (take_lock 0 0 s)
      | WUnlock j \<Rightarrow> (case j of
            0 \<Rightarrow> Some (s\<lparr>w_at := (if w_delay c then WDLock else WLock 0)\<rparr>)
          | Suc i \<Rightarrow> Some ((drop_lock (w_locks c ! i) s)\<lparr>w_at := WUnlock i\<rparr>))
      | WDLock \<Rightarrow> map_option (\<lambda>s. s\<lparr>w_at := WDWait\<rparr>) (take_lock 0 0 s)
      | WDWait \<Rightarrow> Some ((drop_lock 0 s)\<lparr>w_at := WDAgain\<rparr>)
      | WDAgain \<Rightarrow> map_option (\<lambda>s. s\<lparr>w_at := WDUnlock\<rparr>) (take_lock 0 0 s)
      | WDUnlock \<Rightarrow> Some ((drop_lock 0 s)\<lparr>w_at := WLock 0\<rparr>))"

definition reader_function :: "rw_config \<Rightarrow> rw \<Rightarrow> rw option" where
  "reader_function c s =
     (case r_at s of
        RLock j \<Rightarrow> if j < length (r_locks c)
                   then map_option (\<lambda>s. s\<lparr>r_at := RLock (j + 1)\<rparr>) (take_lock 1 (r_locks c ! j) s)
                   else Some (s\<lparr>r_at := RTest\<rparr>)
      | RTest \<Rightarrow> Some (s\<lparr>r_at := (if buffer_has_item s = 1 then RPrint
                   else if use_cond c then RWait else RUnlock (length (r_locks c)))\<rparr>)
      | RPrint \<Rightarrow> Some (s\<lparr>got := got s @ [buffer s], r_at := RClear\<rparr>)
      | RClear \<Rightarrow> Some (s\<lparr>buffer_has_item := 0, r_at := (if use_cond c then RSignal else RUnlock (length (r_locks c)))\<rparr>)
      | RSignal \<Rightarrow> Some (s\<lparr>buffer_not_full := cond_signal (buffer_not_full s), r_at := RUnlock (length (r_locks c))\<rparr>)
      | RWait \<Rightarrow> Some ((drop_lock 0 s)\<lparr>buffer_not_empty := cond_enqueue 1 (buffer_not_empty s), r_at := RWaiting\<rparr>)
      | RWaiting \<Rightarrow> if 1 \<in> set (buffer_not_empty s) then None
                    else map_option (\<lambda>s. s\<lparr>r_at := RUnlock (length (r_locks c))\<rparr>) (take_lock 1 0 s)
      | RUnlock j \<Rightarrow> (case j of
            0 \<Rightarrow> Some (s\<lparr>r_at := (if r_delay c then RDLock else RLock 0)\<rparr>)
          | Suc i \<Rightarrow> Some ((drop_lock (r_locks c ! i) s)\<lparr>r_at := RUnlock i\<rparr>))
      | RDLock \<Rightarrow> map_option (\<lambda>s. s\<lparr>r_at := RDWait\<rparr>) (take_lock 1 0 s)
      | RDWait \<Rightarrow> Some ((drop_lock 0 s)\<lparr>r_at := RDAgain\<rparr>)
      | RDAgain \<Rightarrow> map_option (\<lambda>s. s\<lparr>r_at := RDUnlock\<rparr>) (take_lock 1 0 s)
      | RDUnlock \<Rightarrow> Some ((drop_lock 0 s)\<lparr>r_at := RLock 0\<rparr>))"

definition rw_step :: "rw_config \<Rightarrow> tid \<Rightarrow> rw \<Rightarrow> rw option" where
  "rw_step c t s = (if t = 0 then writer_function c s else if t = 1 then reader_function c s else None)"

definition rw_init :: rw where
  "rw_init = \<lparr>buffer = 0, buffer_has_item = 0, locks = (\<lambda>_. None),
     buffer_not_full = [], buffer_not_empty = [], w_at = WLock 0, item = 0,
     r_at = RLock 0, wrote = [], got = []\<rparr>"

subsection \<open>The programs\<close>

definition reader_writer :: rw_config where
  "reader_writer = \<lparr>w_locks = [0], r_locks = [0], w_delay = False, r_delay = False, use_cond = False\<rparr>"

definition reader_writer_delay :: rw_config where
  "reader_writer_delay = \<lparr>w_locks = [0], r_locks = [0], w_delay = True, r_delay = False, use_cond = False\<rparr>"

definition reader_writer_delay1 :: rw_config where
  "reader_writer_delay1 = \<lparr>w_locks = [0], r_locks = [0], w_delay = False, r_delay = True, use_cond = False\<rparr>"

definition reader_writer_diff_mutex :: rw_config where
  "reader_writer_diff_mutex = \<lparr>w_locks = [1], r_locks = [2], w_delay = False, r_delay = False, use_cond = False\<rparr>"

definition reader_writer_no_mutex :: rw_config where
  "reader_writer_no_mutex = \<lparr>w_locks = [], r_locks = [], w_delay = False, r_delay = False, use_cond = False\<rparr>"

definition reader_writer_cond :: rw_config where
  "reader_writer_cond = \<lparr>w_locks = [0], r_locks = [0], w_delay = False, r_delay = False, use_cond = True\<rparr>"

definition deadlock :: rw_config where
  "deadlock = \<lparr>w_locks = [1, 2], r_locks = [2, 1], w_delay = False, r_delay = False, use_cond = False\<rparr>"

subsection \<open>The specification: a slot\<close>

text \<open>
  The abstract state counts the items put into the slot and taken out of it; a put is allowed
  when the slot is empty, a get when it is full.
\<close>

datatype slot_act = Put | Get

fun slot_step :: "slot_act \<Rightarrow> nat \<times> nat \<Rightarrow> (nat \<times> nat) option" where
  "slot_step Put (n, k) = (if n = k then Some (n + 1, k) else None)"
| "slot_step Get (n, k) = (if n = k + 1 then Some (n, k + 1) else None)"

text \<open>
  Where the threads stand between their test of the flag and its change: \<open>w_busy\<close> and \<open>r_busy\<close>;
  \<open>w_full\<close>: the writer has filled the buffer, \<open>w_told\<close> and \<open>r_told\<close>: it has been printed,
  \<open>w_late\<close>: the flag is set but \<open>item\<close> not yet advanced.
\<close>

fun w_busy :: "w_pc \<Rightarrow> bool" where
  "w_busy WStore = True" | "w_busy WPrint = True" | "w_busy WSet = True" | "w_busy _ = False"

fun w_full :: "w_pc \<Rightarrow> bool" where
  "w_full WPrint = True" | "w_full WSet = True" | "w_full _ = False"

fun w_told :: "w_pc \<Rightarrow> nat" where
  "w_told WSet = 1" | "w_told _ = 0"

fun w_late :: "w_pc \<Rightarrow> nat" where
  "w_late WNext = 1" | "w_late _ = 0"

fun r_busy :: "r_pc \<Rightarrow> bool" where
  "r_busy RPrint = True" | "r_busy RClear = True" | "r_busy _ = False"

fun r_told :: "r_pc \<Rightarrow> nat" where
  "r_told RClear = 1" | "r_told _ = 0"

definition slot_of :: "rw \<Rightarrow> nat \<times> nat" where
  "slot_of s = (length (wrote s) - w_told (w_at s), length (got s) - r_told (r_at s))"

definition items :: "nat \<Rightarrow> 8 word list" where
  "items n = map of_nat [0..<n]"

lemma items_simps [simp]: "items 0 = []" "items (Suc n) = items n @ [of_nat n]" "length (items n) = n"
  by (simp_all add: items_def)

definition rw_at :: "nat \<Rightarrow> nat \<Rightarrow> rw \<Rightarrow> bool" where
  "rw_at n k s \<longleftrightarrow>
     buffer_has_item s = n - k \<and> (n = k \<or> n = Suc k) \<and>
     w_late (w_at s) \<le> n \<and> item s = of_nat (n - w_late (w_at s)) \<and>
     (w_busy (w_at s) \<longrightarrow> n = k) \<and> (r_busy (r_at s) \<longrightarrow> n = Suc k) \<and>
     (w_full (w_at s) \<longrightarrow> buffer s = of_nat n) \<and> (n = Suc k \<longrightarrow> buffer s = of_nat k) \<and>
     wrote s = items (n + w_told (w_at s)) \<and> got s = items (k + r_told (r_at s))"

definition rw_inv :: "rw \<Rightarrow> bool" where
  "rw_inv s \<longleftrightarrow> rw_at (fst (slot_of s)) (snd (slot_of s)) s"

lemma rw_at_slot: "rw_at n k s \<Longrightarrow> slot_of s = (n, k)"
  by (simp add: rw_at_def slot_of_def)

lemma rw_invI: "rw_at n k s \<Longrightarrow> rw_inv s"
  using rw_at_slot by (simp add: rw_inv_def)

lemma next_item_Suc: "next_item (of_nat n) = of_nat (Suc n)"
  by (auto simp: next_item_def)

lemma take_lock_Some: "take_lock t l s = Some s' \<longleftrightarrow> locks s l = None \<and> s' = s\<lparr>locks := (locks s)(l := Some t)\<rparr>"
  by (auto simp: take_lock_def)

lemma take_lock_None: "take_lock t l s = None \<longleftrightarrow> locks s l \<noteq> None"
  by (auto simp: take_lock_def)

definition w_idle :: "w_pc \<Rightarrow> bool" where
  "w_idle p \<longleftrightarrow> \<not> w_busy p \<and> \<not> w_full p \<and> w_told p = 0 \<and> w_late p = 0"

lemma w_idle_simps [simp]:
  "w_idle (WLock j)" "w_idle WTest" "w_idle WSignal" "w_idle WWait" "w_idle WWaiting" "w_idle (WUnlock j)" "w_idle WDLock" "w_idle WDWait" "w_idle WDAgain" "w_idle WDUnlock"
  by (simp_all add: w_idle_def)

lemma rw_at_locks [simp]:
  "rw_at n k (s\<lparr>locks := l\<rparr>) = rw_at n k s" "rw_at n k (s\<lparr>buffer_not_full := q\<rparr>) = rw_at n k s"
  "rw_at n k (s\<lparr>buffer_not_empty := q\<rparr>) = rw_at n k s"
  by (simp_all add: rw_at_def)

lemma rw_w_idle: "rw_at n k s \<Longrightarrow> w_idle (w_at s) \<Longrightarrow> w_idle p \<Longrightarrow> rw_at n k (s\<lparr>w_at := p\<rparr>)"
  by (simp add: rw_at_def w_idle_def)

lemma rw_r_idle: "rw_at n k s \<Longrightarrow> \<not> r_busy (r_at s) \<Longrightarrow> \<not> r_busy p \<Longrightarrow> rw_at n k (s\<lparr>r_at := p\<rparr>)"
  by (cases "r_at s"; cases p) (simp_all add: rw_at_def)

lemma rw_busy_write:
  assumes "rw_at n k s"
  shows "w_at s = WTest \<Longrightarrow> buffer_has_item s = 0 \<Longrightarrow> rw_at n k (s\<lparr>w_at := WStore\<rparr>)"
    and "w_at s = WStore \<Longrightarrow> rw_at n k (s\<lparr>buffer := item s, w_at := WPrint\<rparr>)"
    and "w_at s = WPrint \<Longrightarrow> rw_at n k (s\<lparr>wrote := wrote s @ [buffer s], w_at := WSet\<rparr>)"
    and "w_at s = WSet \<Longrightarrow> rw_at (Suc n) k (s\<lparr>buffer_has_item := 1, w_at := WNext\<rparr>)"
    and "w_at s = WNext \<Longrightarrow> w_idle p \<Longrightarrow> rw_at n k (s\<lparr>item := next_item (item s), w_at := p\<rparr>)"
proof -
  show "w_at s = WNext \<Longrightarrow> w_idle p \<Longrightarrow> rw_at n k (s\<lparr>item := next_item (item s), w_at := p\<rparr>)"
    using assms next_item_Suc [of "n - 1"] by (simp add: rw_at_def w_idle_def del: of_nat_Suc)
qed (use assms in \<open>auto simp: rw_at_def\<close>)

lemma rw_busy_read:
  assumes "rw_at n k s"
  shows "r_at s = RTest \<Longrightarrow> buffer_has_item s = 1 \<Longrightarrow> rw_at n k (s\<lparr>r_at := RPrint\<rparr>)"
    and "r_at s = RPrint \<Longrightarrow> rw_at n k (s\<lparr>got := got s @ [buffer s], r_at := RClear\<rparr>)"
    and "r_at s = RClear \<Longrightarrow> rw_at n (Suc k) (s\<lparr>buffer_has_item := 0, r_at := RUnlock j\<rparr>)"
    and "r_at s = RClear \<Longrightarrow> rw_at n (Suc k) (s\<lparr>buffer_has_item := 0, r_at := RSignal\<rparr>)"
  using assms by (auto simp: rw_at_def)

lemma rw_writer:
  assumes inv: "rw_at n k s" and st: "writer_function c s = Some s'"
  shows "rw_at (if w_at s = WSet then Suc n else n) k s'"
proof (cases "w_idle (w_at s) \<and> \<not> (w_at s = WTest \<and> buffer_has_item s = 0)")
  case True
  then show ?thesis using st inv
    by (cases "w_at s")
      (auto simp: writer_function_def take_lock_Some drop_lock_def split: if_splits nat.splits
        intro!: rw_w_idle, simp_all add: w_idle_def)
next
  case False
  then show ?thesis using st rw_busy_write [OF inv]
    by (cases "w_at s") (auto simp: writer_function_def split: if_splits)
qed

lemma rw_reader:
  assumes inv: "rw_at n k s" and st: "reader_function c s = Some s'"
  shows "rw_at n (if r_at s = RClear then Suc k else k) s'"
proof (cases "\<not> r_busy (r_at s) \<and> \<not> (r_at s = RTest \<and> buffer_has_item s = 1)")
  case True
  then show ?thesis using st inv
    by (cases "r_at s")
      (auto simp: reader_function_def take_lock_Some drop_lock_def split: if_splits nat.splits intro!: rw_r_idle)
next
  case False
  then show ?thesis using st rw_busy_read [OF inv]
    by (cases "r_at s") (auto simp: reader_function_def split: if_splits)
qed

lemma rw_slot_step:
  assumes "rw_inv s" "rw_step c t s = Some s'"
  shows "rw_inv s' \<and> (slot_of s' = slot_of s \<or> (\<exists>b. slot_step b (slot_of s) = Some (slot_of s')))"
proof -
  obtain n k where nk: "rw_at n k s" using assms(1) by (auto simp: rw_inv_def)
  consider "writer_function c s = Some s'" | "reader_function c s = Some s'"
    using assms(2) by (auto simp: rw_step_def split: if_splits)
  then show ?thesis
  proof cases
    case 1
    note w = rw_writer [OF nk 1]
    have "n = k" if "w_at s = WSet" using nk that by (simp add: rw_at_def)
    then have "slot_of s' = slot_of s \<or> slot_step Put (slot_of s) = Some (slot_of s')"
      using rw_at_slot [OF nk] rw_at_slot [OF w] by (cases "w_at s = WSet") auto
    with rw_invI [OF w] show ?thesis by blast
  next
    case 2
    note r = rw_reader [OF nk 2]
    have "n = Suc k" if "r_at s = RClear" using nk that by (simp add: rw_at_def)
    then have "slot_of s' = slot_of s \<or> slot_step Get (slot_of s) = Some (slot_of s')"
      using rw_at_slot [OF nk] rw_at_slot [OF r] by (cases "r_at s = RClear") auto
    with rw_invI [OF r] show ?thesis by blast
  qed
qed

interpretation rw: refining_system "rw_step c" rw_init rw_inv slot_step "(0, 0)" slot_of for c
proof
  show "rw_inv rw_init" by (rule rw_invI [of 0 0]) (simp add: rw_at_def rw_init_def)
  show "slot_of rw_init = (0, 0)" by (simp add: slot_of_def rw_init_def)
qed (use rw_slot_step in blast)+

lemma slot_reachable: "reachable slot_step (0, 0) a \<Longrightarrow> snd a \<le> fst a \<and> fst a \<le> snd a + 1"
proof (induction rule: reachable.induct)
  case (move s a t)
  then show ?case by (cases a; cases s) (auto split: if_splits)
qed simp

text \<open>
  C8: every variant of the reader and writer refines the one-place slot, whichever mutexes its
  threads take: the items arrive in order, none is lost or read twice, and the writer is never
  more than one item ahead.  What is printed is 0, 1, 2, ... modulo 256, since the buffer is a
  character.
\<close>

theorem reader_writer_refines_slot:
  assumes "reachable (rw_step c) rw_init s"
  shows "reachable slot_step (0, 0) (slot_of s) \<and>
     (\<exists>n k. wrote s = map of_nat [0..<n] \<and> got s = map of_nat [0..<k] \<and> k \<le> n \<and> n \<le> k + 1)"
proof
  show "reachable slot_step (0, 0) (slot_of s)" using assms by (rule rw.reachable_abs)
  have "rw_inv s" using assms by (rule rw.reachable_inv)
  then obtain n k where nk: "rw_at n k s" by (auto simp: rw_inv_def)
  have "w_told (w_at s) = 0 \<or> w_told (w_at s) = 1 \<and> w_busy (w_at s)" by (cases "w_at s") simp_all
  moreover have "r_told (r_at s) = 0 \<or> r_told (r_at s) = 1 \<and> r_busy (r_at s)" by (cases "r_at s") simp_all
  ultimately have "k + r_told (r_at s) \<le> n + w_told (w_at s)" "n + w_told (w_at s) \<le> k + r_told (r_at s) + 1"
    using nk unfolding rw_at_def by auto
  moreover have "wrote s = items (n + w_told (w_at s))" "got s = items (k + r_told (r_at s))"
    using nk by (simp_all add: rw_at_def)
  ultimately have "\<exists>n k. wrote s = items n \<and> got s = items k \<and> k \<le> n \<and> n \<le> k + 1"
    by (intro exI [of _ "n + w_told (w_at s)"] exI [of _ "k + r_told (r_at s)"]) blast
  then show "\<exists>n k. wrote s = map of_nat [0..<n] \<and> got s = map of_nat [0..<k] \<and> k \<le> n \<and> n \<le> k + 1"
    by (simp only: items_def)
qed

theorem reader_writer_refines_slot_witness:
  "\<exists>s. run (rw_step reader_writer_no_mutex) [0, 0, 0, 0, 0, 1, 1, 1] rw_init = Some s \<and> got s = [0] \<and>
     reachable slot_step (0, 0) (slot_of s) \<and> slot_of s = (1, 0)"
proof -
  obtain s where s: "run (rw_step reader_writer_no_mutex) [0, 0, 0, 0, 0, 1, 1, 1] rw_init = Some s"
      "got s = [0]" "slot_of s = (1, 0)"
    by (simp add: rw_step_def writer_function_def reader_function_def rw_init_def reader_writer_no_mutex_def slot_of_def)
  then show ?thesis using reader_writer_refines_slot [OF run_reachable [OF s(1)]] by blast
qed

subsection \<open>Deadlock\<close>

text \<open>The mutexes a thread holds at each point.\<close>

fun w_held :: "rw_config \<Rightarrow> w_pc \<Rightarrow> nat set" where
  "w_held c (WLock j) = set (take j (w_locks c))" | "w_held c (WUnlock j) = set (take j (w_locks c))"
| "w_held c WDLock = {}" | "w_held c WDWait = {0}" | "w_held c WDAgain = {}" | "w_held c WDUnlock = {0}"
| "w_held c WWaiting = {}"
| "w_held c _ = set (w_locks c)"

fun r_held :: "rw_config \<Rightarrow> r_pc \<Rightarrow> nat set" where
  "r_held c (RLock j) = set (take j (r_locks c))" | "r_held c (RUnlock j) = set (take j (r_locks c))"
| "r_held c RDLock = {}" | "r_held c RDWait = {0}" | "r_held c RDAgain = {}" | "r_held c RDUnlock = {0}"
| "r_held c RWaiting = {}"
| "r_held c _ = set (r_locks c)"

definition simple_locks :: "rw_config \<Rightarrow> bool" where
  "simple_locks c \<longleftrightarrow> \<not> use_cond c \<and> length (w_locks c) \<le> 1 \<and> length (r_locks c) \<le> 1"

fun w_range :: "rw_config \<Rightarrow> w_pc \<Rightarrow> bool" where
  "w_range c (WLock j) \<longleftrightarrow> j \<le> length (w_locks c)" | "w_range c (WUnlock j) \<longleftrightarrow> j \<le> length (w_locks c)"
| "w_range c WSignal \<longleftrightarrow> False" | "w_range c WWait \<longleftrightarrow> False" | "w_range c WWaiting \<longleftrightarrow> False"
| "w_range c _ \<longleftrightarrow> True"

fun r_range :: "rw_config \<Rightarrow> r_pc \<Rightarrow> bool" where
  "r_range c (RLock j) \<longleftrightarrow> j \<le> length (r_locks c)" | "r_range c (RUnlock j) \<longleftrightarrow> j \<le> length (r_locks c)"
| "r_range c RSignal \<longleftrightarrow> False" | "r_range c RWait \<longleftrightarrow> False" | "r_range c RWaiting \<longleftrightarrow> False"
| "r_range c _ \<longleftrightarrow> True"

definition busy_locks :: "(nat \<Rightarrow> mutex) \<Rightarrow> nat set" where
  "busy_locks f = dom f"

lemma busy_locks_simps [simp]:
  "busy_locks (\<lambda>_. None) = {}" "busy_locks (f(l := None)) = busy_locks f - {l}"
  "busy_locks (f(l \<mapsto> t)) = insert l (busy_locks f)"
  by (simp_all add: busy_locks_def)

definition owners_inv :: "rw_config \<Rightarrow> rw \<Rightarrow> bool" where
  "owners_inv c s \<longleftrightarrow>
     busy_locks (locks s) \<subseteq> w_held c (w_at s) \<union> r_held c (r_at s) \<and>
     w_range c (w_at s) \<and> r_range c (r_at s)"

lemma simple_locksD:
  assumes "simple_locks c"
  shows "w_locks c = [] \<or> (\<exists>x. w_locks c = [x])" "r_locks c = [] \<or> (\<exists>x. r_locks c = [x])"
    "\<not> use_cond c"
proof -
  show "w_locks c = [] \<or> (\<exists>x. w_locks c = [x])" using assms by (cases "w_locks c") (auto simp: simple_locks_def)
  show "r_locks c = [] \<or> (\<exists>x. r_locks c = [x])" using assms by (cases "r_locks c") (auto simp: simple_locks_def)
qed (use assms in \<open>simp add: simple_locks_def\<close>)

lemma owners_writer:
  assumes "owners_inv c s" "simple_locks c" "writer_function c s = Some s'"
  shows "owners_inv c s'"
proof -
  have "w_locks c = [] \<or> (\<exists>x. w_locks c = [x])" "\<not> use_cond c" using simple_locksD [OF assms(2)] by blast+
  with assms(1,3) show ?thesis
    by (cases "w_at s") (auto simp: writer_function_def owners_inv_def take_lock_Some drop_lock_def split: if_splits nat.splits)
qed

lemma owners_reader:
  assumes "owners_inv c s" "simple_locks c" "reader_function c s = Some s'"
  shows "owners_inv c s'"
proof -
  have "r_locks c = [] \<or> (\<exists>x. r_locks c = [x])" "\<not> use_cond c" using simple_locksD [OF assms(2)] by blast+
  with assms(1,3) show ?thesis
    by (cases "r_at s") (auto simp: reader_function_def owners_inv_def take_lock_Some drop_lock_def split: if_splits nat.splits)
qed

lemma owners_reachable:
  assumes "simple_locks c" "reachable (rw_step c) rw_init s"
  shows "owners_inv c s"
  using assms(2)
proof (induction rule: reachable.induct)
  case start
  show ?case by (simp add: owners_inv_def rw_init_def)
next
  case (move s a t)
  from move.hyps(2) consider "writer_function c s = Some t" | "reader_function c s = Some t"
    by (auto simp: rw_step_def split: if_splits)
  then show ?case
    by cases (rule owners_writer [OF move.IH assms(1)] owners_reader [OF move.IH assms(1)], assumption)+
qed

lemma w_blocked:
  assumes "writer_function c s = None" "simple_locks c" "w_range c (w_at s)"
  shows "w_held c (w_at s) = {} \<and> busy_locks (locks s) \<noteq> {}"
proof -
  have "w_locks c = [] \<or> (\<exists>x. w_locks c = [x])" "\<not> use_cond c" using simple_locksD [OF assms(2)] by blast+
  with assms(1,3) show ?thesis
    by (cases "w_at s") (auto simp: writer_function_def take_lock_None busy_locks_def split: if_splits nat.splits)
qed

lemma r_blocked:
  assumes "reader_function c s = None" "simple_locks c" "r_range c (r_at s)"
  shows "r_held c (r_at s) = {}"
proof -
  have "r_locks c = [] \<or> (\<exists>x. r_locks c = [x])" "\<not> use_cond c" using simple_locksD [OF assms(2)] by blast+
  with assms(1,3) show ?thesis
    by (cases "r_at s") (auto simp: reader_function_def split: if_splits nat.splits)
qed

lemma deadlock_run:
  "run (rw_step deadlock) [0, 1] rw_init =
     Some (rw_init\<lparr>locks := (\<lambda>_. None)(1 := Some 0, 2 := Some 1), w_at := WLock 1, r_at := RLock 1\<rparr>)"
  by (simp add: rw_step_def writer_function_def reader_function_def rw_init_def deadlock_def take_lock_def mutex_lock_def)

text \<open>
  C20: no reachable state of \<open>reader_writer.c\<close>, of its variants with a timed wait, with different
  mutexes or without mutex is stuck; \<open>deadlock.c\<close>, whose threads lock the same two mutexes in
  opposite order, deadlocks after two steps.
\<close>

theorem reader_writer_deadlock:
  "(\<forall>c \<in> {reader_writer, reader_writer_delay, reader_writer_delay1, reader_writer_diff_mutex, reader_writer_no_mutex}.
      \<forall>s. reachable (rw_step c) rw_init s \<longrightarrow> \<not> stuck (rw_step c) s) \<and>
   (\<exists>s. run (rw_step deadlock) [0, 1] rw_init = Some s \<and> stuck (rw_step deadlock) s)"
proof (intro conjI ballI allI impI notI)
  fix c s
  assume c: "c \<in> {reader_writer, reader_writer_delay, reader_writer_delay1, reader_writer_diff_mutex, reader_writer_no_mutex}"
    and r: "reachable (rw_step c) rw_init s" and st: "stuck (rw_step c) s"
  have sl: "simple_locks c"
    using c by (auto simp: simple_locks_def reader_writer_def reader_writer_delay_def reader_writer_delay1_def
        reader_writer_diff_mutex_def reader_writer_no_mutex_def)
  have "rw_step c 0 s = None" "rw_step c 1 s = None" using st by (simp_all add: stuck_def)
  then have "writer_function c s = None" "reader_function c s = None" by (simp_all add: rw_step_def)
  moreover have "owners_inv c s" by (rule owners_reachable [OF sl r])
  ultimately show False using w_blocked [OF _ sl] r_blocked [OF _ sl] by (fastforce simp: owners_inv_def)
next
  have "stuck (rw_step deadlock) (rw_init\<lparr>locks := (\<lambda>_. None)(1 := Some 0, 2 := Some 1), w_at := WLock 1, r_at := RLock 1\<rparr>)"
    by (simp add: stuck_def rw_step_def writer_function_def reader_function_def rw_init_def deadlock_def take_lock_def mutex_lock_def)
  then show "\<exists>s. run (rw_step deadlock) [0, 1] rw_init = Some s \<and> stuck (rw_step deadlock) s" using deadlock_run by blast
qed

theorem reader_writer_deadlock_witness:
  "reachable (rw_step reader_writer) rw_init rw_init \<and> \<not> stuck (rw_step reader_writer) rw_init"
  using reader_writer_deadlock by (blast intro: reachable.start)

subsection \<open>\<open>reader_writer_cond.c\<close>: waiting on condition variables\<close>

fun wc_holds :: "w_pc \<Rightarrow> bool" where
  "wc_holds (WLock j) \<longleftrightarrow> j = 1" | "wc_holds (WUnlock j) \<longleftrightarrow> j = 1" | "wc_holds WWaiting = False"
| "wc_holds WDLock = False" | "wc_holds WDWait = False" | "wc_holds WDAgain = False" | "wc_holds WDUnlock = False"
| "wc_holds _ = True"

fun rc_holds :: "r_pc \<Rightarrow> bool" where
  "rc_holds (RLock j) \<longleftrightarrow> j = 1" | "rc_holds (RUnlock j) \<longleftrightarrow> j = 1" | "rc_holds RWaiting = False"
| "rc_holds RDLock = False" | "rc_holds RDWait = False" | "rc_holds RDAgain = False" | "rc_holds RDUnlock = False"
| "rc_holds _ = True"

fun wc_range :: "w_pc \<Rightarrow> bool" where
  "wc_range (WLock j) \<longleftrightarrow> j \<le> 1" | "wc_range (WUnlock j) \<longleftrightarrow> j \<le> 1"
| "wc_range WDLock = False" | "wc_range WDWait = False" | "wc_range WDAgain = False" | "wc_range WDUnlock = False"
| "wc_range _ = True"

fun rc_range :: "r_pc \<Rightarrow> bool" where
  "rc_range (RLock j) \<longleftrightarrow> j \<le> 1" | "rc_range (RUnlock j) \<longleftrightarrow> j \<le> 1"
| "rc_range RDLock = False" | "rc_range RDWait = False" | "rc_range RDAgain = False" | "rc_range RDUnlock = False"
| "rc_range _ = True"

definition cond_lock :: "rw \<Rightarrow> bool" where
  "cond_lock s \<longleftrightarrow> wc_range (w_at s) \<and> rc_range (r_at s) \<and>
     (locks s 0 = Some 0 \<longleftrightarrow> wc_holds (w_at s)) \<and> (locks s 0 = Some 1 \<longleftrightarrow> rc_holds (r_at s)) \<and>
     (wc_holds (w_at s) \<or> rc_holds (r_at s) \<or> locks s 0 = None)"

text \<open>Who is in a queue still has to wait, or is about to be signalled.\<close>

definition full_wait :: "rw \<Rightarrow> bool" where
  "full_wait s \<longleftrightarrow> (w_at s = WWait \<longrightarrow> buffer_has_item s \<noteq> 0) \<and>
     (buffer_not_full s \<noteq> [] \<longrightarrow>
        buffer_not_full s = [0] \<and> w_at s = WWaiting \<and> (buffer_has_item s = 0 \<longrightarrow> r_at s = RSignal))"

definition empty_wait :: "rw \<Rightarrow> bool" where
  "empty_wait s \<longleftrightarrow> (r_at s = RWait \<longrightarrow> buffer_has_item s \<noteq> 1) \<and>
     (buffer_not_empty s \<noteq> [] \<longrightarrow>
        buffer_not_empty s = [1] \<and> r_at s = RWaiting \<and> (buffer_has_item s = 1 \<longrightarrow> w_at s = WNext \<or> w_at s = WSignal))"

definition cond_inv :: "rw \<Rightarrow> bool" where
  "cond_inv s \<longleftrightarrow> rw_inv s \<and> cond_lock s \<and> full_wait s \<and> empty_wait s"

lemma cond_lock_writer: "cond_lock s \<Longrightarrow> writer_function reader_writer_cond s = Some s' \<Longrightarrow> cond_lock s'"
  by (cases "w_at s")
    (auto simp: writer_function_def reader_writer_cond_def cond_lock_def take_lock_Some drop_lock_def split: if_splits nat.splits)

lemma cond_lock_reader: "cond_lock s \<Longrightarrow> reader_function reader_writer_cond s = Some s' \<Longrightarrow> cond_lock s'"
  by (cases "r_at s")
    (auto simp: reader_function_def reader_writer_cond_def cond_lock_def take_lock_Some drop_lock_def split: if_splits nat.splits)

lemma full_wait_writer:
  assumes "full_wait s" "cond_lock s" "writer_function reader_writer_cond s = Some s'"
  shows "full_wait s'"
proof -
  have f: "w_at s \<noteq> WWaiting \<Longrightarrow> buffer_not_full s = []" using assms(1) by (auto simp: full_wait_def)
  show ?thesis
    by (cases "w_at s")
      (use assms f in \<open>auto simp: writer_function_def reader_writer_cond_def full_wait_def cond_lock_def take_lock_Some drop_lock_def
        split: if_splits nat.splits\<close>)
qed

lemma full_wait_reader:
  assumes "full_wait s" "cond_lock s" "reader_function reader_writer_cond s = Some s'"
  shows "full_wait s'"
proof -
  have f: "w_at s \<noteq> WWaiting \<Longrightarrow> buffer_not_full s = []" using assms(1) by (auto simp: full_wait_def)
  show ?thesis
    by (cases "r_at s")
      (use assms f in \<open>auto simp: reader_function_def reader_writer_cond_def full_wait_def cond_lock_def take_lock_Some drop_lock_def
        split: if_splits nat.splits\<close>)
qed

lemma empty_wait_writer:
  assumes "empty_wait s" "cond_lock s" "writer_function reader_writer_cond s = Some s'"
  shows "empty_wait s'"
proof -
  have f: "r_at s \<noteq> RWaiting \<Longrightarrow> buffer_not_empty s = []" using assms(1) by (auto simp: empty_wait_def)
  show ?thesis
    by (cases "w_at s")
      (use assms f in \<open>auto simp: writer_function_def reader_writer_cond_def empty_wait_def cond_lock_def take_lock_Some drop_lock_def
        split: if_splits nat.splits\<close>)
qed

lemma empty_wait_reader:
  assumes "empty_wait s" "cond_lock s" "reader_function reader_writer_cond s = Some s'"
  shows "empty_wait s'"
proof -
  have f: "r_at s \<noteq> RWaiting \<Longrightarrow> buffer_not_empty s = []" using assms(1) by (auto simp: empty_wait_def)
  show ?thesis
    by (cases "r_at s")
      (use assms f in \<open>auto simp: reader_function_def reader_writer_cond_def empty_wait_def cond_lock_def take_lock_Some drop_lock_def
        split: if_splits nat.splits\<close>)
qed

interpretation rw_cond: invariant_system "rw_step reader_writer_cond" rw_init cond_inv
proof
  show "cond_inv rw_init"
    using rw.inv_init by (simp add: cond_inv_def cond_lock_def full_wait_def empty_wait_def) (simp add: rw_init_def)
  show "cond_inv t" if "cond_inv s" "rw_step reader_writer_cond a s = Some t" for s a t
  proof -
    have "rw_inv t" using that rw.inv_step by (auto simp: cond_inv_def)
    moreover from that(2) consider "writer_function reader_writer_cond s = Some t" | "reader_function reader_writer_cond s = Some t"
      by (auto simp: rw_step_def split: if_splits)
    then have "cond_lock t \<and> full_wait t \<and> empty_wait t"
      using that(1) cond_lock_writer full_wait_writer empty_wait_writer cond_lock_reader full_wait_reader empty_wait_reader
      unfolding cond_inv_def by cases blast+
    ultimately show ?thesis by (simp add: cond_inv_def)
  qed
qed

lemma wc_blocked:
  assumes "writer_function reader_writer_cond s = None" "cond_lock s"
  shows "\<not> wc_holds (w_at s) \<and> (locks s 0 \<noteq> None \<or> w_at s = WWaiting \<and> 0 \<in> set (buffer_not_full s))"
  using assms
  by (cases "w_at s")
    (auto simp: writer_function_def reader_writer_cond_def cond_lock_def take_lock_None split: if_splits nat.splits)

lemma rc_blocked:
  assumes "reader_function reader_writer_cond s = None" "cond_lock s"
  shows "\<not> rc_holds (r_at s) \<and> (locks s 0 \<noteq> None \<or> r_at s = RWaiting \<and> 1 \<in> set (buffer_not_empty s))"
  using assms
  by (cases "r_at s")
    (auto simp: reader_function_def reader_writer_cond_def cond_lock_def take_lock_None split: if_splits nat.splits)

text \<open>
  C19: \<open>reader_writer_cond.c\<close> never loses a wakeup: the two threads exclude each other, and no
  reachable state is stuck, although each waits inside an \<open>if\<close> and not in a loop.
\<close>

theorem reader_writer_cond_live:
  assumes "reachable (rw_step reader_writer_cond) rw_init s"
  shows "\<not> (wc_holds (w_at s) \<and> rc_holds (r_at s)) \<and> \<not> stuck (rw_step reader_writer_cond) s"
proof (intro conjI notI)
  have inv: "cond_lock s" "full_wait s" "empty_wait s" "rw_inv s"
    using rw_cond.reachable_inv [OF assms] by (simp_all add: cond_inv_def)
  have flag: "buffer_has_item s \<le> 1" using inv(4) by (auto simp: rw_inv_def rw_at_def)
  show False if "wc_holds (w_at s) \<and> rc_holds (r_at s)" using that inv(1) by (auto simp: cond_lock_def)
  show False if st: "stuck (rw_step reader_writer_cond) s"
  proof -
    have "rw_step reader_writer_cond 0 s = None" "rw_step reader_writer_cond 1 s = None"
      using st by (simp_all add: stuck_def)
    then have w: "writer_function reader_writer_cond s = None" and r: "reader_function reader_writer_cond s = None"
      by (simp_all add: rw_step_def)
    have "locks s 0 = None" using wc_blocked [OF w inv(1)] rc_blocked [OF r inv(1)] inv(1) by (auto simp: cond_lock_def)
    then have "w_at s = WWaiting" "0 \<in> set (buffer_not_full s)" "r_at s = RWaiting" "1 \<in> set (buffer_not_empty s)"
      using wc_blocked [OF w inv(1)] rc_blocked [OF r inv(1)] by auto
    then have "buffer_has_item s \<noteq> 0" "buffer_has_item s \<noteq> 1"
      using inv(2,3) unfolding full_wait_def empty_wait_def by force+
    with flag show False by simp
  qed
qed

theorem reader_writer_cond_live_witness:
  "\<exists>s. run (rw_step reader_writer_cond) [1, 1, 1, 1] rw_init = Some s \<and> r_at s = RWaiting \<and>
     \<not> stuck (rw_step reader_writer_cond) s"
proof -
  obtain s where s: "run (rw_step reader_writer_cond) [1, 1, 1, 1] rw_init = Some s" "r_at s = RWaiting"
    by (simp add: rw_step_def reader_function_def rw_init_def reader_writer_cond_def take_lock_def mutex_lock_def drop_lock_def)
  then show ?thesis using reader_writer_cond_live [OF run_reachable [OF s(1)]] by blast
qed

end
