(* ===== verification/Cuda_Launch.thy ===== *)
theory Cuda_Launch
  imports C_Runtime
begin

section \<open>CUDA kernels: grids of threads that store into an array\<close>

text \<open>
  A kernel launched as \<open>k<<<grid, block>>>\<close> is run by \<open>grid * block\<close> threads, each with its
  \<open>blockIdx.x\<close> and \<open>threadIdx.x\<close>.  A kernel that reads only arrays it does not write is, per thread, the list of
  its stores (index and value), or an error when a load is outside its array.  The device orders
  the stores of a launch in any way: \<open>launch_result\<close> relates a launch to every array it may leave.
  A store outside the array is an error as well.
\<close>

fun seqc :: "'a c list \<Rightarrow> 'a list c" where
  "seqc [] = Inr []"
| "seqc (m # ms) = bindc m (\<lambda>x. bindc (seqc ms) (\<lambda>xs. Inr (x # xs)))"

type_synonym 'a stores = "(nat \<times> 'a) list"
type_synonym 'a kernel = "nat \<Rightarrow> nat \<Rightarrow> 'a stores c"

definition grid_threads :: "nat \<Rightarrow> nat \<Rightarrow> (nat \<times> nat) list" where
  "grid_threads grid block = List.product [0..<grid] [0..<block]"

definition launch_stores :: "nat \<Rightarrow> nat \<Rightarrow> 'a kernel \<Rightarrow> 'a stores c" where
  "launch_stores grid block k =
     bindc (seqc (map (\<lambda>(b, t). k b t) (grid_threads grid block))) (\<lambda>wss. Inr (concat wss))"

fun store_all :: "'a stores \<Rightarrow> 'a list \<Rightarrow> 'a list c" where
  "store_all [] xs = Inr xs"
| "store_all ((i, v) # ws) xs = (if i < length xs then store_all ws (xs[i := v]) else Inl OutOfBounds)"

definition launch_result :: "nat \<Rightarrow> nat \<Rightarrow> 'a kernel \<Rightarrow> 'a list \<Rightarrow> 'a list c \<Rightarrow> bool" where
  "launch_result grid block k xs r \<longleftrightarrow>
     (case launch_stores grid block k of
        Inl e \<Rightarrow> r = Inl e
      | Inr ws \<Rightarrow> \<exists>ws'. mset ws' = mset ws \<and> r = store_all ws' xs)"

text \<open>The launch in which the threads run one after the other.\<close>

definition launch :: "nat \<Rightarrow> nat \<Rightarrow> 'a kernel \<Rightarrow> 'a list \<Rightarrow> 'a list c" where
  "launch grid block k xs = bindc (launch_stores grid block k) (\<lambda>ws. store_all ws xs)"

text \<open>A loop \<open>for (i = lo; i < n; i += step)\<close>.\<close>

function for_step :: "nat \<Rightarrow> nat \<Rightarrow> nat \<Rightarrow> nat list" where
  "for_step lo n step = (if step = 0 \<or> n \<le> lo then [] else lo # for_step (lo + step) n step)"
  by pat_completeness auto
termination by (relation "measure (\<lambda>(lo, n, step). n - lo)") auto

text \<open>The stores of a loop body, iteration after iteration.\<close>

definition for_stores :: "'i list \<Rightarrow> ('i \<Rightarrow> 'a stores c) \<Rightarrow> 'a stores c" where
  "for_stores is body = bindc (seqc (map body is)) (\<lambda>wss. Inr (concat wss))"

declare for_step.simps [simp del]

subsection \<open>Facts on launches\<close>

lemma seqc_Inr: "seqc (map f xs) = Inr (map g xs)" if "\<And>x. x \<in> set xs \<Longrightarrow> f x = Inr (g x)"
  using that by (induction xs) auto

lemma seqc_Inl: "seqc ms = Inl e" if "ms = map Inr as @ Inl e # ms'"
  unfolding that by (induction as) auto

lemma for_stores_Inr:
  "(\<And>i. i \<in> set is \<Longrightarrow> body i = Inr (g i)) \<Longrightarrow> for_stores is body = Inr (concat (map g is))"
  by (simp add: for_stores_def seqc_Inr)

text \<open>A loop whose body is guarded stores only at the indices that pass the guard.\<close>

lemma for_stores_if:
  "(\<And>i. i \<in> set is \<Longrightarrow> P i \<Longrightarrow> body i = Inr [(h i, g (h i))]) \<Longrightarrow>
   for_stores is (\<lambda>i. if P i then body i else Inr []) = Inr (map (\<lambda>i. (i, g i)) (map h (filter P is)))"
proof -
  assume "\<And>i. i \<in> set is \<Longrightarrow> P i \<Longrightarrow> body i = Inr [(h i, g (h i))]"
  then have "for_stores is (\<lambda>i. if P i then body i else Inr []) =
      Inr (concat (map (\<lambda>i. if P i then [(h i, g (h i))] else []) is))"
    by (intro for_stores_Inr) auto
  moreover have "concat (map (\<lambda>i. if P i then [(h i, g (h i))] else []) is) = map (\<lambda>i. (i, g i)) (map h (filter P is))"
    by (induction "is") auto
  ultimately show ?thesis by simp
qed

lemma for_stores_single:
  "(\<And>i. i \<in> set is \<Longrightarrow> body i = Inr [(i, g i)]) \<Longrightarrow> for_stores is body = Inr (map (\<lambda>i. (i, g i)) is)"
  using for_stores_if [of "is" "\<lambda>_. True" body id g] by simp

text \<open>Every index below \<open>n\<close> is the linear index of a thread, plus a multiple of the stride.\<close>

lemma thread_of_index:
  assumes "0 < step" "step \<le> grid * block"
  obtains b t q where "b < grid" "t < (block::nat)" "i = q * step + (block * b + t)"
proof -
  let ?j = "i mod step"
  have j: "?j < grid * block" using assms by (meson less_le_trans mod_less_divisor)
  with assms have "0 < block" by (cases block) auto
  have "?j div block < grid" using j by (simp add: less_mult_imp_div_less)
  moreover have "?j mod block < block" using \<open>0 < block\<close> by simp
  moreover have "i = (i div step) * step + (block * (?j div block) + ?j mod block)" by simp
  ultimately show ?thesis using that by blast
qed

lemma thread_lt: "b < grid \<Longrightarrow> t < block \<Longrightarrow> block * b + t < grid * (block::nat)"
proof -
  assume "b < grid" "t < block"
  then have "block * b + t < block * Suc b" by simp
  also have "\<dots> \<le> block * grid" using \<open>b < grid\<close> by (intro mult_le_mono2) simp
  finally show ?thesis by (simp add: mult.commute)
qed

lemma launch_is_result: "launch_result grid block k xs (launch grid block k xs)"
  by (cases "launch_stores grid block k") (auto simp: launch_result_def launch_def)

lemma set_for_step:
  "0 < step \<Longrightarrow> i \<in> set (for_step lo n step) \<longleftrightarrow> i < n \<and> lo \<le> i \<and> (i - lo) mod step = 0"
proof (induction lo n step rule: for_step.induct)
  case (1 lo n step)
  show ?case
  proof (cases "n \<le> lo")
    case True
    then show ?thesis by (subst for_step.simps) auto
  next
    case False
    have split: "lo + step \<le> i \<and> (i - (lo + step)) mod step = 0 \<or> i = lo \<longleftrightarrow>
        lo \<le> i \<and> (i - lo) mod step = 0"
    proof (cases "lo + step \<le> i")
      case True
      then have "(i - lo) mod step = (i - (lo + step)) mod step" by (simp add: le_mod_geq)
      with True show ?thesis by auto
    qed (use 1(2) in auto)
    have "i \<in> set (for_step lo n step) \<longleftrightarrow> i = lo \<or> i \<in> set (for_step (lo + step) n step)"
      using False 1(2) by (subst for_step.simps) simp
    also have "\<dots> \<longleftrightarrow> i = lo \<or> i < n \<and> lo + step \<le> i \<and> (i - (lo + step)) mod step = 0"
      using 1(1) 1(2) False by simp
    finally show ?thesis using split False by auto
  qed
qed

lemma store_all_length: "store_all ws xs = Inr ys \<Longrightarrow> length ys = length xs"
  by (induction ws xs rule: store_all.induct) (auto split: if_splits)

lemma store_all_values:
  assumes "\<And>i v. (i, v) \<in> set ws \<Longrightarrow> i < length xs \<and> v = f i"
  shows "\<exists>ys. store_all ws xs = Inr ys \<and> length ys = length xs \<and>
     (\<forall>i < length xs. ys ! i = (if i \<in> fst ` set ws then f i else xs ! i))"
  using assms
proof (induction ws xs rule: store_all.induct)
  case (2 i v ws xs)
  have i: "i < length xs" "v = f i" using 2 by auto
  have "\<exists>ys. store_all ws (xs[i := v]) = Inr ys \<and> length ys = length (xs[i := v]) \<and>
     (\<forall>j < length (xs[i := v]). ys ! j = (if j \<in> fst ` set ws then f j else xs[i := v] ! j))"
  proof (rule 2(1) [OF i(1)])
    fix j w assume "(j, w) \<in> set ws"
    with 2(2) [of j w] show "j < length (xs[i := v]) \<and> w = f j" by simp
  qed
  then show ?case using i by (auto simp: nth_list_update)
qed auto

subsection \<open>Interface: a device\<close>

text \<open>The memory a launch leaves comes from some order of its stores.\<close>

locale cuda_device =
  fixes exec :: "nat \<Rightarrow> nat \<Rightarrow> (nat \<Rightarrow> nat \<Rightarrow> (nat \<times> 'a) list c) \<Rightarrow> 'a list \<Rightarrow> 'a list c"
  assumes any_order: "launch_result grid block k xs (exec grid block k xs)"

interpretation in_turn: cuda_device launch
  by unfold_locales (rule launch_is_result)

subsection \<open>Interface: a kernel that computes an array element by element\<close>

text \<open>
  Thread \<open>(b, t)\<close> stores \<open>f i\<close> at every index \<open>i\<close> of its list \<open>work b t\<close>, which stays inside the array.
  The lists may overlap: several threads may store the same element, with the same value.  Then
  every order of the stores gives the same array.
\<close>

locale pointwise =
  fixes k :: "nat \<Rightarrow> nat \<Rightarrow> (nat \<times> 'a) list c"
    and grid block n :: nat
    and work :: "nat \<Rightarrow> nat \<Rightarrow> nat list"
    and f :: "nat \<Rightarrow> 'a"
  assumes thread: "b < grid \<Longrightarrow> t < block \<Longrightarrow> k b t = Inr (map (\<lambda>i. (i, f i)) (work b t))"
    and inside: "b < grid \<Longrightarrow> t < block \<Longrightarrow> i \<in> set (work b t) \<Longrightarrow> i < n"
begin

lemma stores: "launch_stores grid block k =
    Inr (concat (map (\<lambda>(b, t). map (\<lambda>i. (i, f i)) (work b t)) (grid_threads grid block)))"
proof -
  have "seqc (map (\<lambda>(b, t). k b t) (grid_threads grid block)) =
      Inr (map (\<lambda>(b, t). map (\<lambda>i. (i, f i)) (work b t)) (grid_threads grid block))"
    by (rule seqc_Inr) (auto simp: grid_threads_def thread)
  then show ?thesis by (simp add: launch_stores_def)
qed

lemma computes_at:
  assumes "length xs = n" "launch_result grid block k xs r"
  obtains ys where "r = Inr ys" "length ys = n"
    "\<And>b t i. b < grid \<Longrightarrow> t < block \<Longrightarrow> i \<in> set (work b t) \<Longrightarrow> ys ! i = f i"
proof -
  obtain ws where ws: "mset ws = mset (concat (map (\<lambda>(b, t). map (\<lambda>i. (i, f i)) (work b t)) (grid_threads grid block)))"
    "r = store_all ws xs"
    using assms(2) by (auto simp: launch_result_def stores)
  have st: "set ws = {(i, f i) | i b t. b < grid \<and> t < block \<and> i \<in> set (work b t)}"
    using mset_eq_setD [OF ws(1)] by (fastforce simp: grid_threads_def)
  then obtain ys where ys: "store_all ws xs = Inr ys" "length ys = n"
    "\<forall>i < n. ys ! i = (if i \<in> fst ` set ws then f i else xs ! i)"
    using store_all_values [of ws xs f] inside assms(1) by fastforce
  have "ys ! i = f i" if w: "b < grid" "t < block" "i \<in> set (work b t)" for b t i
  proof -
    have "(i, f i) \<in> set ws" unfolding st using w by blast
    then have "i \<in> fst ` set ws" by force
    with ys(3) inside [OF w] show ?thesis by simp
  qed
  with that ws(2) ys show ?thesis by simp
qed

lemma computes_ex:
  assumes "length xs = n" "launch_result grid block k xs r"
  shows "\<exists>ys. r = Inr ys \<and> length ys = n \<and> (\<forall>b < grid. \<forall>t < block. \<forall>i \<in> set (work b t). ys ! i = f i)"
proof (rule computes_at [OF assms])
  fix ys assume "r = Inr ys" "length ys = n"
    "\<And>b t i. b < grid \<Longrightarrow> t < block \<Longrightarrow> i \<in> set (work b t) \<Longrightarrow> ys ! i = f i"
  then show ?thesis by blast
qed

end

locale elementwise = pointwise +
  assumes covered: "i < n \<Longrightarrow> \<exists>b < grid. \<exists>t < block. i \<in> set (work b t)"
begin

lemma computes:
  assumes "length xs = n" "launch_result grid block k xs r"
  shows "r = Inr (map f [0..<n])"
proof -
  obtain ys where ys: "r = Inr ys" "length ys = n"
    "\<And>b t i. b < grid \<Longrightarrow> t < block \<Longrightarrow> i \<in> set (work b t) \<Longrightarrow> ys ! i = f i"
    using computes_at [OF assms] by metis
  have "ys ! i = f i" if "i < n" for i
    using covered [OF that] ys(3) by blast
  with ys(2) have "ys = map f [0..<n]" by (intro nth_equalityI) auto
  with ys(1) show ?thesis by simp
qed

lemma deterministic: "length xs = n \<Longrightarrow> launch grid block k xs = Inr (map f [0..<n])"
  using computes launch_is_result by blast

end

end
