(* ===== verification/Cuda_Vec_Add.thy ===== *)
theory Cuda_Vec_Add
  imports Cuda_Launch Complex_Main
begin

section \<open>\<open>vec_add.cu\<close>: nineteen launch configurations of a vector addition\<close>

text \<open>
  The program fills two vectors of \<open>ELEMENT_COUNT\<close> numbers, adds them on the host, and then adds them on the
  device once per launch configuration with the kernel the configuration names, comparing each
  result with the host's and collecting statistics of the times.  One definition per kernel;
  the element type is arbitrary with an addition, so nothing depends on floating-point laws.
  Indices are numbers: the largest value an index expression takes is below \<open>2 ^ 22\<close> for the
  configurations of the program, so no 32-bit \<open>int\<close> or \<open>unsigned\<close> wraps.  The device is a parameter: its
  limit of threads per block, the outcome of each call, the times, and the memory a launch leaves.
\<close>

definition ELEMENT_COUNT :: nat where "ELEMENT_COUNT = 1024 * 1024"

text \<open>The statement \<open>vecC[i] = vecB[i] + vecA[i]\<close>.\<close>

definition add_at :: "'a::plus list \<Rightarrow> 'a list \<Rightarrow> nat \<Rightarrow> 'a stores c" where
  "add_at vecA vecB i = bindc (ld vecB i) (\<lambda>b. bindc (ld vecA i) (\<lambda>a. Inr [(i, b + a)]))"

subsection \<open>The kernels\<close>

definition vecAdd_gpu_kernel_better ::
    "nat \<Rightarrow> nat \<Rightarrow> 'a::plus list \<Rightarrow> 'a list \<Rightarrow> 'a kernel" where
  "vecAdd_gpu_kernel_better gridDim blockDim vecA vecB blockIdx threadIdx =
     (let idx = blockDim * blockIdx + threadIdx; stride = blockDim * gridDim
      in for_stores (for_step idx ELEMENT_COUNT stride) (\<lambda>i. add_at vecA vecB i))"

definition vecAdd_gpu_kernel_better_a ::
    "nat \<Rightarrow> nat \<Rightarrow> 'a::plus list \<Rightarrow> 'a list \<Rightarrow> 'a kernel" where
  "vecAdd_gpu_kernel_better_a gridDim blockDim vecA vecB blockIdx threadIdx =
     (let idx = blockDim * blockIdx + threadIdx; stride = blockDim * gridDim
      in for_stores (for_step idx ELEMENT_COUNT stride) (\<lambda>i. add_at vecA vecB i))"

definition vecAdd_gpu_kernel_better_b ::
    "nat \<Rightarrow> nat \<Rightarrow> 'a::plus list \<Rightarrow> 'a list \<Rightarrow> 'a kernel" where
  "vecAdd_gpu_kernel_better_b gridDim blockDim vecA vecB blockIdx threadIdx =
     (let idx = blockDim * blockIdx + threadIdx; stride = blockDim * gridDim
      in for_stores (for_step idx ELEMENT_COUNT stride) (\<lambda>i. add_at vecA vecB i))"

definition vecAdd_gpu_kernel_better_c ::
    "nat \<Rightarrow> nat \<Rightarrow> 'a::plus list \<Rightarrow> 'a list \<Rightarrow> 'a kernel" where
  "vecAdd_gpu_kernel_better_c gridDim blockDim vecA vecB blockIdx threadIdx =
     (let idx = blockDim * blockIdx + threadIdx; stride = blockDim * gridDim
      in for_stores (for_step idx ELEMENT_COUNT stride) (\<lambda>i. add_at vecA vecB i))"

definition vecAdd_gpu_kernel_better_d ::
    "nat \<Rightarrow> nat \<Rightarrow> 'a::plus list \<Rightarrow> 'a list \<Rightarrow> 'a kernel" where
  "vecAdd_gpu_kernel_better_d gridDim blockDim vecA vecB blockIdx threadIdx =
     (let idx = blockDim * blockIdx + threadIdx; stride = blockDim * gridDim
      in for_stores (for_step idx ELEMENT_COUNT stride) (\<lambda>i. add_at vecA vecB i))"

definition vecAdd_gpu_kernel_better_e ::
    "nat \<Rightarrow> nat \<Rightarrow> 'a::plus list \<Rightarrow> 'a list \<Rightarrow> 'a kernel" where
  "vecAdd_gpu_kernel_better_e gridDim blockDim vecA vecB blockIdx threadIdx =
     (let idx = blockDim * blockIdx + threadIdx; stride = blockDim * gridDim
      in for_stores (for_step idx ELEMENT_COUNT stride) (\<lambda>i. add_at vecA vecB i))"

definition vecAdd_gpu_kernel_2_19 ::
    "nat \<Rightarrow> nat \<Rightarrow> 'a::plus list \<Rightarrow> 'a list \<Rightarrow> 'a kernel" where
  "vecAdd_gpu_kernel_2_19 gridDim blockDim vecA vecB blockIdx threadIdx =
     (let j = blockDim * blockIdx + threadIdx
      in for_stores (for_step 0 ELEMENT_COUNT (1024 * 512)) (\<lambda>i.
           if i + threadIdx + blockDim * blockIdx < ELEMENT_COUNT then add_at vecA vecB (i + j) else Inr []))"

definition vecAdd_gpu_kernel_2_19_a ::
    "nat \<Rightarrow> nat \<Rightarrow> 'a::plus list \<Rightarrow> 'a list \<Rightarrow> 'a kernel" where
  "vecAdd_gpu_kernel_2_19_a gridDim blockDim vecA vecB blockIdx threadIdx =
     (let j = blockDim * blockIdx + threadIdx
      in for_stores (for_step 0 ELEMENT_COUNT (1024 * 512)) (\<lambda>i.
           if i + threadIdx + blockDim * blockIdx < ELEMENT_COUNT then add_at vecA vecB (i + j) else Inr []))"

definition vecAdd_gpu_kernel_2_19_b ::
    "nat \<Rightarrow> nat \<Rightarrow> 'a::plus list \<Rightarrow> 'a list \<Rightarrow> 'a kernel" where
  "vecAdd_gpu_kernel_2_19_b gridDim blockDim vecA vecB blockIdx threadIdx =
     (let j = blockDim * blockIdx + threadIdx
      in for_stores (for_step 0 ELEMENT_COUNT (1024 * 512)) (\<lambda>i.
           if i + threadIdx + blockDim * blockIdx < ELEMENT_COUNT then add_at vecA vecB (i + j) else Inr []))"

definition vecAdd_gpu_kernel_2_18 ::
    "nat \<Rightarrow> nat \<Rightarrow> 'a::plus list \<Rightarrow> 'a list \<Rightarrow> 'a kernel" where
  "vecAdd_gpu_kernel_2_18 gridDim blockDim vecA vecB blockIdx threadIdx =
     (let j = blockDim * blockIdx + threadIdx
      in for_stores (for_step 0 ELEMENT_COUNT (1024 * 256)) (\<lambda>i.
           if i + threadIdx + blockDim * blockIdx < ELEMENT_COUNT then add_at vecA vecB (i + j) else Inr []))"

definition vecAdd_gpu_kernel_2_18_a ::
    "nat \<Rightarrow> nat \<Rightarrow> 'a::plus list \<Rightarrow> 'a list \<Rightarrow> 'a kernel" where
  "vecAdd_gpu_kernel_2_18_a gridDim blockDim vecA vecB blockIdx threadIdx =
     (let j = blockDim * blockIdx + threadIdx
      in for_stores (for_step 0 ELEMENT_COUNT (1024 * 256)) (\<lambda>i.
           if i + threadIdx + blockDim * blockIdx < ELEMENT_COUNT then add_at vecA vecB (i + j) else Inr []))"

definition vecAdd_gpu_kernel_2_18_b ::
    "nat \<Rightarrow> nat \<Rightarrow> 'a::plus list \<Rightarrow> 'a list \<Rightarrow> 'a kernel" where
  "vecAdd_gpu_kernel_2_18_b gridDim blockDim vecA vecB blockIdx threadIdx =
     (let j = blockDim * blockIdx + threadIdx
      in for_stores (for_step 0 ELEMENT_COUNT (1024 * 256)) (\<lambda>i.
           if i + threadIdx + blockDim * blockIdx < ELEMENT_COUNT then add_at vecA vecB (i + j) else Inr []))"

definition vecAdd_gpu_kernel_2_10 ::
    "nat \<Rightarrow> nat \<Rightarrow> 'a::plus list \<Rightarrow> 'a list \<Rightarrow> 'a kernel" where
  "vecAdd_gpu_kernel_2_10 gridDim blockDim vecA vecB blockIdx threadIdx =
     (let j = blockDim * blockIdx + threadIdx
      in for_stores (for_step 0 ELEMENT_COUNT 1024) (\<lambda>i.
           if i + threadIdx + blockDim * blockIdx < ELEMENT_COUNT then add_at vecA vecB (i + j) else Inr []))"

definition vecAdd_gpu_kernel_2_10_a ::
    "nat \<Rightarrow> nat \<Rightarrow> 'a::plus list \<Rightarrow> 'a list \<Rightarrow> 'a kernel" where
  "vecAdd_gpu_kernel_2_10_a gridDim blockDim vecA vecB blockIdx threadIdx =
     (let j = blockDim * blockIdx + threadIdx
      in for_stores (for_step 0 ELEMENT_COUNT 1024) (\<lambda>i.
           if i + threadIdx + blockDim * blockIdx < ELEMENT_COUNT then add_at vecA vecB (i + j) else Inr []))"

definition vecAdd_gpu_kernel_2_10_b ::
    "nat \<Rightarrow> nat \<Rightarrow> 'a::plus list \<Rightarrow> 'a list \<Rightarrow> 'a kernel" where
  "vecAdd_gpu_kernel_2_10_b gridDim blockDim vecA vecB blockIdx threadIdx =
     (let j = blockDim * blockIdx + threadIdx
      in for_stores (for_step 0 ELEMENT_COUNT 1024) (\<lambda>i.
           if i + threadIdx + blockDim * blockIdx < ELEMENT_COUNT then add_at vecA vecB (i + j) else Inr []))"

definition vecAdd_gpu_kernel_2_10_c ::
    "nat \<Rightarrow> nat \<Rightarrow> 'a::plus list \<Rightarrow> 'a list \<Rightarrow> 'a kernel" where
  "vecAdd_gpu_kernel_2_10_c gridDim blockDim vecA vecB blockIdx threadIdx =
     (let j = blockDim * blockIdx + threadIdx
      in for_stores (for_step 0 ELEMENT_COUNT 1024) (\<lambda>i.
           if i + threadIdx + blockDim * blockIdx < ELEMENT_COUNT then add_at vecA vecB (i + j) else Inr []))"

definition vecAdd_gpu_kernel_256_1 ::
    "nat \<Rightarrow> nat \<Rightarrow> 'a::plus list \<Rightarrow> 'a list \<Rightarrow> 'a kernel" where
  "vecAdd_gpu_kernel_256_1 gridDim blockDim vecA vecB blockIdx threadIdx =
     (let j = blockDim * blockIdx + threadIdx
      in for_stores (for_step 0 ELEMENT_COUNT 256) (\<lambda>i.
           if i + threadIdx + blockDim * blockIdx < ELEMENT_COUNT then add_at vecA vecB (i + j) else Inr []))"

definition vecAdd_gpu_kernel_256_2 ::
    "nat \<Rightarrow> nat \<Rightarrow> 'a::plus list \<Rightarrow> 'a list \<Rightarrow> 'a kernel" where
  "vecAdd_gpu_kernel_256_2 gridDim blockDim vecA vecB blockIdx threadIdx =
     (let j = blockDim * blockIdx + threadIdx
      in for_stores (for_step 0 ELEMENT_COUNT 512) (\<lambda>i.
           if i + threadIdx + blockDim * blockIdx < ELEMENT_COUNT then add_at vecA vecB (i + j) else Inr []))"

definition vecAdd_gpu_kernel_2_256 ::
    "nat \<Rightarrow> nat \<Rightarrow> 'a::plus list \<Rightarrow> 'a list \<Rightarrow> 'a kernel" where
  "vecAdd_gpu_kernel_2_256 gridDim blockDim vecA vecB blockIdx threadIdx =
     (let j = blockDim * blockIdx + threadIdx
      in for_stores (for_step 0 ELEMENT_COUNT 512) (\<lambda>i.
           if i + threadIdx + blockDim * blockIdx < ELEMENT_COUNT then add_at vecA vecB (i + j) else Inr []))"

definition vecAdd_gpu_kernel_1_1 ::
    "nat \<Rightarrow> nat \<Rightarrow> 'a::plus list \<Rightarrow> 'a list \<Rightarrow> 'a kernel" where
  "vecAdd_gpu_kernel_1_1 gridDim blockDim vecA vecB blockIdx threadIdx =
     for_stores (for_step 0 ELEMENT_COUNT 1) (\<lambda>i. add_at vecA vecB i)"

definition vecAdd_gpu_kernel_1_2 ::
    "nat \<Rightarrow> nat \<Rightarrow> 'a::plus list \<Rightarrow> 'a list \<Rightarrow> 'a kernel" where
  "vecAdd_gpu_kernel_1_2 gridDim blockDim vecA vecB blockIdx threadIdx =
     for_stores (for_step 0 ELEMENT_COUNT 2) (\<lambda>i.
       if i + threadIdx < ELEMENT_COUNT then add_at vecA vecB (i + threadIdx) else Inr [])"

definition vecAdd_gpu_kernel_1_256 ::
    "nat \<Rightarrow> nat \<Rightarrow> 'a::plus list \<Rightarrow> 'a list \<Rightarrow> 'a kernel" where
  "vecAdd_gpu_kernel_1_256 gridDim blockDim vecA vecB blockIdx threadIdx =
     for_stores (for_step 0 ELEMENT_COUNT 256) (\<lambda>i.
       if i + threadIdx < ELEMENT_COUNT then add_at vecA vecB (i + threadIdx) else Inr [])"

definition vecAdd_gpu_kernel_1_4096 ::
    "nat \<Rightarrow> nat \<Rightarrow> 'a::plus list \<Rightarrow> 'a list \<Rightarrow> 'a kernel" where
  "vecAdd_gpu_kernel_1_4096 gridDim blockDim vecA vecB blockIdx threadIdx =
     for_stores (for_step 0 ELEMENT_COUNT 4096) (\<lambda>i.
       if i + threadIdx < ELEMENT_COUNT then add_at vecA vecB (i + threadIdx) else Inr [])"

subsection \<open>The host\<close>

text \<open>The input vectors: element \<open>i\<close> takes the two next numbers of \<open>rand()\<close>.\<close>

definition init_vecA :: "(nat \<Rightarrow> nat) \<Rightarrow> 'a::semiring_1 list" where
  "init_vecA rand = map (\<lambda>i. of_nat (rand (2 * i) mod 100)) [0..<ELEMENT_COUNT]"

definition init_vecB :: "(nat \<Rightarrow> nat) \<Rightarrow> 'a::semiring_1 list" where
  "init_vecB rand = map (\<lambda>i. of_nat (rand (2 * i + 1) mod 100)) [0..<ELEMENT_COUNT]"

definition vecAdd_cpu :: "'a::plus list \<Rightarrow> 'a list \<Rightarrow> 'a list \<Rightarrow> 'a list c" where
  "vecAdd_cpu vecA vecB vecC =
     bindc (for_stores (for_step 0 ELEMENT_COUNT 1) (\<lambda>i. add_at vecA vecB i)) (\<lambda>ws. store_all ws vecC)"

fun check_from :: "nat \<Rightarrow> nat \<Rightarrow> 'a list \<Rightarrow> 'a list \<Rightarrow> bool c" where
  "check_from 0 i h_res d_res = Inr True"
| "check_from (Suc n) i h_res d_res =
     bindc (ld h_res i) (\<lambda>h. bindc (ld d_res i) (\<lambda>d.
       if h \<noteq> d then Inr False else check_from n (Suc i) h_res d_res))"

definition check_result :: "'a list \<Rightarrow> 'a list \<Rightarrow> bool c" where
  "check_result h_res d_res = check_from ELEMENT_COUNT 0 h_res d_res"

definition grids :: "nat list" where
  "grids = [1, 1, 1, 2, 4, 256, 256, 256,
     1024, 2048, 4096, 8192, 16384, 32768, 65536, 131072, 262144, 524288, 1048576]"

definition blocks :: "nat list" where
  "blocks = [1, 2, 256, 256, 256, 1, 2, 4,
     1024, 512, 256, 128, 64, 32, 16, 8, 4, 2, 1]"

definition configs :: nat where "configs = length grids"

definition switch_kernel ::
    "nat \<Rightarrow> nat \<Rightarrow> nat \<Rightarrow> 'a::plus list \<Rightarrow> 'a list \<Rightarrow> 'a kernel" where
  "switch_kernel i =
    (if i = 0 then vecAdd_gpu_kernel_1_1
    else if i = 1 then vecAdd_gpu_kernel_1_2
    else if i = 2 then vecAdd_gpu_kernel_1_256
    else if i = 3 then vecAdd_gpu_kernel_256_1
    else if i = 4 then vecAdd_gpu_kernel_256_2
    else if i = 5 then vecAdd_gpu_kernel_256_1
    else if i = 6 then vecAdd_gpu_kernel_256_2
    else if i = 7 then vecAdd_gpu_kernel_2_10_a
    else if i = 8 then vecAdd_gpu_kernel_2_10_b
    else if i = 9 then vecAdd_gpu_kernel_2_10_c
    else if i = 10 then vecAdd_gpu_kernel_2_18_a
    else if i = 11 then vecAdd_gpu_kernel_2_18_b
    else if i = 12 then vecAdd_gpu_kernel_2_19_a
    else if i = 13 then vecAdd_gpu_kernel_2_19_b
    else if i = 14 then vecAdd_gpu_kernel_better_a
    else if i = 15 then vecAdd_gpu_kernel_better_b
    else if i = 16 then vecAdd_gpu_kernel_better_c
    else if i = 17 then vecAdd_gpu_kernel_better_d
    else if i = 18 then vecAdd_gpu_kernel_better_e
     else vecAdd_gpu_kernel_better)"

text \<open>
  The device, by what the host can observe of it: \<open>exec\<close> is the memory a launch leaves in the
  output array (an illegal access is reported by the synchronisation), and the outcomes of the
  calls of test \<open>i\<close>.
\<close>

record 'a gpu =
  maxThreadsPerBlock :: nat
  exec :: "nat \<Rightarrow> nat \<Rightarrow> 'a kernel \<Rightarrow> 'a list \<Rightarrow> 'a list c"
  launchErr :: "nat \<Rightarrow> string option"
  syncErr :: "nat \<Rightarrow> string option"
  memcpyErr :: "nat \<Rightarrow> string option"
  elapsed_ms :: "nat \<Rightarrow> real"

datatype line =
    Status string
  | Test nat nat nat
  | Skip nat nat
  | Launch_failed string
  | Sync_failed string
  | Memcpy_result string
  | Result_OK real
  | Result_QQ real

record 'a tests =
  times :: "real list"
  ok :: "bool list"
  successful :: nat
  d_vecC :: "'a list"
  h_vecResultFromDevice :: "'a list"
  out :: "line list"

definition print :: "line \<Rightarrow> 'a tests \<Rightarrow> 'a tests" where
  "print l s = s\<lparr>out := out s @ [l]\<rparr>"

definition illegal_access :: string where
  "illegal_access = ''an illegal memory access was encountered''"

definition error_text :: "string option \<Rightarrow> string" where
  "error_text e = (case e of None \<Rightarrow> ''no error'' | Some m \<Rightarrow> m)"

text \<open>The host's part of test \<open>i\<close> after the synchronisation.\<close>

definition finish_test :: "'a gpu \<Rightarrow> 'a list \<Rightarrow> nat \<Rightarrow> 'a tests \<Rightarrow> 'a tests c" where
  "finish_test D h_vecResultFromHost i s =
     (let t = elapsed_ms D i / 1000;
          s = s\<lparr>times := (times s)[i := t]\<rparr>;
          s = (if memcpyErr D i = None then s\<lparr>h_vecResultFromDevice := d_vecC s\<rparr> else s);
          s = print (Memcpy_result (error_text (memcpyErr D i))) s
      in bindc (check_result h_vecResultFromHost (h_vecResultFromDevice s)) (\<lambda>r.
           if r then Inr (print (Result_OK t) s\<lparr>ok := (ok s)[i := True], successful := successful s + 1\<rparr>)
           else Inr (print (Result_QQ t) s\<lparr>ok := (ok s)[i := False]\<rparr>)))"

definition run_test ::
    "'a::semiring_1 gpu \<Rightarrow> 'a list \<Rightarrow> 'a list \<Rightarrow> 'a list \<Rightarrow> nat \<Rightarrow> 'a tests \<Rightarrow> 'a tests c" where
  "run_test D vecA vecB h_vecResultFromHost i s =
     (let g = grids ! i; b = blocks ! i; s = print (Test (i + 1) g b) s
      in if b > maxThreadsPerBlock D then Inr (print (Skip b (maxThreadsPerBlock D)) s)
      else let s = s\<lparr>d_vecC := replicate ELEMENT_COUNT 0\<rparr>
      in case launchErr D i of
           Some e \<Rightarrow> Inr (print (Launch_failed e) s)
         | None \<Rightarrow>
             (case exec D g b (switch_kernel i g b vecA vecB) (d_vecC s) of
                Inl _ \<Rightarrow> Inr (print (Sync_failed illegal_access) s)
              | Inr mem \<Rightarrow>
                  let s = s\<lparr>d_vecC := mem\<rparr>
                  in case syncErr D i of
                       Some e \<Rightarrow> Inr (print (Sync_failed e) s)
                     | None \<Rightarrow> finish_test D h_vecResultFromHost i s))"

fun test_loop ::
    "'a::semiring_1 gpu \<Rightarrow> 'a list \<Rightarrow> 'a list \<Rightarrow> 'a list \<Rightarrow> nat \<Rightarrow> nat \<Rightarrow> 'a tests \<Rightarrow> 'a tests c" where
  "test_loop D vecA vecB h 0 i s = Inr s"
| "test_loop D vecA vecB h (Suc n) i s =
     bindc (run_test D vecA vecB h i s) (test_loop D vecA vecB h n (Suc i))"

text \<open>
  The state before the first test: the allocations and the copies of the inputs have succeeded
  and been reported, \<open>dmem\<close> and \<open>hmem\<close> are the contents of the fresh result arrays.
\<close>

definition start_tests :: "'a list \<Rightarrow> 'a list \<Rightarrow> 'a tests" where
  "start_tests dmem hmem = \<lparr>times = replicate configs (- 1), ok = replicate configs False, successful = 0,
     d_vecC = dmem, h_vecResultFromDevice = hmem,
     out = map (\<lambda>call. Status (call @ '': no error''))
       [''Malloc d_vecA'', ''Malloc d_vecB'', ''Malloc d_vecC'', ''Memory Copy d_vecA'', ''Memory Copy d_vecB'']\<rparr>"

text \<open>The statistics loop and the summary.\<close>

record stats =
  sum_t :: real
  minT :: real
  maxT :: real
  minIdx :: int
  maxIdx :: int
  count_ok :: nat

definition stats_step :: "real list \<Rightarrow> bool list \<Rightarrow> nat \<Rightarrow> stats \<Rightarrow> stats" where
  "stats_step ts os i s =
     (if \<not> os ! i then s
      else let t = ts ! i;
               s = s\<lparr>sum_t := sum_t s + t, count_ok := count_ok s + 1\<rparr>;
               s = (if t < minT s then s\<lparr>minT := t, minIdx := int i\<rparr> else s)
           in if t > maxT s then s\<lparr>maxT := t, maxIdx := int i\<rparr> else s)"

definition statistics :: "real list \<Rightarrow> bool list \<Rightarrow> stats" where
  "statistics ts os = fold (stats_step ts os) [0..<configs]
     \<lparr>sum_t = 0, minT = 10 ^ 300, maxT = - 1, minIdx = - 1, maxIdx = - 1, count_ok = 0\<rparr>"

definition average :: "stats \<Rightarrow> real" where
  "average s = (if count_ok s > 0 then sum_t s / real (count_ok s) else - 1)"

datatype summary_line =
    No_successful
  | Successful nat nat
  | Fastest nat nat real
  | Slowest nat nat real
  | Average real
  | CPU_time real
  | Skipped nat nat nat
  | Ratio nat nat nat real
  | Invalid_time nat nat nat
  | Slow_ratio real

definition ldi :: "'a list \<Rightarrow> int \<Rightarrow> 'a c" where
  "ldi xs i = (if 0 \<le> i then ld xs (nat i) else Inl OutOfBounds)"

definition ratio_line :: "real list \<Rightarrow> bool list \<Rightarrow> real \<Rightarrow> nat \<Rightarrow> summary_line" where
  "ratio_line ts os cpu i =
     (if \<not> os ! i then Skipped (i + 1) (grids ! i) (blocks ! i)
      else if ts ! i > 0 then Ratio (i + 1) (grids ! i) (blocks ! i) (cpu / ts ! i)
      else Invalid_time (i + 1) (grids ! i) (blocks ! i))"

definition summary :: "real list \<Rightarrow> bool list \<Rightarrow> real \<Rightarrow> summary_line list c" where
  "summary ts os cpu =
     (let s = statistics ts os
      in if count_ok s = 0 then Inr [No_successful]
      else bindc (ldi grids (minIdx s)) (\<lambda>gmin. bindc (ldi blocks (minIdx s)) (\<lambda>bmin.
           bindc (ldi grids (maxIdx s)) (\<lambda>gmax. bindc (ldi blocks (maxIdx s)) (\<lambda>bmax.
             Inr ([Successful (count_ok s) configs, Fastest gmin bmin (minT s), Slowest gmax bmax (maxT s),
                   Average (average s), CPU_time cpu] @
                  map (ratio_line ts os cpu) [0..<configs] @
                  (if maxT s > 0 then [Slow_ratio (cpu / maxT s)] else [])))))))"

definition vec_add_main ::
    "(nat \<Rightarrow> nat) \<Rightarrow> 'a::semiring_1 gpu \<Rightarrow> real \<Rightarrow> 'a list \<Rightarrow> 'a list \<Rightarrow> 'a list \<Rightarrow> ('a tests \<times> summary_line list) c" where
  "vec_add_main rand D cpu dmem hmem hmem' =
     (let h_vecA = init_vecA rand; h_vecB = init_vecB rand
      in bindc (vecAdd_cpu h_vecA h_vecB hmem') (\<lambda>h_vecResultFromHost.
         bindc (test_loop D h_vecA h_vecB h_vecResultFromHost configs 0 (start_tests dmem hmem)) (\<lambda>s.
         bindc (summary (times s) (ok s) cpu) (\<lambda>ls. Inr (s, ls)))))"

subsection \<open>Interface: the inputs of the kernels\<close>

text \<open>The contract of the kernels' inputs, and the element every kernel has to store.\<close>

locale vec_inputs =
  fixes vecA vecB :: "'a::plus list"
  assumes length_A: "length vecA = ELEMENT_COUNT" and length_B: "length vecB = ELEMENT_COUNT"
begin

lemma add_at_in: "i < ELEMENT_COUNT \<Longrightarrow> add_at vecA vecB i = Inr [(i, vecB ! i + vecA ! i)]"
  by (simp add: add_at_def length_A length_B)

lemma grid_stride_kernel:
  assumes "0 < grid * block"
    and "\<And>b t. k b t = for_stores (for_step (block * b + t) ELEMENT_COUNT (block * grid)) (\<lambda>i. add_at vecA vecB i)"
  shows "elementwise k grid block ELEMENT_COUNT
    (\<lambda>b t. for_step (block * b + t) ELEMENT_COUNT (block * grid)) (\<lambda>i. vecB ! i + vecA ! i)"
proof
  have pos: "0 < block * grid" using assms(1) by (simp add: mult.commute)
  show "k b t = Inr (map (\<lambda>i. (i, vecB ! i + vecA ! i)) (for_step (block * b + t) ELEMENT_COUNT (block * grid)))" for b t
    unfolding assms(2) using pos by (intro for_stores_single add_at_in) (simp add: set_for_step)
  show "i \<in> set (for_step (block * b + t) ELEMENT_COUNT (block * grid)) \<Longrightarrow> i < ELEMENT_COUNT" for b t i
    using pos by (simp add: set_for_step)
  fix i assume i: "i < ELEMENT_COUNT"
  obtain b t q where w: "b < grid" "t < block" "i = q * (block * grid) + (block * b + t)"
    using thread_of_index [of "block * grid" grid block i] pos by (auto simp: mult.commute)
  then have "i \<in> set (for_step (block * b + t) ELEMENT_COUNT (block * grid))"
    using pos i by (simp add: set_for_step)
  with w show "\<exists>b < grid. \<exists>t < block. i \<in> set (for_step (block * b + t) ELEMENT_COUNT (block * grid))" by blast
qed

text \<open>A fixed stride that the threads of the grid can fill.\<close>

lemma strided_kernel:
  assumes "0 < step" "step \<le> grid * block"
    and k: "\<And>b t. k b t = for_stores (for_step 0 ELEMENT_COUNT step) (\<lambda>i.
      if i + t + block * b < ELEMENT_COUNT then add_at vecA vecB (i + (block * b + t)) else Inr [])"
  shows "elementwise k grid block ELEMENT_COUNT
    (\<lambda>b t. map (\<lambda>i. i + (block * b + t)) (filter (\<lambda>i. i + t + block * b < ELEMENT_COUNT) (for_step 0 ELEMENT_COUNT step)))
    (\<lambda>i. vecB ! i + vecA ! i)"
proof
  show "k b t = Inr (map (\<lambda>i. (i, vecB ! i + vecA ! i))
      (map (\<lambda>i. i + (block * b + t)) (filter (\<lambda>i. i + t + block * b < ELEMENT_COUNT) (for_step 0 ELEMENT_COUNT step))))" for b t
    unfolding k by (rule for_stores_if) (simp add: add_at_in add_ac)
  fix i assume i: "i < ELEMENT_COUNT"
  obtain b t q where w: "b < grid" "t < block" "i = q * step + (block * b + t)"
    using thread_of_index [OF assms(1,2)] by metis
  have "q * step \<in> set (filter (\<lambda>i. i + t + block * b < ELEMENT_COUNT) (for_step 0 ELEMENT_COUNT step))"
    using w i assms(1) by (simp add: set_for_step)
  then have "i \<in> set (map (\<lambda>i. i + (block * b + t)) (filter (\<lambda>i. i + t + block * b < ELEMENT_COUNT) (for_step 0 ELEMENT_COUNT step)))"
    unfolding set_map w(3) by (rule imageI)
  with w show "\<exists>b < grid. \<exists>t < block. i \<in> set (map (\<lambda>i. i + (block * b + t))
      (filter (\<lambda>i. i + t + block * b < ELEMENT_COUNT) (for_step 0 ELEMENT_COUNT step)))" by blast
qed auto

text \<open>A stride filled by the threads of one block; every block does the same work.\<close>

lemma block_kernel:
  assumes "0 < step" "step \<le> block" "0 < grid"
    and k: "\<And>b t. k b t = for_stores (for_step 0 ELEMENT_COUNT step) (\<lambda>i.
      if i + t < ELEMENT_COUNT then add_at vecA vecB (i + t) else Inr [])"
  shows "elementwise k grid block ELEMENT_COUNT
    (\<lambda>b t. map (\<lambda>i. i + t) (filter (\<lambda>i. i + t < ELEMENT_COUNT) (for_step 0 ELEMENT_COUNT step)))
    (\<lambda>i. vecB ! i + vecA ! i)"
proof
  show "k b t = Inr (map (\<lambda>i. (i, vecB ! i + vecA ! i))
      (map (\<lambda>i. i + t) (filter (\<lambda>i. i + t < ELEMENT_COUNT) (for_step 0 ELEMENT_COUNT step))))" for b t
    unfolding k by (rule for_stores_if) (simp add: add_at_in)
  fix i assume i: "i < ELEMENT_COUNT"
  have "i div step * step \<in> set (filter (\<lambda>j. j + i mod step < ELEMENT_COUNT) (for_step 0 ELEMENT_COUNT step))"
    using i assms(1) by (simp add: set_for_step add_increasing2 order.strict_trans1 [OF div_times_less_eq_dividend])
  then have "i \<in> set (map (\<lambda>j. j + i mod step) (filter (\<lambda>j. j + i mod step < ELEMENT_COUNT) (for_step 0 ELEMENT_COUNT step)))"
    by (metis (no_types, lifting) div_mult_mod_eq image_eqI set_map)
  moreover have "i mod step < block" using assms by (meson less_le_trans mod_less_divisor)
  ultimately show "\<exists>b < grid. \<exists>t < block. i \<in> set (map (\<lambda>i. i + t)
      (filter (\<lambda>i. i + t < ELEMENT_COUNT) (for_step 0 ELEMENT_COUNT step)))" using assms(3) by blast
qed auto

end

lemmas kernel_defs = vecAdd_gpu_kernel_1_2_def vecAdd_gpu_kernel_1_256_def
  vecAdd_gpu_kernel_256_1_def vecAdd_gpu_kernel_256_2_def vecAdd_gpu_kernel_2_10_a_def
  vecAdd_gpu_kernel_2_10_b_def vecAdd_gpu_kernel_2_10_c_def vecAdd_gpu_kernel_2_18_a_def
  vecAdd_gpu_kernel_2_18_b_def vecAdd_gpu_kernel_2_19_a_def vecAdd_gpu_kernel_2_19_b_def
  vecAdd_gpu_kernel_better_a_def vecAdd_gpu_kernel_better_b_def vecAdd_gpu_kernel_better_c_def
  vecAdd_gpu_kernel_better_d_def vecAdd_gpu_kernel_better_e_def

lemma configs_eq: "configs = 19"
  by (simp add: configs_def grids_def)

context vec_inputs
begin

lemma kernel_1_1: "elementwise (vecAdd_gpu_kernel_1_1 1 1 vecA vecB) 1 1 ELEMENT_COUNT
    (\<lambda>_ _. for_step 0 ELEMENT_COUNT 1) (\<lambda>i. vecB ! i + vecA ! i)"
proof
  show "vecAdd_gpu_kernel_1_1 1 1 vecA vecB b t =
      Inr (map (\<lambda>i. (i, vecB ! i + vecA ! i)) (for_step 0 ELEMENT_COUNT 1))" for b t
    unfolding vecAdd_gpu_kernel_1_1_def by (intro for_stores_single add_at_in) (simp add: set_for_step)
qed (auto simp: set_for_step)

lemma config_computes:
  assumes "i < configs"
  shows "\<exists>work. elementwise (switch_kernel i (grids ! i) (blocks ! i) vecA vecB) (grids ! i) (blocks ! i)
    ELEMENT_COUNT work (\<lambda>i. vecB ! i + vecA ! i)"
proof -
  have "i \<in> {0,1,2,3,4,5,6,7,8,9,10,11,12,13,14,15,16,17,18}"
    using assms by (simp add: configs_eq eval_nat_numeral less_Suc_eq)
  then show ?thesis
    unfolding insert_iff empty_iff
  proof (elim disjE FalseE)
    assume "i = 0"
    then show ?thesis using kernel_1_1 by (auto simp: switch_kernel_def grids_def blocks_def)
  qed (simp add: switch_kernel_def grids_def blocks_def, rule exI,
      ((rule strided_kernel [where step = 256] strided_kernel [where step = 512]
         strided_kernel [where step = 1024] strided_kernel [where step = "1024 * 256"]
         strided_kernel [where step = "1024 * 512"] block_kernel [where step = 2]
         block_kernel [where step = 256] grid_stride_kernel);
       (simp add: kernel_defs Let_def cong: if_cong; fail)))+
qed

end


subsection \<open>The inputs \<open>main\<close> prepares\<close>

interpretation vi: vec_inputs "init_vecA rand" "init_vecB rand" for rand
  by unfold_locales (simp_all add: init_vecA_def init_vecB_def)

interpretation k_1_1: elementwise "vecAdd_gpu_kernel_1_1 1 1 (init_vecA rand) (init_vecB rand)" 1 1
    ELEMENT_COUNT "\<lambda>_ _. for_step 0 ELEMENT_COUNT 1" "\<lambda>i. init_vecB rand ! i + init_vecA rand ! i" for rand
  by (rule vi.kernel_1_1)

subsection \<open>The host's reference result and its comparison\<close>

context vec_inputs
begin

lemma cpu_launch: "vecAdd_cpu vecA vecB vecC = launch 1 1 (vecAdd_gpu_kernel_1_1 1 1 vecA vecB) vecC"
proof -
  have "launch_stores 1 1 k = bindc (k 0 0) (\<lambda>ws. Inr ws)" for k :: "'a kernel"
    by (cases "k 0 0") (simp_all add: launch_stores_def grid_threads_def)
  then show ?thesis
    by (cases "for_stores (for_step 0 ELEMENT_COUNT 1) (\<lambda>i. add_at vecA vecB i)")
      (simp_all add: launch_def vecAdd_cpu_def vecAdd_gpu_kernel_1_1_def)
qed

lemma cpu_result: "length vecC = ELEMENT_COUNT \<Longrightarrow>
    vecAdd_cpu vecA vecB vecC = Inr (map (\<lambda>i. vecB ! i + vecA ! i) [0..<ELEMENT_COUNT])"
  unfolding cpu_launch by (rule elementwise.deterministic [OF kernel_1_1])

end

lemma check_from_iff:
  "i + n \<le> length h \<Longrightarrow> i + n \<le> length d \<Longrightarrow>
   check_from n i h d = Inr (\<forall>j. i \<le> j \<and> j < i + n \<longrightarrow> h ! j = d ! j)"
proof (induction n arbitrary: i)
  case (Suc n)
  have "(\<forall>j. i \<le> j \<and> j < i + Suc n \<longrightarrow> h ! j = d ! j) \<longleftrightarrow>
      h ! i = d ! i \<and> (\<forall>j. Suc i \<le> j \<and> j < Suc i + n \<longrightarrow> h ! j = d ! j)"
    by (metis Suc_leD add_Suc_right add_Suc_shift le_add1 le_antisym not_less_eq_eq less_add_Suc1)
  with Suc show ?case by simp
qed auto

lemma check_result_iff:
  "length h = ELEMENT_COUNT \<Longrightarrow> length d = ELEMENT_COUNT \<Longrightarrow> check_result h d = Inr (h = d)"
  by (auto simp: check_result_def check_from_iff intro: nth_equalityI)

subsection \<open>The tests\<close>

text \<open>The device runs a launch in some order of its stores; a test is run and synchronised.\<close>

definition device_ok :: "'a gpu \<Rightarrow> bool" where
  "device_ok D \<longleftrightarrow> (\<forall>g b k xs. launch_result g b k xs (exec D g b k xs))"

definition runs :: "'a gpu \<Rightarrow> nat \<Rightarrow> bool" where
  "runs D i \<longleftrightarrow> blocks ! i \<le> maxThreadsPerBlock D \<and> launchErr D i = None \<and> syncErr D i = None"

lemma exec_config:
  assumes "device_ok D" "i < configs" "vec_inputs vecA vecB" "length xs = ELEMENT_COUNT"
  shows "exec D (grids ! i) (blocks ! i) (switch_kernel i (grids ! i) (blocks ! i) vecA vecB) xs =
    Inr (map (\<lambda>i. vecB ! i + vecA ! i) [0..<ELEMENT_COUNT])"
  using vec_inputs.config_computes [OF assms(3,2)] assms(1,4)
  by (auto simp: device_ok_def intro: elementwise.computes)

lemma run_test_ok:
  fixes s :: "'a::semiring_1 tests"
  assumes D: "device_ok D" "i < configs" "vec_inputs vecA vecB" "runs D i \<Longrightarrow> memcpyErr D i = None"
    and h: "h = map (\<lambda>i. vecB ! i + vecA ! i) [0..<ELEMENT_COUNT]"
  obtains s' where "run_test D vecA vecB h i s = Inr s'"
    "ok s' = (if runs D i then (ok s)[i := True] else ok s)"
    "times s' = (if runs D i then (times s)[i := elapsed_ms D i / 1000] else times s)"
    "successful s' = successful s + (if runs D i then 1 else 0)"
    "\<And>t. Result_QQ t \<in> set (out s') \<Longrightarrow> Result_QQ t \<in> set (out s)"
proof -
  note ex = exec_config [OF D(1-3), of "replicate ELEMENT_COUNT 0"]
  show ?thesis
  proof (cases "runs D i")
    case True
    have "run_test D vecA vecB h i s = finish_test D h i
        (print (Test (i + 1) (grids ! i) (blocks ! i)) s \<lparr>d_vecC := h\<rparr>)"
      using True by (simp add: run_test_def runs_def ex Let_def print_def h)
    also have "\<dots> = Inr (print (Result_OK (elapsed_ms D i / 1000))
        (print (Memcpy_result ''no error'') (print (Test (i + 1) (grids ! i) (blocks ! i)) s \<lparr>d_vecC := h\<rparr>)
          \<lparr>times := (times s)[i := elapsed_ms D i / 1000], h_vecResultFromDevice := h\<rparr>)
          \<lparr>ok := (ok s)[i := True], successful := successful s + 1\<rparr>)"
      using True D(4) by (simp add: finish_test_def Let_def print_def error_text_def check_result_iff h)
    finally show ?thesis using True that by (auto simp: print_def)
  next
    case False
    have "\<exists>m. run_test D vecA vecB h i s = Inr m \<and> ok m = ok s \<and> times m = times s \<and>
        successful m = successful s \<and> (\<forall>t. Result_QQ t \<in> set (out m) \<longrightarrow> Result_QQ t \<in> set (out s))"
      using False by (auto simp: run_test_def runs_def ex Let_def print_def split: option.splits)
    with False that show ?thesis by auto
  qed
qed

lemma test_loop_ok:
  fixes s :: "'a::semiring_1 tests"
  assumes D: "device_ok D" "vec_inputs vecA vecB" "\<And>i. runs D i \<Longrightarrow> memcpyErr D i = None"
    and h: "h = map (\<lambda>i. vecB ! i + vecA ! i) [0..<ELEMENT_COUNT]"
    and "i + n = configs" "length (ok s) = configs" "length (times s) = configs"
  shows "\<exists>s'. test_loop D vecA vecB h n i s = Inr s' \<and> length (ok s') = configs \<and> length (times s') = configs \<and>
    (\<forall>j < configs. ok s' ! j = (if i \<le> j \<and> runs D j then True else ok s ! j) \<and>
       times s' ! j = (if i \<le> j \<and> runs D j then elapsed_ms D j / 1000 else times s ! j)) \<and>
    successful s' = successful s + length (filter (runs D) [i..<configs]) \<and>
    (\<forall>t. Result_QQ t \<in> set (out s') \<longrightarrow> Result_QQ t \<in> set (out s))"
  using assms(5-)
proof (induction n arbitrary: i s)
  case 0
  then show ?case by auto
next
  case (Suc n)
  then have i: "i < configs" by simp
  obtain s1 where s1: "run_test D vecA vecB h i s = Inr s1"
    "ok s1 = (if runs D i then (ok s)[i := True] else ok s)"
    "times s1 = (if runs D i then (times s)[i := elapsed_ms D i / 1000] else times s)"
    "successful s1 = successful s + (if runs D i then 1 else 0)"
    "\<And>t. Result_QQ t \<in> set (out s1) \<Longrightarrow> Result_QQ t \<in> set (out s)"
    using run_test_ok [OF D(1) i D(2) D(3) h] by metis
  have len: "length (ok s1) = configs" "length (times s1) = configs" using s1(2,3) Suc.prems by simp_all
  obtain s' where s': "test_loop D vecA vecB h n (Suc i) s1 = Inr s'" "length (ok s') = configs" "length (times s') = configs"
    "\<forall>j < configs. ok s' ! j = (if Suc i \<le> j \<and> runs D j then True else ok s1 ! j) \<and>
       times s' ! j = (if Suc i \<le> j \<and> runs D j then elapsed_ms D j / 1000 else times s1 ! j)"
    "successful s' = successful s1 + length (filter (runs D) [Suc i..<configs])"
    "\<forall>t. Result_QQ t \<in> set (out s') \<longrightarrow> Result_QQ t \<in> set (out s1)"
    using Suc.IH [of "Suc i" s1] Suc.prems len by auto
  have "ok s' ! j = (if i \<le> j \<and> runs D j then True else ok s ! j) \<and>
      times s' ! j = (if i \<le> j \<and> runs D j then elapsed_ms D j / 1000 else times s ! j)" if "j < configs" for j
    using s'(4) that s1(2,3) Suc.prems by (cases "j = i") (auto simp: Suc_le_eq le_less)
  moreover have "successful s' = successful s + length (filter (runs D) [i..<configs])"
    using s'(5) s1(4) i by (simp add: upt_conv_Cons)
  ultimately show ?case using s1 s' by auto
qed

subsection \<open>The statistics\<close>

definition stats_of :: "real list \<Rightarrow> bool list \<Rightarrow> nat \<Rightarrow> stats" where
  "stats_of ts os n = fold (stats_step ts os) [0..<n]
     \<lparr>sum_t = 0, minT = 10 ^ 300, maxT = - 1, minIdx = - 1, maxIdx = - 1, count_ok = 0\<rparr>"

lemma stats_of_0: "stats_of ts os 0 =
    \<lparr>sum_t = 0, minT = 10 ^ 300, maxT = - 1, minIdx = - 1, maxIdx = - 1, count_ok = 0\<rparr>"
  by (simp add: stats_of_def)

lemma stats_of_Suc: "stats_of ts os (Suc n) = stats_step ts os n (stats_of ts os n)"
  by (simp add: stats_of_def)

lemma statistics_of: "statistics ts os = stats_of ts os configs"
  by (simp add: statistics_def stats_of_def)

lemma stats_sum:
  "count_ok (stats_of ts os n) = length (filter ((!) os) [0..<n]) \<and>
   sum_t (stats_of ts os n) = sum_list (map ((!) ts) (filter ((!) os) [0..<n]))"
  by (induction n) (auto simp: stats_of_0 stats_of_Suc stats_step_def Let_def)

text \<open>A running minimum over the tests that are ok, with the index of its first occurrence.\<close>

lemma running_min:
  fixes M :: "nat \<Rightarrow> real"
  assumes M: "\<And>n. M (Suc n) = (if P n \<and> v n < M n then v n else M n)"
    and I: "\<And>n. I (Suc n) = (if P n \<and> v n < M n then int n else I n)"
    and "\<forall>i < n. P i \<longrightarrow> v i < M 0"
  shows "if \<exists>i < n. P i then \<exists>m < n. I n = int m \<and> P m \<and> M n = v m \<and> (\<forall>i < n. P i \<longrightarrow> v m \<le> v i)
    else M n = M 0"
  using assms(3)
proof (induction n)
  case (Suc n)
  then have IH: "if \<exists>i < n. P i then \<exists>m < n. I n = int m \<and> P m \<and> M n = v m \<and> (\<forall>i < n. P i \<longrightarrow> v m \<le> v i)
    else M n = M 0" by simp
  consider "\<not> P n" | "P n" "\<forall>i < n. \<not> P i" | m where "P n" "m < n" "I n = int m" "P m" "M n = v m" "\<forall>i < n. P i \<longrightarrow> v m \<le> v i"
    using IH by (auto split: if_splits)
  then show ?case
  proof cases
    case 1
    then have "(\<exists>i < Suc n. P i) \<longleftrightarrow> (\<exists>i < n. P i)" by (auto simp: less_Suc_eq)
    moreover have "M (Suc n) = M n" "I (Suc n) = I n" using 1 M I by simp_all
    ultimately show ?thesis using IH 1 by (cases "\<exists>i < n. P i") (auto simp: less_Suc_eq)
  next
    case 2
    then have "M n = M 0" using IH by auto
    with 2 Suc.prems M I have "M (Suc n) = v n" "I (Suc n) = int n" by auto
    with 2 show ?thesis by (auto simp: less_Suc_eq)
  next
    case (3 m)
    show ?thesis
    proof (cases "v n < v m")
      case True
      with 3(6) have "\<forall>i < Suc n. P i \<longrightarrow> v n \<le> v i" by (force simp: less_Suc_eq)
      with True 3 M I show ?thesis by auto
    next
      case False
      with 3(6) have "\<forall>i < Suc n. P i \<longrightarrow> v m \<le> v i" by (auto simp: less_Suc_eq)
      with False 3 M I show ?thesis by auto
    qed
  qed
qed simp

lemma stats_min:
  assumes "\<forall>i < n. os ! i \<longrightarrow> ts ! i < 10 ^ 300" "\<exists>i < n. os ! i"
  obtains m where "m < n" "minIdx (stats_of ts os n) = int m" "os ! m" "minT (stats_of ts os n) = ts ! m"
    "\<forall>i < n. os ! i \<longrightarrow> ts ! m \<le> ts ! i"
proof -
  have "if \<exists>i < n. os ! i then \<exists>m < n. minIdx (stats_of ts os n) = int m \<and> os ! m \<and>
      minT (stats_of ts os n) = ts ! m \<and> (\<forall>i < n. os ! i \<longrightarrow> ts ! m \<le> ts ! i)
    else minT (stats_of ts os n) = minT (stats_of ts os 0)"
    by (rule running_min) (use assms in \<open>auto simp: stats_of_0 stats_of_Suc stats_step_def Let_def\<close>)
  with assms(2) that show ?thesis by auto
qed

lemma stats_max:
  assumes "\<forall>i < n. os ! i \<longrightarrow> - 1 < ts ! i" "\<exists>i < n. os ! i"
  obtains m where "m < n" "maxIdx (stats_of ts os n) = int m" "os ! m" "maxT (stats_of ts os n) = ts ! m"
    "\<forall>i < n. os ! i \<longrightarrow> ts ! i \<le> ts ! m"
proof -
  have "if \<exists>i < n. os ! i then \<exists>m < n. maxIdx (stats_of ts os n) = int m \<and> os ! m \<and>
      - maxT (stats_of ts os n) = - (ts ! m) \<and> (\<forall>i < n. os ! i \<longrightarrow> - (ts ! m) \<le> - (ts ! i))
    else - maxT (stats_of ts os n) = - maxT (stats_of ts os 0)"
    by (rule running_min) (use assms in \<open>auto simp: stats_of_0 stats_of_Suc stats_step_def Let_def\<close>)
  with assms(2) that show ?thesis by auto
qed

lemma sum_list_between:
  fixes lo :: real
  assumes "\<forall>x \<in> set xs. lo \<le> x \<and> x \<le> hi"
  shows "lo * real (length xs) \<le> sum_list xs \<and> sum_list xs \<le> hi * real (length xs)"
  using assms by (induction xs) (auto simp: algebra_simps add_mono)

lemma summary_never_out_of_bounds:
  assumes "\<forall>i < configs. os ! i \<longrightarrow> - 1 < ts ! i \<and> ts ! i < 10 ^ 300"
  shows "\<exists>ls. summary ts os cpu = Inr ls"
proof (cases "\<exists>i < configs. os ! i")
  case False
  then have "count_ok (statistics ts os) = 0" by (auto simp: statistics_of stats_sum filter_empty_conv)
  then show ?thesis by (simp add: summary_def)
next
  case True
  obtain m where m: "m < configs" "minIdx (statistics ts os) = int m"
    using stats_min [of configs os ts] True assms unfolding statistics_of by metis
  obtain m' where m': "m' < configs" "maxIdx (statistics ts os) = int m'"
    using stats_max [of configs os ts] True assms unfolding statistics_of by metis
  have "length blocks = configs" by (simp add: configs_eq blocks_def)
  with m m' show ?thesis by (simp add: summary_def Let_def ldi_def configs_def)
qed

subsection \<open>Properties\<close>

lemma start_tests_simps:
  "(i < configs \<Longrightarrow> ok (start_tests d h) ! i \<longleftrightarrow> False)"
  "(i < configs \<Longrightarrow> times (start_tests d h) ! i = - 1)"
  "length (ok (start_tests d h)) = configs" "length (times (start_tests d h)) = configs"
  "successful (start_tests d h) = 0" "Result_QQ t \<notin> set (out (start_tests d h))"
  by (simp_all add: start_tests_def)

text \<open>
  C3: whatever numbers \<open>rand()\<close> gives and whatever the order in which the device performs the
  stores of a launch, the program ends, every one of the nineteen configurations that the device
  can run is reported OK and marked ok, no test reports a mismatch, the counter equals the number
  of those tests, and the summary never indexes the configuration tables out of range.
\<close>

theorem vec_add_all_configurations_agree:
  assumes "device_ok D" "length hmem' = ELEMENT_COUNT"
    and "\<And>i. runs D i \<Longrightarrow> memcpyErr D i = None"
    and "\<And>i. 0 \<le> elapsed_ms D i \<and> elapsed_ms D i < 10 ^ 300"
  shows "\<exists>s ls. vec_add_main rand D cpu dmem hmem hmem' = Inr (s, ls) \<and>
    (\<forall>i < configs. ok s ! i \<longleftrightarrow> runs D i) \<and> (\<forall>t. Result_QQ t \<notin> set (out s)) \<and>
    successful s = length (filter (runs D) [0..<configs])"
proof -
  let ?A = "init_vecA rand" and ?B = "init_vecB rand"
  let ?h = "map (\<lambda>i. ?B ! i + ?A ! i) [0..<ELEMENT_COUNT]"
  obtain s where s: "test_loop D ?A ?B ?h configs 0 (start_tests dmem hmem) = Inr s"
    and each: "\<forall>j < configs. ok s ! j = (if 0 \<le> j \<and> runs D j then True else ok (start_tests dmem hmem) ! j) \<and>
       times s ! j = (if 0 \<le> j \<and> runs D j then elapsed_ms D j / 1000 else times (start_tests dmem hmem) ! j)"
    and total: "successful s = length (filter (runs D) [0..<configs])" "\<forall>t. Result_QQ t \<notin> set (out s)"
    using test_loop_ok [OF assms(1) vi.vec_inputs_axioms assms(3) refl, of 0 configs "start_tests dmem hmem" rand]
    by (auto simp: start_tests_simps(3-))
  have ok: "ok s ! j = runs D j" if "j < configs" for j
    using each start_tests_simps(1) that by auto
  have "\<forall>i < configs. ok s ! i \<longrightarrow> - 1 < times s ! i \<and> times s ! i < 10 ^ 300"
  proof (intro allI impI)
    fix i assume "i < configs" "ok s ! i"
    then have "times s ! i = elapsed_ms D i / 1000" using each ok by auto
    with assms(4) [of i] show "- 1 < times s ! i \<and> times s ! i < 10 ^ 300" by simp
  qed
  then obtain ls where "summary (times s) (ok s) cpu = Inr ls" using summary_never_out_of_bounds by blast
  with s ok total vi.cpu_result [OF assms(2)] show ?thesis by (simp add: vec_add_main_def Let_def)
qed

text \<open>A device with at most 512 threads per block: it skips the configuration of 1024 threads.\<close>

definition device_512 :: "int gpu" where
  "device_512 = \<lparr>maxThreadsPerBlock = 512, exec = launch, launchErr = (\<lambda>_. None), syncErr = (\<lambda>_. None),
     memcpyErr = (\<lambda>_. None), elapsed_ms = (\<lambda>i. real (i mod 7) + 1)\<rparr>"

lemma runs_512: "length (filter (runs device_512) [0..<configs]) = 18"
proof -
  have "runs device_512 = (\<lambda>x. x \<le> 512) \<circ> (!) blocks" by (auto simp: runs_def device_512_def fun_eq_iff)
  then have "length (filter (runs device_512) [0..<configs]) = length (filter (\<lambda>x. x \<le> 512) (map ((!) blocks) [0..<configs]))"
    by (simp add: filter_map)
  also have "map ((!) blocks) [0..<configs] = blocks"
  proof -
    have "configs = length blocks" by (simp add: configs_eq blocks_def)
    then show ?thesis using map_nth [of blocks] by metis
  qed
  finally show ?thesis by (simp add: blocks_def)
qed

theorem vec_add_all_configurations_agree_witness:
  "\<exists>s ls. vec_add_main (\<lambda>i. 3 * i) device_512 1 [] [] (replicate ELEMENT_COUNT 0) = Inr (s, ls) \<and>
    (\<forall>t. Result_QQ t \<notin> set (out s)) \<and> successful s = 18"
proof -
  have mod7: "real (i mod 7) + 1 < 10 ^ 300" for i :: nat
  proof -
    have "real (i mod 7) + 1 \<le> 7" using mod_less_divisor [of 7 i] by linarith
    also have "\<dots> < 10 ^ 300" by simp
    finally show ?thesis .
  qed
  have "device_ok device_512" by (simp add: device_ok_def device_512_def launch_is_result)
  moreover have "memcpyErr device_512 i = None" "0 \<le> elapsed_ms device_512 i \<and> elapsed_ms device_512 i < 10 ^ 300" for i
    using mod7 [of i] by (simp_all add: device_512_def)
  ultimately show ?thesis
    using runs_512 vec_add_all_configurations_agree [of device_512 "replicate ELEMENT_COUNT 0" "\<lambda>i. 3 * i" 1 "[]" "[]"] by auto
qed

text \<open>
  The statistics loop finds, among the tests that are ok, one with the smallest and one with
  the largest time; the average lies between the two.
\<close>

theorem statistics_correct:
  assumes "\<forall>i < configs. os ! i \<longrightarrow> - 1 < ts ! i \<and> ts ! i < 10 ^ 300" "\<exists>i < configs. os ! i"
  shows "\<exists>m < configs. \<exists>M < configs. let s = statistics ts os in
    minIdx s = int m \<and> maxIdx s = int M \<and> os ! m \<and> os ! M \<and> minT s = ts ! m \<and> maxT s = ts ! M \<and>
    (\<forall>i < configs. os ! i \<longrightarrow> ts ! m \<le> ts ! i \<and> ts ! i \<le> ts ! M) \<and>
    minT s \<le> average s \<and> average s \<le> maxT s"
proof -
  let ?s = "statistics ts os" and ?xs = "filter ((!) os) [0..<configs]"
  obtain m where m: "m < configs" "minIdx ?s = int m" "os ! m" "minT ?s = ts ! m"
    "\<forall>i < configs. os ! i \<longrightarrow> ts ! m \<le> ts ! i"
    using stats_min [of configs os ts] assms unfolding statistics_of by metis
  obtain M where M: "M < configs" "maxIdx ?s = int M" "os ! M" "maxT ?s = ts ! M"
    "\<forall>i < configs. os ! i \<longrightarrow> ts ! i \<le> ts ! M"
    using stats_max [of configs os ts] assms unfolding statistics_of by metis
  have "m \<in> set ?xs" using m by simp
  then have pos: "0 < real (length ?xs)" by (cases ?xs) auto
  have "ts ! m * real (length (map ((!) ts) ?xs)) \<le> sum_list (map ((!) ts) ?xs) \<and>
      sum_list (map ((!) ts) ?xs) \<le> ts ! M * real (length (map ((!) ts) ?xs))"
    by (rule sum_list_between) (use m(5) M(5) in auto)
  then have "minT ?s \<le> average ?s \<and> average ?s \<le> maxT ?s"
    using pos m(4) M(4) by (auto simp: average_def statistics_of stats_sum le_divide_eq divide_le_eq)
  with m M show ?thesis by (auto simp: Let_def)
qed

theorem statistics_correct_witness:
  "let s = statistics (1 # replicate 18 3) (replicate 19 True) in minT s \<le> average s \<and> average s \<le> maxT s"
proof -
  have "\<forall>i < configs. replicate 19 True ! i \<longrightarrow>
      - 1 < (1 # replicate 18 (3::real)) ! i \<and> (1 # replicate 18 (3::real)) ! i < 10 ^ 300"
    by (auto simp: configs_eq nth_Cons split: nat.splits)
  moreover have "\<exists>i < configs. replicate 19 True ! i"
    by (rule exI [of _ 0]) (simp add: configs_eq)
  ultimately show ?thesis
    using statistics_correct [of "replicate 19 True" "1 # replicate 18 3"] unfolding Let_def by blast
qed

text \<open>The configurations have at most \<open>2 ^ 20\<close> threads.\<close>

lemma config_threads: "i < configs \<Longrightarrow> grids ! i * blocks ! i \<le> ELEMENT_COUNT"
proof -
  assume "i < configs"
  then have "i < length (zip grids blocks)" by (simp add: configs_eq grids_def blocks_def)
  then have "(grids ! i, blocks ! i) \<in> set (zip grids blocks)" by (metis nth_mem nth_zip length_zip min_less_iff_conj)
  then show ?thesis by (auto simp: grids_def blocks_def ELEMENT_COUNT_def)
qed



end
