(* ===== verification/Cuda_Vec_Add_Variants.thy ===== *)
theory Cuda_Vec_Add_Variants
  imports Cuda_Vec_Add
begin

section \<open>The single-launch vector additions\<close>

text \<open>
  Three programs that share the host code of \<open>vec_add.cu\<close> but launch one kernel, or none, and never
  ask whether the launch was accepted: \<open>Sample/vec_add.cu\<close> launches blocks of 4096 threads,
  \<open>old_vec_add.cu\<close> has every launch commented out, and \<open>vec_add_out_boundary.cu\<close> adds 1000 elements with
  a kernel whose bounds check is commented out.  Allocation and the copies of the inputs succeed;
  the array from \<open>cudaMalloc\<close> holds whatever was there (\<open>dmem\<close>).
\<close>

datatype vec_line =
    Malloc_status string string
  | Copy_status string string
  | Check_OK
  | Check_QQ
  | GPU_seconds real
  | CPU_seconds real
  | Speed_up real

text \<open>What these programs print, by the outcome of the comparison and the two times.\<close>

definition vec_lines :: "bool \<Rightarrow> real \<Rightarrow> real \<Rightarrow> vec_line list" where
  "vec_lines r ms cpu =
     [Malloc_status ''d_vecA'' ''no error'', Malloc_status ''d_vecB'' ''no error'', Malloc_status ''d_vecC'' ''no error'',
      Copy_status ''d_vecA'' ''no error'', Copy_status ''d_vecB'' ''no error'',
      Copy_status ''h_vecResultFromDevice'' ''no error'',
      if r then Check_OK else Check_QQ,
      GPU_seconds (ms / 1000), CPU_seconds cpu, Speed_up (cpu / (ms / 1000))]"

definition sample_vec_add_main ::
    "(nat \<Rightarrow> nat) \<Rightarrow> 'a::semiring_1 gpu \<Rightarrow> 'a list \<Rightarrow> 'a list \<Rightarrow> real \<Rightarrow> real \<Rightarrow> vec_line list c" where
  "sample_vec_add_main rand D dmem hmem ms cpu =
     (let h_vecA = init_vecA rand; h_vecB = init_vecB rand
      in bindc (if 4096 > maxThreadsPerBlock D then Inr dmem
                else exec D 1 4096 (vecAdd_gpu_kernel_1_4096 1 4096 h_vecA h_vecB) dmem) (\<lambda>d_vecC.
         bindc (vecAdd_cpu h_vecA h_vecB hmem) (\<lambda>h.
         bindc (check_result h d_vecC) (\<lambda>r. Inr (vec_lines r ms cpu)))))"

definition old_vec_add_main ::
    "(nat \<Rightarrow> nat) \<Rightarrow> 'a::semiring_1 list \<Rightarrow> 'a list \<Rightarrow> real \<Rightarrow> real \<Rightarrow> vec_line list c" where
  "old_vec_add_main rand dmem hmem ms cpu =
     (let h_vecA = init_vecA rand; h_vecB = init_vecB rand
      in bindc (vecAdd_cpu h_vecA h_vecB hmem) (\<lambda>h.
         bindc (check_result h dmem) (\<lambda>r. Inr (vec_lines r ms cpu))))"

text \<open>The kernel \<open>better\<close> of \<open>old_vec_add.cu\<close>: one element per thread.\<close>

definition vecAdd_gpu_kernel_once ::
    "nat \<Rightarrow> nat \<Rightarrow> 'a::plus list \<Rightarrow> 'a list \<Rightarrow> 'a kernel" where
  "vecAdd_gpu_kernel_once gridDim blockDim vecA vecB blockIdx threadIdx =
     (let i = blockDim * blockIdx + threadIdx
      in if i < ELEMENT_COUNT then add_at vecA vecB i else Inr [])"

text \<open>\<open>vec_add_out_boundary.cu\<close>.\<close>

definition ELEMENT_COUNT_oob :: nat where "ELEMENT_COUNT_oob = 1000"

definition kernel_2_256_oob :: "nat \<Rightarrow> nat \<Rightarrow> 'a::plus list \<Rightarrow> 'a list \<Rightarrow> 'a kernel" where
  "kernel_2_256_oob gridDim blockDim vecA vecB blockIdx threadIdx =
     (let j = blockDim * blockIdx + threadIdx
      in for_stores (for_step 0 ELEMENT_COUNT_oob 512) (\<lambda>i. add_at vecA vecB (i + j)))"

definition vecAdd_cpu_oob :: "'a::plus list \<Rightarrow> 'a list \<Rightarrow> 'a list \<Rightarrow> 'a list c" where
  "vecAdd_cpu_oob vecA vecB vecC =
     bindc (for_stores (for_step 0 ELEMENT_COUNT_oob 1) (\<lambda>i. add_at vecA vecB i)) (\<lambda>ws. store_all ws vecC)"

definition check_result_oob :: "'a list \<Rightarrow> 'a list \<Rightarrow> bool c" where
  "check_result_oob h_res d_res = check_from ELEMENT_COUNT_oob 0 h_res d_res"

definition out_boundary_main ::
    "(nat \<Rightarrow> nat) \<Rightarrow> 'a::semiring_1 gpu \<Rightarrow> 'a list \<Rightarrow> 'a list \<Rightarrow> real \<Rightarrow> real \<Rightarrow> vec_line list c" where
  "out_boundary_main rand D dmem hmem ms cpu =
     (let h_vecA = map (\<lambda>i. of_nat (rand (2 * i) mod 100)) [0..<ELEMENT_COUNT_oob];
          h_vecB = map (\<lambda>i. of_nat (rand (2 * i + 1) mod 100)) [0..<ELEMENT_COUNT_oob]
      in bindc (exec D 2 256 (kernel_2_256_oob 2 256 h_vecA h_vecB) dmem) (\<lambda>d_vecC.
         bindc (vecAdd_cpu_oob h_vecA h_vecB hmem) (\<lambda>h.
         bindc (check_result_oob h d_vecC) (\<lambda>r. Inr (vec_lines r ms cpu)))))"

subsection \<open>Facts\<close>

lemma seqc_OutOfBounds:
  assumes "\<And>m e. m \<in> set ms \<Longrightarrow> m = Inl e \<Longrightarrow> e = OutOfBounds" "Inl OutOfBounds \<in> set ms"
  shows "seqc ms = Inl OutOfBounds"
  using assms
proof (induction ms)
  case (Cons m ms)
  show ?case
  proof (cases m)
    case (Inl e)
    with Cons.prems(1) [of m e] show ?thesis by simp
  next
    case (Inr x)
    with Cons show ?thesis by auto
  qed
qed simp

lemma add_at_error: "add_at vecA vecB i = Inl e \<Longrightarrow> e = OutOfBounds"
  by (auto simp: add_at_def ld_def split: if_splits)

lemma for_stores_error:
  "for_stores is body = Inl e \<Longrightarrow> (\<And>i e. i \<in> set is \<Longrightarrow> body i = Inl e \<Longrightarrow> e = OutOfBounds) \<Longrightarrow> e = OutOfBounds"
proof (induction "is")
  case (Cons i "is")
  then show ?case
    by (cases "body i"; cases "seqc (map body is)") (auto simp: for_stores_def)
qed (simp add: for_stores_def)

text \<open>Thread 232 of block 1 touches element 1000 in its second iteration.\<close>

lemma kernel_oob_thread:
  assumes "length vecA = ELEMENT_COUNT_oob" "length vecB = ELEMENT_COUNT_oob"
  shows "kernel_2_256_oob 2 256 vecA vecB 1 232 = Inl OutOfBounds"
proof -
  have "for_step 0 ELEMENT_COUNT_oob 512 = [0, 512]"
    by (simp add: ELEMENT_COUNT_oob_def for_step.simps)
  then show ?thesis using assms
    by (simp add: kernel_2_256_oob_def for_stores_def add_at_def ld_def ELEMENT_COUNT_oob_def)
qed

lemma kernel_oob_launch:
  assumes "length vecA = ELEMENT_COUNT_oob" "length vecB = ELEMENT_COUNT_oob"
  shows "launch_stores 2 256 (kernel_2_256_oob 2 256 vecA vecB) = Inl OutOfBounds"
proof -
  let ?k = "kernel_2_256_oob 2 256 vecA vecB"
  have "seqc (map (\<lambda>(b, t). ?k b t) (grid_threads 2 256)) = Inl OutOfBounds"
  proof (rule seqc_OutOfBounds)
    fix m e assume "m \<in> set (map (\<lambda>(b, t). ?k b t) (grid_threads 2 256))" "m = Inl e"
    then obtain b t where "?k b t = Inl e" by auto
    then show "e = OutOfBounds"
      unfolding kernel_2_256_oob_def Let_def by (rule for_stores_error) (rule add_at_error)
  next
    have "(1, 232) \<in> set (grid_threads 2 256)" by (simp add: grid_threads_def)
    with kernel_oob_thread [OF assms] show "Inl OutOfBounds \<in> set (map (\<lambda>(b, t). ?k b t) (grid_threads 2 256))"
      by (force simp: image_iff)
  qed
  then show ?thesis by (simp add: launch_stores_def)
qed

lemma once_kernel:
  assumes "vec_inputs vecA vecB" "ELEMENT_COUNT \<le> grid * block"
  shows "elementwise (vecAdd_gpu_kernel_once grid block vecA vecB) grid block ELEMENT_COUNT
    (\<lambda>b t. if block * b + t < ELEMENT_COUNT then [block * b + t] else []) (\<lambda>i. vecB ! i + vecA ! i)"
proof
  fix i assume i: "i < ELEMENT_COUNT"
  with assms(2) have "0 < grid * block" by linarith
  then obtain b t q where w: "b < grid" "t < block" "i = q * (grid * block) + (block * b + t)"
    using thread_of_index [of "grid * block"] by (metis order_refl)
  with i assms(2) have "q = 0" by (cases q) auto
  with w i show "\<exists>b < grid. \<exists>t < block. i \<in> set (if block * b + t < ELEMENT_COUNT then [block * b + t] else [])"
    by auto
qed (auto simp: vecAdd_gpu_kernel_once_def Let_def vec_inputs.add_at_in [OF assms(1)] split: if_splits)

lemma kernel_1_4096_computes:
  "vec_inputs vecA vecB \<Longrightarrow> elementwise (vecAdd_gpu_kernel_1_4096 1 4096 vecA vecB) 1 4096 ELEMENT_COUNT
    (\<lambda>b t. map (\<lambda>i. i + t) (filter (\<lambda>i. i + t < ELEMENT_COUNT) (for_step 0 ELEMENT_COUNT 4096)))
    (\<lambda>i. vecB ! i + vecA ! i)"
  by (rule vec_inputs.block_kernel) (simp_all add: vecAdd_gpu_kernel_1_4096_def)

subsection \<open>Properties\<close>

text \<open>
  \<open>Sample/vec_add.cu\<close> reports OK on a device that accepts blocks of 4096 threads; on any other
  device its launch is refused, unnoticed, and what it reports is whether the uninitialised
  memory of \<open>d_vecC\<close> happens to hold the sums.
\<close>

theorem sample_vec_add_reports:
  assumes "device_ok D" "length dmem = ELEMENT_COUNT" "length hmem = ELEMENT_COUNT"
  shows "sample_vec_add_main rand D dmem hmem ms cpu =
    Inr (vec_lines (4096 \<le> maxThreadsPerBlock D \<or>
      dmem = map (\<lambda>i. init_vecB rand ! i + init_vecA rand ! i) [0..<ELEMENT_COUNT]) ms cpu)"
proof -
  have "exec D 1 4096 (vecAdd_gpu_kernel_1_4096 1 4096 (init_vecA rand) (init_vecB rand)) dmem =
      Inr (map (\<lambda>i. init_vecB rand ! i + init_vecA rand ! i) [0..<ELEMENT_COUNT])"
    using assms(1) elementwise.computes [OF kernel_1_4096_computes [OF vi.vec_inputs_axioms] assms(2)]
    by (simp add: device_ok_def)
  with assms vi.cpu_result [OF assms(3)] show ?thesis
    by (auto simp: sample_vec_add_main_def Let_def check_result_iff not_less eq_commute [of dmem])
qed

theorem sample_vec_add_reports_witness:
  "Check_QQ \<in> (case sample_vec_add_main (\<lambda>_. 1) device_512 (replicate ELEMENT_COUNT 0) (replicate ELEMENT_COUNT 0) 1 1
     of Inl _ \<Rightarrow> {} | Inr ls \<Rightarrow> set ls)"
proof -
  have "replicate ELEMENT_COUNT (0::int) \<noteq> map (\<lambda>i. init_vecB (\<lambda>_. 1) ! i + init_vecA (\<lambda>_. 1) ! i) [0..<ELEMENT_COUNT]"
  proof
    assume "replicate ELEMENT_COUNT (0::int) = map (\<lambda>i. init_vecB (\<lambda>_. 1) ! i + init_vecA (\<lambda>_. 1) ! i) [0..<ELEMENT_COUNT]"
    then have "replicate ELEMENT_COUNT (0::int) ! 0 =
        map (\<lambda>i. init_vecB (\<lambda>_. 1) ! i + init_vecA (\<lambda>_. 1) ! i) [0..<ELEMENT_COUNT] ! 0" by simp
    then show False by (simp add: init_vecA_def init_vecB_def ELEMENT_COUNT_def)
  qed
  moreover have "device_ok device_512" "maxThreadsPerBlock device_512 = 512"
    by (simp_all add: device_ok_def device_512_def launch_is_result)
  ultimately show ?thesis
    using sample_vec_add_reports [of device_512 "replicate ELEMENT_COUNT 0" "replicate ELEMENT_COUNT 0" "\<lambda>_. 1" 1 1]
    by (simp add: vec_lines_def)
qed

text \<open>\<open>old_vec_add.cu\<close> launches nothing: what it reports depends on uninitialised memory alone.\<close>

lemma old_vec_add_reports:
  assumes "length dmem = ELEMENT_COUNT" "length hmem = ELEMENT_COUNT"
  shows "old_vec_add_main rand dmem hmem ms cpu =
    Inr (vec_lines (dmem = map (\<lambda>i. init_vecB rand ! i + init_vecA rand ! i) [0..<ELEMENT_COUNT]) ms cpu)"
  using assms vi.cpu_result [OF assms(2)] 
  by (auto simp: old_vec_add_main_def Let_def check_result_iff eq_commute [of dmem])

text \<open>
  \<open>vec_add_out_boundary.cu\<close> always leaves its arrays: its 512 threads stride over 1000 elements without a
  bounds check, so whatever the inputs and the device the launch accesses element 1000.
\<close>

theorem out_boundary_overruns:
  assumes "device_ok D"
  shows "out_boundary_main rand D dmem hmem ms cpu = Inl OutOfBounds"
proof -
  have "exec D 2 256 (kernel_2_256_oob 2 256 vecA vecB) dmem = Inl OutOfBounds"
    if "length vecA = ELEMENT_COUNT_oob" "length vecB = ELEMENT_COUNT_oob" for vecA vecB
  proof -
    have "launch_result 2 256 (kernel_2_256_oob 2 256 vecA vecB) dmem (exec D 2 256 (kernel_2_256_oob 2 256 vecA vecB) dmem)"
      using assms by (simp add: device_ok_def)
    then show ?thesis by (simp add: launch_result_def kernel_oob_launch [OF that])
  qed
  then show ?thesis by (simp add: out_boundary_main_def Let_def)
qed

theorem out_boundary_overruns_witness:
  "out_boundary_main (\<lambda>i. i) device_512 [] [] 1 1 = Inl OutOfBounds"
  by (rule out_boundary_overruns) (simp add: device_ok_def device_512_def launch_is_result)

end
