(* ===== verification/Cuda_Matmul.thy ===== *)
theory Cuda_Matmul
  imports Cuda_Launch Complex_Main
begin

section \<open>\<open>second_cuda*.cu\<close>: five matrix multiplications on the device\<close>

text \<open>
  Five versions of one program: a matrix product computed by a naive kernel
  (\<open>second_cuda1.cu\<close>), with Kahan's compensated sum (\<open>2\<close>), with the row of the left matrix in shared memory
  (\<open>3\<close>), with pitched memory (\<open>4\<close>), and with \<open>16 \<times> 16\<close> tiles of both matrices in shared memory over
  zero-padded pitched arrays (\<open>second_cuda.cu\<close>), each compared with the host's product.  The numbers
  are exact (any ring; reals for the comparison): rounding is not modelled, everything else is,
  the flat arrays with their leading dimensions, the copies, the padding, the launch shapes, the
  barriers and the contents of fresh memory (\<open>junk\<close>).  A two-dimensional launch enumerates blocks and
  threads with \<open>x\<close> fastest.  For \<open>n = 1000\<close> every index is below \<open>2 ^ 31\<close>.
\<close>

definition NUM_THREADS :: nat where "NUM_THREADS = 256"

definition BLOCK_SIZE :: nat where "BLOCK_SIZE = 16"

text \<open>Fresh memory: the contents of the \<open>q\<close>-th allocation are whatever \<open>junk q\<close> says.\<close>

definition fresh :: "(nat \<Rightarrow> nat \<Rightarrow> 'a) \<Rightarrow> nat \<Rightarrow> nat \<Rightarrow> 'a list" where
  "fresh junk q sz = map (junk q) [0..<sz]"

text \<open>\<open>cudaMemcpy2D\<close>, with pitches and width in elements.\<close>

definition memcpy2D :: "'a list \<Rightarrow> nat \<Rightarrow> 'a list \<Rightarrow> nat \<Rightarrow> nat \<Rightarrow> nat \<Rightarrow> 'a list c" where
  "memcpy2D dst dpitch src spitch width height =
     bindc (for_stores (List.product [0..<height] [0..<width]) (\<lambda>(r, c).
       bindc (ld src (r * spitch + c)) (\<lambda>v. Inr [(r * dpitch + c, v)]))) (\<lambda>ws. store_all ws dst)"

text \<open>The inner loops: a plain sum of products, and Kahan's.\<close>

fun sum_loop :: "(nat \<Rightarrow> 'a::ring_1 c) \<Rightarrow> nat list \<Rightarrow> 'a \<Rightarrow> 'a c" where
  "sum_loop p [] t = Inr t"
| "sum_loop p (i # is) t = bindc (p i) (\<lambda>x. sum_loop p is (t + x))"

fun kahan_loop :: "(nat \<Rightarrow> 'a::ring_1 c) \<Rightarrow> nat list \<Rightarrow> 'a \<Rightarrow> 'a \<Rightarrow> ('a \<times> 'a) c" where
  "kahan_loop p [] t y = Inr (t, y)"
| "kahan_loop p (i # is) t y =
     bindc (p i) (\<lambda>x. let y = y - x; r = t - y; y = (r - t) + y; t = r in kahan_loop p is t y)"

definition mul_at :: "'a::ring_1 list \<Rightarrow> nat \<Rightarrow> 'a list \<Rightarrow> nat \<Rightarrow> 'a c" where
  "mul_at a i b j = bindc (ld a i) (\<lambda>x. bindc (ld b j) (\<lambda>y. Inr (x * y)))"

subsection \<open>The host's reference product, generation and comparison\<close>

definition matmult :: "'a::ring_1 list \<Rightarrow> nat \<Rightarrow> 'a list \<Rightarrow> nat \<Rightarrow> 'a list \<Rightarrow> nat \<Rightarrow> nat \<Rightarrow> 'a list c" where
  "matmult a lda b ldb c ldc n =
     bindc (for_stores (List.product [0..<n] [0..<n]) (\<lambda>(i, j).
       bindc (sum_loop (\<lambda>k. mul_at a (i * lda + k) b (k * ldb + j)) [0..<n] 0) (\<lambda>t. Inr [(i * ldc + j, t)])))
       (\<lambda>ws. store_all ws c)"

text \<open>\<open>matgen\<close> of \<open>second_cuda.cu\<close>; \<open>rand\<close> is the stream of numbers from position \<open>q\<close> on.\<close>

definition matgen :: "nat \<Rightarrow> (nat \<Rightarrow> nat) \<Rightarrow> nat \<Rightarrow> real list \<Rightarrow> nat \<Rightarrow> nat \<Rightarrow> real list c" where
  "matgen RAND_MAX rand q a lda n =
     bindc (for_stores (List.product [0..<n] [0..<n]) (\<lambda>(i, j).
       let r1 = real (rand (q + 2 * (i * n + j))) / real RAND_MAX;
           r2 = real (rand (q + 2 * (i * n + j) + 1)) / real RAND_MAX
       in Inr [(i * lda + j, r1 + r2 / real RAND_MAX)])) (\<lambda>ws. store_all ws a)"

text \<open>\<open>matgen\<close> of the other four: the product \<open>RAND_MAX * RAND_MAX\<close> is an \<open>int\<close>.\<close>

definition matgen_1 :: "nat \<Rightarrow> (nat \<Rightarrow> nat) \<Rightarrow> nat \<Rightarrow> real list \<Rightarrow> nat \<Rightarrow> nat \<Rightarrow> real list c" where
  "matgen_1 RAND_MAX rand q a lda n =
     bindc (for_stores (List.product [0..<n] [0..<n]) (\<lambda>(i, j).
       bindc (to_int32 (int RAND_MAX * int RAND_MAX)) (\<lambda>m.
         Inr [(i * lda + j, real (rand (q + 2 * (i * n + j))) / real RAND_MAX +
           real (rand (q + 2 * (i * n + j) + 1)) / real_of_int m)]))) (\<lambda>ws. store_all ws a)"

fun compare_loop :: "real list \<Rightarrow> nat \<Rightarrow> real list \<Rightarrow> nat \<Rightarrow> (nat \<times> nat) list \<Rightarrow> real \<Rightarrow> real \<Rightarrow> (real \<times> real) c" where
  "compare_loop a lda b ldb [] max_err average_err = Inr (max_err, average_err)"
| "compare_loop a lda b ldb ((i, j) # ijs) max_err average_err =
     bindc (ld b (i * ldb + j)) (\<lambda>y.
       if y \<noteq> 0 then
         bindc (ld a (i * lda + j)) (\<lambda>x.
           let err = \<bar>(x - y) / y\<bar>
           in compare_loop a lda b ldb ijs (if max_err < err then err else max_err) (average_err + err))
       else compare_loop a lda b ldb ijs max_err average_err)"

datatype mat_line =
    No_device
  | No_cuda_device
  | Errors real real
  | Time_used real real

definition compare_mat :: "real list \<Rightarrow> nat \<Rightarrow> real list \<Rightarrow> nat \<Rightarrow> nat \<Rightarrow> mat_line c" where
  "compare_mat a lda b ldb n =
     bindc (compare_loop a lda b ldb (List.product [0..<n] [0..<n]) 0 0) (\<lambda>(max_err, average_err).
       Inr (Errors max_err (average_err / real (n * n))))"

text \<open>
  The devices, in order: whether their properties can be read, and their major version.  The
  result is the device that is set, or the complaint that is printed.
\<close>

fun first_cuda :: "(bool \<times> nat) list \<Rightarrow> nat \<Rightarrow> nat" where
  "first_cuda [] i = i"
| "first_cuda ((success, major) # ds) i = (if success \<and> major \<ge> 1 then i else first_cuda ds (Suc i))"

definition InitCUDA :: "(bool \<times> nat) list \<Rightarrow> mat_line + nat" where
  "InitCUDA devs =
     (let count = length devs
      in if count = 0 then Inl No_device
      else let i = first_cuda devs 0
      in if i = count then Inl No_cuda_device else Inr i)"

subsection \<open>\<open>second_cuda1.cu\<close>: one thread per element\<close>

type_synonym 'a exec = "nat \<Rightarrow> nat \<Rightarrow> 'a kernel \<Rightarrow> 'a list \<Rightarrow> 'a list c"

definition matMultCUDA_1 ::
    "nat \<Rightarrow> 'a::ring_1 list \<Rightarrow> nat \<Rightarrow> 'a list \<Rightarrow> nat \<Rightarrow> nat \<Rightarrow> nat \<Rightarrow> 'a kernel" where
  "matMultCUDA_1 blockDim a lda b ldb ldc n bid tid =
     (let idx = bid * blockDim + tid; row = idx div n; column = idx mod n
      in if row < n \<and> column < n then
           bindc (sum_loop (\<lambda>i. mul_at a (row * lda + i) b (i * ldb + column)) [0..<n] 0) (\<lambda>t.
             Inr [(row * ldc + column, t)])
         else Inr [])"

definition matmultCUDA_1 ::
    "'a exec \<Rightarrow> (nat \<Rightarrow> nat \<Rightarrow> 'a) \<Rightarrow> 'a::ring_1 list \<Rightarrow> nat \<Rightarrow> 'a list \<Rightarrow> nat \<Rightarrow> 'a list \<Rightarrow> nat \<Rightarrow> nat \<Rightarrow> 'a list c" where
  "matmultCUDA_1 exec junk a lda b ldb c ldc n =
     bindc (memcpy2D (fresh junk 0 (n * n)) n a lda n n) (\<lambda>ac.
     bindc (memcpy2D (fresh junk 1 (n * n)) n b ldb n n) (\<lambda>bc.
     let blocks = (n + NUM_THREADS - 1) div NUM_THREADS
     in bindc (exec (blocks * n) NUM_THREADS (matMultCUDA_1 NUM_THREADS ac n bc n n n) (fresh junk 2 (n * n))) (\<lambda>cc.
     memcpy2D c ldc cc n n n)))"

subsection \<open>\<open>second_cuda2.cu\<close>: the same with Kahan's sum\<close>

definition matMultCUDA_2 ::
    "nat \<Rightarrow> 'a::ring_1 list \<Rightarrow> nat \<Rightarrow> 'a list \<Rightarrow> nat \<Rightarrow> nat \<Rightarrow> nat \<Rightarrow> 'a kernel" where
  "matMultCUDA_2 blockDim a lda b ldb ldc n bid tid =
     (let idx = bid * blockDim + tid; row = idx div n; column = idx mod n
      in if row < n \<and> column < n then
           bindc (kahan_loop (\<lambda>i. mul_at a (row * lda + i) b (i * ldb + column)) [0..<n] 0 0) (\<lambda>(t, y).
             Inr [(row * ldc + column, t)])
         else Inr [])"

definition matmultCUDA_2 ::
    "'a exec \<Rightarrow> (nat \<Rightarrow> nat \<Rightarrow> 'a) \<Rightarrow> 'a::ring_1 list \<Rightarrow> nat \<Rightarrow> 'a list \<Rightarrow> nat \<Rightarrow> 'a list \<Rightarrow> nat \<Rightarrow> nat \<Rightarrow> 'a list c" where
  "matmultCUDA_2 exec junk a lda b ldb c ldc n =
     bindc (memcpy2D (fresh junk 0 (n * n)) n a lda n n) (\<lambda>ac.
     bindc (memcpy2D (fresh junk 1 (n * n)) n b ldb n n) (\<lambda>bc.
     let blocks = (n + NUM_THREADS - 1) div NUM_THREADS
     in bindc (exec (blocks * n) NUM_THREADS (matMultCUDA_2 NUM_THREADS ac n bc n n n) (fresh junk 2 (n * n))) (\<lambda>cc.
     memcpy2D c ldc cc n n n)))"

subsection \<open>\<open>second_cuda3.cu\<close> and \<open>second_cuda4.cu\<close>: one block per row, the row in shared memory\<close>

text \<open>
  The part of the kernel before the barrier: the threads of the block fill \<open>data\<close>, in any order.
\<close>

definition load_row :: "'a exec \<Rightarrow> 'a list \<Rightarrow> nat \<Rightarrow> 'a list \<Rightarrow> nat \<Rightarrow> nat \<Rightarrow> nat \<Rightarrow> 'a list c" where
  "load_row exec data blockDim a lda n row =
     exec 1 blockDim (\<lambda>_ tid. for_stores (for_step tid n blockDim) (\<lambda>i.
       bindc (ld a (row * lda + i)) (\<lambda>v. Inr [(i, v)]))) data"

definition matMultCUDA_3 ::
    "'a exec \<Rightarrow> 'a list \<Rightarrow> nat \<Rightarrow> 'a::ring_1 list \<Rightarrow> nat \<Rightarrow> 'a list \<Rightarrow> nat \<Rightarrow> nat \<Rightarrow> nat \<Rightarrow> 'a kernel" where
  "matMultCUDA_3 exec shared blockDim a lda b ldb ldc n row tid =
     bindc (load_row exec shared blockDim a lda n row) (\<lambda>data.
       for_stores (for_step tid n blockDim) (\<lambda>j.
         bindc (kahan_loop (\<lambda>i. mul_at data i b (i * ldb + j)) [0..<n] 0 0) (\<lambda>(t, y).
           Inr [(row * ldc + j, t)])))"

definition matmultCUDA_3 ::
    "'a exec \<Rightarrow> (nat \<Rightarrow> nat \<Rightarrow> 'a) \<Rightarrow> 'a::ring_1 list \<Rightarrow> nat \<Rightarrow> 'a list \<Rightarrow> nat \<Rightarrow> 'a list \<Rightarrow> nat \<Rightarrow> nat \<Rightarrow> 'a list c" where
  "matmultCUDA_3 exec junk a lda b ldb c ldc n =
     bindc (memcpy2D (fresh junk 0 (n * n)) n a lda n n) (\<lambda>ac.
     bindc (memcpy2D (fresh junk 1 (n * n)) n b ldb n n) (\<lambda>bc.
     bindc (exec n NUM_THREADS (matMultCUDA_3 exec (fresh junk 3 n) NUM_THREADS ac n bc n n n) (fresh junk 2 (n * n))) (\<lambda>cc.
     memcpy2D c ldc cc n n n)))"

text \<open>\<open>second_cuda4.cu\<close>: its kernel is the one of \<open>second_cuda3.cu\<close>; \<open>pitch w\<close> is the pitch the driver chooses for width \<open>w\<close>.\<close>

definition matMultCUDA_4 ::
    "'a exec \<Rightarrow> 'a list \<Rightarrow> nat \<Rightarrow> 'a::ring_1 list \<Rightarrow> nat \<Rightarrow> 'a list \<Rightarrow> nat \<Rightarrow> nat \<Rightarrow> nat \<Rightarrow> 'a kernel" where
  "matMultCUDA_4 exec shared blockDim a lda b ldb ldc n row tid =
     bindc (load_row exec shared blockDim a lda n row) (\<lambda>data.
       for_stores (for_step tid n blockDim) (\<lambda>j.
         bindc (kahan_loop (\<lambda>i. mul_at data i b (i * ldb + j)) [0..<n] 0 0) (\<lambda>(t, y).
           Inr [(row * ldc + j, t)])))"

definition matmultCUDA_4 ::
    "'a exec \<Rightarrow> (nat \<Rightarrow> nat \<Rightarrow> 'a) \<Rightarrow> (nat \<Rightarrow> nat) \<Rightarrow> 'a::ring_1 list \<Rightarrow> nat \<Rightarrow> 'a list \<Rightarrow> nat \<Rightarrow> 'a list \<Rightarrow> nat \<Rightarrow> nat \<Rightarrow> 'a list c" where
  "matmultCUDA_4 exec junk pitch a lda b ldb c ldc n =
     bindc (memcpy2D (fresh junk 0 (pitch n * n)) (pitch n) a lda n n) (\<lambda>ac.
     bindc (memcpy2D (fresh junk 1 (pitch n * n)) (pitch n) b ldb n n) (\<lambda>bc.
     bindc (exec n NUM_THREADS (matMultCUDA_4 exec (fresh junk 3 n) NUM_THREADS ac (pitch n) bc (pitch n) (pitch n) n)
       (fresh junk 2 (pitch n * n))) (\<lambda>cc.
     memcpy2D c ldc cc (pitch n) n n)))"

subsection \<open>\<open>second_cuda.cu\<close>: tiles in shared memory\<close>

text \<open>One tile: the threads of the block fill a \<open>16 \<times> 16\<close> array from the matrix, each its element.\<close>

definition load_tile :: "'a exec \<Rightarrow> 'a list \<Rightarrow> 'a list \<Rightarrow> nat \<Rightarrow> nat \<Rightarrow> nat \<Rightarrow> 'a list c" where
  "load_tile exec shared a lda r c =
     exec 1 (BLOCK_SIZE * BLOCK_SIZE) (\<lambda>_ tid.
       let tidr = tid div BLOCK_SIZE; tidc = tid mod BLOCK_SIZE
       in bindc (ld a ((tidr + r) * lda + tidc + c)) (\<lambda>v. Inr [(tidr * BLOCK_SIZE + tidc, v)])) shared"

fun tile_loop ::
    "'a exec \<Rightarrow> 'a list \<Rightarrow> 'a::ring_1 list \<Rightarrow> nat \<Rightarrow> 'a list \<Rightarrow> nat \<Rightarrow> nat \<Rightarrow> nat \<Rightarrow> nat \<Rightarrow> nat \<Rightarrow> nat list \<Rightarrow> 'a \<Rightarrow> 'a \<Rightarrow> 'a c" where
  "tile_loop exec shared a lda b ldb bidr bidc tidr tidc [] results cmp = Inr results"
| "tile_loop exec shared a lda b ldb bidr bidc tidr tidc (j # js) results cmp =
     bindc (load_tile exec shared a lda bidr j) (\<lambda>matA.
     bindc (load_tile exec shared b ldb j bidc) (\<lambda>matB.
     bindc (kahan_loop (\<lambda>i. mul_at matA (tidr * BLOCK_SIZE + i) matB (i * BLOCK_SIZE + tidc)) [0..<BLOCK_SIZE] results cmp)
       (\<lambda>(results, cmp). tile_loop exec shared a lda b ldb bidr bidc tidr tidc js results cmp)))"

definition matMultCUDA ::
    "'a exec \<Rightarrow> 'a list \<Rightarrow> nat \<Rightarrow> 'a::ring_1 list \<Rightarrow> nat \<Rightarrow> 'a list \<Rightarrow> nat \<Rightarrow> nat \<Rightarrow> nat \<Rightarrow> 'a kernel" where
  "matMultCUDA exec shared gridDim a lda b ldb ldc n blockIdx threadIdx =
     (let tidc = threadIdx mod BLOCK_SIZE; tidr = threadIdx div BLOCK_SIZE;
          bidc = blockIdx mod gridDim * BLOCK_SIZE; bidr = blockIdx div gridDim * BLOCK_SIZE
      in bindc (tile_loop exec shared a lda b ldb bidr bidc tidr tidc (for_step 0 n BLOCK_SIZE) 0 0) (\<lambda>results.
           Inr [((tidr + bidr) * ldc + tidc + bidc, results)]))"

definition matmultCUDA ::
    "'a exec \<Rightarrow> (nat \<Rightarrow> nat \<Rightarrow> 'a) \<Rightarrow> (nat \<Rightarrow> nat) \<Rightarrow> 'a::ring_1 list \<Rightarrow> nat \<Rightarrow> 'a list \<Rightarrow> nat \<Rightarrow> 'a list \<Rightarrow> nat \<Rightarrow> nat \<Rightarrow> 'a list c" where
  "matmultCUDA exec junk pitch a lda b ldb c ldc n =
     (let newn = (n + BLOCK_SIZE - 1) div BLOCK_SIZE * BLOCK_SIZE; bx = (n + BLOCK_SIZE - 1) div BLOCK_SIZE
      in bindc (memcpy2D (replicate (pitch newn * newn) 0) (pitch newn) a lda n n) (\<lambda>ac.
         bindc (memcpy2D (replicate (pitch newn * newn) 0) (pitch newn) b ldb n n) (\<lambda>bc.
         bindc (exec (bx * bx) (BLOCK_SIZE * BLOCK_SIZE)
           (matMultCUDA exec (fresh junk 3 (BLOCK_SIZE * BLOCK_SIZE)) bx ac (pitch newn) bc (pitch newn) (pitch newn) n)
           (fresh junk 2 (pitch newn * newn))) (\<lambda>cc.
         memcpy2D c ldc cc (pitch newn) n n))))"

subsection \<open>The programs\<close>

definition mat_main ::
    "nat \<Rightarrow> (bool \<times> nat) list \<Rightarrow> (nat \<Rightarrow> real list \<Rightarrow> nat \<Rightarrow> nat \<Rightarrow> real list c) \<Rightarrow>
     (real list \<Rightarrow> nat \<Rightarrow> real list \<Rightarrow> nat \<Rightarrow> real list \<Rightarrow> nat \<Rightarrow> nat \<Rightarrow> real list c) \<Rightarrow>
     (nat \<Rightarrow> nat \<Rightarrow> real) \<Rightarrow> real \<Rightarrow> mat_line list c" where
  "mat_main n devs gen mul junk sec =
     (case InitCUDA devs of
        Inl l \<Rightarrow> Inr [l]
      | Inr _ \<Rightarrow>
          bindc (gen 0 (fresh junk 4 (n * n)) n n) (\<lambda>a.
          bindc (gen (2 * n * n) (fresh junk 5 (n * n)) n n) (\<lambda>b.
          bindc (mul a n b n (fresh junk 6 (n * n)) n n) (\<lambda>c.
          bindc (matmult a n b n (fresh junk 7 (n * n)) n n) (\<lambda>d.
          bindc (compare_mat c n d n n) (\<lambda>l.
            Inr [l, Time_used sec (2 * real n * real n * real n / (sec * 10 ^ 9))]))))))"

definition second_cuda_main where
  "second_cuda_main RAND_MAX rand devs exec junk pitch sec =
     mat_main 1000 devs (matgen RAND_MAX rand) (matmultCUDA exec junk pitch) junk sec"

definition second_cuda1_main where
  "second_cuda1_main RAND_MAX rand devs exec junk sec =
     mat_main 1000 devs (matgen_1 RAND_MAX rand) (matmultCUDA_1 exec junk) junk sec"

definition second_cuda2_main where
  "second_cuda2_main RAND_MAX rand devs exec junk sec =
     mat_main 1000 devs (matgen_1 RAND_MAX rand) (matmultCUDA_2 exec junk) junk sec"

definition second_cuda3_main where
  "second_cuda3_main RAND_MAX rand devs exec junk sec =
     mat_main 1000 devs (matgen_1 RAND_MAX rand) (matmultCUDA_3 exec junk) junk sec"

definition second_cuda4_main where
  "second_cuda4_main RAND_MAX rand devs exec junk pitch sec =
     mat_main 1000 devs (matgen_1 RAND_MAX rand) (matmultCUDA_4 exec junk pitch) junk sec"

subsection \<open>Matrices in flat arrays\<close>

definition matrix :: "'a list \<Rightarrow> nat \<Rightarrow> nat \<Rightarrow> bool" where
  "matrix a lda n \<longleftrightarrow> n \<le> lda \<and> lda * n \<le> length a"

definition matprod :: "nat \<Rightarrow> 'a::ring_1 list \<Rightarrow> nat \<Rightarrow> 'a list \<Rightarrow> nat \<Rightarrow> nat \<Rightarrow> nat \<Rightarrow> 'a" where
  "matprod n a lda b ldb i j = sum_list (map (\<lambda>k. a ! (i * lda + k) * b ! (k * ldb + j)) [0..<n])"

lemma cell_lt: "i < m \<Longrightarrow> j < p \<Longrightarrow> i * p + j < p * (m::nat)"
  using thread_lt [of i m j p] by (simp add: mult.commute)

lemma matrix_cell: "matrix a lda n \<Longrightarrow> i < n \<Longrightarrow> j < n \<Longrightarrow> i * lda + j < length a"
  using cell_lt [of i n j lda] by (auto simp: matrix_def)

lemma cell_div_mod [simp]: "j < p \<Longrightarrow> (i * p + j) div p = (i::nat)" "j < p \<Longrightarrow> (i * p + j) mod p = j"
  by simp_all

lemma length_fresh [simp]: "length (fresh junk q sz) = sz"
  by (simp add: fresh_def)

lemma sum_loop_sum: "(\<And>i. i \<in> set is \<Longrightarrow> p i = Inr (g i)) \<Longrightarrow> sum_loop p is t = Inr (t + sum_list (map g is))"
  by (induction "is" arbitrary: t) (auto simp: add.assoc)

text \<open>In exact arithmetic the compensation is zero after every step of Kahan's loop.\<close>

lemma kahan_loop_sum:
  "(\<And>i. i \<in> set is \<Longrightarrow> p i = Inr (g i)) \<Longrightarrow> kahan_loop p is t 0 = Inr (t + sum_list (map g is), 0)"
  by (induction "is" arbitrary: t) (auto simp: add.assoc Let_def)

lemma mul_at_in: "i < length a \<Longrightarrow> j < length b \<Longrightarrow> mul_at a i b j = Inr (a ! i * b ! j)"
  by (simp add: mul_at_def)

text \<open>Host loops that store every element of an \<open>n \<times> n\<close> matrix.\<close>

lemma store_matrix:
  assumes d: "matrix d ldd n" and body: "\<And>i j. i < n \<Longrightarrow> j < n \<Longrightarrow> body (i, j) = Inr [(i * ldd + j, g i j)]"
  obtains d' where "bindc (for_stores (List.product [0..<n] [0..<n]) body) (\<lambda>ws. store_all ws d) = Inr d'"
    "length d' = length d" "\<And>i j. i < n \<Longrightarrow> j < n \<Longrightarrow> d' ! (i * ldd + j) = g i j"
    "\<And>q. q < length d \<Longrightarrow> \<not> (q div ldd < n \<and> q mod ldd < n) \<Longrightarrow> d' ! q = d ! q"
proof -
  let ?ws = "concat (map (\<lambda>(i, j). [(i * ldd + j, g i j)]) (List.product [0..<n] [0..<n]))"
  have fs: "for_stores (List.product [0..<n] [0..<n]) body = Inr ?ws"
    by (rule for_stores_Inr) (auto simp: body)
  have ws: "set ?ws = {(i * ldd + j, g i j) | i j. i < n \<and> j < n}" by force
  have n: "n \<le> ldd" using d by (simp add: matrix_def)
  obtain d' where d': "store_all ?ws d = Inr d'" "length d' = length d"
    "\<forall>q < length d. d' ! q = (if q \<in> fst ` set ?ws then g (q div ldd) (q mod ldd) else d ! q)"
    using store_all_values [of ?ws d "\<lambda>q. g (q div ldd) (q mod ldd)"] matrix_cell [OF d] n
    unfolding ws by fastforce
  have in_ws: "q \<in> fst ` set ?ws \<longleftrightarrow> q div ldd < n \<and> q mod ldd < n" for q
  proof
    show "q \<in> fst ` set ?ws \<Longrightarrow> q div ldd < n \<and> q mod ldd < n" unfolding ws using n by auto
    assume "q div ldd < n \<and> q mod ldd < n"
    moreover have "q = q div ldd * ldd + q mod ldd" by simp
    ultimately have "(q, g (q div ldd) (q mod ldd)) \<in> set ?ws" unfolding ws by blast
    then show "q \<in> fst ` set ?ws" by force
  qed
  have "d' ! (i * ldd + j) = g i j" if "i < n" "j < n" for i j
    using d'(3) in_ws [of "i * ldd + j"] that n matrix_cell [OF d that] by simp
  moreover have "d' ! q = d ! q" if "q < length d" "\<not> (q div ldd < n \<and> q mod ldd < n)" for q
    using d'(3) in_ws [of q] that by simp
  ultimately show ?thesis using that [of d'] d'(1,2) fs by simp
qed

subsection \<open>Interface: a routine that multiplies matrices\<close>

locale matrix_multiplier =
  fixes mul :: "'a::ring_1 list \<Rightarrow> nat \<Rightarrow> 'a list \<Rightarrow> nat \<Rightarrow> 'a list \<Rightarrow> nat \<Rightarrow> nat \<Rightarrow> 'a list c"
  assumes product: "matrix a lda n \<Longrightarrow> matrix b ldb n \<Longrightarrow> matrix c ldc n \<Longrightarrow>
    \<exists>c'. mul a lda b ldb c ldc n = Inr c' \<and> length c' = length c \<and>
      (\<forall>i < n. \<forall>j < n. c' ! (i * ldc + j) = matprod n a lda b ldb i j)"

lemma matprod_terms:
  assumes "matrix a lda n" "matrix b ldb n" "i < n" "j < n" "k \<in> set [0..<n]"
  shows "mul_at a (i * lda + k) b (k * ldb + j) = Inr (a ! (i * lda + k) * b ! (k * ldb + j))"
  using assms by (intro mul_at_in) (auto intro: matrix_cell)

interpretation host: matrix_multiplier matmult
proof
  fix a b c :: "'a list" and lda ldb ldc n :: nat
  assume m: "matrix a lda n" "matrix b ldb n" "matrix c ldc n"
  let ?body = "\<lambda>(i, j). bindc (sum_loop (\<lambda>k. mul_at a (i * lda + k) b (k * ldb + j)) [0..<n] 0) (\<lambda>t. Inr [(i * ldc + j, t)])"
  have body: "?body (i, j) = Inr [(i * ldc + j, matprod n a lda b ldb i j)]" if "i < n" "j < n" for i j
  proof -
    have "sum_loop (\<lambda>k. mul_at a (i * lda + k) b (k * ldb + j)) [0..<n] 0 = Inr (0 + matprod n a lda b ldb i j)"
      unfolding matprod_def by (rule sum_loop_sum) (rule matprod_terms [OF m(1,2) that])
    then show ?thesis by simp
  qed
  obtain c' where "matmult a lda b ldb c ldc n = Inr c'" "length c' = length c"
    "\<And>i j. i < n \<Longrightarrow> j < n \<Longrightarrow> c' ! (i * ldc + j) = matprod n a lda b ldb i j"
    unfolding matmult_def by (rule store_matrix [OF m(3) body]; blast)
  then show "\<exists>c'. matmult a lda b ldb c ldc n = Inr c' \<and> length c' = length c \<and>
      (\<forall>i < n. \<forall>j < n. c' ! (i * ldc + j) = matprod n a lda b ldb i j)" by blast
qed

text \<open>A copy of an \<open>n \<times> n\<close> matrix into a larger array: the rest of the array keeps its contents.\<close>

definition copy_of :: "'a list \<Rightarrow> nat \<Rightarrow> nat \<Rightarrow> 'a list \<Rightarrow> 'a list \<Rightarrow> nat \<Rightarrow> nat \<Rightarrow> bool" where
  "copy_of d p m D s lds n \<longleftrightarrow> length d = p * m \<and>
     (\<forall>i < m. \<forall>j < p. d ! (i * p + j) = (if i < n \<and> j < n then s ! (i * lds + j) else D ! (i * p + j)))"

lemma memcpy2D_copies:
  assumes "matrix d ldd n" "matrix s lds n"
  obtains d' where "memcpy2D d ldd s lds n n = Inr d'" "length d' = length d"
    "\<And>i j. i < n \<Longrightarrow> j < n \<Longrightarrow> d' ! (i * ldd + j) = s ! (i * lds + j)"
    "\<And>q. q < length d \<Longrightarrow> \<not> (q div ldd < n \<and> q mod ldd < n) \<Longrightarrow> d' ! q = d ! q"
proof -
  have body: "(\<lambda>(r, c). bindc (ld s (r * lds + c)) (\<lambda>v. Inr [(r * ldd + c, v)])) (i, j) = Inr [(i * ldd + j, s ! (i * lds + j))]"
    if "i < n" "j < n" for i j
    using matrix_cell [OF assms(2) that] by simp
  obtain d' where "memcpy2D d ldd s lds n n = Inr d'" "length d' = length d"
    "\<And>i j. i < n \<Longrightarrow> j < n \<Longrightarrow> d' ! (i * ldd + j) = s ! (i * lds + j)"
    "\<And>q. q < length d \<Longrightarrow> \<not> (q div ldd < n \<and> q mod ldd < n) \<Longrightarrow> d' ! q = d ! q"
    unfolding memcpy2D_def by (rule store_matrix [OF assms(1) body]; blast)
  with that show ?thesis by blast
qed

lemma memcpy2D_into:
  assumes "n \<le> m" "m \<le> p" "length D = p * m" "matrix s lds n"
  obtains d where "memcpy2D D p s lds n n = Inr d" "copy_of d p m D s lds n"
proof -
  have "matrix D p n" using assms(1-3) by (auto simp: matrix_def)
  then obtain d where d: "memcpy2D D p s lds n n = Inr d" "length d = length D"
    "\<And>i j. i < n \<Longrightarrow> j < n \<Longrightarrow> d ! (i * p + j) = s ! (i * lds + j)"
    "\<And>q. q < length D \<Longrightarrow> \<not> (q div p < n \<and> q mod p < n) \<Longrightarrow> d ! q = D ! q"
    using memcpy2D_copies [OF _ assms(4)] by metis
  have "d ! (i * p + j) = D ! (i * p + j)" if "i < m" "j < p" "\<not> (i < n \<and> j < n)" for i j
    using d(4) [of "i * p + j"] cell_lt [OF that(1,2)] that assms(3) by simp
  then have "copy_of d p m D s lds n" using d(2,3) assms(3) by (simp add: copy_of_def)
  with d(1) that show ?thesis by blast
qed

text \<open>
  The host routines: two copies to the device, a launch, a copy back.  The kernel has to compute
  the product at the cells of the result.
\<close>

definition host_product ::
    "'a exec \<Rightarrow> nat \<Rightarrow> nat \<Rightarrow> ('a list \<Rightarrow> 'a list \<Rightarrow> 'a kernel) \<Rightarrow> nat \<Rightarrow> 'a list \<Rightarrow> 'a list \<Rightarrow> 'a list \<Rightarrow>
     'a list \<Rightarrow> nat \<Rightarrow> 'a list \<Rightarrow> nat \<Rightarrow> 'a list \<Rightarrow> nat \<Rightarrow> nat \<Rightarrow> 'a list c" where
  "host_product exec grid block K p D0 D1 D2 a lda b ldb c ldc n =
     bindc (memcpy2D D0 p a lda n n) (\<lambda>ac. bindc (memcpy2D D1 p b ldb n n) (\<lambda>bc.
     bindc (exec grid block (K ac bc) D2) (\<lambda>cc. memcpy2D c ldc cc p n n)))"

context cuda_device
begin

lemma host_product_correct:
  assumes sizes: "n \<le> m" "m \<le> p" "length D0 = p * m" "length D1 = p * m" "length D2 = p * m"
    and mats: "matrix a lda n" "matrix b ldb n" "matrix c ldc n"
    and K: "\<And>ac bc. copy_of ac p m D0 a lda n \<Longrightarrow> copy_of bc p m D1 b ldb n \<Longrightarrow>
      \<exists>work f. pointwise (K ac bc) grid block (p * m) work f \<and>
        (\<forall>i < n. \<forall>j < n. (\<exists>x < grid. \<exists>t < block. i * p + j \<in> set (work x t)) \<and> f (i * p + j) = P i j)"
  shows "\<exists>c'. host_product exec grid block K p D0 D1 D2 a lda b ldb c ldc n = Inr c' \<and> length c' = length c \<and>
    (\<forall>i < n. \<forall>j < n. c' ! (i * ldc + j) = P i j)"
proof -
  obtain ac where ac: "memcpy2D D0 p a lda n n = Inr ac" "copy_of ac p m D0 a lda n"
    using memcpy2D_into sizes mats by metis
  obtain bc where bc: "memcpy2D D1 p b ldb n n = Inr bc" "copy_of bc p m D1 b ldb n"
    using memcpy2D_into sizes mats by metis
  obtain work f where W: "pointwise (K ac bc) grid block (p * m) work f"
    "\<forall>i < n. \<forall>j < n. (\<exists>x < grid. \<exists>t < block. i * p + j \<in> set (work x t)) \<and> f (i * p + j) = P i j"
    using K [OF ac(2) bc(2)] by blast
  obtain cc where cc: "exec grid block (K ac bc) D2 = Inr cc" "length cc = p * m"
    "\<And>x t q. x < grid \<Longrightarrow> t < block \<Longrightarrow> q \<in> set (work x t) \<Longrightarrow> cc ! q = f q"
    using pointwise.computes_at [OF W(1) sizes(5) any_order] by metis
  have "matrix cc p n" using cc(2) sizes by (auto simp: matrix_def)
  with mats(3) obtain c' where "memcpy2D c ldc cc p n n = Inr c'" "length c' = length c"
    "\<And>i j. i < n \<Longrightarrow> j < n \<Longrightarrow> c' ! (i * ldc + j) = cc ! (i * p + j)"
    using memcpy2D_copies by metis
  moreover have "cc ! (i * p + j) = P i j" if "i < n" "j < n" for i j
    using W(2) cc(3) that by metis
  ultimately show ?thesis using ac bc cc(1) by (simp add: host_product_def)
qed

end

lemma copy_of_matrix: "copy_of d p m D s lds n \<Longrightarrow> n \<le> m \<Longrightarrow> m \<le> p \<Longrightarrow> matrix d p n"
  by (auto simp: copy_of_def matrix_def)

lemma copy_of_matprod:
  assumes "copy_of ac p m D0 a lda n" "copy_of bc p m D1 b ldb n" "n \<le> m" "m \<le> p" "i < n" "j < n"
  shows "matprod n ac p bc p i j = matprod n a lda b ldb i j"
  unfolding matprod_def using assms by (intro arg_cong [where f = sum_list] map_cong) (auto simp: copy_of_def)

subsection \<open>The four kernels with one row or one element per thread\<close>

lemma element_kernel:
  assumes "n \<le> p" "n * n \<le> grid * block" "0 < block"
    and k: "\<And>x t. k x t = (if (x * block + t) div n < n \<and> (x * block + t) mod n < n
      then Inr [((x * block + t) div n * p + (x * block + t) mod n, P ((x * block + t) div n) ((x * block + t) mod n))]
      else Inr [])"
  shows "\<exists>work f. pointwise k grid block (p * n) work f \<and>
    (\<forall>i < n. \<forall>j < n. (\<exists>x < grid. \<exists>t < block. i * p + j \<in> set (work x t)) \<and> f (i * p + j) = P i j)"
proof -
  let ?work = "\<lambda>x t. if (x * block + t) div n < n \<and> (x * block + t) mod n < n
      then [(x * block + t) div n * p + (x * block + t) mod n] else []"
  let ?f = "\<lambda>q. P (q div p) (q mod p)"
  have "pointwise k grid block (p * n) ?work ?f"
  proof
    show "k x t = Inr (map (\<lambda>q. (q, ?f q)) (?work x t))" for x t
      using assms(1) by (auto simp: k)
    show "q \<in> set (?work x t) \<Longrightarrow> q < p * n" for x t q
      using assms(1) by (auto split: if_splits intro!: cell_lt order.strict_trans2 [of _ n p])
  qed
  moreover have "\<exists>x < grid. \<exists>t < block. i * p + j \<in> set (?work x t)" if "i < n" "j < n" for i j
  proof -
    have "i * n + j < grid * block" using cell_lt [OF that] assms(2) by linarith
    then have "(i * n + j) div block < grid" by (simp add: less_mult_imp_div_less)
    moreover have "(i * n + j) mod block < block" using assms(3) by simp
    moreover have "i * p + j \<in> set (?work ((i * n + j) div block) ((i * n + j) mod block))"
      using that by simp
    ultimately show ?thesis by blast
  qed
  moreover have "?f (i * p + j) = P i j" if "j < n" for i j using that assms(1) by simp
  ultimately show ?thesis by blast
qed

lemma row_kernel:
  assumes "n \<le> p" "0 < block"
    and k: "\<And>x t. x < n \<Longrightarrow> k x t = Inr (map (\<lambda>j. (x * p + j, P x j)) (for_step t n block))"
  shows "\<exists>work f. pointwise k n block (p * n) work f \<and>
    (\<forall>i < n. \<forall>j < n. (\<exists>x < n. \<exists>t < block. i * p + j \<in> set (work x t)) \<and> f (i * p + j) = P i j)"
proof -
  let ?work = "\<lambda>x t. map (\<lambda>j. x * p + j) (for_step t n block)"
  let ?f = "\<lambda>q. P (q div p) (q mod p)"
  have "pointwise k n block (p * n) ?work ?f"
  proof
    show "x < n \<Longrightarrow> k x t = Inr (map (\<lambda>q. (q, ?f q)) (?work x t))" for x t
      using assms(1,2) by (auto simp: k set_for_step)
    show "x < n \<Longrightarrow> q \<in> set (?work x t) \<Longrightarrow> q < p * n" for x t q
      using assms(1,2) by (auto simp: set_for_step intro: cell_lt)
  qed
  moreover have "\<exists>x < n. \<exists>t < block. i * p + j \<in> set (?work x t)" if "i < n" "j < n" for i j
  proof -
    have "j \<in> set (for_step (j mod block) n block)"
      using that assms(2) by (simp add: set_for_step minus_mod_eq_mult_div)
    then have "i * p + j \<in> set (?work i (j mod block))" by simp
    with that assms(2) show ?thesis by (meson mod_less_divisor)
  qed
  moreover have "?f (i * p + j) = P i j" if "j < n" for i j using that assms(1) by simp
  ultimately show ?thesis by blast
qed

lemma kahan_product:
  assumes "matrix a lda n" "matrix b ldb n" "i < n" "j < n"
  shows "kahan_loop (\<lambda>k. mul_at a (i * lda + k) b (k * ldb + j)) [0..<n] 0 0 = Inr (matprod n a lda b ldb i j, 0)"
  using kahan_loop_sum [of "[0..<n]" "\<lambda>k. mul_at a (i * lda + k) b (k * ldb + j)"] matprod_terms [OF assms]
  by (simp add: matprod_def)

lemma sum_product:
  assumes "matrix a lda n" "matrix b ldb n" "i < n" "j < n"
  shows "sum_loop (\<lambda>k. mul_at a (i * lda + k) b (k * ldb + j)) [0..<n] 0 = Inr (matprod n a lda b ldb i j)"
  using sum_loop_sum [of "[0..<n]" "\<lambda>k. mul_at a (i * lda + k) b (k * ldb + j)"] matprod_terms [OF assms]
  by (simp add: matprod_def)

lemma NUM_THREADS_blocks: "n * n \<le> (n + NUM_THREADS - 1) div NUM_THREADS * n * NUM_THREADS"
proof -
  have "n \<le> (n + NUM_THREADS - 1) div NUM_THREADS * NUM_THREADS" by (simp add: NUM_THREADS_def)
  then have "n * n \<le> (n + NUM_THREADS - 1) div NUM_THREADS * NUM_THREADS * n" by simp
  then show ?thesis by (simp add: ac_simps)
qed

text \<open>A device that computes in a ring.\<close>

locale ring_device = cuda_device exec for exec :: "'a::ring_1 exec"
begin

lemma load_row_fills:
  assumes "matrix a lda n" "row < n" "length data = n" "0 < block"
  shows "load_row exec data block a lda n row = Inr (map (\<lambda>i. a ! (row * lda + i)) [0..<n])"
proof -
  let ?k = "\<lambda>(_ :: nat) tid. for_stores (for_step tid n block) (\<lambda>i. bindc (ld a (row * lda + i)) (\<lambda>v. Inr [(i, v)]))"
  have "elementwise ?k 1 block n (\<lambda>_ tid. for_step tid n block) (\<lambda>i. a ! (row * lda + i))"
  proof
    show "?k x t = Inr (map (\<lambda>i. (i, a ! (row * lda + i))) (for_step t n block))" for x t
      by (rule for_stores_single) (use assms in \<open>simp add: set_for_step matrix_cell\<close>)
    show "i \<in> set (for_step t n block) \<Longrightarrow> i < n" for i t using assms(4) by (simp add: set_for_step)
    fix i assume "i < n"
    then have "i \<in> set (for_step (i mod block) n block)"
      using assms(4) by (simp add: set_for_step minus_mod_eq_mult_div)
    moreover have "i mod block < block" using assms(4) by simp
    ultimately show "\<exists>x < (1::nat). \<exists>t < block. i \<in> set (for_step t n block)" by (intro exI [of _ 0]) auto
  qed
  from elementwise.computes [OF this assms(3) any_order] show ?thesis by (simp add: load_row_def)
qed

lemma row_thread:
  assumes "matrix a lda n" "matrix b ldb n" "row < n" "length shared = n" "0 < block"
  shows "matMultCUDA_3 exec shared block a lda b ldb ldc n row tid =
    Inr (map (\<lambda>j. (row * ldc + j, matprod n a lda b ldb row j)) (for_step tid n block))"
proof -
  let ?data = "map (\<lambda>i. a ! (row * lda + i)) [0..<n]"
  have body: "bindc (kahan_loop (\<lambda>i. mul_at ?data i b (i * ldb + j)) [0..<n] 0 0) (\<lambda>(t, y). Inr [(row * ldc + j, t)]) =
      Inr [(row * ldc + j, matprod n a lda b ldb row j)]" if "j \<in> set (for_step tid n block)" for j
  proof -
    have j: "j < n" using that assms(5) by (simp add: set_for_step)
    have "mul_at ?data i b (i * ldb + j) = Inr (a ! (row * lda + i) * b ! (i * ldb + j))" if "i \<in> set [0..<n]" for i
      using that matrix_cell [OF assms(2) _ j] by (simp add: mul_at_def)
    from kahan_loop_sum [of "[0..<n]" _ _ 0, OF this] show ?thesis by (simp add: matprod_def)
  qed
  have "concat (map (\<lambda>j. [(row * ldc + j, matprod n a lda b ldb row j)]) js) =
      map (\<lambda>j. (row * ldc + j, matprod n a lda b ldb row j)) js" for js by (induction js) auto
  with for_stores_Inr [OF body] show ?thesis
    by (simp add: matMultCUDA_3_def load_row_fills [OF assms(1,3,4,5)])
qed

end

context ring_device
begin

lemma host_element_product:
  assumes "matrix a lda n" "matrix b ldb n" "matrix c ldc n"
    and K: "\<And>ac bc x t. matrix ac n n \<Longrightarrow> matrix bc n n \<Longrightarrow> K ac bc x t =
      (let idx = x * NUM_THREADS + t; row = idx div n; column = idx mod n
       in if row < n \<and> column < n then Inr [(row * n + column, matprod n ac n bc n row column)] else Inr [])"
  shows "\<exists>c'. host_product exec ((n + NUM_THREADS - 1) div NUM_THREADS * n) NUM_THREADS K n
      (fresh junk 0 (n * n)) (fresh junk 1 (n * n)) (fresh junk 2 (n * n)) a lda b ldb c ldc n = Inr c' \<and>
    length c' = length c \<and> (\<forall>i < n. \<forall>j < n. c' ! (i * ldc + j) = matprod n a lda b ldb i j)"
proof (rule host_product_correct [where m = n])
  fix ac bc assume cp: "copy_of ac n n (fresh junk 0 (n * n)) a lda n" "copy_of bc n n (fresh junk 1 (n * n)) b ldb n"
  then have m: "matrix ac n n" "matrix bc n n" by (auto intro: copy_of_matrix)
  show "\<exists>work f. pointwise (K ac bc) ((n + NUM_THREADS - 1) div NUM_THREADS * n) NUM_THREADS (n * n) work f \<and>
    (\<forall>i < n. \<forall>j < n. (\<exists>x < (n + NUM_THREADS - 1) div NUM_THREADS * n. \<exists>t < NUM_THREADS. i * n + j \<in> set (work x t)) \<and>
      f (i * n + j) = matprod n a lda b ldb i j)"
  proof (rule element_kernel)
    show "K ac bc x t = (if (x * NUM_THREADS + t) div n < n \<and> (x * NUM_THREADS + t) mod n < n
      then Inr [((x * NUM_THREADS + t) div n * n + (x * NUM_THREADS + t) mod n,
        matprod n a lda b ldb ((x * NUM_THREADS + t) div n) ((x * NUM_THREADS + t) mod n))] else Inr [])" for x t
      using K [OF m] copy_of_matprod [OF cp] by (simp add: Let_def)
    show "0 < NUM_THREADS" by (simp add: NUM_THREADS_def)
  qed (use NUM_THREADS_blocks [of n] in simp_all)
qed (use assms in simp_all)

lemma host_row_product:
  assumes "matrix a lda n" "matrix b ldb n" "matrix c ldc n" "n \<le> p"
    and K: "\<And>ac bc row tid. matrix ac p n \<Longrightarrow> matrix bc p n \<Longrightarrow> row < n \<Longrightarrow> K ac bc row tid =
      Inr (map (\<lambda>j. (row * p + j, matprod n ac p bc p row j)) (for_step tid n NUM_THREADS))"
  shows "\<exists>c'. host_product exec n NUM_THREADS K p
      (fresh junk 0 (p * n)) (fresh junk 1 (p * n)) (fresh junk 2 (p * n)) a lda b ldb c ldc n = Inr c' \<and>
    length c' = length c \<and> (\<forall>i < n. \<forall>j < n. c' ! (i * ldc + j) = matprod n a lda b ldb i j)"
proof (rule host_product_correct [where m = n])
  fix ac bc assume cp: "copy_of ac p n (fresh junk 0 (p * n)) a lda n" "copy_of bc p n (fresh junk 1 (p * n)) b ldb n"
  then have m: "matrix ac p n" "matrix bc p n" using assms(4) by (auto intro: copy_of_matrix)
  have pos: "0 < NUM_THREADS" by (simp add: NUM_THREADS_def)
  show "\<exists>work f. pointwise (K ac bc) n NUM_THREADS (p * n) work f \<and>
    (\<forall>i < n. \<forall>j < n. (\<exists>x < n. \<exists>t < NUM_THREADS. i * p + j \<in> set (work x t)) \<and>
      f (i * p + j) = matprod n a lda b ldb i j)"
  proof (rule row_kernel [OF assms(4) pos])
    show "x < n \<Longrightarrow> K ac bc x t = Inr (map (\<lambda>j. (x * p + j, matprod n a lda b ldb x j)) (for_step t n NUM_THREADS))" for x t
      using K [OF m] copy_of_matprod [OF cp] assms(4) pos by (auto simp: set_for_step)
  qed
qed (use assms in simp_all)

end

sublocale ring_device \<subseteq> naive: matrix_multiplier "matmultCUDA_1 exec junk" for junk
proof
  fix a b c :: "'a list" and lda ldb ldc n :: nat
  assume m: "matrix a lda n" "matrix b ldb n" "matrix c ldc n"
  have "matmultCUDA_1 exec junk a lda b ldb c ldc n =
      host_product exec ((n + NUM_THREADS - 1) div NUM_THREADS * n) NUM_THREADS
        (\<lambda>ac bc. matMultCUDA_1 NUM_THREADS ac n bc n n n) n
        (fresh junk 0 (n * n)) (fresh junk 1 (n * n)) (fresh junk 2 (n * n)) a lda b ldb c ldc n"
    by (simp add: matmultCUDA_1_def host_product_def Let_def)
  with host_element_product [OF m, where K = "\<lambda>ac bc. matMultCUDA_1 NUM_THREADS ac n bc n n n" and junk = junk]
  show "\<exists>c'. matmultCUDA_1 exec junk a lda b ldb c ldc n = Inr c' \<and> length c' = length c \<and>
      (\<forall>i < n. \<forall>j < n. c' ! (i * ldc + j) = matprod n a lda b ldb i j)"
    by (simp add: matMultCUDA_1_def Let_def sum_product)
qed

sublocale ring_device \<subseteq> kahan: matrix_multiplier "matmultCUDA_2 exec junk" for junk
proof
  fix a b c :: "'a list" and lda ldb ldc n :: nat
  assume m: "matrix a lda n" "matrix b ldb n" "matrix c ldc n"
  have "matmultCUDA_2 exec junk a lda b ldb c ldc n =
      host_product exec ((n + NUM_THREADS - 1) div NUM_THREADS * n) NUM_THREADS
        (\<lambda>ac bc. matMultCUDA_2 NUM_THREADS ac n bc n n n) n
        (fresh junk 0 (n * n)) (fresh junk 1 (n * n)) (fresh junk 2 (n * n)) a lda b ldb c ldc n"
    by (simp add: matmultCUDA_2_def host_product_def Let_def)
  with host_element_product [OF m, where K = "\<lambda>ac bc. matMultCUDA_2 NUM_THREADS ac n bc n n n" and junk = junk]
  show "\<exists>c'. matmultCUDA_2 exec junk a lda b ldb c ldc n = Inr c' \<and> length c' = length c \<and>
      (\<forall>i < n. \<forall>j < n. c' ! (i * ldc + j) = matprod n a lda b ldb i j)"
    by (simp add: matMultCUDA_2_def Let_def kahan_product)
qed

sublocale ring_device \<subseteq> shared_row: matrix_multiplier "matmultCUDA_3 exec junk" for junk
proof
  fix a b c :: "'a list" and lda ldb ldc n :: nat
  assume m: "matrix a lda n" "matrix b ldb n" "matrix c ldc n"
  have "matmultCUDA_3 exec junk a lda b ldb c ldc n =
      host_product exec n NUM_THREADS (\<lambda>ac bc. matMultCUDA_3 exec (fresh junk 3 n) NUM_THREADS ac n bc n n n) n
        (fresh junk 0 (n * n)) (fresh junk 1 (n * n)) (fresh junk 2 (n * n)) a lda b ldb c ldc n"
    by (simp add: matmultCUDA_3_def host_product_def)
  with host_row_product [OF m order_refl, where K = "\<lambda>ac bc. matMultCUDA_3 exec (fresh junk 3 n) NUM_THREADS ac n bc n n n" and junk = junk]
  show "\<exists>c'. matmultCUDA_3 exec junk a lda b ldb c ldc n = Inr c' \<and> length c' = length c \<and>
      (\<forall>i < n. \<forall>j < n. c' ! (i * ldc + j) = matprod n a lda b ldb i j)"
    by (simp add: row_thread NUM_THREADS_def)
qed

text \<open>A device whose pitch for a row is at least the width of the row.\<close>

locale pitched_device = ring_device exec for exec :: "'a::ring_1 exec" +
  fixes pitch :: "nat \<Rightarrow> nat"
  assumes wide: "w \<le> pitch w"

sublocale pitched_device \<subseteq> pitched: matrix_multiplier "matmultCUDA_4 exec junk pitch" for junk
proof
  fix a b c :: "'a list" and lda ldb ldc n :: nat
  assume m: "matrix a lda n" "matrix b ldb n" "matrix c ldc n"
  have same: "matMultCUDA_4 = (matMultCUDA_3 :: 'a exec \<Rightarrow> _)"
    by (intro ext) (simp add: matMultCUDA_3_def matMultCUDA_4_def)
  have "matmultCUDA_4 exec junk pitch a lda b ldb c ldc n =
      host_product exec n NUM_THREADS
        (\<lambda>ac bc. matMultCUDA_3 exec (fresh junk 3 n) NUM_THREADS ac (pitch n) bc (pitch n) (pitch n) n) (pitch n)
        (fresh junk 0 (pitch n * n)) (fresh junk 1 (pitch n * n)) (fresh junk 2 (pitch n * n)) a lda b ldb c ldc n"
    by (simp add: matmultCUDA_4_def host_product_def same)
  with host_row_product [OF m wide, where
      K = "\<lambda>ac bc. matMultCUDA_3 exec (fresh junk 3 n) NUM_THREADS ac (pitch n) bc (pitch n) (pitch n) n" and junk = junk]
  show "\<exists>c'. matmultCUDA_4 exec junk pitch a lda b ldb c ldc n = Inr c' \<and> length c' = length c \<and>
      (\<forall>i < n. \<forall>j < n. c' ! (i * ldc + j) = matprod n a lda b ldb i j)"
    by (simp add: row_thread NUM_THREADS_def)
qed

subsection \<open>The tiled kernel\<close>

lemma for_step_map: "0 < s \<Longrightarrow> for_step lo n s = map (\<lambda>q. lo + q * s) [0..<(n - lo + s - 1) div s]"
proof (induction lo n s rule: for_step.induct)
  case (1 lo n s)
  show ?case
  proof (cases "n \<le> lo")
    case True
    with 1(2) show ?thesis by (subst for_step.simps) simp
  next
    case False
    have "(n - lo + s - 1) div s = Suc ((n - (lo + s) + s - 1) div s)"
    proof (cases "s \<le> n - lo")
      case True
      then have "n - lo + s - 1 = (n - (lo + s) + s - 1) + s" using 1(2) by simp
      then have "(n - lo + s - 1) div s = ((n - (lo + s) + s - 1) + s) div s" by (simp only:)
      also have "\<dots> = Suc ((n - (lo + s) + s - 1) div s)" using 1(2) by (subst div_add_self2) simp_all
      finally show ?thesis .
    next
      case False
      then have "n - (lo + s) = 0" "n - lo + s - 1 = (n - lo - 1) + s" "(n - lo - 1) div s = 0"
        using \<open>\<not> n \<le> lo\<close> by simp_all
      then show ?thesis using 1(2) by (simp only: div_add_self2) simp
    qed
    moreover have "for_step lo n s = lo # for_step (lo + s) n s"
      using False 1(2) by (subst for_step.simps) simp
    moreover have "for_step (lo + s) n s = map (\<lambda>q. lo + s + q * s) [0..<(n - (lo + s) + s - 1) div s]"
      using 1 False by simp
    ultimately show ?thesis by (simp add: upt_conv_Cons map_Suc_upt [symmetric] comp_def add_ac del: upt_Suc)
  qed
qed

lemma concat_tiles: "concat (map (\<lambda>q. map (\<lambda>i. q * s + i) [0..<s]) [0..<bx]) = [0..<bx * s]"
proof (induction bx)
  case (Suc bx)
  have "map (\<lambda>i. bx * s + i) [0..<s] = [bx * s..<bx * s + s]"
    by (rule nth_equalityI) auto
  moreover have "[0..<bx * s] @ [bx * s..<bx * s + s] = [0..<bx * s + s]"
    using upt_add_eq_append [of 0 "bx * s" s] by simp
  ultimately show ?case using Suc by (simp add: add.commute)
qed simp

text \<open>One tile of the sum: the sixteen products of row \<open>r\<close> and column \<open>c\<close> from \<open>j\<close> on.\<close>

definition tile_sum :: "'a::ring_1 list \<Rightarrow> nat \<Rightarrow> 'a list \<Rightarrow> nat \<Rightarrow> nat \<Rightarrow> nat \<Rightarrow> nat \<Rightarrow> 'a" where
  "tile_sum a lda b ldb r c j = sum_list (map (\<lambda>i. a ! (r * lda + (j + i)) * b ! ((j + i) * ldb + c)) [0..<BLOCK_SIZE])"

lemma sum_list_map_concat: "sum_list (map g (concat (map f qs))) = sum_list (map (\<lambda>q. sum_list (map g (f q))) qs)"
  by (induction qs) auto

lemma tile_sums:
  "sum_list (map (tile_sum a lda b ldb r c) (for_step 0 n BLOCK_SIZE)) =
   matprod ((n + BLOCK_SIZE - 1) div BLOCK_SIZE * BLOCK_SIZE) a lda b ldb r c"
proof -
  let ?g = "\<lambda>k. a ! (r * lda + k) * b ! (k * ldb + c)" and ?bx = "(n + BLOCK_SIZE - 1) div BLOCK_SIZE"
  have "for_step 0 n BLOCK_SIZE = map (\<lambda>q. q * BLOCK_SIZE) [0..<?bx]"
    using for_step_map [of BLOCK_SIZE 0 n] by (simp add: BLOCK_SIZE_def)
  then have "sum_list (map (tile_sum a lda b ldb r c) (for_step 0 n BLOCK_SIZE)) =
      sum_list (map (\<lambda>q. sum_list (map ?g (map (\<lambda>i. q * BLOCK_SIZE + i) [0..<BLOCK_SIZE]))) [0..<?bx])"
    by (simp add: tile_sum_def comp_def)
  also have "\<dots> = sum_list (map ?g (concat (map (\<lambda>q. map (\<lambda>i. q * BLOCK_SIZE + i) [0..<BLOCK_SIZE]) [0..<?bx])))"
    by (rule sum_list_map_concat [symmetric])
  finally show ?thesis by (simp add: concat_tiles matprod_def)
qed

lemma sum_list_0_all: "(\<And>x. x \<in> set xs \<Longrightarrow> g x = 0) \<Longrightarrow> sum_list (map g xs) = 0"
  by (induction xs) auto

lemma matprod_padded:
  assumes "n \<le> m" "\<And>k. n \<le> k \<Longrightarrow> k < m \<Longrightarrow> a ! (i * lda + k) = 0"
  shows "matprod m a lda b ldb i j = matprod n a lda b ldb i j"
proof -
  have "[0..<m] = [0..<n] @ [n..<m]" using assms(1) by (metis le_Suc_ex upt_add_eq_append zero_le)
  moreover have "sum_list (map (\<lambda>k. a ! (i * lda + k) * b ! (k * ldb + j)) [n..<m]) = 0"
    using assms(2) by (intro sum_list_0_all) auto
  ultimately show ?thesis by (simp add: matprod_def)
qed

context ring_device
begin

lemma load_tile_fills:
  assumes "length shared = BLOCK_SIZE * BLOCK_SIZE" "length a = p * m" "r + BLOCK_SIZE \<le> m" "c + BLOCK_SIZE \<le> p"
  shows "load_tile exec shared a p r c =
    Inr (map (\<lambda>q. a ! ((q div BLOCK_SIZE + r) * p + q mod BLOCK_SIZE + c)) [0..<BLOCK_SIZE * BLOCK_SIZE])"
proof -
  let ?k = "\<lambda>(_ :: nat) tid. let tidr = tid div BLOCK_SIZE; tidc = tid mod BLOCK_SIZE
       in bindc (ld a ((tidr + r) * p + tidc + c)) (\<lambda>v. Inr [(tidr * BLOCK_SIZE + tidc, v)])"
  have "elementwise ?k 1 (BLOCK_SIZE * BLOCK_SIZE) (BLOCK_SIZE * BLOCK_SIZE) (\<lambda>_ tid. [tid])
      (\<lambda>q. a ! ((q div BLOCK_SIZE + r) * p + q mod BLOCK_SIZE + c))"
  proof
    fix x t assume "t < BLOCK_SIZE * BLOCK_SIZE"
    then have "t div BLOCK_SIZE + r < m" "t mod BLOCK_SIZE + c < p"
      using assms(3,4) less_mult_imp_div_less [of t BLOCK_SIZE BLOCK_SIZE] mod_less_divisor [of BLOCK_SIZE t]
      by (auto simp: BLOCK_SIZE_def)
    from cell_lt [OF this] show "?k x t = Inr (map (\<lambda>q. (q, a ! ((q div BLOCK_SIZE + r) * p + q mod BLOCK_SIZE + c))) [t])"
      using assms(2) by (simp add: Let_def add.assoc)
  qed auto
  from elementwise.computes [OF this assms(1) any_order] show ?thesis by (simp add: load_tile_def)
qed

lemma tile_loop_sums:
  assumes "length shared = BLOCK_SIZE * BLOCK_SIZE" "length a = p * m" "length b = p * m"
    and "bidr + BLOCK_SIZE \<le> m" "bidc + BLOCK_SIZE \<le> p" "tidr < BLOCK_SIZE" "tidc < BLOCK_SIZE" "m \<le> p"
    and "\<forall>j \<in> set js. j + BLOCK_SIZE \<le> m"
  shows "tile_loop exec shared a p b p bidr bidc tidr tidc js results 0 =
    Inr (results + sum_list (map (tile_sum a p b p (tidr + bidr) (tidc + bidc)) js))"
  using assms(9)
proof (induction js arbitrary: results)
  case (Cons j js)
  let ?A = "map (\<lambda>q. a ! ((q div BLOCK_SIZE + bidr) * p + q mod BLOCK_SIZE + j)) [0..<BLOCK_SIZE * BLOCK_SIZE]"
  let ?B = "map (\<lambda>q. b ! ((q div BLOCK_SIZE + j) * p + q mod BLOCK_SIZE + bidc)) [0..<BLOCK_SIZE * BLOCK_SIZE]"
  have j: "j + BLOCK_SIZE \<le> m" "j + BLOCK_SIZE \<le> p" using Cons.prems assms(8) by auto
  have A: "load_tile exec shared a p bidr j = Inr ?A"
    by (rule load_tile_fills [OF assms(1,2,4) j(2)])
  have B: "load_tile exec shared b p j bidc = Inr ?B"
    by (rule load_tile_fills [OF assms(1,3) j(1) assms(5)])
  have "mul_at ?A (tidr * BLOCK_SIZE + i) ?B (i * BLOCK_SIZE + tidc) =
      Inr (a ! ((tidr + bidr) * p + (j + i)) * b ! ((j + i) * p + (tidc + bidc)))" if "i \<in> set [0..<BLOCK_SIZE]" for i
  proof -
    have i: "i < BLOCK_SIZE" using that by simp
    have "tidr * BLOCK_SIZE + i < BLOCK_SIZE * BLOCK_SIZE" "i * BLOCK_SIZE + tidc < BLOCK_SIZE * BLOCK_SIZE"
      using cell_lt assms(6,7) i by blast+
    then show ?thesis using i assms(7) by (simp add: mul_at_in add_ac)
  qed
  from kahan_loop_sum [of "[0..<BLOCK_SIZE]" _ _ results, OF this] Cons
  show ?case by (simp add: A B tile_sum_def add.assoc)
qed simp

end

context ring_device
begin

lemma tiled_thread:
  assumes "length shared = BLOCK_SIZE * BLOCK_SIZE" "length a = p * (bx * BLOCK_SIZE)" "length b = p * (bx * BLOCK_SIZE)"
    and "bx = (n + BLOCK_SIZE - 1) div BLOCK_SIZE" "bx * BLOCK_SIZE \<le> p" "x < bx * bx" "t < BLOCK_SIZE * BLOCK_SIZE"
  defines "r \<equiv> t div BLOCK_SIZE + x div bx * BLOCK_SIZE" and "c \<equiv> t mod BLOCK_SIZE + x mod bx * BLOCK_SIZE"
  shows "matMultCUDA exec shared bx a p b p p n x t = Inr [(r * p + c, matprod (bx * BLOCK_SIZE) a p b p r c)]"
    and "r < bx * BLOCK_SIZE" "c < bx * BLOCK_SIZE"
proof -
  have bs: "0 < BLOCK_SIZE" by (simp add: BLOCK_SIZE_def)
  have "0 < bx" using assms(6) by (cases bx) auto
  then have x: "x div bx < bx" "x mod bx < bx" using assms(6) by (simp_all add: less_mult_imp_div_less)
  have t: "t div BLOCK_SIZE < BLOCK_SIZE" "t mod BLOCK_SIZE < BLOCK_SIZE"
    using assms(7) bs by (simp_all add: less_mult_imp_div_less)
  have tile: "q * BLOCK_SIZE + BLOCK_SIZE \<le> bx * BLOCK_SIZE" if "q < bx" for q
    using mult_le_mono1 [of "Suc q" bx BLOCK_SIZE] that by simp
  have js: "\<forall>j \<in> set (for_step 0 n BLOCK_SIZE). j + BLOCK_SIZE \<le> bx * BLOCK_SIZE"
    using for_step_map [OF bs, of 0 n] assms(4) tile by auto
  have "tile_loop exec shared a p b p (x div bx * BLOCK_SIZE) (x mod bx * BLOCK_SIZE) (t div BLOCK_SIZE) (t mod BLOCK_SIZE)
      (for_step 0 n BLOCK_SIZE) 0 0 = Inr (0 + sum_list (map (tile_sum a p b p r c) (for_step 0 n BLOCK_SIZE)))"
    unfolding r_def c_def
    by (rule tile_loop_sums [OF assms(1-3) tile [OF x(1)] order_trans [OF tile [OF x(2)] assms(5)] t assms(5) js])
  also have "sum_list (map (tile_sum a p b p r c) (for_step 0 n BLOCK_SIZE)) = matprod (bx * BLOCK_SIZE) a p b p r c"
    by (simp add: tile_sums assms(4))
  finally show "matMultCUDA exec shared bx a p b p p n x t = Inr [(r * p + c, matprod (bx * BLOCK_SIZE) a p b p r c)]"
    by (simp add: matMultCUDA_def Let_def r_def c_def add.assoc)
  show "r < bx * BLOCK_SIZE" "c < bx * BLOCK_SIZE"
    unfolding r_def c_def using t tile [OF x(1)] tile [OF x(2)] by linarith+
qed

lemma tiled_kernel:
  fixes n :: nat
  defines "bx \<equiv> (n + BLOCK_SIZE - 1) div BLOCK_SIZE"
  assumes "length shared = BLOCK_SIZE * BLOCK_SIZE" "length a = p * (bx * BLOCK_SIZE)" "length b = p * (bx * BLOCK_SIZE)"
    and p: "bx * BLOCK_SIZE \<le> p"
  shows "\<exists>work. pointwise (matMultCUDA exec shared bx a p b p p n) (bx * bx) (BLOCK_SIZE * BLOCK_SIZE) (p * (bx * BLOCK_SIZE))
      work (\<lambda>q. matprod (bx * BLOCK_SIZE) a p b p (q div p) (q mod p)) \<and>
    (\<forall>i < n. \<forall>j < n. \<exists>x < bx * bx. \<exists>t < BLOCK_SIZE * BLOCK_SIZE. i * p + j \<in> set (work x t))"
proof -
  let ?r = "\<lambda>x t. t div BLOCK_SIZE + x div bx * BLOCK_SIZE" and ?c = "\<lambda>x t. t mod BLOCK_SIZE + x mod bx * BLOCK_SIZE"
  let ?work = "\<lambda>x t. [?r x t * p + ?c x t]"
  note thr = tiled_thread [OF assms(2-4) bx_def [THEN meta_eq_to_obj_eq] p]
  have "pointwise (matMultCUDA exec shared bx a p b p p n) (bx * bx) (BLOCK_SIZE * BLOCK_SIZE) (p * (bx * BLOCK_SIZE))
      ?work (\<lambda>q. matprod (bx * BLOCK_SIZE) a p b p (q div p) (q mod p))"
  proof
    fix x t assume xt: "x < bx * bx" "t < BLOCK_SIZE * BLOCK_SIZE"
    have c: "?c x t < p" using thr(3) [OF xt] p by simp
    show "matMultCUDA exec shared bx a p b p p n x t =
        Inr (map (\<lambda>q. (q, matprod (bx * BLOCK_SIZE) a p b p (q div p) (q mod p))) (?work x t))"
      using thr(1) [OF xt] c by simp
    show "q < p * (bx * BLOCK_SIZE)" if "q \<in> set (?work x t)" for q
      using cell_lt [OF thr(2) [OF xt] c] that by simp
  qed
  moreover have "\<exists>x < bx * bx. \<exists>t < BLOCK_SIZE * BLOCK_SIZE. i * p + j \<in> set (?work x t)" if ij: "i < n" "j < n" for i j
  proof -
    have bs: "0 < BLOCK_SIZE" by (simp add: BLOCK_SIZE_def)
    have "n \<le> bx * BLOCK_SIZE" by (simp add: bx_def BLOCK_SIZE_def)
    then have d: "i div BLOCK_SIZE < bx" "j div BLOCK_SIZE < bx"
      using ij by (simp_all add: less_mult_imp_div_less)
    let ?x = "i div BLOCK_SIZE * bx + j div BLOCK_SIZE" and ?t = "i mod BLOCK_SIZE * BLOCK_SIZE + j mod BLOCK_SIZE"
    have "?x < bx * bx" "?t < BLOCK_SIZE * BLOCK_SIZE" using cell_lt d bs by (metis mod_less_divisor)+
    moreover have "i * p + j \<in> set (?work ?x ?t)" using d bs by simp
    ultimately show ?thesis by blast
  qed
  ultimately show ?thesis by blast
qed

end

sublocale pitched_device \<subseteq> tiled: matrix_multiplier "matmultCUDA exec junk pitch" for junk
proof
  fix a b c :: "'a list" and lda ldb ldc n :: nat
  assume mats: "matrix a lda n" "matrix b ldb n" "matrix c ldc n"
  define bx where "bx = (n + BLOCK_SIZE - 1) div BLOCK_SIZE"
  define m where "m = bx * BLOCK_SIZE"
  let ?p = "pitch m" and ?sh = "fresh junk 3 (BLOCK_SIZE * BLOCK_SIZE)" and ?Z = "replicate (pitch m * m) 0"
  have n: "n \<le> m" by (simp add: m_def bx_def BLOCK_SIZE_def)
  have "matmultCUDA exec junk pitch a lda b ldb c ldc n =
      host_product exec (bx * bx) (BLOCK_SIZE * BLOCK_SIZE) (\<lambda>ac bc. matMultCUDA exec ?sh bx ac ?p bc ?p ?p n) ?p
        ?Z ?Z (fresh junk 2 (?p * m)) a lda b ldb c ldc n"
    by (simp add: matmultCUDA_def host_product_def Let_def m_def bx_def)
  moreover have "\<exists>c'. host_product exec (bx * bx) (BLOCK_SIZE * BLOCK_SIZE) (\<lambda>ac bc. matMultCUDA exec ?sh bx ac ?p bc ?p ?p n) ?p
        ?Z ?Z (fresh junk 2 (?p * m)) a lda b ldb c ldc n = Inr c' \<and> length c' = length c \<and>
      (\<forall>i < n. \<forall>j < n. c' ! (i * ldc + j) = matprod n a lda b ldb i j)"
  proof (rule host_product_correct [OF n wide _ _ _ mats])
    fix ac bc assume cp: "copy_of ac ?p m ?Z a lda n" "copy_of bc ?p m ?Z b ldb n"
    have len: "length ac = ?p * m" "length bc = ?p * m" using cp by (simp_all add: copy_of_def)
    obtain work where W: "pointwise (matMultCUDA exec ?sh bx ac ?p bc ?p ?p n) (bx * bx) (BLOCK_SIZE * BLOCK_SIZE) (?p * m)
        work (\<lambda>q. matprod m ac ?p bc ?p (q div ?p) (q mod ?p))"
      "\<forall>i < n. \<forall>j < n. \<exists>x < bx * bx. \<exists>t < BLOCK_SIZE * BLOCK_SIZE. i * ?p + j \<in> set (work x t)"
      using tiled_kernel [of ?sh ac ?p n bc] len wide [of m] unfolding m_def bx_def by auto
    have "matprod m ac ?p bc ?p ((i * ?p + j) div ?p) ((i * ?p + j) mod ?p) = matprod n a lda b ldb i j"
      if ij: "i < n" "j < n" for i j
    proof -
      have "j < ?p" using ij n wide [of m] by simp
      then have "matprod m ac ?p bc ?p ((i * ?p + j) div ?p) ((i * ?p + j) mod ?p) = matprod m ac ?p bc ?p i j" by simp
      also have "\<dots> = matprod n ac ?p bc ?p i j"
      proof (rule matprod_padded [OF n])
        fix k assume k: "n \<le> k" "k < m"
        then have "i < m" "k < ?p" using ij n wide [of m] by simp_all
        with k cp(1) show "ac ! (i * ?p + k) = 0" by (simp add: copy_of_def cell_lt)
      qed
      also have "\<dots> = matprod n a lda b ldb i j" by (rule copy_of_matprod [OF cp n wide ij])
      finally show ?thesis .
    qed
    with W show "\<exists>work f. pointwise (matMultCUDA exec ?sh bx ac ?p bc ?p ?p n) (bx * bx) (BLOCK_SIZE * BLOCK_SIZE) (?p * m) work f \<and>
      (\<forall>i < n. \<forall>j < n. (\<exists>x < bx * bx. \<exists>t < BLOCK_SIZE * BLOCK_SIZE. i * ?p + j \<in> set (work x t)) \<and>
        f (i * ?p + j) = matprod n a lda b ldb i j)" by blast
  qed simp_all
  ultimately show "\<exists>c'. matmultCUDA exec junk pitch a lda b ldb c ldc n = Inr c' \<and> length c' = length c \<and>
      (\<forall>i < n. \<forall>j < n. c' ! (i * ldc + j) = matprod n a lda b ldb i j)" by simp
qed

text \<open>The device that runs the threads in turn, with rows padded to a multiple of 64.\<close>

interpretation simple_device: pitched_device launch "\<lambda>w. (w + 63) div 64 * 64"
  by unfold_locales simp

subsection \<open>The programs print a zero error\<close>

lemma compare_loop_equal:
  assumes "\<And>i j. (i, j) \<in> set ijs \<Longrightarrow> i * lda + j < length a \<and> i * ldb + j < length b \<and> a ! (i * lda + j) = b ! (i * ldb + j)"
    and "0 \<le> mx"
  shows "compare_loop a lda b ldb ijs mx av = Inr (mx, av)"
  using assms
proof (induction ijs)
  case (Cons ij ijs)
  obtain i j where ij: "ij = (i, j)" by (cases ij)
  have "compare_loop a lda b ldb ijs mx av = Inr (mx, av)" using Cons by simp
  with Cons.prems(1) [of i j] Cons.prems(2) show ?case by (simp add: ij Let_def)
qed simp

lemma store_matrix_length:
  assumes "matrix d ldd n" "\<And>i j. i < n \<Longrightarrow> j < n \<Longrightarrow> \<exists>v. body (i, j) = Inr [(i * ldd + j, v)]"
  shows "\<exists>d'. bindc (for_stores (List.product [0..<n] [0..<n]) body) (\<lambda>ws. store_all ws d) = Inr d' \<and> length d' = length d"
proof -
  obtain g where "\<And>i j. i < n \<Longrightarrow> j < n \<Longrightarrow> body (i, j) = Inr [(i * ldd + j, g i j)]"
    using assms(2) by metis
  from store_matrix [OF assms(1) this] show ?thesis by metis
qed

lemma matgen_fills: "matrix a lda n \<Longrightarrow> \<exists>a'. matgen R rand q a lda n = Inr a' \<and> length a' = length a"
  unfolding matgen_def by (rule store_matrix_length) (auto simp: Let_def)

lemma matgen_1_fills:
  assumes "matrix a lda n" "int R * int R < 2 ^ 31"
  shows "\<exists>a'. matgen_1 R rand q a lda n = Inr a' \<and> length a' = length a"
proof -
  have "to_int32 (int R * int R) = Inr (int R * int R)"
    using assms(2) order_trans [of "- (2 ^ 31)" 0 "int R * int R"] by (simp add: to_int32_def in_int32_def)
  then show ?thesis unfolding matgen_1_def by (intro store_matrix_length [OF assms(1)]) auto
qed

lemma matgen_1_overflow:
  assumes "2 ^ 31 \<le> int R * int R" "0 < n"
  shows "matgen_1 R rand q a lda n = Inl SignedOverflow"
proof -
  have "to_int32 (int R * int R) = Inl SignedOverflow"
    using assms(1) by (simp only: to_int32_def in_int32_def) simp
  moreover obtain n' where "n = Suc n'" using assms(2) by (cases n) auto
  ultimately show ?thesis by (simp add: matgen_1_def for_stores_def upt_conv_Cons del: upt_Suc)
qed

lemma mat_main_zero:
  assumes mul: "matrix_multiplier mul" and dev: "InitCUDA devs = Inr d"
    and gen: "\<And>q a. matrix a n n \<Longrightarrow> \<exists>a'. gen q a n n = Inr a' \<and> length a' = length a"
  shows "mat_main n devs gen mul junk sec =
    Inr [Errors 0 0, Time_used sec (2 * real n * real n * real n / (sec * 10 ^ 9))]"
proof -
  have fresh: "matrix (fresh junk q (n * n)) n n" for q by (simp add: matrix_def)
  obtain a where a: "gen 0 (fresh junk 4 (n * n)) n n = Inr a" "matrix a n n"
    using gen [OF fresh] by (fastforce simp: matrix_def)
  obtain b where b: "gen (2 * n * n) (fresh junk 5 (n * n)) n n = Inr b" "matrix b n n"
    using gen [OF fresh] by (fastforce simp: matrix_def)
  obtain c where c: "mul a n b n (fresh junk 6 (n * n)) n n = Inr c" "matrix c n n"
    "\<forall>i < n. \<forall>j < n. c ! (i * n + j) = matprod n a n b n i j"
    using matrix_multiplier.product [OF mul a(2) b(2) fresh] by (fastforce simp: matrix_def)
  obtain e where e: "matmult a n b n (fresh junk 7 (n * n)) n n = Inr e" "matrix e n n"
    "\<forall>i < n. \<forall>j < n. e ! (i * n + j) = matprod n a n b n i j"
    using host.product [OF a(2) b(2) fresh] by (fastforce simp: matrix_def)
  have "compare_loop c n e n (List.product [0..<n] [0..<n]) 0 0 = Inr (0, 0)"
    by (rule compare_loop_equal) (use c e in \<open>auto intro: matrix_cell\<close>)
  then show ?thesis using dev a b c e by (simp add: mat_main_def compare_mat_def)
qed

text \<open>\<open>InitCUDA\<close> sets the first usable device.\<close>

lemma first_cuda_least:
  "i \<le> first_cuda ds i \<and> first_cuda ds i \<le> i + length ds \<and>
   (\<forall>k < first_cuda ds i - i. \<not> (fst (ds ! k) \<and> snd (ds ! k) \<ge> 1)) \<and>
   (first_cuda ds i < i + length ds \<longrightarrow> fst (ds ! (first_cuda ds i - i)) \<and> snd (ds ! (first_cuda ds i - i)) \<ge> 1)"
proof (induction ds arbitrary: i)
  case (Cons d ds)
  obtain s m where d: "d = (s, m)" by (cases d)
  show ?case
  proof (cases "s \<and> m \<ge> 1")
    case True
    then show ?thesis by (simp add: d)
  next
    case False
    then have "first_cuda (d # ds) i = first_cuda ds (Suc i)" by (auto simp: d)
    moreover obtain k where "first_cuda ds (Suc i) = Suc i + k" using Cons [of "Suc i"] le_Suc_ex by blast
    ultimately show ?thesis using Cons [of "Suc i"] False by (auto simp: d nth_Cons less_Suc_eq_0_disj)
  qed
qed simp

lemma InitCUDA_first:
  "InitCUDA devs = Inr i \<longleftrightarrow> i < length devs \<and> fst (devs ! i) \<and> snd (devs ! i) \<ge> 1 \<and>
     (\<forall>k < i. \<not> (fst (devs ! k) \<and> snd (devs ! k) \<ge> 1))"
proof -
  note F = first_cuda_least [of 0 devs]
  have "InitCUDA devs = Inr i \<longleftrightarrow> i = first_cuda devs 0 \<and> first_cuda devs 0 < length devs"
    using F by (auto simp: InitCUDA_def Let_def)
  also have "\<dots> \<longleftrightarrow> i < length devs \<and> fst (devs ! i) \<and> snd (devs ! i) \<ge> 1 \<and>
     (\<forall>k < i. \<not> (fst (devs ! k) \<and> snd (devs ! k) \<ge> 1))"
  proof
    assume R: "i < length devs \<and> fst (devs ! i) \<and> snd (devs ! i) \<ge> 1 \<and>
      (\<forall>k < i. \<not> (fst (devs ! k) \<and> snd (devs ! k) \<ge> 1))"
    have "\<not> i < first_cuda devs 0" using F R by auto
    moreover have "\<not> first_cuda devs 0 < i" using F R by auto
    ultimately show "i = first_cuda devs 0 \<and> first_cuda devs 0 < length devs" using R by simp
  qed (use F in auto)
  finally show ?thesis .
qed

context pitched_device
begin

lemma multipliers:
  "matrix_multiplier (matmultCUDA_1 exec junk)" "matrix_multiplier (matmultCUDA_2 exec junk)"
  "matrix_multiplier (matmultCUDA_3 exec junk)" "matrix_multiplier (matmultCUDA_4 exec junk pitch)"
  "matrix_multiplier (matmultCUDA exec junk pitch)"
  by (rule naive.matrix_multiplier_axioms kahan.matrix_multiplier_axioms shared_row.matrix_multiplier_axioms
      pitched.matrix_multiplier_axioms tiled.matrix_multiplier_axioms)+

end

subsection \<open>Properties\<close>



text \<open>
  With exact arithmetic, every one of the five programs that finds a device prints a maximal and
  an average error of zero (the four single-precision ones where \<open>RAND_MAX * RAND_MAX\<close> fits an \<open>int\<close>).
\<close>

theorem second_cuda_mains_exact:
  assumes "cuda_device exec" "\<And>w. w \<le> pitch w" "InitCUDA devs = Inr d" "int R * int R < 2 ^ 31"
  shows "second_cuda_main R rand devs exec junk pitch sec = Inr [Errors 0 0, Time_used sec (2 * 1000 * 1000 * 1000 / (sec * 10 ^ 9))] \<and>
    second_cuda1_main R rand devs exec junk sec = Inr [Errors 0 0, Time_used sec (2 * 1000 * 1000 * 1000 / (sec * 10 ^ 9))] \<and>
    second_cuda2_main R rand devs exec junk sec = Inr [Errors 0 0, Time_used sec (2 * 1000 * 1000 * 1000 / (sec * 10 ^ 9))] \<and>
    second_cuda3_main R rand devs exec junk sec = Inr [Errors 0 0, Time_used sec (2 * 1000 * 1000 * 1000 / (sec * 10 ^ 9))] \<and>
    second_cuda4_main R rand devs exec junk pitch sec = Inr [Errors 0 0, Time_used sec (2 * 1000 * 1000 * 1000 / (sec * 10 ^ 9))]"
proof -
  have "pitched_device exec pitch"
    using assms(1,2) by (simp add: pitched_device_def ring_device_def pitched_device_axioms_def)
  note M = pitched_device.multipliers [OF this]
  note run = mat_main_zero [OF _ assms(3), of _ 1000]
  show ?thesis
    using run [OF M(1) matgen_1_fills [OF _ assms(4)]] run [OF M(2) matgen_1_fills [OF _ assms(4)]]
      run [OF M(3) matgen_1_fills [OF _ assms(4)]] run [OF M(4) matgen_1_fills [OF _ assms(4)]]
      run [OF M(5) matgen_fills]
    by (simp add: second_cuda_main_def second_cuda1_main_def second_cuda2_main_def second_cuda3_main_def second_cuda4_main_def)
qed

theorem second_cuda_mains_exact_witness:
  "second_cuda_main 32767 (\<lambda>i. i mod 32768) [(True, 8)] launch (\<lambda>_ _. 1) (\<lambda>w. w) 2 =
     Inr [Errors 0 0, Time_used 2 (2 * 1000 * 1000 * 1000 / (2 * 10 ^ 9))]"
  using second_cuda_mains_exact [of launch "\<lambda>w. w" "[(True, 8)]" 0 32767 "\<lambda>i. i mod 32768" "\<lambda>_ _. 1" 2]
  by (simp add: in_turn.cuda_device_axioms InitCUDA_def)

text \<open>
  With the C library's usual \<open>RAND_MAX\<close> of \<open>2147483647\<close> (any value above 46340) the four single-precision programs
  overflow a signed \<open>int\<close> while they generate their input, before anything is computed.
\<close>

theorem single_precision_mains_overflow:
  assumes "InitCUDA devs = Inr d" "46340 < R"
  shows "second_cuda1_main R rand devs exec junk sec = Inl SignedOverflow \<and>
    second_cuda2_main R rand devs exec junk sec = Inl SignedOverflow \<and>
    second_cuda3_main R rand devs exec junk sec = Inl SignedOverflow \<and>
    second_cuda4_main R rand devs exec junk pitch sec = Inl SignedOverflow"
proof -
  have "(46341::int) * 46341 \<le> int R * int R" using assms(2) by (intro mult_mono) auto
  then have "2 ^ 31 \<le> int R * int R" by simp
  from matgen_1_overflow [OF this, of 1000] have "matgen_1 R rand q a lda 1000 = Inl SignedOverflow" for q a lda by simp
  with assms(1) show ?thesis
    by (simp add: second_cuda1_main_def second_cuda2_main_def second_cuda3_main_def second_cuda4_main_def mat_main_def)
qed

theorem single_precision_mains_overflow_witness:
  "second_cuda1_main 2147483647 (\<lambda>i. i) [(True, 8)] launch (\<lambda>_ _. 0) 1 = Inl SignedOverflow"
  using single_precision_mains_overflow [of "[(True, 8)]" 0 2147483647] by (simp add: InitCUDA_def)

end
