(* ===== verification/Cuda_Inner_Product.thy ===== *)
theory Cuda_Inner_Product
  imports Cuda_Matmul
begin

section \<open>\<open>inner_product.cu\<close> and \<open>inner_product1.cu\<close>: dot products on the device\<close>

text \<open>
  Both programs multiply two vectors element by element and let every block of 1024 threads
  add its 1024 products; the host adds the blocks' sums.  \<open>inner_product.cu\<close> stores the sums in an array of
  their own.  \<open>inner_product1.cu\<close> adds by a tree reduction in shared memory and stores the sum of block
  \<open>b\<close> in \<open>vecC[b]\<close>, an element that block 0 reads: its blocks are modelled as a transition
  system, in which every thread's load and every block's store is a step.  The numbers are exact, as they are
  in the programs (sums of at most \<open>2 ^ 20\<close> ones).
\<close>

definition ELEMENT_COUNT_dot :: nat where "ELEMENT_COUNT_dot = 1024 * 1024"

definition BLOCKSPERGRID :: nat where "BLOCKSPERGRID = 1024"

definition THREADSPERBLOCK :: nat where "THREADSPERBLOCK = 1024"

subsection \<open>\<open>inner_product.cu\<close>\<close>

definition vecMul_gpu_kernel :: "nat \<Rightarrow> 'a::ring_1 list \<Rightarrow> 'a list \<Rightarrow> 'a kernel" where
  "vecMul_gpu_kernel blockDim vecA vecB blockIdx threadIdx =
     (let i = blockIdx * blockDim + threadIdx
      in if i < ELEMENT_COUNT_dot then bindc (mul_at vecB i vecA i) (\<lambda>v. Inr [(i, v)]) else Inr [])"

definition vecSum_gpu_kernel_1 :: "nat \<Rightarrow> 'a::ring_1 list \<Rightarrow> 'a kernel" where
  "vecSum_gpu_kernel_1 blockDim vecC blockIdx threadIdx =
     (let id = blockIdx * blockDim + threadIdx; tid = threadIdx
      in if tid = 0 then
           bindc (sum_loop (\<lambda>i. ld vecC (id + i)) [0..<THREADSPERBLOCK] 0) (\<lambda>local_sum. Inr [(blockIdx, local_sum)])
         else Inr [])"

definition load_block :: "'a exec \<Rightarrow> 'a list \<Rightarrow> nat \<Rightarrow> 'a list \<Rightarrow> nat \<Rightarrow> 'a list c" where
  "load_block exec shared blockDim vecC blockIdx =
     exec 1 blockDim (\<lambda>_ tid. bindc (ld vecC (blockIdx * blockDim + tid)) (\<lambda>v. Inr [(tid, v)])) shared"

definition vecSum_gpu_kernel_2 :: "'a exec \<Rightarrow> 'a list \<Rightarrow> nat \<Rightarrow> 'a::ring_1 list \<Rightarrow> 'a kernel" where
  "vecSum_gpu_kernel_2 exec shared blockDim vecC blockIdx threadIdx =
     bindc (load_block exec shared blockDim vecC blockIdx) (\<lambda>vec.
       let tid = threadIdx
       in if tid = 0 then
            bindc (sum_loop (\<lambda>i. ld vec (tid + i)) [0..<THREADSPERBLOCK] 0) (\<lambda>local_sum. Inr [(blockIdx, local_sum)])
          else Inr [])"

definition vecDot_cpu :: "'a::ring_1 \<Rightarrow> 'a list \<Rightarrow> 'a list \<Rightarrow> 'a c" where
  "vecDot_cpu S vecA vecB = sum_loop (\<lambda>i. mul_at vecB i vecA i) [0..<ELEMENT_COUNT_dot] S"

datatype 'a dot_line =
    Dot_malloc string
  | Dot_copy string
  | Dot_OK 'a 'a
  | Dot_not_equal 'a 'a
  | Dot_times real real real

definition dot_report :: "'a \<Rightarrow> 'a \<Rightarrow> 'a dot_line" where
  "dot_report S_cpu S_gpu = (if S_cpu = S_gpu then Dot_OK S_cpu S_gpu else Dot_not_equal S_cpu S_gpu)"

definition inner_product_main ::
    "'a::ring_1 exec \<Rightarrow> (nat \<Rightarrow> nat \<Rightarrow> 'a) \<Rightarrow> real \<Rightarrow> real \<Rightarrow> 'a dot_line list c" where
  "inner_product_main exec junk ms cpu_ms =
     (let h_vecA = replicate ELEMENT_COUNT_dot 1; h_vecB = replicate ELEMENT_COUNT_dot 1
      in bindc (exec BLOCKSPERGRID THREADSPERBLOCK (vecMul_gpu_kernel THREADSPERBLOCK h_vecA h_vecB)
           (fresh junk 0 ELEMENT_COUNT_dot)) (\<lambda>d_vecC.
         bindc (exec BLOCKSPERGRID THREADSPERBLOCK (vecSum_gpu_kernel_1 THREADSPERBLOCK d_vecC)
           (fresh junk 1 THREADSPERBLOCK)) (\<lambda>h_psum.
         bindc (sum_loop (ld h_psum) [0..<BLOCKSPERGRID] 0) (\<lambda>S_gpu.
         bindc (vecDot_cpu 0 h_vecA h_vecB) (\<lambda>S_cpu.
           Inr ([Dot_malloc ''d_vecA'', Dot_malloc ''d_vecB'', Dot_malloc ''d_vecC'', Dot_malloc ''d_vecC'',
                 Dot_copy ''d_vecA'', Dot_copy ''d_vecB'', Dot_copy ''h_vecResultFromDevice'', Dot_copy ''h_psum'',
                 dot_report S_cpu S_gpu, Dot_times (ms / 1000) (cpu_ms / 1000) (cpu_ms / ms)]))))))"

subsection \<open>\<open>inner_product1.cu\<close>: the reduction in shared memory\<close>

text \<open>
  One round between two barriers: \<open>if (tid < i) vec[tid] += vec[tid + i]\<close>.  A thread reads its own element and
  one that no thread writes in this round, so the loads see the array before the round.
\<close>

definition reduce_round :: "'a::ring_1 exec \<Rightarrow> nat \<Rightarrow> nat \<Rightarrow> 'a list \<Rightarrow> 'a list c" where
  "reduce_round exec blockDim i vec =
     exec 1 blockDim (\<lambda>_ tid.
       if tid < i then bindc (ld vec tid) (\<lambda>x. bindc (ld vec (tid + i)) (\<lambda>y. Inr [(tid, x + y)])) else Inr []) vec"

function reduce_rounds :: "'a::ring_1 exec \<Rightarrow> nat \<Rightarrow> nat \<Rightarrow> 'a list \<Rightarrow> 'a list c" where
  "reduce_rounds exec blockDim i vec =
     (if i > 0 then bindc (reduce_round exec blockDim i vec) (reduce_rounds exec blockDim (i div 2)) else Inr vec)"
  by pat_completeness auto
termination by (relation "measure (\<lambda>(exec, blockDim, i, vec). i)") auto

declare reduce_rounds.simps [simp del]

text \<open>The block's part of \<open>vecSum_gpu_kernel_3\<close> after the loads: its result \<open>vec[0]\<close>.\<close>

definition vecSum_gpu_kernel_3 :: "'a::ring_1 exec \<Rightarrow> nat \<Rightarrow> 'a list \<Rightarrow> 'a c" where
  "vecSum_gpu_kernel_3 exec blockDim vec = bindc (reduce_rounds exec blockDim (blockDim div 2) vec) (\<lambda>vec. ld vec 0)"

definition vecSum_gpu_kernel :: "'a::ring_1 exec \<Rightarrow> nat \<Rightarrow> 'a list \<Rightarrow> 'a c" where
  "vecSum_gpu_kernel exec blockDim vec =
     bindc (reduce_round exec blockDim 512 vec) (\<lambda>vec.
     bindc (reduce_round exec blockDim 256 vec) (\<lambda>vec.
     bindc (reduce_round exec blockDim 128 vec) (\<lambda>vec.
     bindc (reduce_round exec blockDim 64 vec) (\<lambda>vec.
     bindc (reduce_round exec blockDim 32 vec) (\<lambda>vec.
     bindc (reduce_round exec blockDim 16 vec) (\<lambda>vec.
     bindc (reduce_round exec blockDim 8 vec) (\<lambda>vec.
     bindc (reduce_round exec blockDim 4 vec) (\<lambda>vec.
     bindc (reduce_round exec blockDim 2 vec) (\<lambda>vec.
     bindc (reduce_round exec blockDim 1 vec) (\<lambda>vec.
       ld vec 0))))))))))"

text \<open>
  The blocks of \<open>vecSum_gpu_kernel\<close> run concurrently on the array they also write: a step is the load of one
  thread (\<open>vec[tid] = vecC[id]\<close>) or, once every thread of the block has passed the first barrier, the reduction
  and the store of the block (\<open>vecC[blockIdx.x] = vec[0]\<close>).
\<close>

record 'a blocks_state =
  vecC :: "'a list"
  vec :: "nat \<Rightarrow> nat \<Rightarrow> 'a option"
  stored :: "nat \<Rightarrow> bool"

datatype block_act = Load nat nat | Store nat

definition loaded_all :: "'a blocks_state \<Rightarrow> nat \<Rightarrow> bool" where
  "loaded_all s b \<longleftrightarrow> (\<forall>t \<in> set [0..<THREADSPERBLOCK]. vec s b t \<noteq> None)"

fun blocks_step :: "'a::ring_1 exec \<Rightarrow> block_act \<Rightarrow> 'a blocks_state \<Rightarrow> 'a blocks_state option" where
  "blocks_step exec (Load b t) s =
     (if b < BLOCKSPERGRID \<and> t < THREADSPERBLOCK \<and> vec s b t = None \<and> b * THREADSPERBLOCK + t < length (vecC s)
      then Some (s\<lparr>vec := (vec s)(b := (vec s b)(t := Some (vecC s ! (b * THREADSPERBLOCK + t))))\<rparr>)
      else None)"
| "blocks_step exec (Store b) s =
     (if b < BLOCKSPERGRID \<and> loaded_all s b \<and> \<not> stored s b
      then case vecSum_gpu_kernel exec THREADSPERBLOCK (map (\<lambda>t. the (vec s b t)) [0..<THREADSPERBLOCK]) of
             Inl _ \<Rightarrow> None
           | Inr r \<Rightarrow> Some (s\<lparr>vecC := (vecC s)[b := r], stored := (stored s)(b := True)\<rparr>)
      else None)"

definition blocks_init :: "'a list \<Rightarrow> 'a blocks_state" where
  "blocks_init mem = \<lparr>vecC = mem, vec = (\<lambda>_ _. None), stored = (\<lambda>_. False)\<rparr>"

text \<open>The rest of \<open>main\<close>, from the array the blocks leave.\<close>

definition inner_product1_main ::
    "'a::ring_1 list \<Rightarrow> real \<Rightarrow> real \<Rightarrow> 'a dot_line list c" where
  "inner_product1_main h_vecC ms cpu_ms =
     (let h_vecA = replicate ELEMENT_COUNT_dot 1; h_vecB = replicate ELEMENT_COUNT_dot 1
      in bindc (sum_loop (ld h_vecC) [0..<BLOCKSPERGRID] 0) (\<lambda>S_gpu.
         bindc (vecDot_cpu 0 h_vecA h_vecB) (\<lambda>S_cpu.
           Inr ([Dot_malloc ''d_vecA'', Dot_malloc ''d_vecB'', Dot_malloc ''d_vecC'', Dot_malloc ''d_vecC'',
                 Dot_copy ''d_vecA'', Dot_copy ''d_vecB'', Dot_copy ''h_vecResultFromDevice'',
                 dot_report S_cpu S_gpu, Dot_times (ms / 1000) (cpu_ms / 1000) (cpu_ms / ms)]))))"

subsection \<open>Sizes\<close>

lemma sizes: "ELEMENT_COUNT_dot = BLOCKSPERGRID * THREADSPERBLOCK" "BLOCKSPERGRID = THREADSPERBLOCK" "2 \<le> THREADSPERBLOCK"
  by (simp_all add: ELEMENT_COUNT_dot_def BLOCKSPERGRID_def THREADSPERBLOCK_def)

lemma block_cell: "b < BLOCKSPERGRID \<Longrightarrow> t < THREADSPERBLOCK \<Longrightarrow> b * THREADSPERBLOCK + t < ELEMENT_COUNT_dot"
  using cell_lt [of b BLOCKSPERGRID t THREADSPERBLOCK] by (simp add: sizes(1) mult.commute)

text \<open>The sums of the blocks add up to the sum of the vector.\<close>

definition block_sum :: "'a::ring_1 list \<Rightarrow> nat \<Rightarrow> 'a" where
  "block_sum xs b = sum_list (map (\<lambda>t. xs ! (b * THREADSPERBLOCK + t)) [0..<THREADSPERBLOCK])"

lemma block_sums:
  assumes "length xs = ELEMENT_COUNT_dot"
  shows "sum_list (map (block_sum xs) [0..<BLOCKSPERGRID]) = sum_list xs"
proof -
  have "sum_list (map (block_sum xs) [0..<BLOCKSPERGRID]) =
      sum_list (map (\<lambda>b. sum_list (map ((!) xs) (map (\<lambda>t. b * THREADSPERBLOCK + t) [0..<THREADSPERBLOCK]))) [0..<BLOCKSPERGRID])"
    by (simp add: block_sum_def [abs_def] comp_def)
  also have "\<dots> = sum_list (map ((!) xs) (concat (map (\<lambda>b. map (\<lambda>t. b * THREADSPERBLOCK + t) [0..<THREADSPERBLOCK]) [0..<BLOCKSPERGRID])))"
    by (rule sum_list_map_concat [symmetric])
  also have "\<dots> = sum_list (map ((!) xs) [0..<length xs])"
    by (simp only: concat_tiles assms sizes(1))
  finally show ?thesis by (simp only: map_nth)
qed

lemma sum_loop_list:
  assumes "n \<le> length xs"
  shows "sum_loop (ld xs) [0..<n] t = Inr (t + sum_list (map ((!) xs) [0..<n]))"
  by (rule sum_loop_sum) (use assms in auto)

text \<open>The element-wise products, and the host's dot product.\<close>

definition products :: "'a::ring_1 list \<Rightarrow> 'a list \<Rightarrow> 'a list" where
  "products vecA vecB = map (\<lambda>i. vecB ! i * vecA ! i) [0..<ELEMENT_COUNT_dot]"

lemma vecMul_elementwise:
  assumes "length vecA = ELEMENT_COUNT_dot" "length vecB = ELEMENT_COUNT_dot"
  shows "elementwise (vecMul_gpu_kernel THREADSPERBLOCK vecA vecB) BLOCKSPERGRID THREADSPERBLOCK ELEMENT_COUNT_dot
    (\<lambda>b t. [b * THREADSPERBLOCK + t]) (\<lambda>i. vecB ! i * vecA ! i)"
proof
  fix b t assume "b < BLOCKSPERGRID" "t < THREADSPERBLOCK"
  note bt = block_cell [OF this]
  show "vecMul_gpu_kernel THREADSPERBLOCK vecA vecB b t = Inr (map (\<lambda>i. (i, vecB ! i * vecA ! i)) [b * THREADSPERBLOCK + t])"
    using bt assms by (simp add: vecMul_gpu_kernel_def Let_def mul_at_in)
  show "i \<in> set [b * THREADSPERBLOCK + t] \<Longrightarrow> i < ELEMENT_COUNT_dot" for i using bt by simp
next
  fix i assume "i < ELEMENT_COUNT_dot"
  then have "i div THREADSPERBLOCK < BLOCKSPERGRID" by (simp add: sizes(1) less_mult_imp_div_less)
  moreover have "i mod THREADSPERBLOCK < THREADSPERBLOCK" using sizes(3) by simp
  moreover have "i \<in> set [i div THREADSPERBLOCK * THREADSPERBLOCK + i mod THREADSPERBLOCK]" by simp
  ultimately show "\<exists>b < BLOCKSPERGRID. \<exists>t < THREADSPERBLOCK. i \<in> set [b * THREADSPERBLOCK + t]" by blast
qed

lemma sum_kernel_elementwise:
  assumes "\<And>b t. b < BLOCKSPERGRID \<Longrightarrow> k b t = (if t = 0 then Inr [(b, f b)] else Inr [])"
  shows "elementwise k BLOCKSPERGRID THREADSPERBLOCK THREADSPERBLOCK (\<lambda>b t. if t = 0 then [b] else []) f"
  using sizes assms by unfold_locales (auto split: if_splits)

lemma vecDot_cpu_sum:
  assumes "length vecA = ELEMENT_COUNT_dot" "length vecB = ELEMENT_COUNT_dot"
  shows "vecDot_cpu S vecA vecB = Inr (S + sum_list (products vecA vecB))"
  unfolding vecDot_cpu_def products_def by (rule sum_loop_sum) (use assms in \<open>simp add: mul_at_in\<close>)

context ring_device
begin

lemma vecMul_computes:
  assumes "length vecA = ELEMENT_COUNT_dot" "length vecB = ELEMENT_COUNT_dot" "length xs = ELEMENT_COUNT_dot"
  shows "exec BLOCKSPERGRID THREADSPERBLOCK (vecMul_gpu_kernel THREADSPERBLOCK vecA vecB) xs = Inr (products vecA vecB)"
  unfolding products_def by (rule elementwise.computes [OF vecMul_elementwise [OF assms(1,2)] assms(3) any_order])

lemma vecSum_1_computes:
  assumes "length xs = ELEMENT_COUNT_dot" "length ps = THREADSPERBLOCK"
  shows "exec BLOCKSPERGRID THREADSPERBLOCK (vecSum_gpu_kernel_1 THREADSPERBLOCK xs) ps =
    Inr (map (block_sum xs) [0..<BLOCKSPERGRID])"
proof -
  have "vecSum_gpu_kernel_1 THREADSPERBLOCK xs b t = (if t = 0 then Inr [(b, block_sum xs b)] else Inr [])"
    if "b < BLOCKSPERGRID" for b t
  proof -
    have "sum_loop (\<lambda>i. ld xs (b * THREADSPERBLOCK + i)) [0..<THREADSPERBLOCK] 0 = Inr (0 + block_sum xs b)"
      unfolding block_sum_def by (rule sum_loop_sum) (use block_cell [OF that] assms(1) in simp)
    then show ?thesis by (simp add: vecSum_gpu_kernel_1_def Let_def)
  qed
  from elementwise.computes [OF sum_kernel_elementwise [OF this] assms(2) any_order]
  show ?thesis by (simp add: sizes(2))
qed

lemma load_block_computes:
  assumes "length xs = ELEMENT_COUNT_dot" "b < BLOCKSPERGRID" "length sh = THREADSPERBLOCK"
  shows "load_block exec sh THREADSPERBLOCK xs b = Inr (map (\<lambda>t. xs ! (b * THREADSPERBLOCK + t)) [0..<THREADSPERBLOCK])"
proof -
  have "elementwise (\<lambda>_ tid. bindc (ld xs (b * THREADSPERBLOCK + tid)) (\<lambda>v. Inr [(tid, v)])) 1 THREADSPERBLOCK THREADSPERBLOCK
      (\<lambda>_ t. [t]) (\<lambda>t. xs ! (b * THREADSPERBLOCK + t))"
    using block_cell [OF assms(2)] assms(1) by unfold_locales auto
  from elementwise.computes [OF this assms(3) any_order] show ?thesis by (simp add: load_block_def)
qed

text \<open>The kernel that goes through shared memory computes the same partial sums.\<close>

lemma vecSum_2_computes:
  assumes "length xs = ELEMENT_COUNT_dot" "length ps = THREADSPERBLOCK" "length sh = THREADSPERBLOCK"
  shows "exec BLOCKSPERGRID THREADSPERBLOCK (vecSum_gpu_kernel_2 exec sh THREADSPERBLOCK xs) ps =
    exec BLOCKSPERGRID THREADSPERBLOCK (vecSum_gpu_kernel_1 THREADSPERBLOCK xs) ps"
proof -
  have "vecSum_gpu_kernel_2 exec sh THREADSPERBLOCK xs b t = (if t = 0 then Inr [(b, block_sum xs b)] else Inr [])"
    if "b < BLOCKSPERGRID" for b t
  proof -
    let ?v = "map (\<lambda>t. xs ! (b * THREADSPERBLOCK + t)) [0..<THREADSPERBLOCK]"
    have "sum_loop (\<lambda>i. ld ?v (0 + i)) [0..<THREADSPERBLOCK] 0 = Inr (0 + block_sum xs b)"
      unfolding block_sum_def by (rule sum_loop_sum) simp
    then show ?thesis by (simp add: vecSum_gpu_kernel_2_def load_block_computes [OF assms(1) that assms(3)] Let_def)
  qed
  from elementwise.computes [OF sum_kernel_elementwise [OF this] assms(2) any_order]
  show ?thesis using vecSum_1_computes [OF assms(1,2)] by (simp add: sizes(2))
qed

text \<open>One round halves the number of elements that carry the sum.\<close>

lemma reduce_round_sum:
  assumes "2 * i \<le> length v" "length v = T"
  obtains v' where "reduce_round exec T i v = Inr v'" "length v' = T"
    "sum_list (map ((!) v') [0..<i]) = sum_list (map ((!) v) [0..<2 * i])"
proof -
  let ?k = "\<lambda>(_ :: nat) tid. if tid < i then bindc (ld v tid) (\<lambda>x. bindc (ld v (tid + i)) (\<lambda>y. Inr [(tid, x + y)])) else Inr []"
  have "pointwise ?k 1 T T (\<lambda>_ t. if t < i then [t] else []) (\<lambda>t. v ! t + v ! (t + i))"
    using assms by unfold_locales (auto split: if_splits)
  from pointwise.computes_ex [OF this assms(2) any_order]
  obtain v' where "exec 1 T ?k v = Inr v'" and len: "length v' = T"
    and stores: "\<forall>b < (1::nat). \<forall>t < T. \<forall>j \<in> set (if t < i then [t] else []). v' ! j = v ! j + v ! (j + i)"
    by blast
  then have v': "reduce_round exec T i v = Inr v'" by (simp add: reduce_round_def)
  have each: "v' ! t = v ! t + v ! (t + i)" if "t < i" for t
    using stores that assms by simp
  have "[0..<2 * i] = [0..<i] @ map (\<lambda>t. t + i) [0..<i]"
    using upt_add_eq_append [of 0 i i] by (simp add: mult_2 map_add_upt)
  then have "sum_list (map ((!) v) [0..<2 * i]) = sum_list (map (\<lambda>t. v ! t + v ! (t + i)) [0..<i])"
    by (simp add: sum_list_addf comp_def)
  also have "map (\<lambda>t. v ! t + v ! (t + i)) [0..<i] = map ((!) v') [0..<i]"
    by (rule map_cong) (simp_all add: each)
  finally show ?thesis using that [OF v' len] by simp
qed

lemma reduce_rounds_sum:
  assumes "2 ^ Suc e \<le> length v" "length v = T"
  shows "\<exists>v'. reduce_rounds exec T (2 ^ e) v = Inr v' \<and> length v' = T \<and> v' ! 0 = sum_list (map ((!) v) [0..<2 ^ Suc e])"
  using assms
proof (induction e arbitrary: v)
  case 0
  then obtain v' where v': "reduce_round exec T 1 v = Inr v'" "length v' = T"
    "sum_list (map ((!) v') [0..<1]) = sum_list (map ((!) v) [0..<2 * 1])"
    using reduce_round_sum [of 1 v T] by auto
  then show ?case by (simp add: reduce_rounds.simps)
next
  case (Suc e)
  obtain v1 where v1: "reduce_round exec T (2 ^ Suc e) v = Inr v1" "length v1 = T"
    "sum_list (map ((!) v1) [0..<2 ^ Suc e]) = sum_list (map ((!) v) [0..<2 * 2 ^ Suc e])"
    using reduce_round_sum [of "2 ^ Suc e" v T] Suc.prems by auto
  moreover have "reduce_rounds exec T (2 ^ Suc e) v = reduce_rounds exec T (2 ^ e) v1"
    using v1(1) by (subst reduce_rounds.simps) simp
  moreover have "2 ^ Suc e \<le> length v1" using Suc.prems v1(2) by simp
  ultimately show ?case using Suc.IH [of v1] by auto
qed

text \<open>The unrolled kernel is the loop.\<close>

lemma unrolled_is_loop: "vecSum_gpu_kernel exec THREADSPERBLOCK v = vecSum_gpu_kernel_3 exec THREADSPERBLOCK v"
proof -
  have assoc: "bindc (bindc m f) g = bindc m (\<lambda>x. bindc (f x) g)" for m :: "'a list c" and f :: "'a list \<Rightarrow> 'a list c" and g :: "'a list \<Rightarrow> 'a c"
    by (cases m) auto
  have step: "reduce_rounds exec T i = (\<lambda>v. bindc (reduce_round exec T i v) (reduce_rounds exec T (i div 2)))" if "0 < i" for T i
    using that by (intro ext) (subst reduce_rounds.simps, simp)
  have stop: "reduce_rounds exec T 0 = (\<lambda>v. Inr v)" for T by (intro ext) (subst reduce_rounds.simps, simp)
  show ?thesis
    by (simp add: vecSum_gpu_kernel_def vecSum_gpu_kernel_3_def THREADSPERBLOCK_def step stop assoc)
qed

lemma vecSum_kernel_sum:
  assumes "length v = THREADSPERBLOCK"
  shows "vecSum_gpu_kernel exec THREADSPERBLOCK v = Inr (sum_list v)"
proof -
  have T: "THREADSPERBLOCK = 2 ^ Suc 9" "THREADSPERBLOCK div 2 = 2 ^ 9" by (simp_all add: THREADSPERBLOCK_def)
  obtain v' where "reduce_rounds exec THREADSPERBLOCK (2 ^ 9) v = Inr v'" "length v' = THREADSPERBLOCK"
    "v' ! 0 = sum_list (map ((!) v) [0..<2 ^ Suc 9])"
    using reduce_rounds_sum [of 9 v THREADSPERBLOCK] assms T(1) by auto
  moreover have "map ((!) v) [0..<2 ^ Suc 9] = v" using map_nth [of v] assms T(1) by metis
  moreover have "0 < THREADSPERBLOCK" using sizes(3) by simp
  ultimately show ?thesis by (simp add: unrolled_is_loop vecSum_gpu_kernel_3_def T(2))
qed

end

subsection \<open>The blocks of \<open>inner_product1.cu\<close>, when block 0 loads first\<close>

text \<open>
  The program as it is meant to run: no other block stores while block 0 has not loaded its
  elements.  Nothing in the source enforces this.
\<close>

definition ordered_step :: "'a::ring_1 exec \<Rightarrow> block_act \<Rightarrow> 'a blocks_state \<Rightarrow> 'a blocks_state option" where
  "ordered_step exec a s =
     (case a of
        Load b t \<Rightarrow> blocks_step exec a s
      | Store b \<Rightarrow> if b \<noteq> 0 \<and> \<not> loaded_all s 0 then None else blocks_step exec a s)"

definition blocks_inv :: "'a::ring_1 list \<Rightarrow> 'a blocks_state \<Rightarrow> bool" where
  "blocks_inv mem s \<longleftrightarrow> length (vecC s) = ELEMENT_COUNT_dot \<and>
     (\<forall>b t v. vec s b t = Some v \<longrightarrow> v = mem ! (b * THREADSPERBLOCK + t)) \<and>
     (\<forall>i < ELEMENT_COUNT_dot. vecC s ! i = (if i < BLOCKSPERGRID \<and> stored s i then block_sum mem i else mem ! i)) \<and>
     (\<forall>b < BLOCKSPERGRID. stored s b \<longrightarrow> loaded_all s 0)"

definition blocks_msr :: "'a blocks_state \<Rightarrow> nat" where
  "blocks_msr s = card {(b, t). b < BLOCKSPERGRID \<and> t < THREADSPERBLOCK \<and> vec s b t = None} +
     card {b. b < BLOCKSPERGRID \<and> \<not> stored s b}"

definition blocks_final :: "'a blocks_state \<Rightarrow> bool" where
  "blocks_final s \<longleftrightarrow> (\<forall>b < BLOCKSPERGRID. stored s b)"

lemma length_products [simp]: "length (products vecA vecB) = ELEMENT_COUNT_dot"
  by (simp add: products_def)

lemma finite_unloaded: "finite {(b, t). b < BLOCKSPERGRID \<and> t < THREADSPERBLOCK \<and> vec s b t = None}"
  by (rule finite_subset [of _ "{..<BLOCKSPERGRID} \<times> {..<THREADSPERBLOCK}"]) auto

lemma load_step:
  assumes "blocks_inv mem s" "blocks_step exec (Load b t) s = Some u"
  shows "blocks_inv mem u" "blocks_msr u < blocks_msr s"
proof -
  have g: "b < BLOCKSPERGRID" "t < THREADSPERBLOCK" "vec s b t = None"
    and u: "u = s\<lparr>vec := (vec s)(b := (vec s b)(t := Some (vecC s ! (b * THREADSPERBLOCK + t))))\<rparr>"
    using assms(2) by (auto split: if_splits)
  let ?i = "b * THREADSPERBLOCK + t"
  have val: "vecC s ! ?i = mem ! ?i"
  proof (cases "b = 0")
    case True
    then have "\<not> loaded_all s 0" using g by (auto simp: loaded_all_def)
    then have "\<not> (?i < BLOCKSPERGRID \<and> stored s ?i)" using assms(1) by (auto simp: blocks_inv_def)
    then show ?thesis using assms(1) block_cell [OF g(1,2)] by (auto simp: blocks_inv_def)
  next
    case False
    then obtain c where "b = Suc c" by (cases b) auto
    then have "BLOCKSPERGRID \<le> ?i" using sizes(2) by simp
    then show ?thesis using assms(1) block_cell [OF g(1,2)] by (auto simp: blocks_inv_def)
  qed
  have "loaded_all s c \<Longrightarrow> loaded_all u c" for c by (auto simp: loaded_all_def u)
  then show "blocks_inv mem u" using assms(1) val by (auto simp: blocks_inv_def u split: if_splits)
  have "{(c, t'). c < BLOCKSPERGRID \<and> t' < THREADSPERBLOCK \<and> vec u c t' = None} =
      {(c, t'). c < BLOCKSPERGRID \<and> t' < THREADSPERBLOCK \<and> vec s c t' = None} - {(b, t)}"
    by (auto simp: u split: if_splits)
  moreover have "(b, t) \<in> {(c, t'). c < BLOCKSPERGRID \<and> t' < THREADSPERBLOCK \<and> vec s c t' = None}" using g by simp
  ultimately have "card {(c, t'). c < BLOCKSPERGRID \<and> t' < THREADSPERBLOCK \<and> vec u c t' = None} <
      card {(c, t'). c < BLOCKSPERGRID \<and> t' < THREADSPERBLOCK \<and> vec s c t' = None}"
    using card_Diff1_less [OF finite_unloaded [of s], of "(b, t)"] by (simp only:)
  moreover have "stored u = stored s" by (simp add: u)
  ultimately show "blocks_msr u < blocks_msr s" by (simp add: blocks_msr_def)
qed

context ring_device
begin

lemma store_enabled:
  assumes "blocks_inv mem s" "b < BLOCKSPERGRID" "loaded_all s b" "\<not> stored s b"
  shows "blocks_step exec (Store b) s = Some (s\<lparr>vecC := (vecC s)[b := block_sum mem b], stored := (stored s)(b := True)\<rparr>)"
proof -
  have vec: "map (\<lambda>t. the (vec s b t)) [0..<THREADSPERBLOCK] = map (\<lambda>t. mem ! (b * THREADSPERBLOCK + t)) [0..<THREADSPERBLOCK]"
  proof (rule map_cong)
    fix t assume "t \<in> set [0..<THREADSPERBLOCK]"
    then obtain v where "vec s b t = Some v" using assms(3) by (fastforce simp: loaded_all_def)
    then show "the (vec s b t) = mem ! (b * THREADSPERBLOCK + t)" using assms(1) by (auto simp: blocks_inv_def)
  qed simp
  show ?thesis unfolding blocks_step.simps vec using assms(2-4) by (simp add: vecSum_kernel_sum block_sum_def)
qed

lemma store_step:
  assumes inv: "blocks_inv mem s" and st: "blocks_step exec (Store b) s = Some u" and ord: "loaded_all s 0"
  shows "blocks_inv mem u" "blocks_msr u < blocks_msr s"
proof -
  have g: "b < BLOCKSPERGRID" "loaded_all s b" "\<not> stored s b" using st by (auto split: if_splits)
  have u: "u = s\<lparr>vecC := (vecC s)[b := block_sum mem b], stored := (stored s)(b := True)\<rparr>"
    using store_enabled [OF inv g] st by simp
  have "loaded_all u c = loaded_all s c" for c by (simp add: loaded_all_def u)
  moreover have "vecC u ! i = (if i < BLOCKSPERGRID \<and> stored u i then block_sum mem i else mem ! i)"
    if "i < ELEMENT_COUNT_dot" for i
    using inv that g(1) by (auto simp: blocks_inv_def u nth_list_update)
  ultimately show "blocks_inv mem u" using inv ord by (auto simp: blocks_inv_def u)
  have "{c. c < BLOCKSPERGRID \<and> \<not> stored u c} = {c. c < BLOCKSPERGRID \<and> \<not> stored s c} - {b}"
    by (auto simp: u)
  moreover have "b \<in> {c. c < BLOCKSPERGRID \<and> \<not> stored s c}" using g by simp
  ultimately show "blocks_msr u < blocks_msr s"
    using card_Diff1_less [of "{c. c < BLOCKSPERGRID \<and> \<not> stored s c}" b] by (simp add: blocks_msr_def u)
qed

lemma ordered_ok:
  assumes "blocks_inv mem s" "ordered_step exec a s = Some u"
  shows "blocks_inv mem u \<and> blocks_msr u < blocks_msr s"
proof (cases a)
  case (Load b t)
  with assms(2) have "blocks_step exec (Load b t) s = Some u" by (simp add: ordered_step_def)
  from load_step [OF assms(1) this] show ?thesis by blast
next
  case (Store b)
  with assms(2) have "blocks_step exec (Store b) s = Some u" "b = 0 \<or> loaded_all s 0"
    by (auto simp: ordered_step_def simp del: blocks_step.simps split: if_splits)
  moreover from this have "loaded_all s 0" by (auto split: if_splits)
  ultimately show ?thesis using store_step [OF assms(1)] by blast
qed

lemma load_enabled:
  assumes "blocks_inv mem s" "b < BLOCKSPERGRID" "\<not> loaded_all s b"
  shows "\<exists>a u. ordered_step exec a s = Some u"
proof -
  obtain t where "t < THREADSPERBLOCK" "vec s b t = None" using assms(3) by (auto simp: loaded_all_def)
  then have "ordered_step exec (Load b t) s \<noteq> None"
    using assms block_cell [OF assms(2)] by (simp add: ordered_step_def blocks_inv_def)
  then show ?thesis by blast
qed

lemma ordered_progress:
  assumes "blocks_inv mem s" "\<not> blocks_final s"
  shows "\<exists>a u. ordered_step exec a s = Some u"
proof (cases "loaded_all s 0")
  case False
  then show ?thesis using load_enabled [OF assms(1), of 0] by (simp add: BLOCKSPERGRID_def)
next
  case True
  obtain b where b: "b < BLOCKSPERGRID" "\<not> stored s b" using assms(2) by (auto simp: blocks_final_def)
  show ?thesis
  proof (cases "loaded_all s b")
    case False
    then show ?thesis using load_enabled [OF assms(1) b(1)] by blast
  next
    case loaded: True
    with True b store_enabled [OF assms(1) b(1) loaded b(2)]
    have "ordered_step exec (Store b) s \<noteq> None" by (simp add: ordered_step_def del: blocks_step.simps)
    then show ?thesis by blast
  qed
qed

end

sublocale ring_device \<subseteq> ordered: terminating_system "ordered_step exec" "blocks_init (products vecA vecB)"
    "blocks_inv (products vecA vecB)" blocks_msr blocks_final for vecA vecB
proof
  show "blocks_inv (products vecA vecB) (blocks_init (products vecA vecB))"
    by (simp add: blocks_inv_def blocks_init_def)
qed (use ordered_ok ordered_progress in blast)+

context ring_device
begin

lemma ordered_reachable_inv:
  "reachable (ordered_step exec) (blocks_init (products vecA vecB)) s \<Longrightarrow> blocks_inv (products vecA vecB) s"
  by (rule ordered.reachable_inv)

lemma ordered_ends:
  "blocks_inv (products vecA vecB) s \<Longrightarrow> \<exists>as u. run (ordered_step exec) as s = Some u \<and> stuck (ordered_step exec) u"
  by (rule ordered.reaches_stuck)

lemma ordered_stuck_final:
  "blocks_inv (products vecA vecB) s \<Longrightarrow> stuck (ordered_step exec) s \<Longrightarrow> blocks_final s"
  by (rule ordered.stuck_final)

end

lemma final_sum:
  assumes "blocks_inv mem s" "blocks_final s" "length mem = ELEMENT_COUNT_dot"
  shows "sum_loop (ld (vecC s)) [0..<BLOCKSPERGRID] 0 = Inr (sum_list mem)"
proof -
  have le: "BLOCKSPERGRID \<le> ELEMENT_COUNT_dot" by (simp add: BLOCKSPERGRID_def ELEMENT_COUNT_dot_def)
  have "map ((!) (vecC s)) [0..<BLOCKSPERGRID] = map (block_sum mem) [0..<BLOCKSPERGRID]"
    using assms(1,2) le by (intro map_cong) (auto simp: blocks_inv_def blocks_final_def)
  with sum_loop_list [of BLOCKSPERGRID "vecC s" 0] le assms(1) block_sums [OF assms(3)] show ?thesis
    by (simp add: blocks_inv_def)
qed

subsection \<open>A run in which block 1 is faster than block 0\<close>

text \<open>One block after the other: all its loads, then its store.\<close>

definition block_schedule :: "nat \<Rightarrow> block_act list" where
  "block_schedule b = map (Load b) [0..<THREADSPERBLOCK] @ [Store b]"

definition loaded_upto :: "'a list \<Rightarrow> nat \<Rightarrow> nat \<Rightarrow> nat \<Rightarrow> 'a option" where
  "loaded_upto m b n t = (if t < n then Some (m ! (b * THREADSPERBLOCK + t)) else None)"

lemma loaded_upto_Suc: "(loaded_upto m b n)(n := Some (m ! (b * THREADSPERBLOCK + n))) = loaded_upto m b (Suc n)"
  by (auto simp: loaded_upto_def fun_eq_iff less_Suc_eq)

lemma run_loads:
  assumes "b < BLOCKSPERGRID" "vec s b = (\<lambda>_. None)" "length (vecC s) = ELEMENT_COUNT_dot" "n \<le> THREADSPERBLOCK"
  shows "run (blocks_step exec) (map (Load b) [0..<n]) s = Some (s\<lparr>vec := (vec s)(b := loaded_upto (vecC s) b n)\<rparr>)"
  using assms(4)
proof (induction n)
  case 0
  have "loaded_upto (vecC s) b 0 = vec s b" using assms(2) by (simp add: loaded_upto_def fun_eq_iff)
  then show ?case by simp
next
  case (Suc n)
  then have "n < THREADSPERBLOCK" by simp
  note cell = block_cell [OF assms(1) this]
  have "loaded_upto (vecC s) b n n = None" by (simp add: loaded_upto_def)
  with Suc cell assms show ?case
    by (simp add: run_snoc loaded_upto_Suc [unfolded fun_upd_def] fun_upd_def cong: if_cong)
qed

context ring_device
begin

lemma run_block:
  assumes "b < BLOCKSPERGRID" "vec s b = (\<lambda>_. None)" "length (vecC s) = ELEMENT_COUNT_dot" "\<not> stored s b"
  obtains u where "run (blocks_step exec) (block_schedule b) s = Some u" "vecC u = (vecC s)[b := block_sum (vecC s) b]"
    "\<And>c. c \<noteq> b \<Longrightarrow> vec u c = vec s c" "stored u = (stored s)(b := True)"
proof -
  let ?s = "s\<lparr>vec := (vec s)(b := loaded_upto (vecC s) b THREADSPERBLOCK)\<rparr>"
  let ?u = "?s\<lparr>vecC := (vecC s)[b := block_sum (vecC s) b], stored := (stored s)(b := True)\<rparr>"
  have "loaded_all ?s b" by (simp add: loaded_all_def loaded_upto_def)
  moreover have vals: "map (\<lambda>t. the (vec ?s b t)) [0..<THREADSPERBLOCK] = map (\<lambda>t. vecC s ! (b * THREADSPERBLOCK + t)) [0..<THREADSPERBLOCK]"
    by (simp add: loaded_upto_def)
  ultimately have "blocks_step exec (Store b) ?s = Some ?u"
    unfolding blocks_step.simps vals using assms(1,4) by (simp add: vecSum_kernel_sum block_sum_def)
  then have "run (blocks_step exec) (block_schedule b) s = Some ?u"
    unfolding block_schedule_def run_snoc run_loads [OF assms(1-3) order_refl] by (simp del: blocks_step.simps)
  with that [of ?u] show ?thesis by simp
qed

lemma run_blocks:
  assumes "distinct bs" "\<And>b. b \<in> set bs \<Longrightarrow> b < BLOCKSPERGRID \<and> vec s b = (\<lambda>_. None) \<and> \<not> stored s b"
    and "length (vecC s) = ELEMENT_COUNT_dot"
  shows "\<exists>u. run (blocks_step exec) (concat (map block_schedule bs)) s = Some u \<and>
    vecC u = fold (\<lambda>b m. m[b := block_sum m b]) bs (vecC s) \<and> (\<forall>b. stored u b \<longleftrightarrow> stored s b \<or> b \<in> set bs)"
  using assms
proof (induction bs arbitrary: s)
  case (Cons b bs)
  obtain s1 where s1: "run (blocks_step exec) (block_schedule b) s = Some s1" "vecC s1 = (vecC s)[b := block_sum (vecC s) b]"
    "\<And>c. c \<noteq> b \<Longrightarrow> vec s1 c = vec s c" "stored s1 = (stored s)(b := True)"
    using run_block [of b s] Cons.prems by auto
  have "\<exists>u. run (blocks_step exec) (concat (map block_schedule bs)) s1 = Some u \<and>
      vecC u = fold (\<lambda>b m. m[b := block_sum m b]) bs (vecC s1) \<and> (\<forall>c. stored u c \<longleftrightarrow> stored s1 c \<or> c \<in> set bs)"
    using Cons.prems s1 by (intro Cons.IH) auto
  with s1 show ?case by (auto simp: run_append_Some)
qed auto

end

text \<open>The blocks in the order 1, 0, 2, 3, \<open>\<dots>\<close> on an array of ones.\<close>

definition ones :: "int list" where "ones = replicate ELEMENT_COUNT_dot 1"

definition race_schedule :: "block_act list" where
  "race_schedule = concat (map block_schedule ([1, 0] @ [2..<BLOCKSPERGRID]))"

lemma block_sum_ones:
  assumes "\<And>t. t < THREADSPERBLOCK \<Longrightarrow> m ! (b * THREADSPERBLOCK + t) = (1::int)"
  shows "block_sum m b = int THREADSPERBLOCK"
proof -
  have "map (\<lambda>t. m ! (b * THREADSPERBLOCK + t)) [0..<THREADSPERBLOCK] = replicate THREADSPERBLOCK 1"
    using assms by (intro nth_equalityI) auto
  then show ?thesis by (simp add: block_sum_def sum_list_replicate)
qed

lemma grid_le: "BLOCKSPERGRID \<le> ELEMENT_COUNT_dot"
  by (simp add: BLOCKSPERGRID_def ELEMENT_COUNT_dot_def)

lemma fold_rest:
  assumes "length m = ELEMENT_COUNT_dot" "\<And>i. THREADSPERBLOCK \<le> i \<Longrightarrow> i < ELEMENT_COUNT_dot \<Longrightarrow> m ! i = (1::int)" "n \<le> BLOCKSPERGRID"
  shows "length (fold (\<lambda>b m. m[b := block_sum m b]) [2..<n] m) = ELEMENT_COUNT_dot \<and>
    (\<forall>i < ELEMENT_COUNT_dot. fold (\<lambda>b m. m[b := block_sum m b]) [2..<n] m ! i = (if 2 \<le> i \<and> i < n then int THREADSPERBLOCK else m ! i))"
  using assms(3)
proof (induction n)
  case 0
  then show ?case using assms(1) by simp
next
  case (Suc n)
  show ?case
  proof (cases "2 \<le> n")
    case False
    then show ?thesis using assms(1) by (auto simp: not_le)
  next
    case True
    let ?m = "fold (\<lambda>b m. m[b := block_sum m b]) [2..<n] m"
    have IH: "length ?m = ELEMENT_COUNT_dot" "\<forall>i < ELEMENT_COUNT_dot. ?m ! i = (if 2 \<le> i \<and> i < n then int THREADSPERBLOCK else m ! i)"
      using Suc by simp_all
    have "block_sum ?m n = int THREADSPERBLOCK"
    proof (rule block_sum_ones)
      fix t assume t: "t < THREADSPERBLOCK"
      let ?i = "n * THREADSPERBLOCK + t"
      have i: "?i < ELEMENT_COUNT_dot" using block_cell [of n t] Suc.prems t by simp
      obtain k where "n = Suc k" using True by (cases n) auto
      then have "THREADSPERBLOCK \<le> ?i" by simp
      moreover from this have "n \<le> ?i" using Suc.prems sizes(2) by linarith
      ultimately show "?m ! ?i = 1" using IH(2) i assms(2) by simp
    qed
    then have "fold (\<lambda>b m. m[b := block_sum m b]) [2..<Suc n] m = ?m[n := int THREADSPERBLOCK]" using True by simp
    moreover have "n < ELEMENT_COUNT_dot" using Suc.prems grid_le by simp
    ultimately show ?thesis using IH True by (auto simp: nth_list_update less_Suc_eq)
  qed
qed

lemma block_sum_0: "block_sum (ones[1 := int THREADSPERBLOCK]) 0 = 2 * int THREADSPERBLOCK - 1"
proof -
  have "[0..<THREADSPERBLOCK] = [0, 1] @ [2..<THREADSPERBLOCK]"
    using sizes(3) by (simp add: upt_conv_Cons numeral_2_eq_2 del: upt_Suc)
  moreover have "map (\<lambda>t. ones[1 := int THREADSPERBLOCK] ! t) [2..<THREADSPERBLOCK] = replicate (THREADSPERBLOCK - 2) 1"
    using grid_le sizes(2) by (intro nth_equalityI) (simp_all add: ones_def)
  ultimately show ?thesis
    using sizes(3) by (simp add: block_sum_def sum_list_replicate ones_def ELEMENT_COUNT_dot_def of_nat_diff)
qed

subsection \<open>Properties\<close>

lemma products_ones: "products (replicate ELEMENT_COUNT_dot 1) (replicate ELEMENT_COUNT_dot 1) = replicate ELEMENT_COUNT_dot (1::'a::ring_1)"
  by (rule nth_equalityI) (simp_all add: products_def)

lemma sum_ones: "sum_list (replicate ELEMENT_COUNT_dot 1) = (of_nat ELEMENT_COUNT_dot :: 'a::ring_1)"
  by (simp add: sum_list_replicate)



text \<open>
  The unrolled tree reduction of \<open>inner_product1.cu\<close> and its loop version compute the same, the sum of
  the 1024 elements of the block, for every order of the stores of each round.
\<close>

theorem tree_reductions_sum:
  assumes "cuda_device exec" "length v = THREADSPERBLOCK"
  shows "vecSum_gpu_kernel exec THREADSPERBLOCK v = Inr (sum_list v) \<and>
    vecSum_gpu_kernel_3 exec THREADSPERBLOCK v = Inr (sum_list v)"
proof -
  have D: "ring_device exec" using assms(1) by (simp add: ring_device_def)
  show ?thesis
    using ring_device.vecSum_kernel_sum [OF D assms(2)] ring_device.unrolled_is_loop [OF D, of v] by simp
qed

theorem tree_reductions_sum_witness:
  "vecSum_gpu_kernel launch THREADSPERBLOCK (replicate THREADSPERBLOCK (3::int)) = Inr 3072"
  using tree_reductions_sum [of launch "replicate THREADSPERBLOCK (3::int)"]
  by (simp add: in_turn.cuda_device_axioms sum_list_replicate) (simp add: THREADSPERBLOCK_def)



text \<open>
  Nothing orders the blocks: when block 1 finishes before block 0 loads, block 0 adds the sum of
  block 1 in place of an element, and the program prints that the results differ
  (\<open>1049599\<close> on the device).
\<close>

theorem inner_product1_race:
  "\<exists>s. run (blocks_step launch) race_schedule (blocks_init ones) = Some s \<and> blocks_final s \<and>
     (\<exists>ls. inner_product1_main (vecC s) ms cpu_ms = Inr ls \<and> Dot_not_equal 1048576 1049599 \<in> set ls)"
proof -
  let ?T = "int THREADSPERBLOCK"
  let ?m = "ones[1 := ?T, 0 := 2 * ?T - 1]"
  have N: "1 < ELEMENT_COUNT_dot" "0 < ELEMENT_COUNT_dot" "length ones = ELEMENT_COUNT_dot"
    by (simp_all add: ELEMENT_COUNT_dot_def ones_def)
  have G: "2 \<le> BLOCKSPERGRID" using sizes by simp
  have "\<exists>u. run (blocks_step launch) (concat (map block_schedule ([1, 0] @ [2..<BLOCKSPERGRID]))) (blocks_init ones) = Some u \<and>
      vecC u = fold (\<lambda>b m. m[b := block_sum m b]) ([1, 0] @ [2..<BLOCKSPERGRID]) (vecC (blocks_init ones)) \<and>
      (\<forall>b. stored u b \<longleftrightarrow> stored (blocks_init ones) b \<or> b \<in> set ([1, 0] @ [2..<BLOCKSPERGRID]))"
    by (rule simple_device.run_blocks) (use G N(3) in \<open>auto simp: blocks_init_def\<close>)
  then obtain s where s: "run (blocks_step launch) race_schedule (blocks_init ones) = Some s"
    "vecC s = fold (\<lambda>b m. m[b := block_sum m b]) ([1, 0] @ [2..<BLOCKSPERGRID]) ones"
    "\<forall>b. stored s b \<longleftrightarrow> b \<in> set ([1, 0] @ [2..<BLOCKSPERGRID])"
    unfolding race_schedule_def by (fastforce simp: blocks_init_def)
  have fin: "blocks_final s" unfolding blocks_final_def
  proof (intro allI impI)
    fix b assume "b < BLOCKSPERGRID"
    moreover have "b = 1 \<or> b = 0 \<or> 2 \<le> b" by linarith
    ultimately have "b \<in> set ([1, 0] @ [2..<BLOCKSPERGRID])" by auto
    with s(3) show "stored s b" by blast
  qed
  have "block_sum ones 1 = ?T"
    by (rule block_sum_ones) (use block_cell [of 1] G in \<open>simp add: ones_def\<close>)
  then have fold: "vecC s = fold (\<lambda>b m. m[b := block_sum m b]) [2..<BLOCKSPERGRID] ?m"
    using s(2) block_sum_0 by simp
  have m1: "?m ! i = 1" if "THREADSPERBLOCK \<le> i" "i < ELEMENT_COUNT_dot" for i
    using that sizes(3) by (simp add: ones_def)
  have vals: "length (vecC s) = ELEMENT_COUNT_dot"
    "\<forall>i < ELEMENT_COUNT_dot. vecC s ! i = (if 2 \<le> i \<and> i < BLOCKSPERGRID then ?T else ?m ! i)"
    using fold_rest [of ?m BLOCKSPERGRID] m1 N(3) unfolding fold by simp_all
  have split: "[0..<BLOCKSPERGRID] = [0, 1] @ [2..<BLOCKSPERGRID]"
    using G by (simp add: upt_conv_Cons numeral_2_eq_2 del: upt_Suc)
  have "map ((!) (vecC s)) [2..<BLOCKSPERGRID] = replicate (BLOCKSPERGRID - 2) ?T"
    using vals(2) grid_le by (intro nth_equalityI) auto
  then have "sum_list (map ((!) (vecC s)) [0..<BLOCKSPERGRID]) = 2 * ?T - 1 + (?T + int (BLOCKSPERGRID - 2) * ?T)"
    using vals N unfolding split by (simp add: sum_list_replicate)
  also have "\<dots> = 1049599" by (simp add: BLOCKSPERGRID_def THREADSPERBLOCK_def)
  finally have "sum_loop (ld (vecC s)) [0..<BLOCKSPERGRID] 0 = Inr 1049599"
    using sum_loop_list [of BLOCKSPERGRID "vecC s" 0] vals(1) grid_le by simp
  moreover have "vecDot_cpu 0 (replicate ELEMENT_COUNT_dot 1) (replicate ELEMENT_COUNT_dot 1) = Inr (1048576 :: int)"
    by (simp add: vecDot_cpu_sum products_ones sum_ones) (simp add: ELEMENT_COUNT_dot_def)
  ultimately show ?thesis using s(1) fin by (simp add: inner_product1_main_def Let_def dot_report_def)
qed

end
