(* ===== verification/Cuda_Hash.thy ===== *)
theory Cuda_Hash
  imports Cuda_Launch
begin

unbundle bit_operations_syntax

section \<open>\<open>C2/hash.cu\<close> and \<open>hash_cpu.cpp\<close>: a memory-hard hash on the device and on the host\<close>

text \<open>
  The hash of a 64-bit seed fills a table of \<open>MEM_SIZE\<close> words with a linear congruential sequence, mixes a state with the table
  for \<open>ROUNDS\<close> rounds and shuffles the numbers below 100 with the final state.  The device runs one hash per
  thread, each thread on its own part of a large array (a thread's part is \<open>mem\<close> below, with arbitrary contents
  at first), and stores the first 78 numbers; the host version differs in how it reduces the
  state to an index.  All words are 64 bits wide and wrap around.
\<close>

definition MEM_SIZE :: nat where "MEM_SIZE = 33554432"

definition ROUNDS :: nat where "ROUNDS = 51200000"

definition M1 :: "64 word" where "M1 = 6364136223846793005"

definition A1 :: "64 word" where "A1 = 1442695040888963407"

definition M2 :: "64 word" where "M2 = 2654435761"

definition NUM_COORDS :: nat where "NUM_COORDS = 100"

text \<open>The three loops; the first argument of each is the number of iterations left.\<close>

fun init_loop :: "nat \<Rightarrow> nat \<Rightarrow> 64 word list \<Rightarrow> 64 word list c" where
  "init_loop 0 i mem = Inr mem"
| "init_loop (Suc k) i mem =
     bindc (ld mem (i - 1)) (\<lambda>x. bindc (sto mem i (x * M1 + A1)) (init_loop k (i + 1)))"

fun mix_loop :: "nat \<Rightarrow> nat \<Rightarrow> 64 word \<Rightarrow> 64 word list \<Rightarrow> 64 word c" where
  "mix_loop 0 r state mem = Inr state"
| "mix_loop (Suc k) r state mem =
     (let idx = unat (state AND (of_nat MEM_SIZE - 1))
      in bindc (ld mem idx) (\<lambda>x.
         let state = state XOR x; state = state * M2 + of_nat r
         in bindc (sto mem idx state) (mix_loop k (r + 1) state)))"

fun mix_loop_cpu :: "nat \<Rightarrow> nat \<Rightarrow> 64 word \<Rightarrow> 64 word list \<Rightarrow> 64 word c" where
  "mix_loop_cpu 0 r state mem = Inr state"
| "mix_loop_cpu (Suc k) r state mem =
     (let idx = unat (state mod of_nat MEM_SIZE)
      in bindc (ld mem idx) (\<lambda>x.
         let state = state XOR x; state = state * M2 + of_nat r
         in bindc (sto mem idx state) (mix_loop_cpu k (r + 1) state)))"

text \<open>\<open>for (i = NUM_COORDS - 1; i > 0; i--)\<close>: the argument is \<open>i\<close>.\<close>

fun shuffle_loop :: "nat \<Rightarrow> 64 word \<Rightarrow> nat list \<Rightarrow> nat list c" where
  "shuffle_loop 0 s coords = Inr coords"
| "shuffle_loop (Suc i') s coords =
     (let i = Suc i'; s = s * M1 + 1; j = unat (s mod of_nat (i + 1))
      in bindc (ld coords i) (\<lambda>temp. bindc (ld coords j) (\<lambda>c.
         bindc (sto coords i c) (\<lambda>coords. bindc (sto coords j temp) (shuffle_loop i' s)))))"

definition k_hash :: "64 word \<Rightarrow> 64 word list \<Rightarrow> nat list c" where
  "k_hash seed mem =
     bindc (sto mem 0 seed) (\<lambda>mem.
     bindc (init_loop (MEM_SIZE - 1) 1 mem) (\<lambda>mem.
     bindc (mix_loop ROUNDS 0 seed mem) (\<lambda>state.
       shuffle_loop (NUM_COORDS - 1) state [0..<NUM_COORDS])))"

definition k_hash_kernel ::
    "nat \<Rightarrow> 64 word list \<Rightarrow> (nat \<Rightarrow> 64 word list) \<Rightarrow> nat \<Rightarrow> nat kernel" where
  "k_hash_kernel blockDim d_seeds big_mem n blockIdx threadIdx =
     (let tid = blockIdx * blockDim + threadIdx
      in if tid \<ge> n then Inr []
         else bindc (ld d_seeds tid) (\<lambda>seed. bindc (k_hash seed (big_mem tid)) (\<lambda>coords.
           for_stores [0..<78] (\<lambda>i. bindc (ld coords i) (\<lambda>c. Inr [(tid * 78 + i, c)])))))"

definition cpu_k_hash :: "64 word \<Rightarrow> 64 word list \<Rightarrow> nat list c" where
  "cpu_k_hash seed mem =
     bindc (sto mem 0 seed) (\<lambda>mem.
     bindc (init_loop (MEM_SIZE - 1) 1 mem) (\<lambda>mem.
     bindc (mix_loop_cpu ROUNDS 0 seed mem) (\<lambda>state.
       shuffle_loop (NUM_COORDS - 1) state [0..<NUM_COORDS])))"

text \<open>
  \<open>main\<close> of \<open>hash.cu\<close>, with the arguments already converted and CUDA calls that succeed (\<open>CUDA_CHECK\<close> exits otherwise): the exit code, the complaint or the coordinates that are
  printed, and all results.  \<open>big_mem t\<close> is the fresh memory of thread \<open>t\<close> and \<open>res0\<close> the fresh result array.
\<close>

datatype hash_line = Usage string | Coordinate nat nat

definition seeds :: "64 word \<Rightarrow> nat \<Rightarrow> string \<Rightarrow> 64 word list" where
  "seeds seed n mode = (if mode = ''inc'' then map (\<lambda>i. seed + of_nat i) [0..<n] else map (\<lambda>i. seed) [0..<n])"

definition hash_main ::
    "(nat \<Rightarrow> nat \<Rightarrow> nat kernel \<Rightarrow> nat list \<Rightarrow> nat list c) \<Rightarrow> (nat \<Rightarrow> 64 word list) \<Rightarrow> (nat \<Rightarrow> nat) \<Rightarrow> 64 word \<Rightarrow> int \<Rightarrow> string \<Rightarrow>
     (int \<times> hash_line list \<times> nat list) c" where
  "hash_main exec big_mem res0 seed n mode =
     (if n \<le> 0 then Inr (1, [Usage ''n must be > 0''], [])
      else if \<not> (mode = ''same'' \<or> mode = ''inc'') then Inr (1, [Usage (''mode must be '' @ CHR 0x27 # ''same'' @ CHR 0x27 # '' or '' @ CHR 0x27 # ''inc'' @ [CHR 0x27])], [])
      else let n = nat n; h_seeds = seeds seed n mode; threads = 256; blocks = (n + threads - 1) div threads
      in bindc (exec blocks threads (k_hash_kernel threads h_seeds big_mem n) (map res0 [0..<n * 78])) (\<lambda>h_results.
         Inr (0, map (\<lambda>i. let v = h_results ! i in Coordinate (v div 10) (v mod 10)) [0..<10], h_results)))"

subsection \<open>The hash never leaves its table, and the two versions agree\<close>

lemma MEM_SIZE_power: "MEM_SIZE = 2 ^ 25"
  by (simp add: MEM_SIZE_def)

lemma index_mask: "state AND (of_nat MEM_SIZE - 1) = state mod (of_nat MEM_SIZE :: 64 word)"
proof -
  have "state AND mask 25 = state mod 2 ^ 25"
    by (simp only: take_bit_eq_mask [symmetric] take_bit_eq_mod)
  then show ?thesis by (simp add: MEM_SIZE_power mask_eq_exp_minus_1)
qed

lemma index_in_table: "unat (state mod (of_nat MEM_SIZE :: 64 word)) < MEM_SIZE"
proof -
  have "unat (of_nat MEM_SIZE :: 64 word) = MEM_SIZE" by (simp add: MEM_SIZE_def)
  then show ?thesis by (simp add: unat_mod_distrib MEM_SIZE_def)
qed

text \<open>The table is filled completely: nothing of the fresh memory is left.\<close>

definition lcg :: "64 word \<Rightarrow> nat \<Rightarrow> 64 word" where
  "lcg seed j = ((\<lambda>x. x * M1 + A1) ^^ j) seed"

lemma init_loop_fills:
  "1 \<le> i \<Longrightarrow> i + k \<le> length mem \<Longrightarrow> \<forall>j < i. mem ! j = lcg seed j \<Longrightarrow>
   \<exists>mem'. init_loop k i mem = Inr mem' \<and> length mem' = length mem \<and> (\<forall>j < i + k. mem' ! j = lcg seed j)"
proof (induction k arbitrary: i mem)
  case (Suc k)
  let ?m = "mem[i := mem ! (i - 1) * M1 + A1]"
  obtain i' where i': "i = Suc i'" using Suc.prems(1) by (cases i) auto
  have "lcg seed i = lcg seed i' * M1 + A1" by (simp add: lcg_def i')
  then have "\<forall>j < i + 1. ?m ! j = lcg seed j"
    using Suc.prems i' by (auto simp: nth_list_update less_Suc_eq)
  then have "\<exists>mem'. init_loop k (i + 1) ?m = Inr mem' \<and> length mem' = length ?m \<and> (\<forall>j < i + 1 + k. mem' ! j = lcg seed j)"
    using Suc.prems by (intro Suc.IH) simp_all
  with Suc.prems show ?case by simp
qed simp

lemma mix_loops_agree: "mix_loop k r state mem = mix_loop_cpu k r state mem"
proof (induction k arbitrary: r state mem)
  case (Suc k)
  then have "mix_loop k r state = mix_loop_cpu k r state" for r state by (intro ext)
  then show ?case by (simp add: index_mask Let_def)
qed simp

lemma mix_loop_returns: "length mem = MEM_SIZE \<Longrightarrow> \<exists>state'. mix_loop_cpu k r state mem = Inr state'"
proof (induction k arbitrary: r state mem)
  case (Suc k)
  let ?i = "unat (state mod (of_nat MEM_SIZE :: 64 word))" and ?s = "(state XOR mem ! unat (state mod of_nat MEM_SIZE)) * M2 + of_nat r"
  have "\<exists>state'. mix_loop_cpu k (r + 1) ?s (mem[?i := ?s]) = Inr state'" by (rule Suc.IH) (simp add: Suc.prems)
  with Suc.prems index_in_table [of state] show ?case by (simp add: Let_def)
qed simp

text \<open>The shuffle permutes the coordinates.\<close>

lemma shuffle_loop_permutes:
  "i < length coords \<Longrightarrow> length coords < 2 ^ 64 \<Longrightarrow> \<exists>coords'. shuffle_loop i s coords = Inr coords' \<and> mset coords' = mset coords"
proof (induction i arbitrary: s coords)
  case (Suc i)
  let ?s = "s * M1 + 1"
  let ?j = "unat (?s mod (of_nat (Suc i + 1) :: 64 word))"
  have "Suc i + 1 < 2 ^ LENGTH(64)" using Suc.prems by simp
  then have "unat (of_nat (Suc i + 1) :: 64 word) = Suc i + 1"
    by (simp only: unat_of_nat mod_less)
  then have j: "?j < Suc i + 1" by (simp only: unat_mod_distrib) simp
  let ?c = "coords[Suc i := coords ! ?j, ?j := coords ! Suc i]"
  have jl: "?j < length coords" using j Suc.prems(1) by linarith
  have m: "mset ?c = mset coords" using Suc.prems(1) jl by (intro mset_swap)
  have "\<exists>coords'. shuffle_loop i ?s ?c = Inr coords' \<and> mset coords' = mset ?c"
    by (rule Suc.IH) (use Suc.prems in simp_all)
  moreover have "shuffle_loop (Suc i) s coords = shuffle_loop i ?s ?c"
    using Suc.prems(1) jl by (simp add: Let_def)
  ultimately show ?case using m by simp
qed simp

lemma k_hash_is_cpu: "k_hash seed mem = cpu_k_hash seed mem"
  by (simp add: k_hash_def cpu_k_hash_def mix_loops_agree)

lemma cpu_k_hash_table:
  assumes "length mem = MEM_SIZE"
  shows "cpu_k_hash seed mem = bindc (mix_loop_cpu ROUNDS 0 seed (map (lcg seed) [0..<MEM_SIZE])) (\<lambda>state.
    shuffle_loop (NUM_COORDS - 1) state [0..<NUM_COORDS])"
proof -
  have pos: "0 < MEM_SIZE" "1 + (MEM_SIZE - 1) = MEM_SIZE" by (simp_all add: MEM_SIZE_def)
  obtain mem' where mem': "init_loop (MEM_SIZE - 1) 1 (mem[0 := seed]) = Inr mem'" "length mem' = MEM_SIZE"
      "\<forall>j < MEM_SIZE. mem' ! j = lcg seed j"
    using init_loop_fills [of 1 "MEM_SIZE - 1" "mem[0 := seed]" seed] assms pos by (auto simp: lcg_def)
  then have "mem' = map (lcg seed) [0..<MEM_SIZE]" by (intro nth_equalityI) auto
  with mem'(1) assms pos(1) show ?thesis by (simp add: cpu_k_hash_def)
qed

lemma cpu_k_hash_returns:
  assumes "length mem = MEM_SIZE"
  obtains coords where "cpu_k_hash seed mem = Inr coords" "mset coords = mset [0..<NUM_COORDS]"
proof -
  obtain state where state: "mix_loop_cpu ROUNDS 0 seed (map (lcg seed) [0..<MEM_SIZE]) = Inr state"
    using mix_loop_returns [of "map (lcg seed) [0..<MEM_SIZE]" ROUNDS 0 seed] by auto
  obtain coords where "shuffle_loop (NUM_COORDS - 1) state [0..<NUM_COORDS] = Inr coords" "mset coords = mset [0..<NUM_COORDS]"
    using shuffle_loop_permutes [of "NUM_COORDS - 1" "[0..<NUM_COORDS]" state] by (auto simp: NUM_COORDS_def)
  with that state show ?thesis by (simp add: cpu_k_hash_table [OF assms])
qed

lemma first_78_distinct:
  assumes "mset coords = mset [0..<NUM_COORDS]"
  shows "length coords = NUM_COORDS" "distinct (take 78 coords)" "set (take 78 coords) \<subseteq> {0..<100}"
proof -
  show "length coords = NUM_COORDS" using assms mset_eq_length by fastforce
  have "distinct coords" "set coords = {0..<100}"
    using mset_eq_setD [OF assms] mset_eq_imp_distinct_iff [OF assms] by (simp_all add: NUM_COORDS_def)
  then show "distinct (take 78 coords)" "set (take 78 coords) \<subseteq> {0..<100}"
    using set_take_subset [of 78 coords] by auto
qed

definition coords_of :: "64 word \<Rightarrow> 64 word list \<Rightarrow> nat list" where
  "coords_of seed mem = (case cpu_k_hash seed mem of Inl _ \<Rightarrow> [] | Inr coords \<Rightarrow> coords)"

lemma coords_of_hash:
  assumes "length mem = MEM_SIZE"
  shows "cpu_k_hash seed mem = Inr (coords_of seed mem)" "mset (coords_of seed mem) = mset [0..<NUM_COORDS]"
  using cpu_k_hash_returns [OF assms, of seed] by (force simp: coords_of_def)+

lemma kernel_pointwise:
  assumes mem: "\<And>t. t < n \<Longrightarrow> length (big_mem t) = MEM_SIZE" and seeds: "length ss = n" and grid: "n \<le> grid * block"
  shows "elementwise (k_hash_kernel block ss big_mem n) grid block (n * 78)
    (\<lambda>b t. if b * block + t < n then map (\<lambda>i. (b * block + t) * 78 + i) [0..<78] else [])
    (\<lambda>q. coords_of (ss ! (q div 78)) (big_mem (q div 78)) ! (q mod 78))"
proof
  fix b t
  let ?tid = "b * block + t"
  have flat: "concat (map (\<lambda>i. [(tid * 78 + i, coords_of (ss ! tid) (big_mem tid) ! i)]) is) =
      map (\<lambda>q. (q, coords_of (ss ! (q div 78)) (big_mem (q div 78)) ! (q mod 78))) (map (\<lambda>i. tid * 78 + i) is)"
    if "\<forall>i \<in> set is. i < 78" for tid "is" using that by (induction "is") auto
  show "k_hash_kernel block ss big_mem n b t = Inr (map (\<lambda>q. (q, coords_of (ss ! (q div 78)) (big_mem (q div 78)) ! (q mod 78)))
      (if ?tid < n then map (\<lambda>i. ?tid * 78 + i) [0..<78] else []))"
  proof (cases "?tid < n")
    case True
    let ?c = "coords_of (ss ! ?tid) (big_mem ?tid)"
    have len: "length ?c = 100"
      using first_78_distinct(1) [OF coords_of_hash(2) [OF mem [OF True]]] by (simp add: NUM_COORDS_def)
    have "for_stores [0..<78] (\<lambda>i. bindc (ld ?c i) (\<lambda>c. Inr [(?tid * 78 + i, c)])) =
        Inr (concat (map (\<lambda>i. [(?tid * 78 + i, ?c ! i)]) [0..<78]))"
      by (rule for_stores_Inr) (simp add: len)
    moreover note flat [of "[0..<78]" ?tid]
    ultimately show ?thesis
      using True seeds coords_of_hash(1) [OF mem [OF True]] by (simp add: k_hash_kernel_def Let_def k_hash_is_cpu)
  qed (simp add: k_hash_kernel_def)
  show "q < n * 78" if "q \<in> set (if ?tid < n then map (\<lambda>i. ?tid * 78 + i) [0..<78] else [])" for q
    using that by (auto split: if_splits)
next
  fix q assume q: "q < n * 78"
  then have t: "q div 78 < n" by (simp add: less_mult_imp_div_less)
  then have "q div 78 < grid * block" using grid by simp
  then have b: "q div 78 div block < grid" "q div 78 mod block < block"
    by (simp_all add: less_mult_imp_div_less) (cases block; simp)
  have "q = q div 78 * 78 + q mod 78" by simp
  then have "q \<in> (\<lambda>i. q div 78 * 78 + i) ` {0..<78}" by (metis atLeastLessThan_iff imageI le0 mod_less_divisor zero_less_numeral)
  with t b show "\<exists>b < grid. \<exists>t < block. q \<in> set (if b * block + t < n then map (\<lambda>i. (b * block + t) * 78 + i) [0..<78] else [])"
    by (intro exI [of _ "q div 78 div block"] conjI exI [of _ "q div 78 mod block"]) simp_all
qed

subsection \<open>Properties\<close>

text \<open>
  C24: with valid arguments the device program ends without leaving its arrays, whatever the fresh memory and the
  order of the device's stores, and the 78 numbers it returns for each seed are the first 78 of the host
  program's permutation for that seed: distinct and below 100.
\<close>

theorem hash_device_equals_host:
  assumes "cuda_device exec" "0 < n" "mode \<in> {''same'', ''inc''}" "\<And>t. length (big_mem t) = MEM_SIZE" "length mem = MEM_SIZE"
  shows "\<exists>ls res. hash_main exec big_mem res0 seed n mode = Inr (0, ls, res) \<and> length res = nat n * 78 \<and>
    (\<forall>t < nat n. \<exists>coords. cpu_k_hash (if mode = ''inc'' then seed + of_nat t else seed) mem = Inr coords \<and>
      take 78 (drop (t * 78) res) = take 78 coords \<and> mset coords = mset [0..<NUM_COORDS] \<and> distinct (take 78 coords))"
proof -
  let ?n = "nat n" and ?ss = "seeds seed (nat n) mode"
  let ?res = "map (\<lambda>q. coords_of (?ss ! (q div 78)) (big_mem (q div 78)) ! (q mod 78)) [0..<?n * 78]"
  have ss: "length ?ss = ?n" "\<And>t. t < ?n \<Longrightarrow> ?ss ! t = (if mode = ''inc'' then seed + of_nat t else seed)"
    by (simp_all add: seeds_def)
  have "?n \<le> (?n + 255) div 256 * 256" by simp
  from elementwise.computes [OF kernel_pointwise [OF assms(4) ss(1) this] _ cuda_device.any_order [OF assms(1)]]
  have run: "exec ((?n + 255) div 256) 256 (k_hash_kernel 256 ?ss big_mem ?n) (map res0 [0..<?n * 78]) = Inr ?res" by simp
  have each: "take 78 (drop (t * 78) ?res) = take 78 (coords_of (?ss ! t) (big_mem t))" if t: "t < ?n" for t
  proof (rule nth_equalityI)
    have len: "length (coords_of (?ss ! t) (big_mem t)) = 100"
      using first_78_distinct(1) [OF coords_of_hash(2) [OF assms(4)]] by (simp add: NUM_COORDS_def)
    have room: "t * 78 + 78 \<le> ?n * 78" using mult_le_mono1 [of "Suc t" ?n 78] t by simp
    then show "length (take 78 (drop (t * 78) ?res)) = length (take 78 (coords_of (?ss ! t) (big_mem t)))"
      by (simp add: len)
    fix i assume "i < length (take 78 (drop (t * 78) ?res))"
    then have "i < 78" by simp
    with room show "take 78 (drop (t * 78) ?res) ! i = take 78 (coords_of (?ss ! t) (big_mem t)) ! i" by simp
  qed
  have "\<exists>coords. cpu_k_hash (if mode = ''inc'' then seed + of_nat t else seed) mem = Inr coords \<and>
      take 78 (drop (t * 78) ?res) = take 78 coords \<and> mset coords = mset [0..<NUM_COORDS] \<and> distinct (take 78 coords)"
    if t: "t < ?n" for t
  proof (intro exI conjI)
    show "cpu_k_hash (if mode = ''inc'' then seed + of_nat t else seed) mem = Inr (coords_of (?ss ! t) (big_mem t))"
      using coords_of_hash(1) [OF assms(4), of "?ss ! t" t] ss(2) [OF t]
      by (simp add: cpu_k_hash_table [OF assms(4)] cpu_k_hash_table [OF assms(5)])
    show "take 78 (drop (t * 78) ?res) = take 78 (coords_of (?ss ! t) (big_mem t))" by (rule each [OF t])
    show "mset (coords_of (?ss ! t) (big_mem t)) = mset [0..<NUM_COORDS]" by (rule coords_of_hash(2) [OF assms(4)])
    then show "distinct (take 78 (coords_of (?ss ! t) (big_mem t)))" by (rule first_78_distinct(2))
  qed
  moreover have "hash_main exec big_mem res0 seed n mode =
      Inr (0, map (\<lambda>i. let v = ?res ! i in Coordinate (v div 10) (v mod 10)) [0..<10], ?res)"
    using run assms(2,3) by (auto simp: hash_main_def Let_def add.commute)
  moreover have "length ?res = ?n * 78" by simp
  ultimately show ?thesis by blast
qed

theorem hash_device_equals_host_witness:
  "\<exists>ls res coords. hash_main launch (\<lambda>_. replicate MEM_SIZE 9) (\<lambda>_. 0) 12345 3 ''inc'' = Inr (0, ls, res) \<and>
     cpu_k_hash (12345 + of_nat 2) (replicate MEM_SIZE 0) = Inr coords \<and> take 78 (drop (2 * 78) res) = take 78 coords"
proof -
  have "\<exists>ls res. hash_main launch (\<lambda>_. replicate MEM_SIZE 9) (\<lambda>_. 0) 12345 3 ''inc'' = Inr (0, ls, res) \<and> length res = nat 3 * 78 \<and>
    (\<forall>t < nat 3. \<exists>coords. cpu_k_hash (if ''inc'' = ''inc'' then 12345 + of_nat t else 12345) (replicate MEM_SIZE 0) = Inr coords \<and>
      take 78 (drop (t * 78) res) = take 78 coords \<and> mset coords = mset [0..<NUM_COORDS] \<and> distinct (take 78 coords))"
    by (rule hash_device_equals_host) (simp_all add: in_turn.cuda_device_axioms)
  then obtain ls res where r: "hash_main launch (\<lambda>_. replicate MEM_SIZE 9) (\<lambda>_. 0) 12345 3 ''inc'' = Inr (0, ls, res)"
    and each: "\<forall>t < nat 3. \<exists>coords. cpu_k_hash (if ''inc'' = ''inc'' then 12345 + of_nat t else 12345) (replicate MEM_SIZE 0) = Inr coords \<and>
      take 78 (drop (t * 78) res) = take 78 coords \<and> mset coords = mset [0..<NUM_COORDS] \<and> distinct (take 78 coords)" by blast
  from each have "\<exists>coords. cpu_k_hash (12345 + of_nat 2) (replicate MEM_SIZE 0) = Inr coords \<and> take 78 (drop (2 * 78) res) = take 78 coords"
    by (auto dest!: spec [of _ 2])
  with r show ?thesis by blast
qed

end
