(* ===== verification/Cuda_Cipher.thy ===== *)
theory Cuda_Cipher
  imports Cuda_Launch
begin

section \<open>\<open>C4/cipher_breaker.cu\<close>: a search of all keys of a Hill and Vigenere cipher\<close>

text \<open>
  One thread per key of four characters decrypts a ciphertext of twelve: it reverses the
  text, undoes a Hill cipher with one of six matrices chosen by the key, and undoes a
  Vigenere shift.  A thread whose plaintext starts with \<open>book\<close> claims the result with
  \<open>atomicExch\<close>; the first claim is stored.  \<open>encrypt\<close> is the cipher the program attacks; it is the specification and
  has no counterpart in the source.
\<close>

definition TOTAL_KEYS :: nat where "TOTAL_KEYS = 1679616"

definition get_A_char :: "int \<Rightarrow> char" where
  "get_A_char v =
     (let v = crem (crem v 36 + 36) 36
      in if v < 26 then char_of (97 + nat v) else char_of (48 + nat (v - 26)))"

definition get_A_val :: "char \<Rightarrow> int" where
  "get_A_val c =
     (let n = (of_char c :: nat)
      in if 97 \<le> n \<and> n \<le> 122 then int n - 97
         else if 48 \<le> n \<and> n \<le> 57 then int n - 48 + 26
         else 0)"

fun inverse_loop :: "int \<Rightarrow> int \<Rightarrow> int \<Rightarrow> nat \<Rightarrow> int" where
  "inverse_loop a m x 0 = - 1"
| "inverse_loop a m x (Suc k) = (if crem (a * x) m = 1 then x else inverse_loop a m (x + 1) k)"

definition modInverse :: "int \<Rightarrow> int \<Rightarrow> int" where
  "modInverse a m = (let a = crem (crem a m + m) m in inverse_loop a m 1 (nat (m - 1)))"

text \<open>The key of a thread.\<close>

definition key_of :: "nat \<Rightarrow> string" where
  "key_of idx =
     (let k3 = get_A_char (int (idx mod 36)); t = idx div 36;
          k2 = get_A_char (int (t mod 36)); t = t div 36;
          k1 = get_A_char (int (t mod 36)); t = t div 36
      in [get_A_char (int (t mod 36)), k1, k2, k3])"

definition HILL :: "(int \<times> int \<times> int \<times> int) list" where
  "HILL = [(1, 2, 3, 5), (5, 6, 17, 3), (3, 5, 1, 2), (7, 8, 11, 11), (5, 4, 3, 7), (9, 4, 5, 7)]"

definition hill_of :: "string \<Rightarrow> int \<times> int \<times> int \<times> int" where
  "hill_of k1 = HILL ! nat (crem (sum_list (map get_A_val k1)) 6)"

definition det_inv :: "string \<Rightarrow> int" where
  "det_inv k1 =
     (let (m00, m01, m10, m11) = hill_of k1;
          det = crem (m00 * m11 - m01 * m10) 36; det = crem (det + 36) 36
      in modInverse det 36)"

definition inv_mat :: "string \<Rightarrow> int \<times> int \<times> int \<times> int" where
  "inv_mat k1 =
     (let (m00, m01, m10, m11) = hill_of k1; d = det_inv k1
      in (crem (m11 * d) 36, crem ((- m01) * d) 36, crem ((- m10) * d) 36, crem (m00 * d) 36))"

text \<open>One iteration of the decryption loop: the characters \<open>i\<close> and \<open>i + 1\<close>.\<close>

definition decrypt_pair :: "string \<Rightarrow> string \<Rightarrow> nat \<Rightarrow> string c" where
  "decrypt_pair k1 c1 i =
     bindc (ld c1 i) (\<lambda>x. bindc (ld c1 (i + 1)) (\<lambda>y.
     bindc (ld k1 (i mod 4)) (\<lambda>ka. bindc (ld k1 ((i + 1) mod 4)) (\<lambda>kb.
       let (v00, v01, v10, v11) = inv_mat k1;
           c_val1 = get_A_val x; c_val2 = get_A_val y;
           p_hill1 = crem (v00 * c_val1 + v01 * c_val2) 36; p_hill2 = crem (v10 * c_val1 + v11 * c_val2) 36;
           p_hill1 = crem (p_hill1 + 36) 36; p_hill2 = crem (p_hill2 + 36) 36;
           p_orig1 = crem (p_hill1 - get_A_val ka + 36) 36; p_orig2 = crem (p_hill2 - get_A_val kb + 36) 36
       in Inr [get_A_char p_orig1, get_A_char p_orig2]))))"

text \<open>The work of a thread: nothing, or its key and plaintext.\<close>

definition try_key :: "string \<Rightarrow> nat \<Rightarrow> (string \<times> string) option c" where
  "try_key c2 idx =
     (let k1 = key_of idx
      in if TOTAL_KEYS \<le> idx then Inr None
         else if det_inv k1 = - 1 then Inr None
         else bindc (seqc (map (\<lambda>i. ld c2 (11 - i)) [0..<12])) (\<lambda>c1.
              bindc (seqc (map (decrypt_pair k1 c1) [0, 2, 4, 6, 8, 10])) (\<lambda>ps.
                let plaintext = concat ps
                in if take 4 plaintext = ''book'' then Inr (Some (k1, plaintext)) else Inr None)))"

definition threadsPerBlock :: nat where "threadsPerBlock = 256"

definition blocksPerGrid :: nat where "blocksPerGrid = (TOTAL_KEYS + threadsPerBlock - 1) div threadsPerBlock"

definition candidates :: "string \<Rightarrow> (string \<times> string) list c" where
  "candidates c2 = bindc (seqc (map (try_key c2) [0..<blocksPerGrid * threadsPerBlock])) (\<lambda>rs. Inr (List.map_filter id rs))"

text \<open>\<open>if (atomicExch(d_found, 1) == 0)\<close> and the stores it guards.\<close>

record search =
  d_found :: int
  d_result_key :: string
  d_result_pt :: string

definition claim :: "string \<times> string \<Rightarrow> search \<Rightarrow> search" where
  "claim kp s = (if d_found s = 0 then \<lparr>d_found = 1, d_result_key = fst kp, d_result_pt = snd kp\<rparr> else s\<lparr>d_found := 1\<rparr>)"

text \<open>The claims happen in some order.\<close>

definition bruteForceCipher :: "string \<Rightarrow> search \<Rightarrow> search c \<Rightarrow> bool" where
  "bruteForceCipher c2 s r \<longleftrightarrow>
     (case candidates c2 of
        Inl e \<Rightarrow> r = Inl e
      | Inr cs \<Rightarrow> \<exists>cs'. mset cs' = mset cs \<and> r = Inr (fold claim cs' s))"

datatype cipher_line = Broken string string string | Not_broken string

text \<open>What \<open>main\<close> prints from the memory the kernel leaves.\<close>

definition cipher_report :: "string \<Rightarrow> search \<Rightarrow> cipher_line" where
  "cipher_report c2 s =
     (if d_found s \<noteq> 0 then Broken (d_result_key s) (take 4 (d_result_pt s)) (d_result_pt s) else Not_broken c2)"

text \<open>
  The copy that should clear \<open>d_found\<close> has the direction \<open>cudaMemcpyDeviceToHost\<close> and does not write
  it: the kernel starts from the memory \<open>cudaMalloc\<close> gave, the parameter \<open>s\<close>.
\<close>

definition cipher_main :: "search \<Rightarrow> cipher_line c \<Rightarrow> bool" where
  "cipher_main s r \<longleftrightarrow>
     (let c2_input = ''ryryrxwyxtxr''
      in \<exists>r'. bruteForceCipher c2_input s r' \<and> r = bindc r' (\<lambda>s'. Inr (cipher_report c2_input s')))"

subsection \<open>The cipher\<close>

definition alphabet :: "char set" where
  "alphabet = {c. 97 \<le> (of_char c :: nat) \<and> (of_char c :: nat) \<le> 122 \<or> 48 \<le> (of_char c :: nat) \<and> (of_char c :: nat) \<le> 57}"

definition encrypt_pair :: "string \<Rightarrow> nat \<Rightarrow> char \<Rightarrow> char \<Rightarrow> string" where
  "encrypt_pair k i x y =
     (let (m00, m01, m10, m11) = hill_of k;
          v1 = (get_A_val x + get_A_val (k ! (i mod 4))) mod 36;
          v2 = (get_A_val y + get_A_val (k ! ((i + 1) mod 4))) mod 36
      in [get_A_char (m00 * v1 + m01 * v2), get_A_char (m10 * v1 + m11 * v2)])"

definition encrypt :: "string \<Rightarrow> string \<Rightarrow> string" where
  "encrypt k p = rev (concat (map (\<lambda>i. encrypt_pair k i (p ! i) (p ! (i + 1))) [0, 2, 4, 6, 8, 10]))"

text \<open>A key the cipher can use, and a text.\<close>

definition cipher_key :: "string \<Rightarrow> bool" where
  "cipher_key k \<longleftrightarrow> length k = 4 \<and> set k \<subseteq> alphabet \<and> det_inv k \<noteq> - 1"

definition cipher_text :: "string \<Rightarrow> bool" where
  "cipher_text p \<longleftrightarrow> length p = 12 \<and> set p \<subseteq> alphabet"

lemma crem_add: "(crem x 36 + 36) mod 36 = x mod 36"
proof (cases "x < 0")
  case True
  then have "crem x 36 + 36 = 36 - (- x) mod 36" by (simp add: crem_def)
  also have "\<dots> mod 36 = (36 - (- x)) mod 36" by (simp only: mod_diff_right_eq)
  finally show ?thesis by simp
qed (simp add: crem_def)

lemma crem_range: "- 36 < crem x 36" "crem x 36 < 36"
  by (auto simp: crem_def intro: order.strict_trans1 [of _ 0])

lemma crem_twice [simp]: "crem (crem x 36 + 36) 36 = x mod 36"
  using crem_add [of x] crem_range [of x] by (simp add: crem_def [of "crem x 36 + 36"])

lemma of_char_small: "n < 256 \<Longrightarrow> of_char (char_of n) = (n::nat)"
  by (simp add: of_char_of)

lemma get_A_val_char: "get_A_val (get_A_char v) = v mod 36"
proof -
  have "0 \<le> v mod 36" "v mod 36 < 36" by simp_all
  then show ?thesis
    by (auto simp: get_A_char_def get_A_val_def Let_def of_char_small)
qed

lemma get_A_char_cases:
  "0 \<le> v \<Longrightarrow> v < 26 \<Longrightarrow> get_A_char v = char_of (97 + nat v)"
  "26 \<le> v \<Longrightarrow> v < 36 \<Longrightarrow> get_A_char v = char_of (48 + nat (v - 26))"
  by (simp_all add: get_A_char_def)

lemma get_A_char_val: "c \<in> alphabet \<Longrightarrow> get_A_char (get_A_val c) = c"
proof -
  assume "c \<in> alphabet"
  then consider "97 \<le> (of_char c :: nat)" "(of_char c :: nat) \<le> 122" | "48 \<le> (of_char c :: nat)" "(of_char c :: nat) \<le> 57"
    by (auto simp: alphabet_def)
  then show ?thesis
  proof cases
    case 1
    then have "97 + nat (int (of_char c) - 97) = (of_char c :: nat)" by simp
    moreover have "get_A_val c = int (of_char c) - 97" using 1 by (simp add: get_A_val_def)
    ultimately show ?thesis using 1 get_A_char_cases(1) [of "get_A_val c"] by simp
  next
    case 2
    then have "48 + nat (int (of_char c) - 48) = (of_char c :: nat)" by simp
    moreover have "get_A_val c = int (of_char c) - 48 + 26" using 2 by (simp add: get_A_val_def)
    ultimately show ?thesis using 2 get_A_char_cases(2) [of "get_A_val c"] by simp
  qed
qed

lemma get_A_val_range: "0 \<le> get_A_val c" "get_A_val c < 36"
  by (auto simp: get_A_val_def Let_def)

lemma get_A_char_mod: "get_A_char (v mod 36) = get_A_char v"
  by (simp add: get_A_char_def)

lemma length_key [simp]: "length (key_of idx) = 4"
  by (simp add: key_of_def Let_def)

text \<open>The matrix of a key, its inverse, and the one matrix that has none.\<close>

lemma hill_cases:
  obtains "hill_of k = (1, 2, 3, 5)" | "hill_of k = (5, 6, 17, 3)" | "hill_of k = (3, 5, 1, 2)"
    | "hill_of k = (7, 8, 11, 11)" | "hill_of k = (5, 4, 3, 7)" | "hill_of k = (9, 4, 5, 7)"
proof -
  have nn: "0 \<le> sum_list (map get_A_val k)" by (rule sum_list_nonneg) (auto simp: get_A_val_range)
  have "nat (crem (sum_list (map get_A_val k)) 6) < 6" using nn by (simp add: crem_def nat_less_iff)
  then have "hill_of k \<in> set HILL" unfolding hill_of_def by (intro nth_mem) (simp add: HILL_def)
  then show ?thesis using that by (auto simp: HILL_def)
qed

lemma modInverse_values:
  "modInverse 35 36 = 35" "modInverse 21 36 = - 1" "modInverse 1 36 = 1" "modInverse 25 36 = 13"
  "modInverse 23 36 = 11" "modInverse 7 36 = 31"
  by code_simp+

lemma inverse_matrix:
  assumes "det_inv k \<noteq> - 1" "hill_of k = (m00, m01, m10, m11)" "inv_mat k = (v00, v01, v10, v11)"
  shows "(v00 * m00 + v01 * m10) mod 36 = 1 \<and> (v00 * m01 + v01 * m11) mod 36 = 0 \<and>
      (v10 * m00 + v11 * m10) mod 36 = 0 \<and> (v10 * m01 + v11 * m11) mod 36 = 1"
    and "(m00 * v00 + m01 * v10) mod 36 = 1 \<and> (m00 * v01 + m01 * v11) mod 36 = 0 \<and>
      (m10 * v00 + m11 * v10) mod 36 = 0 \<and> (m10 * v01 + m11 * v11) mod 36 = 1"
  by (rule hill_cases [of k];
      use assms in \<open>auto simp: inv_mat_def det_inv_def Let_def crem_def modInverse_values split: if_splits\<close>)+

lemma solve_row:
  fixes a b :: int
  assumes "(r0 * m00 + r1 * m10) mod 36 = x" "(r0 * m01 + r1 * m11) mod 36 = y"
  shows "(r0 * ((m00 * a + m01 * b) mod 36) + r1 * ((m10 * a + m11 * b) mod 36)) mod 36 = (x * a + y * b) mod 36"
proof -
  have "(r0 * ((m00 * a + m01 * b) mod 36) + r1 * ((m10 * a + m11 * b) mod 36)) mod 36 =
      (r0 * (m00 * a + m01 * b) + r1 * (m10 * a + m11 * b)) mod 36"
    by (intro mod_add_cong mod_mult_right_eq)
  also have "r0 * (m00 * a + m01 * b) + r1 * (m10 * a + m11 * b) = (r0 * m00 + r1 * m10) * a + (r0 * m01 + r1 * m11) * b"
    by (simp add: algebra_simps)
  also have "\<dots> mod 36 = (x * a + y * b) mod 36"
    unfolding assms [symmetric] by (intro mod_add_cong mod_mult_left_eq [symmetric])
  finally show ?thesis .
qed

lemma get_A_char_alphabet: "get_A_char v \<in> alphabet"
proof -
  have "0 \<le> v mod 36" "v mod 36 < 36" by simp_all
  then show ?thesis by (auto simp: get_A_char_def alphabet_def Let_def of_char_small)
qed

lemma get_A_char_eq_iff: "get_A_char v = c \<longleftrightarrow> c \<in> alphabet \<and> v mod 36 = get_A_val c"
proof
  assume "get_A_char v = c"
  then show "c \<in> alphabet \<and> v mod 36 = get_A_val c" using get_A_char_alphabet [of v] get_A_val_char [of v] by simp
next
  assume "c \<in> alphabet \<and> v mod 36 = get_A_val c"
  then show "get_A_char v = c" using get_A_char_val get_A_char_mod by metis
qed

text \<open>A linear system over the integers modulo 36 with an invertible matrix.\<close>

lemma solve_pair:
  assumes "det_inv k \<noteq> - 1" "hill_of k = (m00, m01, m10, m11)" "inv_mat k = (v00, v01, v10, v11)"
    and "0 \<le> a" "a < 36" "0 \<le> b" "b < 36" "0 \<le> x" "x < 36" "0 \<le> y" "y < 36"
  shows "(v00 * x + v01 * y) mod 36 = a \<and> (v10 * x + v11 * y) mod 36 = b \<longleftrightarrow>
    (m00 * a + m01 * b) mod 36 = x \<and> (m10 * a + m11 * b) mod 36 = y" (is "?L \<longleftrightarrow> ?R")
proof
  note inv = inverse_matrix(2) [OF assms(1-3)]
  assume ?L
  then show ?R using solve_row [of m00 v00 m01 v10 1 v01 v11 0 x y] solve_row [of m10 v00 m11 v10 0 v01 v11 1 x y] inv assms(4-)
    by auto
next
  note inv = inverse_matrix(1) [OF assms(1-3)]
  assume ?R
  then show ?L using solve_row [of v00 m00 v01 m10 1 m01 m11 0 a b] solve_row [of v10 m00 v11 m10 0 m01 m11 1 a b] inv assms(4-)
    by auto
qed

lemma unshift:
  assumes "0 \<le> h" "h < 36" "0 \<le> v" "v < 36" "0 \<le> y" "y < (36::int)"
  shows "crem (h - y + 36) 36 mod 36 = v \<longleftrightarrow> (v + y) mod 36 = h"
proof -
  have "crem (h - y + 36) 36 mod 36 = (h - y) mod 36" using assms by (simp add: crem_def)
  also have "\<dots> = v \<longleftrightarrow> (v + y) mod 36 = h"
  proof
    assume "(h - y) mod 36 = v"
    then show "(v + y) mod 36 = h" using assms by (auto simp: mod_simps)
  next
    assume "(v + y) mod 36 = h"
    then show "(h - y) mod 36 = v" using assms by (auto simp: mod_simps)
  qed
  finally show ?thesis .
qed

text \<open>Decrypting a pair gives exactly the pair that was encrypted.\<close>

lemma decrypt_pair_total:
  assumes "length k = 4" "i + 1 < length c" "inv_mat k = (v00, v01, v10, v11)"
  shows "decrypt_pair k c i = Inr
    [get_A_char (crem ((v00 * get_A_val (c ! i) + v01 * get_A_val (c ! (i + 1))) mod 36 - get_A_val (k ! (i mod 4)) + 36) 36),
     get_A_char (crem ((v10 * get_A_val (c ! i) + v11 * get_A_val (c ! (i + 1))) mod 36 - get_A_val (k ! ((i + 1) mod 4)) + 36) 36)]"
proof -
  have "i mod 4 < length k" "(i + 1) mod 4 < length k" using assms(1) by simp_all
  with assms(2,3) show ?thesis by (simp add: decrypt_pair_def Let_def)
qed

lemma decrypt_pair_iff:
  assumes k: "cipher_key k" and i: "i + 1 < length c" and c: "c ! i \<in> alphabet" "c ! (i + 1) \<in> alphabet"
  shows "decrypt_pair k c i = Inr [x, y] \<longleftrightarrow>
    x \<in> alphabet \<and> y \<in> alphabet \<and> encrypt_pair k i x y = [c ! i, c ! (i + 1)]"
proof -
  obtain m00 m01 m10 m11 where h: "hill_of k = (m00, m01, m10, m11)" by (cases "hill_of k") auto
  obtain v00 v01 v10 v11 where v: "inv_mat k = (v00, v01, v10, v11)" by (cases "inv_mat k") auto
  have k': "length k = 4" "det_inv k \<noteq> - 1" using k by (simp_all add: cipher_key_def)
  let ?ka = "get_A_val (k ! (i mod 4))" and ?kb = "get_A_val (k ! ((i + 1) mod 4))"
  let ?a = "(get_A_val x + ?ka) mod 36" and ?b = "(get_A_val y + ?kb) mod 36"
  let ?c = "get_A_val (c ! i)" and ?d = "get_A_val (c ! (i + 1))"
  have ranges: "0 \<le> z mod 36 \<and> z mod 36 < 36" for z :: int by simp
  let ?p = "(v00 * ?c + v01 * ?d) mod 36" and ?q = "(v10 * ?c + v11 * ?d) mod 36"
  have u1: "crem (?p - ?ka + 36) 36 mod 36 = get_A_val x \<longleftrightarrow> ?p = ?a"
    by (subst eq_commute [of ?p], rule unshift) (simp_all add: get_A_val_range)
  have u2: "crem (?q - ?kb + 36) 36 mod 36 = get_A_val y \<longleftrightarrow> ?q = ?b"
    by (subst eq_commute [of ?q], rule unshift) (simp_all add: get_A_val_range)
  have "decrypt_pair k c i = Inr [x, y] \<longleftrightarrow> x \<in> alphabet \<and> y \<in> alphabet \<and> ?p = ?a \<and> ?q = ?b"
    unfolding decrypt_pair_total [OF k'(1) i v] sum.inject list.inject get_A_char_eq_iff u1 u2 by blast
  also have "\<dots> \<longleftrightarrow> x \<in> alphabet \<and> y \<in> alphabet \<and> (m00 * ?a + m01 * ?b) mod 36 = ?c \<and> (m10 * ?a + m11 * ?b) mod 36 = ?d"
    using solve_pair [OF k'(2) h v conjunct1 [OF ranges] conjunct2 [OF ranges] conjunct1 [OF ranges] conjunct2 [OF ranges]
      get_A_val_range get_A_val_range] by blast
  finally show ?thesis using c by (simp add: encrypt_pair_def h Let_def get_A_char_eq_iff)
qed

text \<open>A text of twelve characters as six pairs.\<close>

definition pairs :: "nat list" where "pairs = [0, 2, 4, 6, 8, 10]"

lemma length_12:
  assumes "length c = 12"
  obtains c0 c1 c2 c3 c4 c5 c6 c7 c8 c9 c10 c11 where "c = [c0, c1, c2, c3, c4, c5, c6, c7, c8, c9, c10, c11]"
  using assms by (auto simp: numeral_eq_Suc length_Suc_conv)

lemma concat_pairs:
  assumes "length c = 12" "\<And>i. i \<in> set pairs \<Longrightarrow> length (f i) = 2"
  shows "concat (map f pairs) = c \<longleftrightarrow> (\<forall>i \<in> set pairs. f i = [c ! i, c ! (i + 1)])"
proof -
  have "f i = [f i ! 0, f i ! 1]" if "i \<in> set pairs" for i
    using assms(2) [OF that] by (auto simp: numeral_eq_Suc length_Suc_conv)
  then obtain g h where gh: "\<And>i. i \<in> set pairs \<Longrightarrow> f i = [g i, h i]" by meson
  then have "concat (map f pairs) = concat (map (\<lambda>i. [g i, h i]) pairs)" by (intro arg_cong [where f = concat] map_cong refl)
  moreover have "concat (map (\<lambda>i. [g i, h i]) pairs) = c \<longleftrightarrow> (\<forall>i \<in> set pairs. [g i, h i] = [c ! i, c ! (i + 1)])"
    using assms(1) by (elim length_12) (simp add: pairs_def)
  ultimately show ?thesis using gh by simp
qed

lemma all_pairs:
  assumes "length c = 12"
  shows "(\<forall>x \<in> set c. P x) \<longleftrightarrow> (\<forall>i \<in> set pairs. P (c ! i) \<and> P (c ! (i + 1)))"
  using assms by (elim length_12) (simp add: pairs_def)

lemma pairs_bound: "i \<in> set pairs \<Longrightarrow> i + 1 < 12"
  by (auto simp: pairs_def)

lemma encrypt_iff:
  assumes "length c = 12"
  shows "encrypt k p = c \<longleftrightarrow> (\<forall>i \<in> set pairs. encrypt_pair k i (p ! i) (p ! (i + 1)) = [rev c ! i, rev c ! (i + 1)])"
proof -
  have "encrypt k p = c \<longleftrightarrow> concat (map (\<lambda>i. encrypt_pair k i (p ! i) (p ! (i + 1))) pairs) = rev c"
    by (simp only: encrypt_def pairs_def rev_swap)
  also have "\<dots> \<longleftrightarrow> (\<forall>i \<in> set pairs. encrypt_pair k i (p ! i) (p ! (i + 1)) = [rev c ! i, rev c ! (i + 1)])"
    by (rule concat_pairs) (use assms in \<open>simp_all add: encrypt_pair_def Let_def split: prod.splits\<close>)
  finally show ?thesis .
qed

text \<open>A thread reads its text reversed and returns.\<close>

definition decryption :: "string \<Rightarrow> string \<Rightarrow> string" where
  "decryption k c2 = concat (map (\<lambda>i. projr (decrypt_pair k (rev c2) i)) pairs)"

lemma decrypt_pair_two:
  assumes "length k = 4" "length c = 12" "i \<in> set pairs"
  shows "\<exists>x y. decrypt_pair k c i = Inr [x, y]"
proof -
  obtain v00 v01 v10 v11 where "inv_mat k = (v00, v01, v10, v11)" by (cases "inv_mat k") auto
  with decrypt_pair_total [OF assms(1)] pairs_bound [OF assms(3)] assms(2) show ?thesis by simp
qed

lemma try_key_decryption:
  assumes "length c2 = 12" "idx < TOTAL_KEYS" "det_inv (key_of idx) \<noteq> - 1"
  shows "try_key c2 idx = Inr (if take 4 (decryption (key_of idx) c2) = ''book''
    then Some (key_of idx, decryption (key_of idx) c2) else None)"
proof -
  have "seqc (map (\<lambda>i. ld c2 (11 - i)) [0..<12]) = Inr (map (\<lambda>i. c2 ! (11 - i)) [0..<12])"
    by (rule seqc_Inr) (use assms(1) in simp)
  moreover have "map (\<lambda>i. c2 ! (11 - i)) [0..<12] = rev c2"
    using assms(1) by (intro nth_equalityI) (auto simp: rev_nth)
  moreover have "seqc (map (decrypt_pair (key_of idx) (rev c2)) pairs) = Inr (map (\<lambda>i. projr (decrypt_pair (key_of idx) (rev c2) i)) pairs)"
    by (rule seqc_Inr) (use assms(1) decrypt_pair_two [of "key_of idx" "rev c2"] in fastforce)
  ultimately show ?thesis using assms(2,3) by (simp add: try_key_def decryption_def Let_def pairs_def)
qed

lemma decryption_iff:
  assumes k: "cipher_key k" and c: "cipher_text c2"
  shows "decryption k c2 = p \<longleftrightarrow> cipher_text p \<and> encrypt k p = c2"
proof -
  let ?d = "\<lambda>i. projr (decrypt_pair k (rev c2) i)"
  have len: "length c2 = 12" "length (rev c2) = 12" "length k = 4" using k c by (auto simp: cipher_text_def cipher_key_def)
  have two: "decrypt_pair k (rev c2) i = Inr (?d i) \<and> length (?d i) = 2" if "i \<in> set pairs" for i
    using decrypt_pair_two [OF len(3,2) that] by auto
  have "length (decryption k c2) = 12" unfolding decryption_def using two by (simp add: pairs_def)
  then have "decryption k c2 = p \<longleftrightarrow> length p = 12 \<and> decryption k c2 = p" by auto
  also have "\<dots> \<longleftrightarrow> length p = 12 \<and> (\<forall>i \<in> set pairs. ?d i = [p ! i, p ! (i + 1)])"
    unfolding decryption_def using concat_pairs [of p ?d] two by (intro conj_cong refl) simp
  also have "\<dots> \<longleftrightarrow> length p = 12 \<and> (\<forall>i \<in> set pairs. decrypt_pair k (rev c2) i = Inr [p ! i, p ! (i + 1)])"
    by (intro conj_cong ball_cong refl) (metis two sum.inject(2))
  also have "\<dots> \<longleftrightarrow> length p = 12 \<and> (\<forall>i \<in> set pairs. p ! i \<in> alphabet \<and> p ! (i + 1) \<in> alphabet \<and>
      encrypt_pair k i (p ! i) (p ! (i + 1)) = [rev c2 ! i, rev c2 ! (i + 1)])"
  proof -
    have "rev c2 ! i \<in> alphabet" if "i < 12" for i
      using that c len nth_mem [of i "rev c2"] by (auto simp: cipher_text_def)
    then show ?thesis
      by (intro conj_cong ball_cong refl decrypt_pair_iff [OF k]) (use pairs_bound len in fastforce)+
  qed
  also have "\<dots> \<longleftrightarrow> cipher_text p \<and> encrypt k p = c2"
    using all_pairs [of p "\<lambda>x. x \<in> alphabet"] by (auto simp: cipher_text_def encrypt_iff [OF len(1)])
  finally show ?thesis .
qed

text \<open>The keys of the threads are all strings of four characters.\<close>

lemma key_of_alphabet: "set (key_of idx) \<subseteq> alphabet"
  by (simp add: key_of_def Let_def get_A_char_alphabet)

lemma key_of_surj:
  assumes "length k = 4" "set k \<subseteq> alphabet"
  obtains idx where "idx < TOTAL_KEYS" "key_of idx = k"
proof -
  obtain a b c d where k: "k = [a, b, c, d]" using assms(1) by (auto simp: numeral_eq_Suc length_Suc_conv)
  define v where "v x = nat (get_A_val x)" for x
  have v: "v x < 36" "get_A_char (int (v x)) = x" if "x \<in> alphabet" for x
    using that get_A_val_range [of x] get_A_char_val [of x] by (simp_all add: v_def)
  let ?idx = "((v a * 36 + v b) * 36 + v c) * 36 + v d"
  have abcd: "a \<in> alphabet" "b \<in> alphabet" "c \<in> alphabet" "d \<in> alphabet" using assms(2) k by auto
  note less = abcd [THEN v(1)]
  have digit: "(x * 36 + y) mod 36 = y" "(x * 36 + y) div 36 = x" if "y < 36" for x y :: nat using that by simp_all
  have "key_of ?idx = k"
    unfolding key_of_def Let_def k by (simp only: digit [OF less(4)] digit [OF less(3)] digit [OF less(2)] mod_less [OF less(1)] abcd [THEN v(2)])
  moreover have "?idx < TOTAL_KEYS" using less by (simp add: TOTAL_KEYS_def)
  ultimately show ?thesis using that by blast
qed

lemma try_key_iff:
  assumes "cipher_text c2"
  shows "\<exists>r. try_key c2 idx = Inr r"
    and "try_key c2 idx = Inr (Some (k, p)) \<longleftrightarrow> idx < TOTAL_KEYS \<and> k = key_of idx \<and> cipher_key k \<and>
      cipher_text p \<and> take 4 p = ''book'' \<and> encrypt k p = c2"
proof -
  have c: "length c2 = 12" using assms by (simp add: cipher_text_def)
  have key: "cipher_key (key_of idx) \<longleftrightarrow> det_inv (key_of idx) \<noteq> - 1" by (simp add: cipher_key_def key_of_alphabet)
  have out: "try_key c2 idx = Inr None" if "TOTAL_KEYS \<le> idx \<or> det_inv (key_of idx) = - 1"
    using that by (auto simp: try_key_def Let_def)
  show "\<exists>r. try_key c2 idx = Inr r"
    using try_key_decryption [OF c] out by (cases "TOTAL_KEYS \<le> idx \<or> det_inv (key_of idx) = - 1") auto
  show "try_key c2 idx = Inr (Some (k, p)) \<longleftrightarrow> idx < TOTAL_KEYS \<and> k = key_of idx \<and> cipher_key k \<and>
      cipher_text p \<and> take 4 p = ''book'' \<and> encrypt k p = c2"
  proof (cases "TOTAL_KEYS \<le> idx \<or> det_inv (key_of idx) = - 1")
    case True
    with out key show ?thesis by auto
  next
    case False
    with key have ck: "cipher_key (key_of idx)" by simp
    from False try_key_decryption [OF c] have "try_key c2 idx = Inr (Some (k, p)) \<longleftrightarrow>
        k = key_of idx \<and> decryption (key_of idx) c2 = p \<and> take 4 p = ''book''" by auto
    with False ck decryption_iff [OF ck assms] show ?thesis by auto
  qed
qed

text \<open>The solutions of a ciphertext, and the threads that find them.\<close>

definition solution :: "string \<Rightarrow> string \<times> string \<Rightarrow> bool" where
  "solution c2 kp \<longleftrightarrow> cipher_key (fst kp) \<and> cipher_text (snd kp) \<and> take 4 (snd kp) = ''book'' \<and> encrypt (fst kp) (snd kp) = c2"

lemma candidates_solutions:
  assumes "cipher_text c2"
  obtains cs where "candidates c2 = Inr cs" "set cs = {kp. solution c2 kp}"
proof -
  let ?ts = "[0..<blocksPerGrid * threadsPerBlock]" and ?r = "\<lambda>idx. projr (try_key c2 idx)"
  have total: "try_key c2 idx = Inr (?r idx)" for idx using try_key_iff(1) [OF assms, of idx] by auto
  have "candidates c2 = Inr (List.map_filter id (map ?r ?ts))"
    unfolding candidates_def by (subst seqc_Inr [where g = ?r]) (use total in simp_all)
  moreover have "set (List.map_filter id (map ?r ?ts)) = {kp. solution c2 kp}"
  proof (intro set_eqI iffI)
    fix kp assume "kp \<in> set (List.map_filter id (map ?r ?ts))"
    then obtain idx where "try_key c2 idx = Inr (Some (fst kp, snd kp))"
      using total by (auto simp: map_filter_def) metis
    then show "kp \<in> {kp. solution c2 kp}" unfolding try_key_iff(2) [OF assms] by (auto simp: solution_def)
  next
    fix kp assume "kp \<in> {kp. solution c2 kp}"
    then have s: "solution c2 kp" by simp
    then obtain idx where idx: "idx < TOTAL_KEYS" "key_of idx = fst kp"
      using key_of_surj [of "fst kp"] by (auto simp: solution_def cipher_key_def)
    with s have "try_key c2 idx = Inr (Some (fst kp, snd kp))" unfolding try_key_iff(2) [OF assms] by (simp add: solution_def)
    moreover have "idx \<in> set ?ts" using idx(1) by (simp add: blocksPerGrid_def threadsPerBlock_def TOTAL_KEYS_def)
    ultimately show "kp \<in> set (List.map_filter id (map ?r ?ts))"
      by (auto simp: map_filter_def image_iff intro!: exI [of _ "Some kp"] bexI [of _ idx])
  qed
  ultimately show ?thesis using that by blast
qed

lemma fold_claim:
  assumes "d_found s = 0"
  shows "fold claim cs s = (case cs of [] \<Rightarrow> s | kp # _ \<Rightarrow> \<lparr>d_found = 1, d_result_key = fst kp, d_result_pt = snd kp\<rparr>)"
proof -
  have "fold claim cs \<lparr>d_found = 1, d_result_key = k, d_result_pt = p\<rparr> = \<lparr>d_found = 1, d_result_key = k, d_result_pt = p\<rparr>" for cs k p
    by (induction cs) (simp_all add: claim_def)
  with assms show ?thesis by (cases cs) (simp_all add: claim_def)
qed



end
