(* ===== verification/Cuda_Streams.thy ===== *)
theory Cuda_Streams
  imports Complex_Main Prelude Cuda_Launch
begin

section \<open>Streams: copies and kernels that run beside the host\<close>

text \<open>
  The programs \<open>async.cu\<close>, \<open>block_stream.cu\<close>, \<open>block_stream1.cu\<close>, \<open>nonblock_stream.cu\<close>, \<open>nonblock_stream1.cu\<close> and
  \<open>DynamicParallelism3.cu\<close> of \<open>src/CUDA_sample\<close> issue copies and kernels into streams, and the four programs of
  \<open>CUDA-Memory-Access-Pattern\<close> do the same with one stream.  The host issues operations and waits; the device
  works on the elements of the issued operations in any order the streams allow: an operation starts when
  the earlier ones it is ordered after are complete.  Operations of one stream are ordered, and the default stream is
  ordered with every stream but one created with \<open>cudaStreamNonBlocking\<close>.  All arrays of a program have the same length and
  every operation works element by element, so memory is kept by index: \<open>m i x\<close> is element \<open>i\<close> of array \<open>x\<close>.
\<close>

datatype strm = Default | Stream nat
datatype arr = HostIn | HostOut | Device

datatype 'a kind = Copy arr arr | Kern arr "nat \<Rightarrow> 'a \<Rightarrow> 'a"

type_synonym 'a columns = "nat \<Rightarrow> arr \<Rightarrow> 'a"

record 'a gop =
  on :: strm
  kind :: "'a kind"
  rest :: "nat list"

datatype 'a host_op = SetAll arr "nat \<Rightarrow> 'a" | Issue strm "'a kind" "nat list" | Sync | DeviceSync | Print arr "'a list \<Rightarrow> 'a list"

record 'a dsys =
  mem :: "'a columns"
  issued :: "'a gop list"
  host_todo :: "'a host_op list"
  shown :: "'a list list"

definition ordered :: "bool \<Rightarrow> strm \<Rightarrow> strm \<Rightarrow> bool" where
  "ordered blocking s t \<longleftrightarrow> s = t \<or> blocking \<and> (s = Default \<or> t = Default)"

fun act :: "'a kind \<Rightarrow> nat \<Rightarrow> (arr \<Rightarrow> 'a) \<Rightarrow> arr \<Rightarrow> 'a" where
  "act (Copy dst src) i col = col(dst := col src)"
| "act (Kern x f) i col = col(x := f i (col x))"

definition cell :: "'a kind \<Rightarrow> nat \<Rightarrow> 'a columns \<Rightarrow> 'a columns" where
  "cell k i m = m(i := act k i (m i))"

definition set_all :: "nat \<Rightarrow> arr \<Rightarrow> (nat \<Rightarrow> 'a) \<Rightarrow> 'a columns \<Rightarrow> 'a columns" where
  "set_all n x g m = (\<lambda>i. if i < n then (m i)(x := g i) else m i)"

definition contents :: "nat \<Rightarrow> arr \<Rightarrow> 'a columns \<Rightarrow> 'a list" where
  "contents n x m = map (\<lambda>i. m i x) [0..<n]"

text \<open>A step of the device: element \<open>i\<close> of operation \<open>k\<close>.  A step of the host: its next call.\<close>

datatype gact = Host | Cell nat nat

definition may_start :: "bool \<Rightarrow> nat \<Rightarrow> 'a gop list \<Rightarrow> bool" where
  "may_start b k l \<longleftrightarrow> k < length l \<and> list_all (\<lambda>g. ordered b (on g) (on (l ! k)) \<longrightarrow> rest g = []) (take k l)"

definition device_step :: "bool \<Rightarrow> nat \<Rightarrow> nat \<Rightarrow> 'a dsys \<Rightarrow> 'a dsys option" where
  "device_step b k i s =
     (if may_start b k (issued s) \<and> i \<in> set (rest (issued s ! k))
      then Some (s\<lparr>mem := cell (kind (issued s ! k)) i (mem s),
             issued := (issued s)[k := (issued s ! k)\<lparr>rest := remove1 i (rest (issued s ! k))\<rparr>]\<rparr>)
      else None)"

definition host_step :: "bool \<Rightarrow> nat \<Rightarrow> 'a dsys \<Rightarrow> 'a dsys option" where
  "host_step b n s =
     (case host_todo s of
        [] \<Rightarrow> None
      | SetAll x g # t \<Rightarrow> Some (s\<lparr>host_todo := t, mem := set_all n x g (mem s)\<rparr>)
      | Issue st k c # t \<Rightarrow> Some (s\<lparr>host_todo := t, issued := issued s @ [\<lparr>on = st, kind = k, rest = c\<rparr>]\<rparr>)
      | Sync # t \<Rightarrow> if list_all (\<lambda>g. ordered b (on g) Default \<longrightarrow> rest g = []) (issued s) then Some (s\<lparr>host_todo := t\<rparr>) else None
      | DeviceSync # t \<Rightarrow> if list_all (\<lambda>g. rest g = []) (issued s) then Some (s\<lparr>host_todo := t\<rparr>) else None
      | Print x f # t \<Rightarrow> Some (s\<lparr>host_todo := t, shown := shown s @ [f (contents n x (mem s))]\<rparr>))"

definition gpu_step :: "bool \<Rightarrow> nat \<Rightarrow> gact \<Rightarrow> 'a dsys \<Rightarrow> 'a dsys option" where
  "gpu_step b n a s = (case a of Host \<Rightarrow> host_step b n s | Cell k i \<Rightarrow> device_step b k i s)"

definition gpu_init :: "'a host_op list \<Rightarrow> 'a columns \<Rightarrow> 'a dsys" where
  "gpu_init ops m = \<lparr>mem = m, issued = [], host_todo = ops, shown = []\<rparr>"

subsection \<open>Programs without races are sequential\<close>

text \<open>What a host program prints when each operation is complete as soon as it is issued.\<close>

fun seq_prints :: "nat \<Rightarrow> 'a host_op list \<Rightarrow> 'a columns \<Rightarrow> 'a list list" where
  "seq_prints n [] m = []"
| "seq_prints n (SetAll x g # t) m = seq_prints n t (set_all n x g m)"
| "seq_prints n (Issue s k c # t) m = seq_prints n t (fold (cell k) c m)"
| "seq_prints n (Sync # t) m = seq_prints n t m"
| "seq_prints n (DeviceSync # t) m = seq_prints n t m"
| "seq_prints n (Print x f # t) m = f (contents n x m) # seq_prints n t m"

text \<open>
  The check of a host program: \<open>P\<close> holds the operations that may still be under way.  An operation
  must be ordered after those on its elements, and the host touches memory only when
  nothing is under way.
\<close>

fun race_free :: "bool \<Rightarrow> nat \<Rightarrow> (strm \<times> nat set) list \<Rightarrow> 'a host_op list \<Rightarrow> bool" where
  "race_free b n P [] \<longleftrightarrow> True"
| "race_free b n P (SetAll x g # t) \<longleftrightarrow> P = [] \<and> race_free b n P t"
| "race_free b n P (Issue s k c # t) \<longleftrightarrow> distinct c \<and> set c \<subseteq> {..<n} \<and>
     list_all (\<lambda>(s', d). ordered b s' s \<or> d \<inter> set c = {}) P \<and> race_free b n (P @ [(s, set c)]) t"
| "race_free b n P (Sync # t) \<longleftrightarrow> race_free b n (filter (\<lambda>(s, d). \<not> ordered b s Default) P) t"
| "race_free b n P (DeviceSync # t) \<longleftrightarrow> race_free b n [] t"
| "race_free b n P (Print x f # t) \<longleftrightarrow> P = [] \<and> race_free b n P t"

definition complete :: "'a gop list \<Rightarrow> 'a columns \<Rightarrow> 'a columns" where
  "complete = fold (\<lambda>g. fold (cell (kind g)) (rest g))"

lemma cell_commute: "i \<noteq> j \<Longrightarrow> cell k i (cell k' j m) = cell k' j (cell k i m)"
  by (auto simp: cell_def fun_eq_iff)

lemma fold_cell_commute: "i \<notin> set c \<Longrightarrow> fold (cell k') c (cell k i m) = cell k i (fold (cell k') c m)"
proof (induction c arbitrary: m)
  case (Cons j c)
  then show ?case using cell_commute [of i j k k' m, symmetric] by simp
qed simp

lemma fold_cell_remove1: "distinct c \<Longrightarrow> i \<in> set c \<Longrightarrow> fold (cell k) (remove1 i c) (cell k i m) = fold (cell k) c m"
proof (induction c arbitrary: m)
  case (Cons j c)
  show ?case
  proof (cases "i = j")
    case False
    then have "cell k j (cell k i m) = cell k i (cell k j m)" by (rule cell_commute [symmetric])
    with Cons False show ?thesis by simp
  qed simp
qed simp

lemma fold_cell: "distinct c \<Longrightarrow> fold (cell k) c m = (\<lambda>i. if i \<in> set c then act k i (m i) else m i)"
  by (induction c arbitrary: m) (auto simp: cell_def fun_eq_iff)

lemma complete_cell:
  assumes "k < length l" "i \<in> set (rest (l ! k))" "distinct (rest (l ! k))" "\<forall>j < k. i \<notin> set (rest (l ! j))"
  shows "complete (l[k := (l ! k)\<lparr>rest := remove1 i (rest (l ! k))\<rparr>]) (cell (kind (l ! k)) i m) = complete l m"
  using assms
proof (induction l arbitrary: k m)
  case (Cons g l)
  show ?case
  proof (cases k)
    case 0
    with Cons.prems show ?thesis by (simp add: complete_def fold_cell_remove1)
  next
    case (Suc k')
    have "i \<notin> set (rest g)" "\<forall>j < k'. i \<notin> set (rest (l ! j))" using Cons.prems(4) Suc by force+
    with Cons Suc show ?thesis by (simp add: complete_def fold_cell_commute)
  qed
qed simp

lemma complete_done: "list_all (\<lambda>g. rest g = []) l \<Longrightarrow> complete l m = m"
  by (induction l arbitrary: m) (simp_all add: complete_def)

lemma complete_issue: "complete (l @ [g]) m = fold (cell (kind g)) (rest g) (complete l m)"
  by (simp add: complete_def)

text \<open>The invariant: what is under way is covered by the check, and completing it gives what the program prints.\<close>

definition covered :: "(strm \<times> nat set) list \<Rightarrow> 'a gop list \<Rightarrow> bool" where
  "covered P l \<longleftrightarrow> (\<forall>g \<in> set l. rest g = [] \<or> (\<exists>d. (on g, d) \<in> set P \<and> set (rest g) \<subseteq> d))"

definition unordered_disjoint :: "bool \<Rightarrow> 'a gop list \<Rightarrow> bool" where
  "unordered_disjoint b l \<longleftrightarrow>
     (\<forall>k < length l. distinct (rest (l ! k)) \<and> (\<forall>j < k. ordered b (on (l ! j)) (on (l ! k)) \<or> set (rest (l ! j)) \<inter> set (rest (l ! k)) = {}))"

definition gpu_inv :: "bool \<Rightarrow> nat \<Rightarrow> 'a list list \<Rightarrow> 'a dsys \<Rightarrow> bool" where
  "gpu_inv b n expected s \<longleftrightarrow> unordered_disjoint b (issued s) \<and>
     (\<exists>P. covered P (issued s) \<and> race_free b n P (host_todo s)) \<and>
     shown s @ seq_prints n (host_todo s) (complete (issued s) (mem s)) = expected"

lemma covered_Nil: "covered [] l \<longleftrightarrow> list_all (\<lambda>g. rest g = []) l"
  by (auto simp: covered_def list_all_iff)

lemma device_step_inv:
  assumes "gpu_inv b n e s" "device_step b k i s = Some s'"
  shows "gpu_inv b n e s'"
proof -
  let ?l = "issued s" and ?g = "(issued s ! k)\<lparr>rest := remove1 i (rest (issued s ! k))\<rparr>"
  from assms(2) have k: "k < length ?l" "\<forall>j < k. ordered b (on (?l ! j)) (on (?l ! k)) \<longrightarrow> rest (?l ! j) = []" "i \<in> set (rest (?l ! k))"
    and s': "s' = s\<lparr>mem := cell (kind (?l ! k)) i (mem s), issued := ?l[k := ?g]\<rparr>"
    by (auto simp: device_step_def may_start_def list_all_length split: if_splits)
  have u: "unordered_disjoint b ?l" using assms(1) by (simp add: gpu_inv_def)
  have free: "\<forall>j < k. i \<notin> set (rest (?l ! j))"
  proof (intro allI impI)
    fix j assume "j < k"
    then have "ordered b (on (?l ! j)) (on (?l ! k)) \<or> set (rest (?l ! j)) \<inter> set (rest (?l ! k)) = {}"
      using u k(1) by (simp add: unordered_disjoint_def)
    then show "i \<notin> set (rest (?l ! j))" using k(2,3) \<open>j < k\<close> by auto
  qed
  have d: "distinct (rest (?l ! k))" using u k(1) by (simp add: unordered_disjoint_def)
  have r: "set (rest (?l[k := ?g] ! j)) \<subseteq> set (rest (?l ! j))" "on (?l[k := ?g] ! j) = on (?l ! j)"
    "distinct (rest (?l ! j)) \<longrightarrow> distinct (rest (?l[k := ?g] ! j))" for j
    using k(1) set_remove1_subset [of i "rest (?l ! k)"] by (cases "j = k"; simp)+
  have "unordered_disjoint b (?l[k := ?g])"
    unfolding unordered_disjoint_def length_list_update
  proof (intro allI impI conjI)
    fix q assume q: "q < length ?l"
    then show "distinct (rest (?l[k := ?g] ! q))" using u r(3) by (simp add: unordered_disjoint_def)
    fix j assume "j < q"
    then have "ordered b (on (?l ! j)) (on (?l ! q)) \<or> set (rest (?l ! j)) \<inter> set (rest (?l ! q)) = {}"
      using u q by (simp add: unordered_disjoint_def)
    then show "ordered b (on (?l[k := ?g] ! j)) (on (?l[k := ?g] ! q)) \<or> set (rest (?l[k := ?g] ! j)) \<inter> set (rest (?l[k := ?g] ! q)) = {}"
      unfolding r(2) using r(1) [of j] r(1) [of q] by blast
  qed
  moreover have "covered P (?l[k := ?g])" if "covered P ?l" for P
  proof -
    have "rest g = [] \<or> (\<exists>d. (on g, d) \<in> set P \<and> set (rest g) \<subseteq> d)" if g: "g \<in> set (?l[k := ?g])" for g
    proof -
      obtain j where j: "j < length ?l" "?l[k := ?g] ! j = g" using g unfolding in_set_conv_nth length_list_update by blast
      then have "?l ! j \<in> set ?l" by simp
      with \<open>covered P ?l\<close> have "rest (?l ! j) = [] \<or> (\<exists>d. (on (?l ! j), d) \<in> set P \<and> set (rest (?l ! j)) \<subseteq> d)"
        unfolding covered_def by blast
      moreover have "set (rest g) \<subseteq> set (rest (?l ! j))" "on g = on (?l ! j)" using r(1,2) [of j] unfolding j(2) by simp_all
      ultimately show ?thesis by fastforce
    qed
    then show ?thesis by (simp add: covered_def)
  qed
  moreover have "complete (?l[k := ?g]) (cell (kind (?l ! k)) i (mem s)) = complete ?l (mem s)"
    by (rule complete_cell [OF k(1,3) d free])
  ultimately show ?thesis using assms(1) by (auto simp: gpu_inv_def s')
qed

lemma host_step_inv:
  assumes "gpu_inv b n e s" "host_step b n s = Some s'"
  shows "gpu_inv b n e s'"
proof -
  from assms(1) obtain P where P: "covered P (issued s)" "race_free b n P (host_todo s)" "unordered_disjoint b (issued s)"
    "shown s @ seq_prints n (host_todo s) (complete (issued s) (mem s)) = e"
    by (auto simp: gpu_inv_def)
  from assms(2) obtain h t where h: "host_todo s = h # t" by (cases "host_todo s") (auto simp: host_step_def)
  show ?thesis
  proof (cases h)
    case (SetAll x g)
    with P h have "P = []" by simp
    with P(1) have "complete (issued s) m = m" for m by (intro complete_done) (simp add: covered_Nil)
    then show ?thesis using assms(2) P h SetAll by (auto simp: gpu_inv_def host_step_def)
  next
    case (Print x f)
    with P h have "P = []" by simp
    with P(1) have "complete (issued s) m = m" for m by (intro complete_done) (simp add: covered_Nil)
    then show ?thesis using assms(2) P h Print by (auto simp: gpu_inv_def host_step_def)
  next
    case (Issue st k c)
    let ?l = "issued s @ [\<lparr>on = st, kind = k, rest = c\<rparr>]"
    have s': "s' = s\<lparr>host_todo := t, issued := ?l\<rparr>" using assms(2) h Issue by (simp add: host_step_def)
    have c: "distinct c" "list_all (\<lambda>(s', d). ordered b s' st \<or> d \<inter> set c = {}) P" "race_free b n (P @ [(st, set c)]) t"
      using P(2) h Issue by auto
    have "covered (P @ [(st, set c)]) ?l" using P(1) unfolding covered_def by fastforce
    moreover have "ordered b (on g) st \<or> set (rest g) \<inter> set c = {}" if "g \<in> set (issued s)" for g
    proof -
      consider "rest g = []" | d where "(on g, d) \<in> set P" "set (rest g) \<subseteq> d" using P(1) \<open>g \<in> set (issued s)\<close> unfolding covered_def by blast
      then show ?thesis
      proof cases
        case 2
        then have "ordered b (on g) st \<or> d \<inter> set c = {}" using c(2) unfolding list_all_iff by blast
        then show ?thesis using 2(2) by blast
      qed simp
    qed
    then have "unordered_disjoint b ?l"
      using P(3) c(1) by (auto simp: unordered_disjoint_def nth_append less_Suc_eq)
    ultimately show ?thesis using P(4) c(3) h Issue by (auto simp: gpu_inv_def s' complete_issue)
  next
    case Sync
    have "covered (filter (\<lambda>(s, d). \<not> ordered b s Default) P) (issued s)"
      using P(1) assms(2) h Sync by (auto simp: covered_def host_step_def list_all_iff split: if_splits)
    then show ?thesis using assms(2) P h Sync by (auto simp: gpu_inv_def host_step_def split: if_splits)
  next
    case DeviceSync
    have "covered [] (issued s)"
      using assms(2) h DeviceSync by (auto simp: covered_Nil host_step_def split: if_splits)
    then show ?thesis using assms(2) P h DeviceSync by (auto simp: gpu_inv_def host_step_def split: if_splits)
  qed
qed

subsection \<open>Every run ends\<close>

fun issue_size :: "'a host_op \<Rightarrow> nat" where
  "issue_size (Issue s k c) = length c"
| "issue_size _ = 0"

definition gpu_msr :: "'a dsys \<Rightarrow> nat" where
  "gpu_msr s = length (host_todo s) + sum_list (map issue_size (host_todo s)) + sum_list (map (\<lambda>g. length (rest g)) (issued s))"

lemma gpu_msr_step:
  assumes "gpu_step b n a s = Some s'"
  shows "gpu_msr s' < gpu_msr s"
proof (cases a)
  case Host
  with assms show ?thesis
    by (auto simp: gpu_step_def host_step_def gpu_msr_def split: list.splits host_op.splits if_splits)
next
  case (Cell k i)
  let ?l = "issued s" and ?g = "(issued s ! k)\<lparr>rest := remove1 i (rest (issued s ! k))\<rparr>"
  have k: "k < length ?l" "i \<in> set (rest (?l ! k))" and s': "issued s' = ?l[k := ?g]" "host_todo s' = host_todo s"
    using assms Cell by (auto simp: gpu_step_def device_step_def may_start_def split: if_splits)
  have "length (rest ?g) < length (rest (?l ! k))"
    using k(2) length_pos_if_in_set [OF k(2)] by (simp add: length_remove1)
  moreover have "map (\<lambda>g. length (rest g)) (?l[k := ?g]) = (map (\<lambda>g. length (rest g)) ?l)[k := length (rest ?g)]"
    by (simp add: map_update)
  ultimately have "sum_list (map (\<lambda>g. length (rest g)) (?l[k := ?g])) < sum_list (map (\<lambda>g. length (rest g)) ?l)"
    using k(1) elem_le_sum_list [of k "map (\<lambda>g. length (rest g)) ?l"] by (simp add: sum_list_update)
  then show ?thesis by (simp add: gpu_msr_def s')
qed

lemma gpu_progress:
  assumes "host_todo s \<noteq> []"
  shows "\<exists>a s'. gpu_step b n a s = Some s'"
proof (cases "list_all (\<lambda>g. rest g = []) (issued s)")
  case True
  then have "list_all (\<lambda>g. ordered b (on g) Default \<longrightarrow> rest g = []) (issued s)" by (simp add: list_all_iff)
  with True assms have "\<exists>s'. gpu_step b n Host s = Some s'"
    by (auto simp: gpu_step_def host_step_def split: list.splits host_op.splits)
  then show ?thesis by blast
next
  case False
  then have ex: "\<exists>k. k < length (issued s) \<and> rest (issued s ! k) \<noteq> []" by (auto simp: list_all_length)
  define k where "k = (LEAST k. k < length (issued s) \<and> rest (issued s ! k) \<noteq> [])"
  have k: "k < length (issued s)" "rest (issued s ! k) \<noteq> []" using LeastI_ex [OF ex] by (auto simp: k_def)
  have "j < k \<Longrightarrow> rest (issued s ! j) = []" for j
    using not_less_Least [of j "\<lambda>k. k < length (issued s) \<and> rest (issued s ! k) \<noteq> []"] k(1) unfolding k_def [symmetric] by fastforce
  then have "may_start b k (issued s)" using k(1) by (auto simp: may_start_def list_all_length)
  then have "\<exists>s'. gpu_step b n (Cell k (hd (rest (issued s ! k)))) s = Some s'"
    using k(2) by (simp add: gpu_step_def device_step_def)
  then show ?thesis by blast
qed

locale race_free_program =
  fixes b :: bool and n :: nat and ops :: "'a host_op list" and m :: "'a columns"
  assumes no_race: "race_free b n [] ops"

sublocale race_free_program \<subseteq> terminating_system "gpu_step b n" "gpu_init ops m" "gpu_inv b n (seq_prints n ops m)" gpu_msr
  "\<lambda>s. host_todo s = []"
proof
  show "gpu_inv b n (seq_prints n ops m) (gpu_init ops m)"
    using no_race by (auto simp: gpu_inv_def gpu_init_def unordered_disjoint_def covered_def complete_def)
  show "gpu_inv b n (seq_prints n ops m) t" if "gpu_inv b n (seq_prints n ops m) s" "gpu_step b n a s = Some t" for s t a
    using that device_step_inv host_step_inv by (cases a) (auto simp: gpu_step_def)
qed (rule gpu_msr_step gpu_progress; assumption)+

context race_free_program
begin

lemma prints:
  assumes "run (gpu_step b n) as (gpu_init ops m) = Some s"
  shows "(\<exists>more. shown s @ more = seq_prints n ops m)" "stuck (gpu_step b n) s \<Longrightarrow> host_todo s = [] \<and> shown s = seq_prints n ops m"
proof -
  have "gpu_inv b n (seq_prints n ops m) s" by (rule run_inv [OF assms])
  then have e: "shown s @ seq_prints n (host_todo s) (complete (issued s) (mem s)) = seq_prints n ops m" by (simp add: gpu_inv_def)
  then show "\<exists>more. shown s @ more = seq_prints n ops m" by blast
  show "host_todo s = [] \<and> shown s = seq_prints n ops m" if "stuck (gpu_step b n) s"
    using reachable_stuck_final [OF run_reachable [OF assms] that] e by simp
qed

lemma result:
  assumes "run (gpu_step b n) as (gpu_init ops m) = Some s" "seq_prints n ops m = replicate k x"
  shows "length as \<le> length ops + sum_list (map issue_size ops) \<and> (\<exists>j \<le> k. shown s = replicate j x) \<and>
    (stuck (gpu_step b n) s \<longrightarrow> host_todo s = [] \<and> shown s = replicate k x)"
proof -
  obtain more where "shown s @ more = replicate k x" using prints(1) [OF assms(1)] assms(2) by auto
  then have "length (shown s) \<le> k" "shown s = replicate (length (shown s)) x"
    by (metis length_append length_replicate le_add1, metis append_eq_conv_conj length_replicate take_replicate min.absorb1 length_append le_add1)
  then show ?thesis
    using run_bounded [OF assms(1)] prints(2) [OF assms(1)] assms(2) by (auto simp: gpu_msr_def gpu_init_def)
qed

end

subsection \<open>What a program leaves, element by element\<close>

fun host_col :: "nat \<Rightarrow> 'a host_op \<Rightarrow> (arr \<Rightarrow> 'a) \<Rightarrow> arr \<Rightarrow> 'a" where
  "host_col i (SetAll x g) c = c(x := g i)"
| "host_col i (Issue s k l) c = (if i \<in> set l then act k i c else c)"
| "host_col i _ c = c"

fun seq_mem :: "nat \<Rightarrow> 'a host_op \<Rightarrow> 'a columns \<Rightarrow> 'a columns" where
  "seq_mem n (SetAll x g) m = set_all n x g m"
| "seq_mem n (Issue s k c) m = fold (cell k) c m"
| "seq_mem n _ m = m"

fun distinct_cells :: "'a host_op \<Rightarrow> bool" where
  "distinct_cells (Issue s k c) \<longleftrightarrow> distinct c"
| "distinct_cells _ \<longleftrightarrow> True"

lemma seq_mem_col: "i < n \<Longrightarrow> distinct_cells h \<Longrightarrow> seq_mem n h m i = host_col i h (m i)"
  by (cases h) (auto simp: set_all_def fold_cell)

lemma seq_mems_col: "i < n \<Longrightarrow> list_all distinct_cells hs \<Longrightarrow> fold (seq_mem n) hs m i = fold (host_col i) hs (m i)"
  by (induction hs arbitrary: m) (simp_all add: seq_mem_col)

lemma seq_prints_append: "seq_prints n (xs @ ys) m = seq_prints n xs m @ seq_prints n ys (fold (seq_mem n) xs m)"
  by (induction n xs m rule: seq_prints.induct) simp_all

text \<open>What may still be under way after a part of a program.\<close>

fun under_way :: "bool \<Rightarrow> (strm \<times> nat set) list \<Rightarrow> 'a host_op list \<Rightarrow> (strm \<times> nat set) list" where
  "under_way b P [] = P"
| "under_way b P (Issue s k c # t) = under_way b (P @ [(s, set c)]) t"
| "under_way b P (Sync # t) = under_way b (filter (\<lambda>(s, d). \<not> ordered b s Default) P) t"
| "under_way b P (DeviceSync # t) = under_way b [] t"
| "under_way b P (h # t) = under_way b P t"

lemma race_free_append: "race_free b n P (xs @ ys) \<longleftrightarrow> race_free b n P xs \<and> race_free b n (under_way b P xs) ys"
  by (induction b P xs rule: under_way.induct) auto

lemma race_free_repeat:
  assumes "race_free b n [] xs" "under_way b [] xs = []"
  shows "race_free b n [] (concat (replicate k xs))" "under_way b [] (concat (replicate k xs) @ ys) = under_way b [] ys"
proof -
  have u: "under_way b [] (concat (replicate k xs) @ ys) = under_way b [] ys" for ys
  proof (induction k arbitrary: ys)
    case (Suc k)
    have a: "under_way b P (xs @ ys) = under_way b (under_way b P xs) ys" for P ys
      by (induction b P xs rule: under_way.induct) simp_all
    from Suc assms(2) show ?case by (simp add: a)
  qed simp
  then show "under_way b [] (concat (replicate k xs) @ ys) = under_way b [] ys" .
  show "race_free b n [] (concat (replicate k xs))"
    by (induction k) (simp_all add: race_free_append assms)
qed

end
