(* ===== verification/Stream_Programs.thy ===== *)
theory Stream_Programs
  imports Cuda_Streams
begin

section \<open>Programs that overlap transfers and kernels\<close>

text \<open>
  The host programs of \<open>async.cu\<close>, \<open>block_stream.cu\<close>, \<open>block_stream1.cu\<close>, \<open>nonblock_stream.cu\<close>, \<open>nonblock_stream1.cu\<close>,
  \<open>DynamicParallelism3.cu\<close> and of \<open>CUDA-Memory-Access-Pattern\<close>, over the streams of \<open>Cuda_Streams\<close>.  A \<open>cudaMemcpy\<close> is an
  operation of the default stream that the host waits for.  The stop event is recorded in the default stream
  and waited for at once, which is \<open>Sync\<close>; the start event and the printed times are left out, all calls succeed, and numbers are exact.
\<close>

record 'a stream_prog =
  blocking :: bool
  elems :: nat
  ops :: "'a host_op list"

definition prog_run :: "'a stream_prog \<Rightarrow> gact list \<Rightarrow> 'a columns \<Rightarrow> 'a dsys option" where
  "prog_run p as m = run (gpu_step (blocking p) (elems p)) as (gpu_init (ops p) m)"

definition prog_stuck :: "'a stream_prog \<Rightarrow> 'a dsys \<Rightarrow> bool" where
  "prog_stuck p s \<longleftrightarrow> stuck (gpu_step (blocking p) (elems p)) s"

text \<open>The elements the threads of a launch work on.\<close>

definition kernel_cells :: "nat \<Rightarrow> nat \<Rightarrow> nat \<Rightarrow> nat list" where
  "kernel_cells gridDim blockDim offset = map (\<lambda>(blockIdx, threadIdx). offset + threadIdx + blockIdx * blockDim) (grid_threads gridDim blockDim)"

definition kernel :: "nat \<Rightarrow> real \<Rightarrow> real" where
  "kernel i v = (let x = real i; s = sin x; c = cos x in v + sqrt (s * s + c * c))"

definition maxError :: "real list \<Rightarrow> real" where
  "maxError a = foldl (\<lambda>maxE v. let error = \<bar>v - 1\<bar> in if error > maxE then error else maxE) 0 a"

definition blockSize :: nat where "blockSize = 256"

definition streamSize :: nat where "streamSize = 4 * 1024 * blockSize"

definition stream_n :: "nat \<Rightarrow> nat" where
  "stream_n nStreams = 4 * 1024 * blockSize * nStreams"

definition print_error :: "real host_op" where
  "print_error = Print HostIn (\<lambda>a. [maxError a])"

definition memset :: "real host_op" where
  "memset = SetAll HostIn (\<lambda>_. 0)"

definition launch_kernel :: "arr \<Rightarrow> nat \<Rightarrow> strm \<Rightarrow> nat \<Rightarrow> real host_op" where
  "launch_kernel x sz st offset = Issue st (Kern x kernel) (kernel_cells (sz div blockSize) blockSize offset)"

definition to_device :: "nat \<Rightarrow> strm \<Rightarrow> nat \<Rightarrow> real host_op" where
  "to_device sz st offset = Issue st (Copy Device HostIn) [offset..<offset + sz]"

definition to_host :: "nat \<Rightarrow> strm \<Rightarrow> nat \<Rightarrow> real host_op" where
  "to_host sz st offset = Issue st (Copy HostIn Device) [offset..<offset + sz]"

definition baseline :: "nat \<Rightarrow> real host_op list" where
  "baseline n = [memset, to_device n Default 0, Sync, launch_kernel Device n Default 0, to_host n Default 0, Sync, Sync, print_error]"

text \<open>Version 1: a loop over copy, kernel, copy.  Version 2: three loops, with a list of streams.\<close>

definition version1 :: "nat \<Rightarrow> real host_op list" where
  "version1 nStreams = memset # concat (map (\<lambda>i. let offset = i * streamSize in
     [to_device streamSize (Stream i) offset, launch_kernel Device streamSize (Stream i) offset, to_host streamSize (Stream i) offset]) [0..<nStreams]) @
     [Sync, print_error]"

definition version2 :: "strm list \<Rightarrow> real host_op list" where
  "version2 streams = memset # map (\<lambda>i. to_device streamSize (streams ! i) (i * streamSize)) [0..<length streams] @
     map (\<lambda>i. launch_kernel Device streamSize (streams ! i) (i * streamSize)) [0..<length streams] @
     map (\<lambda>i. to_host streamSize (streams ! i) (i * streamSize)) [0..<length streams] @ [Sync, print_error]"

definition async :: "real stream_prog" where
  "async = \<lparr>blocking = True, elems = stream_n 4,
     ops = baseline (stream_n 4) @ version1 4 @ version2 (map Stream [0..<4])\<rparr>"

definition block_stream :: "real stream_prog" where
  "block_stream = \<lparr>blocking = True, elems = stream_n 4,
     ops = baseline (stream_n 4) @ version2 [Stream 0, Default, Stream 1, Stream 2]\<rparr>"

definition block_stream1 :: "real stream_prog" where
  "block_stream1 = \<lparr>blocking = True, elems = stream_n 3,
     ops = baseline (stream_n 3) @ version2 [Stream 0, Default, Stream 1]\<rparr>"

text \<open>The same host programs with streams created by \<open>cudaStreamCreateWithFlags\<close> and \<open>cudaStreamNonBlocking\<close>.\<close>

definition nonblock_stream :: "real stream_prog" where
  "nonblock_stream = \<lparr>blocking = False, elems = stream_n 4,
     ops = baseline (stream_n 4) @ version2 [Stream 0, Default, Stream 1, Stream 2]\<rparr>"

definition nonblock_stream1 :: "real stream_prog" where
  "nonblock_stream1 = \<lparr>blocking = False, elems = stream_n 3,
     ops = baseline (stream_n 3) @ version2 [Stream 0, Default, Stream 1]\<rparr>"

text \<open>\<open>DynamicParallelism3.cu\<close>: kernels on unified memory, a hundred times in one stream and a hundred times in four.\<close>

definition managed_size :: nat where "managed_size = 4 * 10 * 1024 * blockSize * 4"

definition managed_round :: "real host_op list" where
  "managed_round = [memset, launch_kernel HostIn managed_size Default 0, Sync, DeviceSync]"

definition managed_streams_round :: "real host_op list" where
  "managed_streams_round = memset # map (\<lambda>i. launch_kernel HostIn (managed_size div 4) (Stream i) (i * (managed_size div 4))) [0..<4] @ [Sync, DeviceSync]"

definition DynamicParallelism3 :: "real stream_prog" where
  "DynamicParallelism3 = \<lparr>blocking = True, elems = managed_size,
     ops = (concat (replicate 100 managed_round) @ [print_error]) @ (concat (replicate 100 managed_streams_round) @ [print_error])\<rparr>"

subsection \<open>The elements of a launch and of a segment\<close>

lemma kernel_cells_upt: "kernel_cells g w off = [off..<off + g * w]"
proof (induction g)
  case (Suc g)
  have "map (\<lambda>t. off + t + g * w) [0..<w] = [off + g * w..<off + g * w + w]"
    using map_add_upt [of "off + g * w" w] by (simp add: algebra_simps)
  then have "kernel_cells (Suc g) w off = kernel_cells g w off @ [off + g * w..<off + g * w + w]"
    by (simp add: kernel_cells_def grid_threads_def product_concat_map comp_def)
  with Suc show ?case using upt_add_eq_append [of off "off + g * w" w] by (simp add: ac_simps)
qed (simp add: kernel_cells_def grid_threads_def)

lemma launch_kernel_cells:
  "blockSize dvd sz \<Longrightarrow> launch_kernel x sz st offset = Issue st (Kern x kernel) [offset..<offset + sz]"
  by (simp add: launch_kernel_def kernel_cells_upt)

lemma blocks_dvd: "blockSize dvd streamSize" "blockSize dvd stream_n k" "blockSize dvd managed_size" "blockSize dvd managed_size div 4"
  by (simp_all add: streamSize_def blockSize_def managed_size_def stream_n_def)

lemma kernel_adds_1: "kernel i v = v + 1"
  using sin_cos_squared_add [of "real i"] by (simp add: kernel_def Let_def power2_eq_square)

text \<open>An operation split into segments, over whatever streams, is the operation on all of them.\<close>

lemma segments_col:
  assumes "0 < sz"
  shows "fold (host_col i) (map (\<lambda>j. Issue (st j) k [j * sz..<j * sz + sz]) [0..<l]) c = (if i < l * sz then act k i c else c)"
proof (induction l)
  case (Suc l)
  have "i < l * sz + sz \<and> \<not> i < l * sz \<longleftrightarrow> l * sz \<le> i \<and> i < l * sz + sz" by auto
  with Suc show ?case by auto
qed simp

lemma version2_col:
  assumes "i < length streams * streamSize"
  shows "fold (host_col i) (version2 streams) c HostIn = 1"
proof -
  have p: "0 < streamSize" by (simp add: streamSize_def blockSize_def)
  show ?thesis
    using assms by (simp add: version2_def to_device_def to_host_def launch_kernel_cells [OF blocks_dvd(1)] segments_col [OF p]
        memset_def print_error_def kernel_adds_1)
qed

lemma maxError_ones: "(\<And>i. i < n \<Longrightarrow> m i HostIn = 1) \<Longrightarrow> maxError (contents n HostIn m) = 0"
proof -
  assume "\<And>i. i < n \<Longrightarrow> m i HostIn = 1"
  then have "contents n HostIn m = replicate n 1" by (auto simp: contents_def intro: nth_equalityI)
  moreover have "maxError (replicate n 1) = 0" by (induction n) (simp_all add: maxError_def)
  ultimately show ?thesis by simp
qed

subsection \<open>The programs are free of races\<close>

lemmas program_ops = memset_def print_error_def to_device_def to_host_def launch_kernel_cells

definition segments :: "(nat \<Rightarrow> strm) \<Rightarrow> nat \<Rightarrow> nat \<Rightarrow> (strm \<times> nat set) list" where
  "segments st sz l = map (\<lambda>i. (st i, {i * sz..<i * sz + sz})) [0..<l]"

lemma segment_disjoint:
  fixes sz :: nat
  assumes "i \<noteq> j"
  shows "{i * sz..<i * sz + sz} \<inter> {j * sz..<j * sz + sz} = {}"
proof -
  have "Suc i * sz \<le> j * sz \<or> Suc j * sz \<le> i * sz" using assms by (intro disj_forward [OF _ mult_le_mono1 mult_le_mono1]) auto
  then show ?thesis by auto
qed

lemma ordered_segments:
  assumes "(s', d) \<in> set (segments st sz l)"
  shows "ordered b s' (st i) \<or> d \<inter> {i * sz..<i * sz + sz} = {}"
proof -
  from assms obtain j where j: "s' = st j" "d = {j * sz..<j * sz + sz}" by (auto simp: segments_def)
  show ?thesis
  proof (cases "i = j")
    case False
    then show ?thesis using segment_disjoint [of j i sz] j by simp
  qed (simp add: j ordered_def)
qed

lemma race_free_segments:
  assumes "\<And>i s' d. i < l \<Longrightarrow> (s', d) \<in> set P \<Longrightarrow> ordered b s' (st i) \<or> d \<inter> {i * sz..<i * sz + sz} = {}" "l * sz \<le> n"
  shows "race_free b n P (map (\<lambda>i. Issue (st i) k [i * sz..<i * sz + sz]) [0..<l] @ t) \<longleftrightarrow> race_free b n (P @ segments st sz l) t"
  using assms
proof (induction l arbitrary: t)
  case (Suc l)
  have "l * sz \<le> n" using Suc.prems(2) by simp
  moreover have "list_all (\<lambda>(s', d). ordered b s' (st l) \<or> d \<inter> {l * sz..<l * sz + sz} = {}) (segments st sz l)"
    unfolding list_all_iff using ordered_segments [of _ _ st sz l b l] by blast
  moreover have "list_all (\<lambda>(s', d). ordered b s' (st l) \<or> d \<inter> {l * sz..<l * sz + sz} = {}) P"
    using Suc.prems(1) [of l] by (auto simp: list_all_iff)
  moreover have "{l * sz..<l * sz + sz} \<subseteq> {..<n}" using Suc.prems(2) by auto
  ultimately show ?case using Suc by (simp add: segments_def)
qed (simp add: segments_def)

lemma sync_all: "filter (\<lambda>(s, d). \<not> ordered True s Default) P = []"
  by (simp add: ordered_def)

lemma under_way_append: "under_way b P (xs @ ys) = under_way b (under_way b P xs) ys"
  by (induction b P xs rule: under_way.induct) simp_all

lemma race_free_baseline:
  assumes "blockSize dvd n"
  shows "race_free True n [] (baseline n)" "under_way b [] (baseline n) = []"
  by (auto simp: baseline_def program_ops assms ordered_def)

lemma race_free_version2:
  assumes "length streams * streamSize \<le> n"
  shows "race_free True n [] (version2 streams)" "under_way True P (version2 streams) = []"
proof -
  let ?g = "segments (\<lambda>i. streams ! i) streamSize (length streams)"
  have o: "ordered True s' (streams ! i) \<or> d \<inter> {i * streamSize..<i * streamSize + streamSize} = {}" if "(s', d) \<in> set P" "set P \<subseteq> set ?g" for s' d i P
    using that by (intro ordered_segments) blast
  note r = race_free_segments [where st = "\<lambda>i. streams ! i", OF o assms]
  show "race_free True n [] (version2 streams)"
    unfolding version2_def program_ops(1-4) launch_kernel_cells [OF blocks_dvd(1)] race_free.simps
    by (simp add: r sync_all)
  show "under_way True P (version2 streams) = []"
    unfolding version2_def by (simp add: under_way_append sync_all print_error_def memset_def)
qed

definition copy_run_copy :: "nat \<Rightarrow> real host_op list" where
  "copy_run_copy i = [Issue (Stream i) (Copy Device HostIn) [i * streamSize..<i * streamSize + streamSize],
     Issue (Stream i) (Kern Device kernel) [i * streamSize..<i * streamSize + streamSize],
     Issue (Stream i) (Copy HostIn Device) [i * streamSize..<i * streamSize + streamSize]]"

lemma version1_loop: "version1 l = memset # concat (map copy_run_copy [0..<l]) @ [Sync, print_error]"
proof -
  have "(\<lambda>i. let offset = i * streamSize in [to_device streamSize (Stream i) offset, launch_kernel Device streamSize (Stream i) offset,
      to_host streamSize (Stream i) offset]) = copy_run_copy"
    by (simp add: copy_run_copy_def fun_eq_iff Let_def to_device_def to_host_def launch_kernel_cells [OF blocks_dvd(1)])
  then show ?thesis by (simp add: version1_def)
qed

lemma race_free_copies:
  assumes "l * streamSize \<le> n"
  shows "\<exists>P. set P \<subseteq> set (segments Stream streamSize l) \<and>
    (\<forall>t. race_free True n [] (concat (map copy_run_copy [0..<l]) @ t) \<longleftrightarrow> race_free True n P t)"
  using assms
proof (induction l)
  case (Suc l)
  then obtain P where P: "set P \<subseteq> set (segments Stream streamSize l)"
    "race_free True n [] (concat (map copy_run_copy [0..<l]) @ t) \<longleftrightarrow> race_free True n P t" for t by auto
  let ?d = "{l * streamSize..<l * streamSize + streamSize}" and ?Q = "P @ replicate 3 (Stream l, {l * streamSize..<l * streamSize + streamSize})"
  have o: "list_all (\<lambda>(s', d). ordered True s' (Stream l) \<or> d \<inter> ?d = {}) P"
    unfolding list_all_iff using P(1) ordered_segments [of _ _ Stream streamSize l True l] by blast
  have self: "ordered True (Stream l) (Stream l)" by (simp add: ordered_def)
  have "race_free True n [] (concat (map copy_run_copy [0..<Suc l]) @ t) \<longleftrightarrow> race_free True n ?Q t" for t
    using P(2) [of "copy_run_copy l @ t"] o self Suc.prems by (auto simp: copy_run_copy_def numeral_3_eq_3)
  moreover have "set ?Q \<subseteq> set (segments Stream streamSize (Suc l))" using P(1) by (auto simp: segments_def)
  ultimately show ?case by blast
qed (auto simp: segments_def)

lemma race_free_version1:
  assumes "l * streamSize \<le> n"
  shows "race_free True n [] (version1 l)" "under_way True P (version1 l) = []"
proof -
  show "race_free True n [] (version1 l)" unfolding version1_loop
    using race_free_copies [OF assms] by (auto simp: memset_def print_error_def sync_all)
  show "under_way True P (version1 l) = []"
    unfolding version1_loop by (simp add: under_way_append sync_all print_error_def memset_def)
qed

lemma version1_col:
  assumes "i < l * streamSize"
  shows "fold (host_col i) (version1 l) c HostIn = 1"
proof -
  have one: "fold (host_col i) (copy_run_copy l) c = (if l * streamSize \<le> i \<and> i < l * streamSize + streamSize
      then act (Copy HostIn Device) i (act (Kern Device kernel) i (act (Copy Device HostIn) i c)) else c)" for c l
    by (simp add: copy_run_copy_def)
  have "fold (host_col i) (concat (map copy_run_copy [0..<l])) c =
      (if i < l * streamSize then act (Copy HostIn Device) i (act (Kern Device kernel) i (act (Copy Device HostIn) i c)) else c)" for c l
  proof (induction l)
    case (Suc l)
    consider "i < l * streamSize" | "l * streamSize \<le> i" "i < l * streamSize + streamSize" | "l * streamSize + streamSize \<le> i" by linarith
    then show ?case by cases (simp_all add: one Suc)
  qed simp
  then show ?thesis using assms by (simp add: version1_loop memset_def print_error_def kernel_adds_1)
qed

lemma baseline_col: "blockSize dvd n \<Longrightarrow> i < n \<Longrightarrow> fold (host_col i) (baseline n) c HostIn = 1"
  by (simp add: baseline_def program_ops kernel_adds_1)

lemma race_free_managed:
  "race_free True managed_size [] managed_round" "under_way True [] managed_round = []"
  "race_free True managed_size [] managed_streams_round" "under_way True [] managed_streams_round = []"
proof -
  show "race_free True managed_size [] managed_round" "under_way True [] managed_round = []"
    by (auto simp: managed_round_def program_ops blocks_dvd)
  have "4 * (managed_size div 4) \<le> managed_size" by simp
  note r = race_free_segments [where st = Stream and P = "[]", OF _ this]
  show "race_free True managed_size [] managed_streams_round"
    unfolding managed_streams_round_def program_ops(1-4) launch_kernel_cells [OF blocks_dvd(4)] race_free.simps
    by (subst r) simp_all
  show "under_way True [] managed_streams_round = []"
    unfolding managed_streams_round_def by (simp add: under_way_append memset_def del: upt.simps)
qed

lemma managed_col:
  assumes "i < managed_size"
  shows "fold (host_col i) managed_round c HostIn = 1" "fold (host_col i) managed_streams_round c HostIn = 1"
proof -
  show "fold (host_col i) managed_round c HostIn = 1"
    using assms by (simp add: managed_round_def program_ops blocks_dvd kernel_adds_1)
  have "0 < managed_size div 4" "i < 4 * (managed_size div 4)" using assms by (simp_all add: managed_size_def blockSize_def)
  then show "fold (host_col i) managed_streams_round c HostIn = 1"
    by (simp add: managed_streams_round_def program_ops blocks_dvd segments_col kernel_adds_1 del: upt.simps)
qed

subsection \<open>What the programs print\<close>

fun silent :: "'a host_op \<Rightarrow> bool" where
  "silent (Print x f) \<longleftrightarrow> False"
| "silent _ \<longleftrightarrow> True"

lemma seq_prints_silent: "list_all silent hs \<Longrightarrow> seq_prints n hs m = []"
  by (induction n hs m rule: seq_prints.induct) simp_all

lemma part_prints:
  assumes "hs = xs @ [print_error]" "list_all silent xs" "list_all distinct_cells xs"
    and "\<And>i c. i < n \<Longrightarrow> fold (host_col i) hs c HostIn = 1"
  shows "seq_prints n hs m = [[0]]"
proof -
  have "fold (seq_mem n) xs m i HostIn = 1" if "i < n" for i
    using assms(4) [OF that, of "m i"] seq_mems_col [OF that assms(3)] by (simp add: assms(1) print_error_def)
  then have "maxError (contents n HostIn (fold (seq_mem n) xs m)) = 0" by (rule maxError_ones)
  then show ?thesis by (simp add: assms(1) seq_prints_append seq_prints_silent [OF assms(2)] print_error_def)
qed

lemma baseline_prints: "blockSize dvd n \<Longrightarrow> seq_prints n (baseline n) m = [[0]]"
  by (rule part_prints [of _ "butlast (baseline n)"]) (simp_all add: baseline_col, simp_all add: baseline_def program_ops)

lemma version2_prints:
  assumes "n = length streams * streamSize"
  shows "seq_prints n (version2 streams) m = [[0]]"
proof (rule part_prints)
  show "version2 streams = (memset # map (\<lambda>i. to_device streamSize (streams ! i) (i * streamSize)) [0..<length streams] @
     map (\<lambda>i. launch_kernel Device streamSize (streams ! i) (i * streamSize)) [0..<length streams] @
     map (\<lambda>i. to_host streamSize (streams ! i) (i * streamSize)) [0..<length streams] @ [Sync]) @ [print_error]"
    by (simp add: version2_def)
qed (use version2_col assms in \<open>auto simp: list_all_iff program_ops blocks_dvd\<close>)

lemma version1_prints:
  assumes "n = l * streamSize"
  shows "seq_prints n (version1 l) m = [[0]]"
proof (rule part_prints)
  show "version1 l = (memset # concat (map copy_run_copy [0..<l]) @ [Sync]) @ [print_error]" by (simp add: version1_loop)
qed (use version1_col assms in \<open>auto simp: list_all_iff memset_def copy_run_copy_def\<close>)

lemma repeat_col:
  assumes "\<And>c. fold (host_col i) r c HostIn = 1"
  shows "fold (host_col i) (concat (replicate (Suc k) r)) c HostIn = 1"
proof -
  have "concat (replicate (Suc k) r) = concat (replicate k r) @ r" by (induction k) simp_all
  then show ?thesis by (simp add: assms del: replicate.simps)
qed

lemma managed_prints:
  "seq_prints managed_size (concat (replicate 100 managed_round) @ [print_error]) m = [[0]]"
  "seq_prints managed_size (concat (replicate 100 managed_streams_round) @ [print_error]) m = [[0]]"
proof -
  have h: "100 = Suc 99" by simp
  have "fold (host_col i) (concat (replicate 100 managed_round) @ [print_error]) c HostIn = 1"
    "fold (host_col i) (concat (replicate 100 managed_streams_round) @ [print_error]) c HostIn = 1" if "i < managed_size" for i c
    unfolding h using repeat_col [OF managed_col(1) [OF that], of 99] repeat_col [OF managed_col(2) [OF that], of 99]
    by (simp_all add: print_error_def del: replicate.simps)
  then show "seq_prints managed_size (concat (replicate 100 managed_round) @ [print_error]) m = [[0]]"
    "seq_prints managed_size (concat (replicate 100 managed_streams_round) @ [print_error]) m = [[0]]"
    by (intro part_prints [OF refl]; auto simp: list_all_iff managed_round_def managed_streams_round_def program_ops blocks_dvd simp del: upt.simps)+
qed

lemma stream_n: "stream_n k = k * streamSize"
  by (simp add: stream_n_def streamSize_def)

lemma program_race_free:
  "race_free True (elems async) [] (ops async)" "race_free True (elems block_stream) [] (ops block_stream)"
  "race_free True (elems block_stream1) [] (ops block_stream1)" "race_free True (elems DynamicParallelism3) [] (ops DynamicParallelism3)"
proof -
  note b = race_free_baseline [OF blocks_dvd(2)]
  show "race_free True (elems async) [] (ops async)"
    using b race_free_version1 [of 4 "stream_n 4"] race_free_version2 [of "map Stream [0..<4]" "stream_n 4"]
    by (simp add: async_def race_free_append stream_n del: upt.simps)
  show "race_free True (elems block_stream) [] (ops block_stream)" "race_free True (elems block_stream1) [] (ops block_stream1)"
    using b race_free_version2 [of "[Stream 0, Default, Stream 1, Stream 2]" "stream_n 4"] race_free_version2 [of "[Stream 0, Default, Stream 1]" "stream_n 3"]
    by (simp_all add: block_stream_def block_stream1_def race_free_append stream_n)
  show "race_free True (elems DynamicParallelism3) [] (ops DynamicParallelism3)"
    using race_free_repeat(1) [OF race_free_managed(1,2), of 100] race_free_repeat(2) [OF race_free_managed(1,2), of 100 "[]"]
      race_free_repeat(1) [OF race_free_managed(3,4), of 100] race_free_repeat(2) [OF race_free_managed(3,4), of 100 "[]"]
    by (simp add: DynamicParallelism3_def race_free_append print_error_def under_way_append)
qed

interpretation async: race_free_program True "elems async" "ops async" m for m
  by unfold_locales (rule program_race_free)

interpretation block_stream: race_free_program True "elems block_stream" "ops block_stream" m for m
  by unfold_locales (rule program_race_free)

interpretation block_stream1: race_free_program True "elems block_stream1" "ops block_stream1" m for m
  by unfold_locales (rule program_race_free)

interpretation DynamicParallelism3: race_free_program True "elems DynamicParallelism3" "ops DynamicParallelism3" m for m
  by unfold_locales (rule program_race_free)

lemma program_prints:
  "seq_prints (elems async) (ops async) m = replicate 3 [0]" "seq_prints (elems block_stream) (ops block_stream) m = replicate 2 [0]"
  "seq_prints (elems block_stream1) (ops block_stream1) m = replicate 2 [0]"
  "seq_prints (elems DynamicParallelism3) (ops DynamicParallelism3) m = replicate 2 [0]"
proof -
  note b = baseline_prints [OF blocks_dvd(2)]
  have v: "seq_prints (stream_n 4) (version2 (map Stream [0..<4])) m = [[0]]" "seq_prints (stream_n 4) (version1 4) m = [[0]]"
    "seq_prints (stream_n 4) (version2 [Stream 0, Default, Stream 1, Stream 2]) m = [[0]]"
    "seq_prints (stream_n 3) (version2 [Stream 0, Default, Stream 1]) m = [[0]]" for m
    by (intro version2_prints version1_prints; simp add: stream_n)+
  show "seq_prints (elems async) (ops async) m = replicate 3 [0]"
    by (simp add: async_def seq_prints_append b v numeral_3_eq_3 del: upt.simps)
  show "seq_prints (elems block_stream) (ops block_stream) m = replicate 2 [0]"
    "seq_prints (elems block_stream1) (ops block_stream1) m = replicate 2 [0]"
    using v(3,4) by (simp_all add: block_stream_def block_stream1_def seq_prints_append b numeral_2_eq_2)
  show "seq_prints (elems DynamicParallelism3) (ops DynamicParallelism3) m = replicate 2 [0]"
    unfolding DynamicParallelism3_def stream_prog.select_convs seq_prints_append [of managed_size "concat _ @ _"]
    by (simp only: managed_prints numeral_2_eq_2 replicate.simps append.simps)
qed



subsection \<open>Streams that the default stream does not wait for\<close>

lemma run_op:
  assumes "may_start b k (issued s)" "distinct (rest (issued s ! k))"
  shows "run (gpu_step b n) (map (Cell k) (rest (issued s ! k))) s =
    Some (s\<lparr>mem := fold (cell (kind (issued s ! k))) (rest (issued s ! k)) (mem s), issued := (issued s)[k := (issued s ! k)\<lparr>rest := []\<rparr>]\<rparr>)"
  using assms
proof (induction "rest (issued s ! k)" arbitrary: s)
  case Nil
  have "(issued s ! k)\<lparr>rest := []\<rparr> = issued s ! k" by (subst Nil.hyps) simp
  then have "(issued s)[k := (issued s ! k)\<lparr>rest := []\<rparr>] = issued s" by simp
  then show ?case by (simp add: Nil.hyps [symmetric])
next
  case (Cons i r)
  let ?g = "(issued s ! k)\<lparr>rest := r\<rparr>" and ?l = "(issued s)[k := (issued s ! k)\<lparr>rest := r\<rparr>]"
  let ?s = "s\<lparr>mem := cell (kind (issued s ! k)) i (mem s), issued := ?l\<rparr>"
  have k: "k < length (issued s)" using Cons.prems(1) by (simp add: may_start_def)
  have "gpu_step b n (Cell k i) s = Some ?s"
    using Cons.prems(1) Cons.hyps(2) [symmetric] by (simp add: gpu_step_def device_step_def)
  moreover have "may_start b k ?l" using Cons.prems(1) k by (simp add: may_start_def)
  moreover have "distinct r" using Cons.prems(2) Cons.hyps(2) [symmetric] by simp
  ultimately show ?case using Cons.hyps(1) [of ?s] Cons.hyps(2) [symmetric] k by simp
qed

text \<open>A schedule that works on the default stream only, when the other streams do not block it.\<close>

fun on_default :: "'a host_op \<Rightarrow> bool" where
  "on_default (Issue st k c) \<longleftrightarrow> st = Default"
| "on_default _ \<longleftrightarrow> True"

definition default_idle :: "'a dsys \<Rightarrow> bool" where
  "default_idle s \<longleftrightarrow> list_all (\<lambda>g. on g = Default \<longrightarrow> rest g = []) (issued s)"

lemma run_default:
  assumes "list_all distinct_cells hs" "DeviceSync \<notin> set hs" "default_idle s" "host_todo s = hs"
  shows "\<exists>as s'. run (gpu_step False n) as s = Some s' \<and> host_todo s' = [] \<and> shown s' = shown s @ seq_prints n (filter on_default hs) (mem s)"
  using assms
proof (induction hs arbitrary: s)
  case Nil
  have "run (gpu_step False n) [] s = Some s" by simp
  with Nil show ?case by fastforce
next
  case (Cons h hs)
  have idle: "list_all (\<lambda>g. ordered False (on g) Default \<longrightarrow> rest g = []) (issued s)"
    using Cons.prems(3) by (simp add: default_idle_def ordered_def)
  have "\<exists>bs u. run (gpu_step False n) bs s = Some u \<and> host_todo u = hs \<and> default_idle u \<and>
    (if on_default h then shown u = shown s @ seq_prints n [h] (mem s) \<and> mem u = seq_mem n h (mem s) else shown u = shown s \<and> mem u = mem s)"
  proof (cases "\<exists>k c. h = Issue Default k c")
    case True
    then obtain k c where h: "h = Issue Default k c" by blast
    let ?g = "\<lparr>on = Default, kind = k, rest = c\<rparr>"
    let ?v = "s\<lparr>host_todo := hs, issued := issued s @ [?g]\<rparr>"
    let ?u = "?v\<lparr>mem := fold (cell k) c (mem s), issued := issued s @ [?g\<lparr>rest := []\<rparr>]\<rparr>"
    have "gpu_step False n Host s = Some ?v" using Cons.prems(4) h by (simp add: gpu_step_def host_step_def)
    moreover have "may_start False (length (issued s)) (issued ?v)" using idle by (simp add: may_start_def)
    then have "run (gpu_step False n) (map (Cell (length (issued s))) c) ?v = Some ?u"
      using run_op [of False "length (issued s)" ?v n] Cons.prems(1) h by simp
    ultimately have "run (gpu_step False n) (Host # map (Cell (length (issued s))) c) s = Some ?u" by simp
    then show ?thesis using h Cons.prems(3) by (intro exI [of _ "Host # map (Cell (length (issued s))) c"] exI [of _ ?u]) (auto simp: default_idle_def)
  next
    case False
    then have "\<exists>u. gpu_step False n Host s = Some u \<and> host_todo u = hs \<and> default_idle u \<and>
       (if on_default h then shown u = shown s @ seq_prints n [h] (mem s) \<and> mem u = seq_mem n h (mem s) else shown u = shown s \<and> mem u = mem s)"
      using Cons.prems idle by (cases h) (auto simp: gpu_step_def host_step_def default_idle_def)
    then obtain u where "run (gpu_step False n) [Host] s = Some u" "host_todo u = hs \<and> default_idle u \<and>
       (if on_default h then shown u = shown s @ seq_prints n [h] (mem s) \<and> mem u = seq_mem n h (mem s) else shown u = shown s \<and> mem u = mem s)"
      by auto
    then show ?thesis by blast
  qed
  then obtain bs u where u: "run (gpu_step False n) bs s = Some u" "host_todo u = hs" "default_idle u"
    "if on_default h then shown u = shown s @ seq_prints n [h] (mem s) \<and> mem u = seq_mem n h (mem s) else shown u = shown s \<and> mem u = mem s" by blast
  obtain as s' where s': "run (gpu_step False n) as u = Some s'" "host_todo s' = []" "shown s' = shown u @ seq_prints n (filter on_default hs) (mem u)"
    using Cons.IH [OF _ _ u(3,2)] Cons.prems(1,2) by auto
  have "run (gpu_step False n) (bs @ as) s = Some s'" using u(1) s'(1) by (simp add: run_append)
  moreover have "shown s' = shown s @ seq_prints n (filter on_default (h # hs)) (mem s)"
    using u(4) s'(3) seq_prints_append [of n "[h]" "filter on_default hs" "mem s"] by (auto split: if_splits)
  ultimately show ?case using s'(2) by blast
qed

lemma maxError_01: "set a \<subseteq> {0, 1} \<Longrightarrow> 0 \<in> set a \<Longrightarrow> maxError a = 1"
proof -
  have "set a \<subseteq> {0, 1} \<Longrightarrow> e = 0 \<or> e = 1 \<Longrightarrow>
    foldl (\<lambda>maxE v. let error = \<bar>v - 1\<bar> in if error > maxE then error else maxE) e a = (if 0 \<in> set a then 1 else e :: real)" for e
    by (induction a arbitrary: e) auto
  then show "set a \<subseteq> {0, 1} \<Longrightarrow> 0 \<in> set a \<Longrightarrow> maxError a = 1" by (simp add: maxError_def)
qed

text \<open>What is left of version 2 on the default stream: one segment.\<close>

definition one_segment :: "real host_op list" where
  "one_segment = [memset, to_device streamSize Default streamSize, launch_kernel Device streamSize Default streamSize,
     to_host streamSize Default streamSize, Sync]"

lemma default_ops:
  "filter on_default (version2 [Stream 0, Default, Stream 1, Stream 2]) = one_segment @ [print_error]"
  "filter on_default (version2 [Stream 0, Default, Stream 1]) = one_segment @ [print_error]"
  "filter on_default (baseline n) = baseline n"
  by (simp_all add: version2_def one_segment_def baseline_def upt_rec memset_def print_error_def to_device_def to_host_def launch_kernel_def)

lemma one_segment_prints:
  assumes "streamSize < n"
  shows "seq_prints n (one_segment @ [print_error]) m = [[1]]"
proof -
  have col: "fold (seq_mem n) one_segment m i HostIn = (if streamSize \<le> i \<and> i < streamSize + streamSize then 1 else 0)" if "i < n" for i
  proof -
    have "list_all distinct_cells one_segment" by (simp add: one_segment_def program_ops blocks_dvd)
    then have "fold (seq_mem n) one_segment m i = fold (host_col i) one_segment (m i)" by (rule seq_mems_col [OF that])
    then show ?thesis by (simp add: one_segment_def program_ops blocks_dvd kernel_adds_1)
  qed
  have "0 < streamSize" by (simp add: streamSize_def blockSize_def)
  then have "set (contents n HostIn (fold (seq_mem n) one_segment m)) \<subseteq> {0, 1}" "0 \<in> set (contents n HostIn (fold (seq_mem n) one_segment m))"
    using assms col [of 0] by (auto simp: contents_def col intro!: image_eqI [of _ _ 0])
  then have "maxError (contents n HostIn (fold (seq_mem n) one_segment m)) = 1" by (rule maxError_01)
  moreover have "seq_prints n one_segment m = []"
    by (rule seq_prints_silent) (simp add: one_segment_def program_ops blocks_dvd)
  ultimately show ?thesis by (simp add: seq_prints_append print_error_def)
qed

lemma nonblock_run:
  assumes "ops p = baseline (stream_n l) @ version2 st" "blocking p = False" "elems p = stream_n l" "1 < l"
    and "filter on_default (version2 st) = one_segment @ [print_error]"
  shows "\<exists>as s. prog_run p as m = Some s \<and> host_todo s = [] \<and> shown s = [[0], [1]]"
proof -
  have d: "list_all distinct_cells (ops p)" "DeviceSync \<notin> set (ops p)"
    by (auto simp: assms(1) baseline_def version2_def list_all_iff program_ops blocks_dvd)
  have "default_idle (gpu_init (ops p) m)" "host_todo (gpu_init (ops p) m) = ops p" by (simp_all add: default_idle_def gpu_init_def)
  from run_default [OF d this, of "elems p"] obtain as s where s: "prog_run p as m = Some s" "host_todo s = []"
    "shown s = seq_prints (elems p) (filter on_default (ops p)) m"
    by (auto simp: prog_run_def assms(2) gpu_init_def)
  have "streamSize < stream_n l" using assms(4) by (simp add: stream_n streamSize_def blockSize_def)
  then have "seq_prints (stream_n l) (one_segment @ [print_error]) v = [[1]]" for v by (rule one_segment_prints)
  then have "shown s = [[0], [1]]"
    using s(3) assms(3,5) by (simp add: assms(1) seq_prints_append [of _ "baseline _"] default_ops baseline_prints [OF blocks_dvd(2)])
  with s show ?thesis by blast
qed

text \<open>
  C40: \<open>nonblock_stream.cu\<close> and \<open>nonblock_stream1.cu\<close> are the programs of \<open>block_stream.cu\<close> and \<open>block_stream1.cu\<close> with streams that
  do not block the default stream.  The stop event is recorded in the default stream, so waiting for it does not wait for the
  other streams: both programs have a run that ends and prints the maximal error 1 for the overlapped version, where
  every run of the blocking programs prints 0.
\<close>

theorem nonblock_streams_race:
  "(\<exists>as s. prog_run nonblock_stream as m = Some s \<and> host_todo s = [] \<and> shown s = [[0], [1]]) \<and>
   (\<exists>as s. prog_run nonblock_stream1 as m = Some s \<and> host_todo s = [] \<and> shown s = [[0], [1]])"
proof
  show "\<exists>as s. prog_run nonblock_stream as m = Some s \<and> host_todo s = [] \<and> shown s = [[0], [1]]"
    by (rule nonblock_run [OF _ _ _ _ default_ops(1), of _ 4]) (simp_all add: nonblock_stream_def)
  show "\<exists>as s. prog_run nonblock_stream1 as m = Some s \<and> host_todo s = [] \<and> shown s = [[0], [1]]"
    by (rule nonblock_run [OF _ _ _ _ default_ops(2), of _ 3]) (simp_all add: nonblock_stream1_def)
qed

subsection \<open>Four ways to reach memory: \<open>CUDA-Memory-Access-Pattern\<close>\<close>

definition elementSize :: nat where "elementSize = 64"

definition threadsPerBlock :: nat where "threadsPerBlock = 32"

definition pattern_blocks :: nat where
  "pattern_blocks = (elementSize + threadsPerBlock - 1) div threadsPerBlock"

definition vecMultiply :: "nat \<Rightarrow> int \<Rightarrow> int" where
  "vecMultiply tid v = ((\<lambda>v. v + 10) ^^ 100000) v"

definition vecMultiply_cells :: "nat list" where
  "vecMultiply_cells = filter (\<lambda>tid. tid < elementSize) (kernel_cells pattern_blocks threadsPerBlock 0)"

text \<open>Pageable and pinned memory: the host copies.  Mapped and unified memory: the kernel works on the host's array.\<close>

definition copied_ops :: "int host_op list" where
  "copied_ops = [SetAll HostIn int, Issue Default (Copy Device HostIn) [0..<elementSize], Sync,
     Issue Default (Kern Device vecMultiply) vecMultiply_cells, Issue Default (Copy HostOut Device) [0..<elementSize], Sync, Sync, Print HostOut id]"

definition shared_ops :: "int host_op list" where
  "shared_ops = [SetAll HostIn int, Issue Default (Kern HostIn vecMultiply) vecMultiply_cells, Sync, Print HostIn id]"

definition Pageable :: "int stream_prog" where
  "Pageable = \<lparr>blocking = True, elems = elementSize, ops = copied_ops\<rparr>"

definition Pinned :: "int stream_prog" where
  "Pinned = \<lparr>blocking = True, elems = elementSize, ops = copied_ops\<rparr>"

definition ZeroCopy :: "int stream_prog" where
  "ZeroCopy = \<lparr>blocking = True, elems = elementSize, ops = shared_ops\<rparr>"

definition UnifiedMemoryAccess :: "int stream_prog" where
  "UnifiedMemoryAccess = \<lparr>blocking = True, elems = elementSize, ops = shared_ops\<rparr>"

lemma vecMultiply_adds: "vecMultiply tid v = v + 1000000"
proof -
  have "((\<lambda>v. v + 10) ^^ k) v = v + 10 * int k" for k by (induction k) simp_all
  then show ?thesis by (simp add: vecMultiply_def del: funpow.simps)
qed

lemma vecMultiply_cells: "vecMultiply_cells = [0..<elementSize]"
  by (simp add: vecMultiply_cells_def kernel_cells_upt pattern_blocks_def elementSize_def threadsPerBlock_def filter_id_conv)

lemma pattern_race_free: "race_free True elementSize [] copied_ops" "race_free True elementSize [] shared_ops"
  by (auto simp: copied_ops_def shared_ops_def vecMultiply_cells ordered_def)

interpretation copied: race_free_program True elementSize copied_ops m for m
  by unfold_locales (rule pattern_race_free)

interpretation shared: race_free_program True elementSize shared_ops m for m
  by unfold_locales (rule pattern_race_free)

lemma pattern_prints:
  "seq_prints elementSize copied_ops m = replicate 1 (map (\<lambda>i. int i + 1000000) [0..<elementSize])"
  "seq_prints elementSize shared_ops m = replicate 1 (map (\<lambda>i. int i + 1000000) [0..<elementSize])"
  by (auto simp: copied_ops_def shared_ops_def vecMultiply_cells contents_def fold_cell set_all_def vecMultiply_adds)

text \<open>
  The four programs of \<open>CUDA-Memory-Access-Pattern\<close> (pageable, pinned, mapped and unified memory) end under every schedule of the device and
  print the same numbers, \<open>i + 1000000\<close> for every \<open>i\<close> below 64, all of which fit an \<open>int\<close>.
\<close>

theorem access_patterns_agree:
  assumes "p \<in> {Pageable, Pinned, ZeroCopy, UnifiedMemoryAccess}" "prog_run p as m = Some s" "prog_stuck p s"
  shows "host_todo s = [] \<and> shown s = [map (\<lambda>i. int i + 1000000) [0..<64]] \<and> list_all (list_all (\<lambda>v. v < 2 ^ 31)) (shown s)"
proof -
  have "host_todo s = [] \<and> shown s = replicate 1 (map (\<lambda>i. int i + 1000000) [0..<elementSize])"
    using assms copied.result [OF _ pattern_prints(1)] shared.result [OF _ pattern_prints(2)]
    by (auto simp: prog_run_def prog_stuck_def Pageable_def Pinned_def ZeroCopy_def UnifiedMemoryAccess_def)
  then show ?thesis by (simp add: elementSize_def list_all_iff)
qed

theorem access_patterns_agree_witness:
  "\<exists>as s. prog_run Pinned as (\<lambda>_ _. 9) = Some s \<and> host_todo s = [] \<and> shown s = [map (\<lambda>i. int i + 1000000) [0..<64]]"
proof -
  obtain as s where s: "run (gpu_step True elementSize) as (gpu_init copied_ops (\<lambda>_ _. 9)) = Some s" "stuck (gpu_step True elementSize) s"
    using copied.reaches_stuck [OF copied.inv_init] by blast
  then have "prog_run Pinned as (\<lambda>_ _. 9) = Some s" "prog_stuck Pinned s" by (simp_all add: prog_run_def prog_stuck_def Pinned_def)
  then show ?thesis using access_patterns_agree [of Pinned as "\<lambda>_ _. 9" s] by blast
qed

end
