(* ===== verification/Tensor_Gemm.thy ===== *)
theory Tensor_Gemm
  imports Complex_Main Cuda_Launch
begin

section \<open>Matrix products on CUDA cores and on tensor cores\<close>

text \<open>
  The products of \<open>src/TensorCore\<close>: \<open>four_compare/gemm_compare.cu\<close>, \<open>gemm_4ways_fp16_simpler.cu\<close>, \<open>cuda_tensor/gemm_cuda_core.cu\<close> and
  \<open>wmma_tensorcore_example.cu\<close>.  A two-dimensional launch is a launch whose block and thread numbers count row by row.  The warp
  matrix instructions work on \<open>16 \<times> 16\<close> fragments: \<open>load_row_major\<close>, \<open>load_col_major\<close>, \<open>mma_sync\<close> and \<open>store_tile\<close> say what they are documented
  to do, and a warp is one thread here, whose stores come in any order.  Numbers are elements of a ring: the accumulation is exact, and
  the conversion to half precision is a parameter \<open>h\<close>.  The products of cuBLAS and CUTLASS are parameters.
\<close>

subsection \<open>One thread per element\<close>

fun mac_loop :: "(nat \<Rightarrow> 'a c) \<Rightarrow> nat list \<Rightarrow> 'a::plus \<Rightarrow> 'a c" where
  "mac_loop f [] acc = Inr acc"
| "mac_loop f (k # ks) acc = bindc (f k) (\<lambda>v. mac_loop f ks (acc + v))"

definition mul_ld :: "'a::times list \<Rightarrow> nat \<Rightarrow> 'a list \<Rightarrow> nat \<Rightarrow> 'a c" where
  "mul_ld a i b j = bindc (ld a i) (\<lambda>x. bindc (ld b j) (\<lambda>y. Inr (x * y)))"

definition block_row :: "nat \<Rightarrow> nat \<Rightarrow> nat \<Rightarrow> nat" where
  "block_row gridDim b t = b div gridDim * 16 + t div 16"

definition block_col :: "nat \<Rightarrow> nat \<Rightarrow> nat \<Rightarrow> nat" where
  "block_col gridDim b t = b mod gridDim * 16 + t mod 16"

definition naive_gemm_fp16 :: "('a::comm_ring_1 \<Rightarrow> 'a) \<Rightarrow> nat \<Rightarrow> nat \<Rightarrow> nat \<Rightarrow> 'a list \<Rightarrow> 'a list \<Rightarrow> 'a kernel" where
  "naive_gemm_fp16 h M N K A B b t =
     (let r = block_row ((N + 15) div 16) b t; c = block_col ((N + 15) div 16) b t
      in if M \<le> r \<or> N \<le> c then Inr []
         else bindc (mac_loop (\<lambda>k. mul_ld A (r * K + k) B (k * N + c)) [0..<K] 0) (\<lambda>acc. Inr [(r * N + c, h acc)]))"

definition gemm_cuda_core_kernel :: "nat \<Rightarrow> 'a::comm_ring_1 list \<Rightarrow> 'a list \<Rightarrow> 'a kernel" where
  "gemm_cuda_core_kernel N A B b t =
     (let row = block_row ((N + 15) div 16) b t; col = block_col ((N + 15) div 16) b t
      in if row < N \<and> col < N
         then bindc (mac_loop (\<lambda>k. mul_ld A (row * N + k) B (k * N + col)) [0..<N] 0) (\<lambda>sum. Inr [(row * N + col, sum)])
         else Inr [])"

text \<open>\<open>cuda_tensor/gemm_cuda_core.cu\<close>: the same with \<open>IDX2C\<close>, which counts column by column.\<close>

definition IDX2C :: "nat \<Rightarrow> nat \<Rightarrow> nat \<Rightarrow> nat" where
  "IDX2C i j lead = j * lead + i"

definition gemm_cuda_core :: "nat \<Rightarrow> 'a::comm_ring_1 list \<Rightarrow> 'a list \<Rightarrow> 'a kernel" where
  "gemm_cuda_core N A B b t =
     (let row = block_row ((N + 15) div 16) b t; col = block_col ((N + 15) div 16) b t
      in if row < N \<and> col < N
         then bindc (mac_loop (\<lambda>k. mul_ld A (IDX2C row k N) B (IDX2C k col N)) [0..<N] 0) (\<lambda>sum. Inr [(IDX2C row col N, sum)])
         else Inr [])"

text \<open>The product, row by row.\<close>

definition mat_mul :: "nat \<Rightarrow> nat \<Rightarrow> nat \<Rightarrow> 'a::comm_ring_1 list \<Rightarrow> 'a list \<Rightarrow> 'a list" where
  "mat_mul M N K A B = map (\<lambda>i. \<Sum>k<K. A ! (i div N * K + k) * B ! (k * N + i mod N)) [0..<M * N]"

lemma mac_loop_sum: "(\<And>k. k < n \<Longrightarrow> f k = Inr (g k)) \<Longrightarrow> mac_loop f [0..<n] a = Inr (a + (\<Sum>k<n. g k :: 'a::comm_ring_1))"
proof (induction n)
  case (Suc n)
  have "mac_loop f (xs @ ys) a = bindc (mac_loop f xs a) (mac_loop f ys)" for xs ys and a :: 'a
    by (induction xs arbitrary: a) (auto simp: bindc_def split: sum.splits)
  with Suc show ?case by (simp add: add.assoc)
qed simp

lemma index_lt: "r < M \<Longrightarrow> c < K \<Longrightarrow> r * K + c < M * (K :: nat)"
  using thread_lt [of r M c K] by (simp add: mult.commute)

lemma index_div [simp]: "c < N \<Longrightarrow> (r * N + c) div N = (r :: nat)" "c < N \<Longrightarrow> (r * N + c) mod N = (c :: nat)"
  by simp_all

text \<open>A launch of \<open>16 \<times> 16\<close> blocks in which the thread of row \<open>r\<close> and column \<open>c\<close> computes one element.\<close>

lemma grid_2d:
  assumes k: "\<And>b t r c. r = block_row ((N + 15) div 16) b t \<Longrightarrow> c = block_col ((N + 15) div 16) b t \<Longrightarrow>
      k b t = Inr (if r < M \<and> c < N then [(idx r c, f (idx r c))] else [])"
    and idx: "\<And>r c. r < M \<Longrightarrow> c < N \<Longrightarrow> idx r c < n" "\<And>i. i < n \<Longrightarrow> \<exists>r < M. \<exists>c < N. i = idx r c"
  shows "elementwise k ((M + 15) div 16 * ((N + 15) div 16)) 256 n
    (\<lambda>b t. let r = block_row ((N + 15) div 16) b t; c = block_col ((N + 15) div 16) b t in if r < M \<and> c < N then [idx r c] else []) f"
proof
  let ?g = "(N + 15) div 16"
  fix b t
  show "k b t = Inr (map (\<lambda>i. (i, f i)) (let r = block_row ?g b t; c = block_col ?g b t in if r < M \<and> c < N then [idx r c] else []))"
    by (simp add: k [OF refl refl] Let_def)
  show "i < n" if "i \<in> set (let r = block_row ?g b t; c = block_col ?g b t in if r < M \<and> c < N then [idx r c] else [])" for i
    using that idx(1) by (auto simp: Let_def split: if_splits)
next
  let ?g = "(N + 15) div 16"
  fix i assume "i < n"
  then obtain r c where r: "r < M" "c < N" "i = idx r c" using idx(2) by blast
  have d: "r div 16 < (M + 15) div 16" "c div 16 < ?g" using r(1,2) by linarith+
  let ?b = "r div 16 * ?g + c div 16" and ?t = "r mod 16 * 16 + c mod 16"
  have "?b < (M + 15) div 16 * ?g" by (rule index_lt [OF d])
  moreover have "r mod 16 < 16" "c mod 16 < 16" by simp_all
  then have "?t < 256" by linarith
  moreover have "block_row ?g ?b ?t = r" "block_col ?g ?b ?t = c"
    using d(2) \<open>c mod 16 < 16\<close> by (simp_all add: block_row_def block_col_def)
  ultimately show "\<exists>b < (M + 15) div 16 * ?g. \<exists>t < 256. i \<in> set (let r = block_row ?g b t; c = block_col ?g b t in if r < M \<and> c < N then [idx r c] else [])"
    using r by (intro exI [of _ ?b] exI [of _ ?t] conjI) (simp_all add: Let_def)
qed

lemma row_major_index: "i < M * N \<Longrightarrow> \<exists>r < M. \<exists>c < N. i = r * N + (c :: nat)"
proof -
  assume "i < M * N"
  then have "0 < N" by (cases N) auto
  with \<open>i < M * N\<close> show ?thesis by (intro exI [of _ "i div N"] conjI exI [of _ "i mod N"]) (simp_all add: less_mult_imp_div_less)
qed

lemma naive_computes:
  assumes "length A = M * K" "length B = K * N" "length xs = M * N"
    and "launch_result ((M + 15) div 16 * ((N + 15) div 16)) 256 (naive_gemm_fp16 h M N K A B) xs r"
  shows "r = Inr (map h (mat_mul M N K A B))"
proof -
  have "r = Inr (map (\<lambda>i. h (mat_mul M N K A B ! i)) [0..<M * N])"
  proof (rule elementwise.computes [OF grid_2d [where idx = "\<lambda>r c. r * N + c"] assms(3,4)])
    fix b t r c
    assume rc: "r = block_row ((N + 15) div 16) b t" "c = block_col ((N + 15) div 16) b t"
    show "naive_gemm_fp16 h M N K A B b t = Inr (if r < M \<and> c < N then [(r * N + c, h (mat_mul M N K A B ! (r * N + c)))] else [])"
    proof (cases "r < M \<and> c < N")
      case True
      then have "mac_loop (\<lambda>k. mul_ld A (r * K + k) B (k * N + c)) [0..<K] 0 = Inr (0 + (\<Sum>k<K. A ! (r * K + k) * B ! (k * N + c)))"
        using assms by (intro mac_loop_sum) (simp add: mul_ld_def index_lt)
      with True show ?thesis by (simp add: naive_gemm_fp16_def Let_def rc [symmetric] mat_mul_def index_lt)
    qed (auto simp: naive_gemm_fp16_def Let_def rc [symmetric])
  qed (auto simp: index_lt row_major_index)
  also have "map (\<lambda>i. h (mat_mul M N K A B ! i)) [0..<M * N] = map h (mat_mul M N K A B)"
    by (simp add: mat_mul_def)
  finally show ?thesis .
qed

lemma core_is_naive: "gemm_cuda_core_kernel N A B = naive_gemm_fp16 id N N N A B"
  by (auto simp: gemm_cuda_core_kernel_def naive_gemm_fp16_def fun_eq_iff Let_def)

lemma core_col_major_computes:
  assumes "length A = N * N" "length B = N * N" "length xs = N * N"
    and "launch_result ((N + 15) div 16 * ((N + 15) div 16)) 256 (gemm_cuda_core N A B) xs r"
  shows "r = Inr (mat_mul N N N B A)"
proof -
  have "r = Inr (map (\<lambda>i. mat_mul N N N B A ! i) [0..<N * N])"
  proof (rule elementwise.computes [OF grid_2d [where idx = "\<lambda>r c. IDX2C r c N"] assms(3,4)])
    fix b t r c
    assume rc: "r = block_row ((N + 15) div 16) b t" "c = block_col ((N + 15) div 16) b t"
    show "gemm_cuda_core N A B b t = Inr (if r < N \<and> c < N then [(IDX2C r c N, mat_mul N N N B A ! IDX2C r c N)] else [])"
    proof (cases "r < N \<and> c < N")
      case True
      then have "mac_loop (\<lambda>k. mul_ld A (IDX2C r k N) B (IDX2C k c N)) [0..<N] 0 = Inr (0 + (\<Sum>k<N. B ! (c * N + k) * A ! (k * N + r)))"
        using assms by (intro mac_loop_sum) (simp add: mul_ld_def index_lt IDX2C_def mult.commute [of "A ! _"])
      with True show ?thesis by (simp add: gemm_cuda_core_def Let_def rc [symmetric] mat_mul_def index_lt IDX2C_def)
    qed (auto simp: gemm_cuda_core_def Let_def rc [symmetric])
  next
    show "\<exists>r < N. \<exists>c < N. i = IDX2C r c N" if "i < N * N" for i
      using row_major_index [OF that] by (auto simp: IDX2C_def)
  qed (simp add: IDX2C_def index_lt)
  then show ?thesis by (simp add: mat_mul_def)
qed

subsection \<open>Warp matrix instructions\<close>

definition tile :: "(nat \<times> nat) list" where
  "tile = List.product [0..<16] [0..<16]"

definition load_row_major :: "'a list \<Rightarrow> nat \<Rightarrow> nat \<Rightarrow> 'a list c" where
  "load_row_major p ptr ldm = seqc (map (\<lambda>(i, j). ld p (ptr + i * ldm + j)) tile)"

definition load_col_major :: "'a list \<Rightarrow> nat \<Rightarrow> nat \<Rightarrow> 'a list c" where
  "load_col_major p ptr ldm = seqc (map (\<lambda>(i, j). ld p (ptr + j * ldm + i)) tile)"

definition mma_sync :: "'a::comm_ring_1 list \<Rightarrow> 'a list \<Rightarrow> 'a list \<Rightarrow> 'a list" where
  "mma_sync a b c = map (\<lambda>(i, j). c ! (i * 16 + j) + (\<Sum>k<16. a ! (i * 16 + k) * b ! (k * 16 + j))) tile"

definition store_tile :: "nat \<Rightarrow> nat \<Rightarrow> 'a list \<Rightarrow> 'a stores" where
  "store_tile ptr ldm c = map (\<lambda>(i, j). (ptr + i * ldm + j, c ! (i * 16 + j))) tile"

text \<open>The loop over the tiles of a row of \<open>A\<close> and a column of \<open>B\<close>.\<close>

fun tile_loop :: "(nat \<Rightarrow> 'a::comm_ring_1 list c) \<Rightarrow> (nat \<Rightarrow> 'a list c) \<Rightarrow> nat list \<Rightarrow> 'a list \<Rightarrow> 'a list c" where
  "tile_loop la lb [] acc = Inr acc"
| "tile_loop la lb (k # ks) acc = bindc (la k) (\<lambda>a. bindc (lb k) (\<lambda>b. tile_loop la lb ks (mma_sync a b acc)))"

definition gemm_wmma_kernel :: "nat \<Rightarrow> 'a::comm_ring_1 list \<Rightarrow> 'a list \<Rightarrow> 'a kernel" where
  "gemm_wmma_kernel N A B block warp =
     (let tileRow = block div (N div 16); tileCol = block mod (N div 16)
      in if N \<le> tileRow * 16 \<or> N \<le> tileCol * 16 then Inr []
         else bindc (tile_loop (\<lambda>tileK. load_row_major A (tileRow * 16 * N + tileK) N) (\<lambda>tileK. load_row_major B (tileK * N + tileCol * 16) N)
                (for_step 0 N 16) (replicate 256 0)) (\<lambda>c. Inr (store_tile (tileRow * 16 * N + tileCol * 16) N c)))"

definition wmma_gemm_kernel :: "nat \<Rightarrow> nat \<Rightarrow> nat \<Rightarrow> 'a::comm_ring_1 list \<Rightarrow> 'a list \<Rightarrow> 'a kernel" where
  "wmma_gemm_kernel M N K A Bcol block warp =
     (let gw = block * 4 + warp; tilesN = N div 16; tr = gw div tilesN; tc = gw mod tilesN
      in if M \<le> tr * 16 \<or> N \<le> tc * 16 then Inr []
         else bindc (tile_loop (\<lambda>k0. load_row_major A (tr * 16 * K + k0) K) (\<lambda>k0. load_col_major Bcol (tc * 16 * K + k0) K)
                (for_step 0 K 16) (replicate 256 0)) (\<lambda>acc. Inr (store_tile (tr * 16 * N + tc * 16) N acc)))"

definition frag :: "(nat \<Rightarrow> nat \<Rightarrow> 'a) \<Rightarrow> 'a list" where
  "frag f = map (\<lambda>(i, j). f i j) tile"

lemma frag_nth: "i < 16 \<Longrightarrow> j < 16 \<Longrightarrow> frag f ! (i * 16 + j) = f i j"
proof -
  assume ij: "i < 16" "j < 16"
  then have "i * 16 + j < 256" by linarith
  with ij show ?thesis by (simp add: frag_def tile_def product_nth)
qed

lemma in_tile: "(i, j) \<in> set tile \<longleftrightarrow> i < 16 \<and> j < 16"
  by (auto simp: tile_def)

lemma frag_cong: "(\<And>i j. i < 16 \<Longrightarrow> j < 16 \<Longrightarrow> f i j = g i j) \<Longrightarrow> frag f = frag g"
  unfolding frag_def by (intro map_cong) (auto simp: in_tile)

lemma load_frag:
  "(\<And>i j. i < 16 \<Longrightarrow> j < 16 \<Longrightarrow> ptr + i * ldm + j < length p) \<Longrightarrow> load_row_major p ptr ldm = Inr (frag (\<lambda>i j. p ! (ptr + i * ldm + j)))"
  "(\<And>i j. i < 16 \<Longrightarrow> j < 16 \<Longrightarrow> ptr + j * ldm + i < length p) \<Longrightarrow> load_col_major p ptr ldm = Inr (frag (\<lambda>i j. p ! (ptr + j * ldm + i)))"
  unfolding load_row_major_def load_col_major_def frag_def by (intro seqc_Inr; auto simp: in_tile)+

lemma mma_frag: "mma_sync (frag X) (frag Y) (frag f) = frag (\<lambda>i j. f i j + (\<Sum>k<16. X i k * Y k j))"
  unfolding mma_sync_def frag_def [of "\<lambda>i j. f i j + _ i j"] by (intro map_cong) (auto simp: in_tile frag_nth)

lemma zero_frag: "replicate 256 0 = frag (\<lambda>_ _. 0)"
  by (simp add: frag_def tile_def case_prod_unfold map_replicate_const)

lemma sum_tiles: "(\<Sum>k<16 * Suc t. f k) = (\<Sum>k<16 * t. f k) + (\<Sum>k<16. f (16 * t + k) :: 'a::comm_ring_1)"
proof -
  have "{..<16 * Suc t} = {..<16 * t} \<union> {16 * t..<16 * t + 16}" by auto
  moreover have "(\<Sum>k = 16 * t..<16 * t + 16. f k) = (\<Sum>k<16. f (16 * t + k))"
    using sum.shift_bounds_nat_ivl [of f 0 "16 * t" 16] by (simp add: lessThan_atLeast0 add.commute)
  ultimately show ?thesis by (simp add: sum.union_disjoint ivl_disj_int)
qed

lemma tile_loop_sum:
  assumes "\<And>t. t < T \<Longrightarrow> la (16 * t) = Inr (frag (\<lambda>i k. X i (16 * t + k)))" "\<And>t. t < T \<Longrightarrow> lb (16 * t) = Inr (frag (\<lambda>k j. Y (16 * t + k) j))"
  shows "tile_loop la lb (map (\<lambda>t. 16 * t) [0..<T]) (frag f) = Inr (frag (\<lambda>i j. f i j + (\<Sum>k<16 * T. X i k * Y k j)))"
  using assms
proof (induction T)
  case (Suc T)
  have "tile_loop la lb (xs @ ys) a = bindc (tile_loop la lb xs a) (tile_loop la lb ys)" for xs ys a
    by (induction xs arbitrary: a) (auto simp: bindc_def split: sum.splits)
  with Suc show ?case by (simp add: mma_frag sum_tiles add.assoc del: mult_Suc_right)
qed simp

lemma for_step_tiles: "16 dvd n \<Longrightarrow> for_step 0 n 16 = map (\<lambda>t. 16 * t) [0..<n div 16]"
proof -
  assume "16 dvd n"
  then obtain T where T: "n = 16 * T" by blast
  have "for_step (16 * t) (16 * T) 16 = map (\<lambda>t. 16 * t) [t..<T]" for t
  proof (induction "T - t" arbitrary: t)
    case 0
    then show ?case by (subst for_step.simps) simp
  next
    case (Suc d)
    then have "for_step (16 * Suc t) (16 * T) 16 = map (\<lambda>t. 16 * t) [Suc t..<T]" by (intro Suc.hyps(1)) simp
    moreover have "t < T" using Suc.hyps(2) by simp
    ultimately show ?case by (subst for_step.simps) (simp add: upt_conv_Cons add.commute)
  qed
  from this [of 0] T show ?thesis by simp
qed

text \<open>The elements of a tile, and the warp that computes it.\<close>

definition tile_cells :: "nat \<Rightarrow> nat \<Rightarrow> nat list" where
  "tile_cells N g = map (\<lambda>(i, j). g div (N div 16) * 16 * N + g mod (N div 16) * 16 + i * N + j) tile"

lemma tile_index:
  assumes "16 dvd M" "16 dvd N" "g < M div 16 * (N div 16)" "i < 16" "j < (16 :: nat)"
  shows "g div (N div 16) * 16 + i < M" "g mod (N div 16) * 16 + j < N"
proof -
  have "0 < N div 16" using assms(3) by (cases "N div 16") auto
  then have "g div (N div 16) < M div 16" "g mod (N div 16) < N div 16" using assms(3) by (simp_all add: less_mult_imp_div_less)
  then show "g div (N div 16) * 16 + i < M" "g mod (N div 16) * 16 + j < N" using assms(4,5) by linarith+
qed

lemma warp_stores:
  fixes A B :: "'a::comm_ring_1 list"
  assumes d: "16 dvd M" "16 dvd N" "16 dvd K" and g: "g < M div 16 * (N div 16)"
    and la: "\<And>t. t < K div 16 \<Longrightarrow> la (16 * t) = Inr (frag (\<lambda>i k. A ! ((g div (N div 16) * 16 + i) * K + (16 * t + k))))"
    and lb: "\<And>t. t < K div 16 \<Longrightarrow> lb (16 * t) = Inr (frag (\<lambda>k j. B ! ((16 * t + k) * N + (g mod (N div 16) * 16 + j))))"
  shows "bindc (tile_loop la lb (for_step 0 K 16) (replicate 256 0))
      (\<lambda>c. Inr (store_tile (g div (N div 16) * 16 * N + g mod (N div 16) * 16) N c)) =
    Inr (map (\<lambda>i. (i, mat_mul M N K A B ! i)) (tile_cells N g))"
proof -
  let ?r = "g div (N div 16) * 16" and ?c = "g mod (N div 16) * 16"
  let ?f = "\<lambda>i j. 0 + (\<Sum>k<16 * (K div 16). A ! ((?r + i) * K + k) * B ! (k * N + (?c + j)))"
  have "tile_loop la lb (for_step 0 K 16) (replicate 256 0) = Inr (frag ?f)"
    unfolding for_step_tiles [OF d(3)] zero_frag
    by (rule tile_loop_sum [where X = "\<lambda>i k. A ! ((?r + i) * K + k)" and Y = "\<lambda>k j. B ! (k * N + (?c + j))", OF la lb])
  moreover have "store_tile (?r * N + ?c) N (frag ?f) = map (\<lambda>i. (i, mat_mul M N K A B ! i)) (tile_cells N g)"
    unfolding store_tile_def tile_cells_def map_map
  proof (intro map_cong refl, clarsimp simp: in_tile comp_def frag_nth)
    fix i j :: nat assume ij: "i < 16" "j < 16"
    have e: "?r * N + ?c + i * N + j = (?r + i) * N + (?c + j)" by (simp add: algebra_simps)
    have "?r + i < M" "?c + j < N" using tile_index [OF d(1,2) g ij] .
    then have "mat_mul M N K A B ! (?r * N + ?c + i * N + j) = (\<Sum>k<K. A ! ((?r + i) * K + k) * B ! (k * N + (?c + j)))"
      unfolding e by (simp add: mat_mul_def index_lt del: add_mult_distrib)
    then show "(\<Sum>k<16 * (K div 16). A ! ((?r + i) * K + k) * B ! (k * N + (?c + j))) = mat_mul M N K A B ! (?r * N + ?c + i * N + j)"
      using d(3) by simp
  qed
  ultimately show ?thesis by simp
qed

lemma warp_elementwise:
  assumes d: "16 dvd M" "16 dvd N"
    and k: "\<And>b w. b < grid \<Longrightarrow> w < warps \<Longrightarrow>
      k b w = Inr (if gw b w < M div 16 * (N div 16) then map (\<lambda>i. (i, f i)) (tile_cells N (gw b w)) else [])"
    and all: "\<And>g. g < M div 16 * (N div 16) \<Longrightarrow> \<exists>b < grid. \<exists>w < warps. gw b w = g"
  shows "elementwise k grid warps (M * N) (\<lambda>b w. if gw b w < M div 16 * (N div 16) then tile_cells N (gw b w) else []) f"
proof
  show "k b w = Inr (map (\<lambda>i. (i, f i)) (if gw b w < M div 16 * (N div 16) then tile_cells N (gw b w) else []))" if "b < grid" "w < warps" for b w
    by (simp add: k [OF that])
  show "i < M * N" if "i \<in> set (if gw b w < M div 16 * (N div 16) then tile_cells N (gw b w) else [])" for b w i
  proof -
    let ?g = "gw b w"
    from that obtain r c where g: "?g < M div 16 * (N div 16)" "r < 16" "c < 16"
      and i: "i = ?g div (N div 16) * 16 * N + ?g mod (N div 16) * 16 + r * N + c"
      by (auto simp: tile_cells_def in_tile split: if_splits)
    have "i = (?g div (N div 16) * 16 + r) * N + (?g mod (N div 16) * 16 + c)" unfolding i by (simp add: algebra_simps)
    then show ?thesis using index_lt [OF tile_index [OF d g]] by simp
  qed
next
  fix i assume "i < M * N"
  then obtain r c where r: "r < M" "c < N" "i = r * N + c" using row_major_index by blast
  let ?g = "r div 16 * (N div 16) + c div 16"
  have c: "r div 16 < M div 16" "c div 16 < N div 16" using r(1,2) d by (auto elim!: dvdE)
  then have g: "?g < M div 16 * (N div 16)" by (rule index_lt)
  then obtain b w where b: "b < grid" "w < warps" "gw b w = ?g" using all by blast
  have "i = ?g div (N div 16) * 16 * N + ?g mod (N div 16) * 16 + r mod 16 * N + c mod 16"
  proof -
    have "r * N + c = (r div 16 * 16 + r mod 16) * N + (c div 16 * 16 + c mod 16)" by simp
    also have "\<dots> = r div 16 * 16 * N + c div 16 * 16 + r mod 16 * N + c mod 16" by (simp only: add_mult_distrib add_mult_distrib2 ac_simps)
    finally show ?thesis using c(2) r(3) by simp
  qed
  moreover have "(r mod 16, c mod 16) \<in> set tile" by (simp add: in_tile)
  ultimately have "i \<in> set (tile_cells N ?g)" unfolding tile_cells_def by force
  then show "\<exists>b < grid. \<exists>t < warps. i \<in> set (if gw b t < M div 16 * (N div 16) then tile_cells N (gw b t) else [])"
    using b g by (intro exI [of _ b] exI [of _ w] conjI) simp_all
qed

lemma tile_range:
  fixes M N g :: nat
  assumes "16 dvd M" "16 dvd N"
  shows "\<not> (M \<le> g div (N div 16) * 16 \<or> N \<le> g mod (N div 16) * 16) \<longleftrightarrow> g < M div 16 * (N div 16)"
proof (cases "N div 16 = 0")
  case True
  with assms show ?thesis by auto
next
  case False
  obtain m where m: "M = 16 * m" using assms(1) by blast
  have "g mod (N div 16) < N div 16" using False by simp
  then have "\<not> N \<le> g mod (N div 16) * 16" using assms(2) by linarith
  moreover have "g div (N div 16) < m \<longleftrightarrow> g < m * (N div 16)" using False by (simp add: div_less_iff_less_mult)
  ultimately show ?thesis using m by auto
qed

lemma dvd_tile: "16 dvd K \<Longrightarrow> t < K div 16 \<Longrightarrow> k < 16 \<Longrightarrow> 16 * t + k < (K :: nat)"
  by linarith

lemma load_A_tile:
  assumes "16 dvd K" "t < K div 16" "length A = M * K" "\<And>i. i < 16 \<Longrightarrow> r + i < M"
  shows "load_row_major A (r * K + 16 * t) K = Inr (frag (\<lambda>i k. A ! ((r + i) * K + (16 * t + k))))"
proof -
  have "load_row_major A (r * K + 16 * t) K = Inr (frag (\<lambda>i k. A ! (r * K + 16 * t + i * K + k)))"
  proof (rule load_frag)
    fix i k :: nat assume "i < 16" "k < 16"
    then have "(r + i) * K + (16 * t + k) < M * K" by (intro index_lt assms(4) dvd_tile [OF assms(1,2)])
    then show "r * K + 16 * t + i * K + k < length A" by (simp add: assms(3) algebra_simps)
  qed
  then show ?thesis by (simp add: algebra_simps)
qed

lemma wmma_gemm_thread:
  fixes A B Bcol :: "'a::comm_ring_1 list"
  assumes d: "16 dvd M" "16 dvd N" "16 dvd K" and l: "length A = M * K" "length Bcol = N * K"
    and col: "\<And>k n. k < K \<Longrightarrow> n < N \<Longrightarrow> Bcol ! (n * K + k) = B ! (k * N + n)"
  shows "wmma_gemm_kernel M N K A Bcol b w =
    Inr (if b * 4 + w < M div 16 * (N div 16) then map (\<lambda>i. (i, mat_mul M N K A B ! i)) (tile_cells N (b * 4 + w)) else [])"
proof (cases "b * 4 + w < M div 16 * (N div 16)")
  case True
  let ?g = "b * 4 + w"
  let ?r = "?g div (N div 16) * 16" and ?c = "?g mod (N div 16) * 16"
  note t = tile_index [OF d(1,2) True]
  have a: "load_row_major A (?r * K + 16 * t) K = Inr (frag (\<lambda>i k. A ! ((?r + i) * K + (16 * t + k))))" if "t < K div 16" for t
    by (rule load_A_tile [OF d(3) that l(1) t(1)]) simp_all
  have b: "load_col_major Bcol (?c * K + 16 * t) K = Inr (frag (\<lambda>k j. B ! ((16 * t + k) * N + (?c + j))))" if "t < K div 16" for t
  proof -
    have "load_col_major Bcol (?c * K + 16 * t) K = Inr (frag (\<lambda>k j. Bcol ! (?c * K + 16 * t + j * K + k)))"
    proof (rule load_frag)
      fix k j :: nat assume "k < 16" "j < 16"
      then have "(?c + j) * K + (16 * t + k) < N * K" by (intro index_lt t(2) [of 0 j] dvd_tile [OF d(3) that]) simp_all
      then show "?c * K + 16 * t + j * K + k < length Bcol" by (simp add: l(2) algebra_simps)
    qed
    also have "frag (\<lambda>k j. Bcol ! (?c * K + 16 * t + j * K + k)) = frag (\<lambda>k j. B ! ((16 * t + k) * N + (?c + j)))"
    proof (rule frag_cong)
      fix k j :: nat assume "k < 16" "j < 16"
      then have "Bcol ! ((?c + j) * K + (16 * t + k)) = B ! ((16 * t + k) * N + (?c + j))"
        by (intro col t(2) [of 0 j] dvd_tile [OF d(3) that]) simp_all
      moreover have "?c * K + 16 * t + j * K + k = (?c + j) * K + (16 * t + k)" by (simp add: algebra_simps)
      ultimately show "Bcol ! (?c * K + 16 * t + j * K + k) = B ! ((16 * t + k) * N + (?c + j))" by (simp only:)
    qed
    finally show ?thesis .
  qed
  have "\<not> (M \<le> ?r \<or> N \<le> ?c)" using tile_range [OF d(1,2)] True by blast
  then show ?thesis using warp_stores [OF d True a b] True by (simp add: wmma_gemm_kernel_def Let_def)
next
  case False
  then have "M \<le> (b * 4 + w) div (N div 16) * 16 \<or> N \<le> (b * 4 + w) mod (N div 16) * 16" using tile_range [OF d(1,2)] by blast
  with False show ?thesis by (simp add: wmma_gemm_kernel_def Let_def)
qed

lemma gemm_wmma_thread:
  fixes A B :: "'a::comm_ring_1 list"
  assumes d: "16 dvd N" and l: "length A = N * N" "length B = N * N"
  shows "gemm_wmma_kernel N A B b w =
    Inr (if b < N div 16 * (N div 16) then map (\<lambda>i. (i, mat_mul N N N A B ! i)) (tile_cells N b) else [])"
proof (cases "b < N div 16 * (N div 16)")
  case True
  let ?r = "b div (N div 16) * 16" and ?c = "b mod (N div 16) * 16"
  note t = tile_index [OF d d True]
  have a: "load_row_major A (?r * N + 16 * t) N = Inr (frag (\<lambda>i k. A ! ((?r + i) * N + (16 * t + k))))" if "t < N div 16" for t
    by (rule load_A_tile [OF d that l(1) t(1)]) simp_all
  have b: "load_row_major B (16 * t * N + ?c) N = Inr (frag (\<lambda>k j. B ! ((16 * t + k) * N + (?c + j))))" if "t < N div 16" for t
  proof -
    have "load_row_major B (16 * t * N + ?c) N = Inr (frag (\<lambda>k j. B ! (16 * t * N + ?c + k * N + j)))"
    proof (rule load_frag)
      fix k j :: nat assume "k < 16" "j < 16"
      then have "(16 * t + k) * N + (?c + j) < N * N" by (intro index_lt t(2) [of 0 j] dvd_tile [OF d that]) simp_all
      then show "16 * t * N + ?c + k * N + j < length B" by (simp add: l(2) algebra_simps)
    qed
    then show ?thesis by (simp add: algebra_simps)
  qed
  have "\<not> (N \<le> ?r \<or> N \<le> ?c)" using tile_range [OF d d] True by blast
  then show ?thesis using warp_stores [OF d d d True a b] True by (simp add: gemm_wmma_kernel_def Let_def)
next
  case False
  then have "N \<le> b div (N div 16) * 16 \<or> N \<le> b mod (N div 16) * 16" using tile_range [OF d d] by blast
  with False show ?thesis by (simp add: gemm_wmma_kernel_def Let_def)
qed

lemma gemm_wmma_computes:
  assumes "16 dvd N" "length A = N * N" "length B = N * N" "length xs = N * N"
    and "launch_result (N div 16 * (N div 16)) 1 (gemm_wmma_kernel N A B) xs r"
  shows "r = Inr (mat_mul N N N A B)"
proof -
  have "r = Inr (map (\<lambda>i. mat_mul N N N A B ! i) [0..<N * N])"
    by (rule elementwise.computes [OF warp_elementwise [where gw = "\<lambda>b w. b"] assms(4,5)]) (use assms(1) gemm_wmma_thread [OF assms(1-3)] in auto)
  then show ?thesis by (simp add: mat_mul_def)
qed

lemma wmma_gemm_computes:
  assumes "16 dvd M" "16 dvd N" "16 dvd K" "length A = M * K" "length Bcol = N * K" "length xs = M * N"
    and "\<And>k n. k < K \<Longrightarrow> n < N \<Longrightarrow> Bcol ! (n * K + k) = B ! (k * N + n)"
    and "launch_result ((M div 16 * (N div 16) + 3) div 4) 4 (wmma_gemm_kernel M N K A Bcol) xs r"
  shows "r = Inr (mat_mul M N K A B)"
proof -
  have "r = Inr (map (\<lambda>i. mat_mul M N K A B ! i) [0..<M * N])"
  proof (rule elementwise.computes [OF warp_elementwise [where gw = "\<lambda>b w. b * 4 + w"] assms(6,8)])
    fix g assume "g < M div 16 * (N div 16)"
    then have "g div 4 < (M div 16 * (N div 16) + 3) div 4" "g mod 4 < 4" "g div 4 * 4 + g mod 4 = g" by (linarith, simp, simp)
    then show "\<exists>b < (M div 16 * (N div 16) + 3) div 4. \<exists>w < 4. b * 4 + w = g" by blast
  qed (use assms(1,2) wmma_gemm_thread [OF assms(1-5,7)] in auto)
  then show ?thesis by (simp add: mat_mul_def)
qed

subsection \<open>The programs\<close>

fun launches :: "nat \<Rightarrow> ('a list \<Rightarrow> 'a list c) \<Rightarrow> 'a list \<Rightarrow> 'a list c" where
  "launches 0 f C = Inr C"
| "launches (Suc k) f C = bindc (f C) (launches k f)"

type_synonym 'a device = "nat \<Rightarrow> nat \<Rightarrow> 'a kernel \<Rightarrow> 'a list \<Rightarrow> 'a list c"
type_synonym 'a gemm = "nat \<Rightarrow> 'a \<Rightarrow> 'a list \<Rightarrow> 'a list \<Rightarrow> 'a \<Rightarrow> 'a list \<Rightarrow> 'a list c"

definition time_kernel_ms :: "('a list \<Rightarrow> 'a list c) \<Rightarrow> nat \<Rightarrow> 'a list \<Rightarrow> 'a list c" where
  "time_kernel_ms func repeat C = bindc (func C) (launches repeat func)"

definition ones :: "nat \<Rightarrow> 'a::one list" where
  "ones N = replicate (N * N) 1"

definition run_gemm_cuda_core :: "'a::comm_ring_1 device \<Rightarrow> nat \<Rightarrow> 'a c" where
  "run_gemm_cuda_core exec N =
     bindc (time_kernel_ms (exec ((N + 15) div 16 * ((N + 15) div 16)) 256 (gemm_cuda_core_kernel N (ones N) (ones N))) 3 (replicate (N * N) 0))
       (\<lambda>C. ld C 0)"

definition run_gemm_wmma :: "'a::comm_ring_1 device \<Rightarrow> nat \<Rightarrow> 'a option c" where
  "run_gemm_wmma exec N =
     (if N mod 16 \<noteq> 0 then Inr None
      else bindc (time_kernel_ms (exec (N div 16 * (N div 16)) 1 (gemm_wmma_kernel N (ones N) (ones N))) 3 (replicate (N * N) 0))
             (\<lambda>C. bindc (ld C 0) (\<lambda>v. Inr (Some v))))"

definition run_gemm_cublas_tc :: "'a::comm_ring_1 gemm \<Rightarrow> nat \<Rightarrow> 'a c" where
  "run_gemm_cublas_tc cublasGemmEx N = bindc (time_kernel_ms (cublasGemmEx N 1 (ones N) (ones N) 0) 5 (replicate (N * N) 0)) (\<lambda>C. ld C 0)"

definition run_gemm_cutlass :: "'a::comm_ring_1 gemm \<Rightarrow> nat \<Rightarrow> 'a c" where
  "run_gemm_cutlass gemm_op N = bindc (time_kernel_ms (gemm_op N 1 (ones N) (ones N) 0) 3 (replicate (N * N) 0)) (\<lambda>C. ld C 0)"

text \<open>What \<open>main\<close> prints of the results: \<open>C[0]\<close> of each version, nothing for a skipped one.\<close>

definition gemm_compare_main :: "'a::comm_ring_1 device \<Rightarrow> 'a gemm \<Rightarrow> 'a gemm \<Rightarrow> nat \<Rightarrow> 'a option list c" where
  "gemm_compare_main exec cublasGemmEx gemm_op N =
     bindc (run_gemm_cuda_core exec N) (\<lambda>a. bindc (run_gemm_wmma exec N) (\<lambda>b.
     bindc (run_gemm_cublas_tc cublasGemmEx N) (\<lambda>c. bindc (run_gemm_cutlass gemm_op N) (\<lambda>d. Inr [Some a, b, Some c, Some d]))))"

definition fill_fp16 :: "('a::field \<Rightarrow> 'a) \<Rightarrow> nat \<Rightarrow> 'a list" where
  "fill_fp16 h n = map (\<lambda>i. h (of_int (int (i mod 13) - 6) / 7)) [0..<n]"

definition row_to_col_major_B :: "'a list \<Rightarrow> 'a list \<Rightarrow> nat \<Rightarrow> nat \<Rightarrow> 'a list c" where
  "row_to_col_major_B Brow Bcol K N =
     bindc (for_stores (List.product [0..<K] [0..<N]) (\<lambda>(k, n). bindc (ld Brow (k * N + n)) (\<lambda>v. Inr [(n * K + k, v)])))
       (\<lambda>ws. store_all ws Bcol)"

definition run_naive :: "'a::comm_ring_1 device \<Rightarrow> ('a \<Rightarrow> 'a) \<Rightarrow> nat \<Rightarrow> nat \<Rightarrow> nat \<Rightarrow> 'a list \<Rightarrow> 'a list \<Rightarrow> 'a list \<Rightarrow> 'a list c" where
  "run_naive exec h M N K A B C = exec ((M + 15) div 16 * ((N + 15) div 16)) 256 (naive_gemm_fp16 h M N K A B) C"

definition run_wmma :: "'a::comm_ring_1 device \<Rightarrow> nat \<Rightarrow> nat \<Rightarrow> nat \<Rightarrow> 'a list \<Rightarrow> 'a list \<Rightarrow> 'a list \<Rightarrow> 'a list c" where
  "run_wmma exec M N K A Bcol C = exec ((M div 16 * (N div 16) + 3) div 4) 4 (wmma_gemm_kernel M N K A Bcol) C"

text \<open>
  \<open>main\<close> of \<open>gemm_4ways_fp16_simpler.cu\<close> as far as the two kernels of the program: it leaves \<open>dC\<close> after the naive product and \<open>dCw\<close>
  after the product on tensor cores, from whatever the memory of the device holds.  Each is run 20 and 200 times, after clearing its result.
\<close>

definition four_ways_main :: "'a::field device \<Rightarrow> ('a \<Rightarrow> 'a) \<Rightarrow> nat \<Rightarrow> nat \<Rightarrow> nat \<Rightarrow> 'a list \<Rightarrow> 'a list \<Rightarrow> ('a list \<times> 'a list) c" where
  "four_ways_main exec h M N K dC dCw =
     (let hA = fill_fp16 h (M * K); hB = fill_fp16 h (K * N)
      in bindc (row_to_col_major_B hB (replicate (K * N) 0) K N) (\<lambda>hBcol.
         bindc (launches 220 (\<lambda>C. run_naive exec h M N K hA hB (map (\<lambda>_. 0) C)) dC) (\<lambda>dC.
         bindc (launches 220 (\<lambda>C. run_wmma exec M N K hA hBcol (map (\<lambda>_. 0) C)) dCw) (\<lambda>dCw.
           Inr (dC, dCw)))))"

text \<open>\<open>cuda_tensor/gemm_cuda_core.cu\<close>: one launch; \<open>C\<close> is not initialised.\<close>

definition gemm_cuda_core_run :: "'a::comm_ring_1 device \<Rightarrow> nat \<Rightarrow> 'a list \<Rightarrow> 'a list c" where
  "gemm_cuda_core_run exec N C = exec ((N + 15) div 16 * ((N + 15) div 16)) 256 (gemm_cuda_core N (ones N) (ones N)) C"

text \<open>\<open>wmma_tensorcore_example.cu\<close>: one tile.\<close>

definition wmma_example :: "'a::comm_ring_1 list \<Rightarrow> 'a list \<Rightarrow> 'a kernel" where
  "wmma_example a b block warp =
     bindc (load_row_major a 0 16) (\<lambda>a_frag. bindc (load_col_major b 0 16) (\<lambda>b_frag.
       Inr (store_tile 0 16 (mma_sync a_frag b_frag (replicate 256 0)))))"

definition wmma_example_main :: "'a::comm_ring_1 device \<Rightarrow> 'a list \<Rightarrow> 'a list c" where
  "wmma_example_main exec c =
     bindc (exec 1 1 (wmma_example (replicate 256 1) (replicate 256 1)) c) (\<lambda>c. seqc [ld c 0, ld c 1, ld c 10])"

subsection \<open>What the programs compute\<close>

lemma mat_mul_length [simp]: "length (mat_mul M N K A B) = M * N"
  by (simp add: mat_mul_def)

lemma row_to_col_transposes:
  assumes "length Brow = K * N" "length Bcol = K * N"
  shows "\<exists>ys. row_to_col_major_B Brow Bcol K N = Inr ys \<and> length ys = N * K \<and> (\<forall>k < K. \<forall>n < N. ys ! (n * K + k) = Brow ! (k * N + n))"
proof -
  let ?ix = "List.product [0..<K] [0..<N]"
  let ?ws = "concat (map (\<lambda>(k, n). [(n * K + k, Brow ! (k * N + n))]) ?ix)"
  have st: "for_stores ?ix (\<lambda>(k, n). bindc (ld Brow (k * N + n)) (\<lambda>v. Inr [(n * K + k, v)])) = Inr ?ws"
    by (rule for_stores_Inr) (auto simp: assms(1) index_lt)
  have ws: "set ?ws = {(n * K + k, Brow ! (k * N + n)) | k n. k < K \<and> n < N}" by (auto; force)
  have "i < length Bcol \<and> v = Brow ! (i mod K * N + i div K)" if "(i, v) \<in> set ?ws" for i v
    using that assms(2) index_lt [of _ N _ K] unfolding ws by (auto simp: mult.commute [of K N])
  from store_all_values [of ?ws Bcol, OF this] obtain ys where ys: "store_all ?ws Bcol = Inr ys" "length ys = length Bcol"
    "\<forall>i < length Bcol. ys ! i = (if i \<in> fst ` set ?ws then Brow ! (i mod K * N + i div K) else Bcol ! i)" by blast
  have "ys ! (n * K + k) = Brow ! (k * N + n)" if "k < K" "n < N" for k n
  proof -
    have "n * K + k \<in> fst ` set ?ws" unfolding ws using that by force
    moreover have "n * K + k < length Bcol" using index_lt [OF that(2,1)] assms(2) by (simp add: mult.commute)
    ultimately show ?thesis using ys(3) that(1) by simp
  qed
  then show ?thesis using ys st assms(2) by (simp add: row_to_col_major_B_def mult.commute)
qed

lemma launches_const: "(\<And>C. length C = n \<Longrightarrow> f C = Inr P) \<Longrightarrow> length P = n \<Longrightarrow> length C = n \<Longrightarrow> launches (Suc k) f C = Inr P"
  by (induction k arbitrary: C) simp_all

lemma timed_const: "(\<And>C. length C = n \<Longrightarrow> f C = Inr P) \<Longrightarrow> length P = n \<Longrightarrow> length C = n \<Longrightarrow> time_kernel_ms f k C = Inr P"
  using launches_const [of n f P C k] by (simp add: time_kernel_ms_def)

lemma kernels_compute:
  fixes A B :: "'a::comm_ring_1 list"
  assumes "cuda_device (exec :: 'a device)" "length A = M * K" "length B = K * N" "length C = M * N"
  shows "run_naive exec h M N K A B C = Inr (map h (mat_mul M N K A B))"
    and "M = N \<Longrightarrow> K = N \<Longrightarrow>
      exec ((N + 15) div 16 * ((N + 15) div 16)) 256 (gemm_cuda_core_kernel N A B) C = Inr (mat_mul N N N A B)"
    and "M = N \<Longrightarrow> K = N \<Longrightarrow> 16 dvd N \<Longrightarrow>
      exec (N div 16 * (N div 16)) 1 (gemm_wmma_kernel N A B) C = Inr (mat_mul N N N A B)"
    and "16 dvd M \<Longrightarrow> 16 dvd N \<Longrightarrow> 16 dvd K \<Longrightarrow> length D = K * N \<Longrightarrow>
      bindc (row_to_col_major_B B D K N) (\<lambda>Bcol. run_wmma exec M N K A Bcol C) = Inr (mat_mul M N K A B)"
proof -
  have r: "launch_result g b k xs (exec g b k xs)" for g b k xs by (rule cuda_device.any_order [OF assms(1)])
  show "run_naive exec h M N K A B C = Inr (map h (mat_mul M N K A B))"
    unfolding run_naive_def by (rule naive_computes [OF assms(2-4) r])
  show "exec ((N + 15) div 16 * ((N + 15) div 16)) 256 (gemm_cuda_core_kernel N A B) C = Inr (mat_mul N N N A B)" if "M = N" "K = N"
    using naive_computes [of A N N B N C, OF _ _ _ r, of id] assms(2-4) that by (simp add: core_is_naive)
  show "exec (N div 16 * (N div 16)) 1 (gemm_wmma_kernel N A B) C = Inr (mat_mul N N N A B)" if "M = N" "K = N" "16 dvd N"
    using gemm_wmma_computes [OF that(3) _ _ _ r] assms(2-4) that by simp
  assume d: "16 dvd M" "16 dvd N" "16 dvd K" "length D = K * N"
  obtain Bcol where c: "row_to_col_major_B B D K N = Inr Bcol" "length Bcol = N * K" "\<forall>k < K. \<forall>n < N. Bcol ! (n * K + k) = B ! (k * N + n)"
    using row_to_col_transposes [OF assms(3) d(4)] by blast
  have "run_wmma exec M N K A Bcol C = Inr (mat_mul M N K A B)"
    unfolding run_wmma_def by (rule wmma_gemm_computes [OF d(1-3) assms(2) c(2) assms(4) _ r]) (use c(3) in blast)
  then show "bindc (row_to_col_major_B B D K N) (\<lambda>Bcol. run_wmma exec M N K A Bcol C) = Inr (mat_mul M N K A B)" by (simp add: c(1))
qed



text \<open>
  The naive product of \<open>gemm_4ways_fp16_simpler.cu\<close> is the one on tensor cores, rounded to half precision, however often they are repeated and
  whatever the memory of the device held.
\<close>

theorem four_ways_agree:
  assumes "cuda_device (exec :: 'a::field device)" "16 dvd M" "16 dvd N" "16 dvd K" "length dC = M * N" "length dCw = M * N"
  shows "four_ways_main exec h M N K dC dCw =
    Inr (map h (mat_mul M N K (fill_fp16 h (M * K)) (fill_fp16 h (K * N))), mat_mul M N K (fill_fp16 h (M * K)) (fill_fp16 h (K * N)))"
proof -
  let ?A = "fill_fp16 h (M * K)" and ?B = "fill_fp16 h (K * N)"
  have l: "length ?A = M * K" "length ?B = K * N" by (simp_all add: fill_fp16_def)
  have D: "length (replicate (K * N) (0 :: 'a)) = K * N" by simp
  obtain Bcol where c: "row_to_col_major_B ?B (replicate (K * N) 0) K N = Inr Bcol"
    using row_to_col_transposes [OF l(2) D] by blast
  have n: "run_naive exec h M N K ?A ?B (map (\<lambda>_. 0) C) = Inr (map h (mat_mul M N K ?A ?B))" if "length C = M * N" for C :: "'a list"
    using kernels_compute(1) [OF assms(1) l, of "map (\<lambda>_. 0) C"] that by simp
  have w: "run_wmma exec M N K ?A Bcol (map (\<lambda>_. 0) C) = Inr (mat_mul M N K ?A ?B)" if "length C = M * N" for C :: "'a list"
    using kernels_compute(4) [OF assms(1) l, of "map (\<lambda>_. 0) C" "replicate (K * N) 0"] that assms(2-4) c by simp
  have "launches (Suc 219) (\<lambda>C. run_naive exec h M N K ?A ?B (map (\<lambda>_. 0) C)) dC = Inr (map h (mat_mul M N K ?A ?B))"
    "launches (Suc 219) (\<lambda>C. run_wmma exec M N K ?A Bcol (map (\<lambda>_. 0) C)) dCw = Inr (mat_mul M N K ?A ?B)"
    by (rule launches_const [OF n _ assms(5)] launches_const [OF w _ assms(6)]; simp)+
  moreover have "220 = Suc 219" by simp
  ultimately show ?thesis by (simp only: four_ways_main_def Let_def c bindc_simps)
qed

text \<open>The library products, as documented: cuBLAS takes matrices column by column, CUTLASS here row by row.\<close>

definition col_major_gemm :: "'a::comm_ring_1 gemm \<Rightarrow> bool" where
  "col_major_gemm g \<longleftrightarrow> (\<forall>N alpha A B beta C. length A = N * N \<and> length B = N * N \<and> length C = N * N \<longrightarrow>
     g N alpha A B beta C = Inr (map2 (\<lambda>x c. alpha * x + beta * c) (mat_mul N N N B A) C))"

definition row_major_gemm :: "'a::comm_ring_1 gemm \<Rightarrow> bool" where
  "row_major_gemm g \<longleftrightarrow> (\<forall>N alpha A B beta C. length A = N * N \<and> length B = N * N \<and> length C = N * N \<longrightarrow>
     g N alpha A B beta C = Inr (map2 (\<lambda>x c. alpha * x + beta * c) (mat_mul N N N A B) C))"

lemma mat_mul_ones: "mat_mul N N N (ones N) (ones N) = replicate (N * N) (of_nat N)"
proof (rule nth_equalityI)
  fix i assume "i < length (mat_mul N N N (ones N) (ones N :: 'a list))"
  then have i: "i < N * N" by simp
  then have "0 < N" by (cases N) auto
  with i have "i div N < N" "i mod N < N" by (simp_all add: less_mult_imp_div_less)
  then have "ones N ! (i div N * N + k) = (1 :: 'a)" "ones N ! (k * N + i mod N) = (1 :: 'a)" if "k < N" for k
    using that index_lt [of "i div N" N k N] index_lt [of k N "i mod N" N] by (simp_all add: ones_def)
  then show "mat_mul N N N (ones N) (ones N) ! i = (replicate (N * N) (of_nat N) :: 'a list) ! i"
    using i by (simp add: mat_mul_def)
qed simp

lemma map2_one_zero: "length xs = length ys \<Longrightarrow> map2 (\<lambda>x c. 1 * x + 0 * c) xs ys = (xs :: 'a::comm_ring_1 list)"
  by (induction xs ys rule: list_induct2) simp_all

text \<open>
  \<open>gemm_compare.cu\<close> prints \<open>C[0] = N\<close> for every version, when the libraries do what they are documented to do, and skips the kernel on tensor cores
  exactly when \<open>N\<close> is not a multiple of 16.
\<close>

theorem gemm_compare_prints:
  assumes "cuda_device (exec :: 'a::comm_ring_1 device)" "col_major_gemm cublasGemmEx" "row_major_gemm gemm_op" "0 < N"
  shows "gemm_compare_main exec cublasGemmEx gemm_op N =
    Inr [Some (of_nat N), if 16 dvd N then Some (of_nat N) else None, Some (of_nat N), Some (of_nat N)]"
proof -
  let ?o = "ones N :: 'a list" and ?P = "replicate (N * N) (of_nat N :: 'a)"
  have l: "length ?o = N * N" by (simp add: ones_def)
  note t = kernels_compute [OF assms(1) l l]
  have k: "time_kernel_ms (exec ((N + 15) div 16 * ((N + 15) div 16)) 256 (gemm_cuda_core_kernel N ?o ?o)) 3 (replicate (N * N) 0) = Inr ?P"
    by (rule timed_const [where n = "N * N"]) (use t in \<open>simp_all add: mat_mul_ones\<close>)
  have w: "time_kernel_ms (exec (N div 16 * (N div 16)) 1 (gemm_wmma_kernel N ?o ?o)) 3 (replicate (N * N) 0) = Inr ?P" if "16 dvd N"
    by (rule timed_const [where n = "N * N"]) (use t that in \<open>simp_all add: mat_mul_ones\<close>)
  have b: "time_kernel_ms (cublasGemmEx N 1 ?o ?o 0) j (replicate (N * N) 0) = Inr ?P" "time_kernel_ms (gemm_op N 1 ?o ?o 0) j (replicate (N * N) 0) = Inr ?P" for j
  proof -
    have z: "map2 (\<lambda>x c. 1 * x + 0 * c) ?P C = ?P" if "length C = N * N" for C :: "'a list" by (rule map2_one_zero) (simp add: that)
    have g: "cublasGemmEx N 1 ?o ?o 0 C = Inr ?P" "gemm_op N 1 ?o ?o 0 C = Inr ?P" if "length C = N * N" for C
      using assms(2,3) l that z [OF that] unfolding col_major_gemm_def row_major_gemm_def by (simp_all only: mat_mul_ones)
    show "time_kernel_ms (cublasGemmEx N 1 ?o ?o 0) j (replicate (N * N) 0) = Inr ?P" "time_kernel_ms (gemm_op N 1 ?o ?o 0) j (replicate (N * N) 0) = Inr ?P"
      by (rule timed_const [where n = "N * N"]; simp add: g)+
  qed
  show ?thesis
    using assms(4) w by (simp add: gemm_compare_main_def run_gemm_cuda_core_def run_gemm_wmma_def run_gemm_cublas_tc_def run_gemm_cutlass_def
        k b dvd_eq_mod_eq_0)
qed

text \<open>\<open>wmma_tensorcore_example.cu\<close> prints 16 three times.\<close>

theorem wmma_example_prints:
  assumes "cuda_device (exec :: 'a::comm_ring_1 device)" "length c = 256"
  shows "wmma_example_main exec c = Inr [16, 16, 16]"
proof -
  let ?o = "replicate 256 (1 :: 'a)"
  have x: "i * 16 + j < 256" if "i < 16" "j < 16" for i j :: nat using that by linarith
  have "load_row_major ?o 0 16 = Inr (frag (\<lambda>i j. ?o ! (0 + i * 16 + j)))" "load_col_major ?o 0 16 = Inr (frag (\<lambda>i j. ?o ! (0 + j * 16 + i)))"
    by (rule load_frag; simp add: x)+
  moreover have "frag (\<lambda>i j. ?o ! (0 + i * 16 + j)) = frag (\<lambda>_ _. 1)" "frag (\<lambda>i j. ?o ! (0 + j * 16 + i)) = frag (\<lambda>_ _. 1)"
    by (rule frag_cong; simp add: x)+
  ultimately have load: "load_row_major ?o 0 16 = Inr (frag (\<lambda>_ _. 1))" "load_col_major ?o 0 16 = Inr (frag (\<lambda>_ _. 1))" by simp_all
  have "for_step 0 16 16 = [0]" using for_step_tiles [of 16] by simp
  then have e: "wmma_example ?o ?o b w = gemm_wmma_kernel 16 ?o ?o 0 0" for b w
    by (simp add: wmma_example_def gemm_wmma_kernel_def load)
  have o: "?o = ones 16" by (simp add: ones_def)
  have "elementwise (wmma_example ?o ?o) 1 1 (16 * 16) (\<lambda>b w. if b < 16 div 16 * (16 div 16) then tile_cells 16 b else [])
      (\<lambda>i. mat_mul 16 16 16 ?o ?o ! i)"
    by (rule warp_elementwise) (simp_all add: e gemm_wmma_thread)
  then have "exec 1 1 (wmma_example ?o ?o) c = Inr (map (\<lambda>i. mat_mul 16 16 16 ?o ?o ! i) [0..<16 * 16])"
    by (rule elementwise.computes [OF _ _ cuda_device.any_order [OF assms(1)]]) (simp add: assms(2))
  also have "map (\<lambda>i. mat_mul 16 16 16 ?o ?o ! i) [0..<16 * 16] = replicate 256 16"
    unfolding o mat_mul_ones by (intro nth_equalityI) simp_all
  finally show ?thesis by (simp add: wmma_example_main_def)
qed

text \<open>\<open>gemm_cuda_core.cu\<close> overwrites all of \<open>C\<close>, column by column.\<close>

theorem gemm_cuda_core_run_result:
  assumes "cuda_device (exec :: 'a::comm_ring_1 device)" "length C = N * N"
  shows "gemm_cuda_core_run exec N C = Inr (replicate (N * N) (of_nat N))"
proof -
  have "gemm_cuda_core_run exec N C = Inr (mat_mul N N N (ones N) (ones N))"
    unfolding gemm_cuda_core_run_def
    by (rule core_col_major_computes [OF _ _ assms(2) cuda_device.any_order [OF assms(1)]]) (simp_all add: ones_def)
  then show ?thesis by (simp add: mat_mul_ones)
qed

subsection \<open>\<open>cuda_tensor/gemm_tensor_core.cu\<close>\<close>

text \<open>
  A block is a row of 128 threads, so \<open>blockDim.y = 1\<close> and \<open>threadIdx.y = 0\<close>: \<open>warpM\<close> is \<open>blockIdx.y / 32\<close>.  The fragment of \<open>B\<close> is column major, its address is that
  of a row-major tile.
\<close>

definition gemm_tensor_core :: "nat \<Rightarrow> 'a::comm_ring_1 list \<Rightarrow> 'a list \<Rightarrow> 'a kernel" where
  "gemm_tensor_core N A B block warp =
     (let gridDim = (N + 15) div 16; warpM = block div gridDim div 32; warpN = (block mod gridDim * 128 + warp * 32) div 32
      in if warpM * 16 < N \<and> warpN * 16 < N
         then bindc (tile_loop (\<lambda>k. load_row_major A (warpM * 16 * N + k) N) (\<lambda>k. load_col_major B (k * N + warpN * 16) N)
                (for_step 0 N 16) (replicate 256 0)) (\<lambda>c. Inr (store_tile (warpM * 16 * N + warpN * 16) N c))
         else Inr [])"

definition gemm_tensor_core_run :: "'a::comm_ring_1 device \<Rightarrow> nat \<Rightarrow> 'a list \<Rightarrow> 'a list c" where
  "gemm_tensor_core_run exec N C = exec ((N + 15) div 16 * ((N + 15) div 16)) 4 (gemm_tensor_core N (ones N) (ones N)) C"

text \<open>The matrix with every \<open>16 \<times> 16\<close> tile transposed.\<close>

definition transpose_tiles :: "nat \<Rightarrow> 'a list \<Rightarrow> 'a list" where
  "transpose_tiles N B = map (\<lambda>i. let k = i div N; c = i mod N in B ! ((k div 16 * 16 + c mod 16) * N + (c div 16 * 16 + k mod 16))) [0..<N * N]"

lemma transpose_tiles_nth:
  assumes "16 * t + k < N" "c * 16 + j < N" "k < 16" "j < 16"
  shows "transpose_tiles N B ! ((16 * t + k) * N + (c * 16 + j)) = B ! ((16 * t + j) * N + (c * 16 + k))"
proof -
  have "(16 * t + k) div 16 = t" "(16 * t + k) mod 16 = k" "(c * 16 + j) div 16 = c" "(c * 16 + j) mod 16 = j" using assms(3,4) by simp_all
  then show ?thesis using assms(1,2) by (simp add: transpose_tiles_def index_lt Let_def mult.commute [of t])
qed

lemma gemm_tensor_core_thread:
  fixes A B :: "'a::comm_ring_1 list"
  assumes d: "16 dvd N" "N \<le> 512" and l: "length A = N * N" "length B = N * N" and b: "b < N div 16 * (N div 16)"
  shows "gemm_tensor_core N A B b w =
    Inr (map (\<lambda>i. (i, mat_mul N N N A (transpose_tiles N B) ! i))
      (if b mod (N div 16) * 4 + w < N div 16 then tile_cells N (b mod (N div 16) * 4 + w) else []))"
proof -
  let ?g = "b mod (N div 16) * 4 + w"
  have gd: "(N + 15) div 16 = N div 16" using d(1) by (auto elim!: dvdE)
  have "0 < N div 16" using b by (cases "N div 16") auto
  then have "b div (N div 16) < N div 16" using b by (simp add: less_mult_imp_div_less)
  then have m: "b div (N div 16) div 32 = 0" using d(2) by simp
  have wn: "(b mod (N div 16) * 128 + w * 32) div 32 = ?g" by simp
  have N: "0 < N" using \<open>0 < N div 16\<close> by (cases N) auto
  have lt: "?g * 16 < N \<longleftrightarrow> ?g < N div 16" using d(1) by (auto elim!: dvdE)
  show ?thesis
  proof (cases "?g < N div 16")
    case True
    then have g: "?g < N div 16 * (N div 16)" "?g div (N div 16) = 0" "?g mod (N div 16) = ?g"
      using \<open>0 < N div 16\<close> by (auto intro: less_le_trans)
    note t = tile_index [OF d(1) d(1) g(1), unfolded g(2,3)]
    have a: "load_row_major A (0 * 16 * N + 16 * t) N = Inr (frag (\<lambda>i k. A ! ((?g div (N div 16) * 16 + i) * N + (16 * t + k))))" if "t < N div 16" for t
      using load_A_tile [OF d(1) that l(1), of 0] t(1) g(2) by simp
    have c: "load_col_major B (16 * t * N + ?g * 16) N =
        Inr (frag (\<lambda>k j. transpose_tiles N B ! ((16 * t + k) * N + (?g mod (N div 16) * 16 + j))))" if "t < N div 16" for t
    proof -
      have "load_col_major B (16 * t * N + ?g * 16) N = Inr (frag (\<lambda>k j. B ! (16 * t * N + ?g * 16 + j * N + k)))"
      proof (rule load_frag)
        fix k j :: nat assume "k < 16" "j < 16"
        then have "(16 * t + j) * N + (?g * 16 + k) < N * N" by (intro index_lt t(2) [of 0 k] dvd_tile [OF d(1) that]) simp_all
        then show "16 * t * N + ?g * 16 + j * N + k < length B" by (simp add: l(2) algebra_simps)
      qed
      also have "frag (\<lambda>k j. B ! (16 * t * N + ?g * 16 + j * N + k)) = frag (\<lambda>k j. transpose_tiles N B ! ((16 * t + k) * N + (?g * 16 + j)))"
      proof (rule frag_cong)
        fix k j :: nat assume kj: "k < 16" "j < 16"
        have e: "16 * t * N + ?g * 16 + j * N + k = (16 * t + j) * N + (?g * 16 + k)" by (simp add: algebra_simps)
        have "transpose_tiles N B ! ((16 * t + k) * N + (?g * 16 + j)) = B ! ((16 * t + j) * N + (?g * 16 + k))"
          by (rule transpose_tiles_nth [OF dvd_tile [OF d(1) that kj(1)] t(2) [of 0 j] kj]) (use kj in simp_all)
        then show "B ! (16 * t * N + ?g * 16 + j * N + k) = transpose_tiles N B ! ((16 * t + k) * N + (?g * 16 + j))"
          unfolding e by (rule sym)
      qed
      finally show ?thesis by (simp add: g(3))
    qed
    show ?thesis
      using warp_stores [OF d(1) d(1) d(1) g(1) a c] True N lt by (simp add: gemm_tensor_core_def Let_def gd m g(2,3))
  next
    case False
    then show ?thesis using lt by (simp add: gemm_tensor_core_def Let_def gd m)
  qed
qed

lemma first_row_cells:
  assumes "16 dvd N" "0 < N"
  shows "(\<exists>b < N div 16 * (N div 16). \<exists>w < 4. b mod (N div 16) * 4 + w < N div 16 \<and> i \<in> set (tile_cells N (b mod (N div 16) * 4 + w))) \<longleftrightarrow> i < 16 * N"
proof
  have q: "0 < N div 16" using assms by (auto elim!: dvdE)
  have row0: "g div (N div 16) = 0" "g mod (N div 16) = g" "g < N div 16 * (N div 16)" if "g < N div 16" for g
    using that q by (auto intro: less_le_trans)
  assume "\<exists>b < N div 16 * (N div 16). \<exists>w < 4. b mod (N div 16) * 4 + w < N div 16 \<and> i \<in> set (tile_cells N (b mod (N div 16) * 4 + w))"
  then obtain g where g: "g < N div 16" "i \<in> set (tile_cells N g)" by blast
  then obtain r c where rc: "r < 16" "c < 16" "i = g div (N div 16) * 16 * N + g mod (N div 16) * 16 + r * N + c" by (auto simp: tile_cells_def in_tile)
  have "i = r * N + (g * 16 + c)" using rc(3) row0 [OF g(1)] by simp
  moreover have "g * 16 + c < N" using tile_index(2) [OF assms(1,1) row0(3) [OF g(1)] rc(1,2)] row0(2) [OF g(1)] by simp
  ultimately show "i < 16 * N" using index_lt [OF rc(1)] by simp
next
  have q: "0 < N div 16" using assms by (auto elim!: dvdE)
  assume "i < 16 * N"
  then obtain r c where r: "r < 16" "c < N" "i = r * N + c" using row_major_index by blast
  let ?g = "c div 16"
  have g: "?g < N div 16" using r(2) assms(1) by (auto elim!: dvdE)
  have "?g div 4 \<le> ?g" by simp
  with g have "?g div 4 < N div 16" by linarith
  then have m: "?g div 4 mod (N div 16) * 4 + ?g mod 4 = ?g" by simp
  have "?g div 4 < N div 16 * (N div 16)" using \<open>?g div 4 < N div 16\<close> q by (auto intro: less_le_trans)
  moreover have "i \<in> set (tile_cells N ?g)"
    using r g by (auto simp: tile_cells_def in_tile intro!: image_eqI [of _ _ "(r, c mod 16)"])
  ultimately show "\<exists>b < N div 16 * (N div 16). \<exists>w < 4. b mod (N div 16) * 4 + w < N div 16 \<and> i \<in> set (tile_cells N (b mod (N div 16) * 4 + w))"
    using m g by (intro exI [of _ "?g div 4"] conjI exI [of _ "?g mod 4"]) simp_all
qed

text \<open>
  \<open>gemm_tensor_core.cu\<close> does not compute the product.  For sizes up to 512 (\<open>main.cu\<close> uses 256) it stores only the first 16 rows of \<open>C\<close>, and these
  are rows of the product with the tiles of \<open>B\<close> transposed; all other rows keep what the memory held.
\<close>

theorem gemm_tensor_core_partial:
  assumes "16 dvd N" "0 < N" "N \<le> 512" "length A = N * N" "length B = N * N" "length C = N * N"
    and "launch_result ((N + 15) div 16 * ((N + 15) div 16)) 4 (gemm_tensor_core N A B) C r"
  shows "r = Inr (take (16 * N) (mat_mul N N N A (transpose_tiles N B)) @ drop (16 * N) C)"
proof -
  let ?q = "N div 16" and ?f = "\<lambda>i. mat_mul N N N A (transpose_tiles N B) ! i"
  let ?work = "\<lambda>b w. if b mod ?q * 4 + w < ?q then tile_cells N (b mod ?q * 4 + w) else []"
  have q: "(N + 15) div 16 = ?q" "0 < ?q" "16 \<le> N" using assms(1,2) by (auto elim!: dvdE)
  have cells: "(\<exists>b < ?q * ?q. \<exists>w < 4. i \<in> set (?work b w)) \<longleftrightarrow> i < 16 * N" for i
    using first_row_cells [OF assms(1,2), of i] by (auto split: if_splits)
  have pw: "pointwise (gemm_tensor_core N A B) (?q * ?q) 4 (N * N) ?work ?f"
  proof
    show "gemm_tensor_core N A B b w = Inr (map (\<lambda>i. (i, ?f i)) (?work b w))" if "b < ?q * ?q" "w < 4" for b w
      by (rule gemm_tensor_core_thread [OF assms(1,3-5) that(1)])
    show "i < N * N" if "b < ?q * ?q" "w < 4" "i \<in> set (?work b w)" for b w i
    proof -
      have "i < 16 * N" using cells [of i] that by blast
      also have "\<dots> \<le> N * N" using q(3) by simp
      finally show ?thesis .
    qed
  qed
  obtain ws where ws: "mset ws = mset (concat (map (\<lambda>(b, t). map (\<lambda>i. (i, ?f i)) (?work b t)) (grid_threads (?q * ?q) 4)))" "r = store_all ws C"
    using assms(7) unfolding q(1) by (auto simp: launch_result_def pointwise.stores [OF pw])
  have "set ws = (\<Union>(b, w) \<in> {0..<?q * ?q} \<times> {0..<4}. (\<lambda>i. (i, ?f i)) ` set (?work b w))"
    using mset_eq_setD [OF ws(1)] by (simp add: grid_threads_def case_prod_unfold)
  also have "\<dots> = (\<lambda>i. (i, ?f i)) ` {i. \<exists>b < ?q * ?q. \<exists>w < 4. i \<in> set (?work b w)}" by fastforce
  also have "\<dots> = {(i, ?f i) | i. i < 16 * N}" unfolding cells by blast
  finally have st: "set ws = {(i, ?f i) | i. i < 16 * N}" .
  have le: "16 * N \<le> N * N" using q(3) by simp
  have "i < length C \<and> v = ?f i" if "(i, v) \<in> set ws" for i v using that less_le_trans [OF _ le] assms(6) unfolding st by auto
  from store_all_values [of ws C ?f, OF this] obtain ys where ys: "store_all ws C = Inr ys" "length ys = N * N"
    "\<forall>i < N * N. ys ! i = (if i \<in> fst ` set ws then ?f i else C ! i)"
    unfolding assms(6) by blast
  have "fst ` set ws = {..<16 * N}" unfolding st by force
  then have "ys = take (16 * N) (mat_mul N N N A (transpose_tiles N B)) @ drop (16 * N) C"
    using ys(2,3) assms(6) le by (intro nth_equalityI) (auto simp: nth_append)
  then show ?thesis using ws(2) ys(1) by simp
qed

end
