(* ===== verification/Score_Heap.thy ===== *)
theory Score_Heap
  imports C_Runtime "HOL-Library.Product_Lexorder"
begin

section \<open>The binary heaps of the key searches (\<open>test/C3\<close>)\<close>

text \<open>
  \<open>brute_force_gpu.cu\<close>, \<open>tlforce.cpp\<close> and \<open>eforce.cpp\<close> build their code trees with a binary min-heap in an array of fixed size: \<open>heap\<close> is
  the array (whatever it holds beyond \<open>sz\<close>) and \<open>sz\<close> the number of elements.  The comparison of
  two elements is a parameter; every access to the array is checked.  The heaps implement the interface \<open>priority_queue\<close>.
\<close>

text \<open>\<open>while (i > 0)\<close> of \<open>heap_push\<close>.\<close>

function sift_up :: "('a \<Rightarrow> 'a \<Rightarrow> bool) \<Rightarrow> 'a list \<Rightarrow> nat \<Rightarrow> 'a list c" where
  "sift_up before heap i =
     (if i = 0 then Inr heap
      else let p = (i - 1) div 2
           in bindc (ld heap i) (\<lambda>a. bindc (ld heap p) (\<lambda>b.
                if \<not> before a b then Inr heap
                else bindc (sto heap i b) (\<lambda>heap. bindc (sto heap p a) (\<lambda>heap. sift_up before heap p)))))"
  by pat_completeness auto
termination by (relation "measure (\<lambda>(before, heap, i). i)") auto

declare sift_up.simps [simp del]

definition heap_push :: "('a \<Rightarrow> 'a \<Rightarrow> bool) \<Rightarrow> 'a list \<times> nat \<Rightarrow> 'a \<Rightarrow> ('a list \<times> nat) c" where
  "heap_push before q e =
     (let (heap, sz) = q
      in bindc (sto heap sz e) (\<lambda>heap. bindc (sift_up before heap sz) (\<lambda>heap. Inr (heap, sz + 1))))"

text \<open>The smaller of a child, if there is one, and the smallest element found so far.\<close>

definition smaller_child :: "('a \<Rightarrow> 'a \<Rightarrow> bool) \<Rightarrow> 'a list \<Rightarrow> nat \<Rightarrow> nat \<Rightarrow> nat \<Rightarrow> nat c" where
  "smaller_child before heap sz l smallest =
     (if l < sz then bindc (ld heap l) (\<lambda>a. bindc (ld heap smallest) (\<lambda>b. Inr (if before a b then l else smallest)))
      else Inr smallest)"

text \<open>\<open>while (true)\<close> of \<open>heap_pop\<close>.\<close>

function sift_down :: "('a \<Rightarrow> 'a \<Rightarrow> bool) \<Rightarrow> 'a list \<Rightarrow> nat \<Rightarrow> nat \<Rightarrow> 'a list c" where
  "sift_down before heap sz i =
     bindc (smaller_child before heap sz (2 * i + 1) i) (\<lambda>smallest.
     bindc (smaller_child before heap sz (2 * i + 2) smallest) (\<lambda>smallest.
       if smallest = i then Inr heap
       else bindc (ld heap i) (\<lambda>a. bindc (ld heap smallest) (\<lambda>b.
              bindc (sto heap i b) (\<lambda>heap. bindc (sto heap smallest a) (\<lambda>heap. sift_down before heap sz smallest))))))"
  by pat_completeness auto
termination
  by (relation "measure (\<lambda>(before, heap, sz, i). sz - i)")
    (auto simp: smaller_child_def bindc_Inr_iff split: if_splits)

declare sift_down.simps [simp del]

definition heap_pop :: "('a \<Rightarrow> 'a \<Rightarrow> bool) \<Rightarrow> 'a list \<times> nat \<Rightarrow> ('a \<times> 'a list \<times> nat) c" where
  "heap_pop before q =
     (let (heap, sz) = q
      in if sz = 0 then Inl OutOfBounds
         else bindc (ld heap 0) (\<lambda>top. bindc (ld heap (sz - 1)) (\<lambda>x. bindc (sto heap 0 x) (\<lambda>heap.
              bindc (sift_down before heap (sz - 1) 0) (\<lambda>heap. Inr (top, heap, sz - 1))))))"

subsection \<open>The interface\<close>

locale priority_queue =
  fixes push :: "'q \<Rightarrow> 'e \<Rightarrow> 'q c" and pop :: "'q \<Rightarrow> ('e \<times> 'q) c"
    and wf :: "'q \<Rightarrow> bool" and elems :: "'q \<Rightarrow> 'e multiset" and cap :: nat and key :: "'e \<Rightarrow> 'k::linorder"
  assumes push_ok: "wf q \<Longrightarrow> size (elems q) < cap \<Longrightarrow>
      \<exists>q'. push q e = Inr q' \<and> wf q' \<and> elems q' = add_mset e (elems q)"
    and pop_ok: "wf q \<Longrightarrow> elems q \<noteq> {#} \<Longrightarrow>
      \<exists>e q'. pop q = Inr (e, q') \<and> wf q' \<and> elems q = add_mset e (elems q') \<and> (\<forall>x \<in># elems q. key e \<le> key x)"
begin

text \<open>With distinct keys, the queue gives its elements back in the order of their keys.\<close>

lemma pop_sorted:
  assumes "wf q" "elems q = mset (x # xs)" "sorted (map key (x # xs))" "distinct (map key (x # xs))"
  shows "\<exists>q'. pop q = Inr (x, q') \<and> wf q' \<and> elems q' = mset xs"
proof -
  obtain e q' where e: "pop q = Inr (e, q')" "wf q'" "elems q = add_mset e (elems q')" "\<forall>y \<in># elems q. key e \<le> key y"
    using pop_ok [OF assms(1)] assms(2) by (metis add_mset_not_empty mset.simps(2))
  have "e \<in> set (x # xs)" using e(3) assms(2) by (metis set_mset_mset union_single_eq_member)
  moreover have "key e \<le> key x" using e(4) assms(2) by auto
  moreover have "key x \<le> key e" using calculation(1) assms(3) by auto
  ultimately have "e = x" using assms(4) by (metis distinct_map inj_onD list.set_intros(1) order_antisym)
  then show ?thesis using e assms(2) by simp
qed

end

subsection \<open>Heaps\<close>

text \<open>The heap property, with exceptions at one index while an element is on its way up or down.\<close>

definition heap_ok :: "('a \<Rightarrow> 'k::linorder) \<Rightarrow> 'a list \<Rightarrow> nat \<Rightarrow> bool" where
  "heap_ok key h sz \<longleftrightarrow> (\<forall>j. 0 < j \<and> j < sz \<longrightarrow> key (h ! ((j - 1) div 2)) \<le> key (h ! j))"

definition heap_up :: "('a \<Rightarrow> 'k::linorder) \<Rightarrow> 'a list \<Rightarrow> nat \<Rightarrow> nat \<Rightarrow> bool" where
  "heap_up key h sz i \<longleftrightarrow> (\<forall>j. 0 < j \<and> j < sz \<longrightarrow>
     (j \<noteq> i \<longrightarrow> key (h ! ((j - 1) div 2)) \<le> key (h ! j)) \<and>
     ((j - 1) div 2 = i \<and> 0 < i \<longrightarrow> key (h ! ((i - 1) div 2)) \<le> key (h ! j)))"

definition heap_down :: "('a \<Rightarrow> 'k::linorder) \<Rightarrow> 'a list \<Rightarrow> nat \<Rightarrow> nat \<Rightarrow> bool" where
  "heap_down key h sz i \<longleftrightarrow> (\<forall>j. 0 < j \<and> j < sz \<longrightarrow>
     ((j - 1) div 2 \<noteq> i \<longrightarrow> key (h ! ((j - 1) div 2)) \<le> key (h ! j)) \<and>
     ((j - 1) div 2 = i \<and> 0 < i \<longrightarrow> key (h ! ((i - 1) div 2)) \<le> key (h ! j)))"

lemma heap_ok_iff: "heap_ok key h sz \<longleftrightarrow> heap_up key h sz 0"
  by (auto simp: heap_ok_def heap_up_def)

lemma parent_less: "0 < j \<Longrightarrow> (j - 1) div 2 < (j :: nat)"
  by auto

lemma heap_min: "heap_ok key h sz \<Longrightarrow> j < sz \<Longrightarrow> key (h ! 0) \<le> key (h ! j)"
proof (induction j rule: less_induct)
  case (less j)
  show ?case
  proof (cases "j = 0")
    case False
    then have "key (h ! ((j - 1) div 2)) \<le> key (h ! j)" using less.prems by (simp add: heap_ok_def)
    moreover have "key (h ! 0) \<le> key (h ! ((j - 1) div 2))" using less False by simp
    ultimately show ?thesis by order
  qed simp
qed

text \<open>Exchanging two elements of the first \<open>sz\<close> keeps their multiset.\<close>

lemma mset_take_swap:
  assumes "i < sz" "j < sz" "sz \<le> length h"
  shows "mset (take sz (h[i := h ! j, j := h ! i])) = mset (take sz h)"
proof -
  have "take sz (h[i := h ! j, j := h ! i]) = (take sz h)[i := take sz h ! j, j := take sz h ! i]"
    using assms by (simp add: take_update_swap)
  moreover have "mset ((take sz h)[i := take sz h ! j, j := take sz h ! i]) = mset (take sz h)"
    by (rule mset_swap) (use assms in simp_all)
  ultimately show ?thesis by simp
qed

lemma sift_up_step:
  assumes "heap_up key h sz i" "0 < i" "i < sz" "sz \<le> length h" "key (h ! i) < key (h ! ((i - 1) div 2))"
  shows "heap_up key (h[i := h ! ((i - 1) div 2), (i - 1) div 2 := h ! i]) sz ((i - 1) div 2)"
proof -
  define p where "p = (i - 1) div 2"
  let ?h = "h[i := h ! p, p := h ! i]"
  have p: "p < i" "p < sz" "i < length h" "p < length h" using assms by (auto simp: p_def)
  have H: "key (h ! ((j - 1) div 2)) \<le> key (h ! j)" if "0 < j" "j < sz" "j \<noteq> i" for j
    using assms(1) that by (simp add: heap_up_def)
  have G: "key (h ! p) \<le> key (h ! j)" if "0 < j" "j < sz" "(j - 1) div 2 = i" for j
    using assms(1,2) that by (simp add: heap_up_def p_def)
  have lt: "key (h ! i) < key (h ! p)" using assms(5) by (simp add: p_def)
  have at: "?h ! j = (if j = p then h ! i else if j = i then h ! p else h ! j)" for j
    using p by (auto simp: nth_list_update)
  have "heap_up key ?h sz p"
    unfolding heap_up_def
  proof (intro allI impI conjI)
    fix j assume j: "0 < j \<and> j < sz" and "j \<noteq> p"
    then show "key (?h ! ((j - 1) div 2)) \<le> key (?h ! j)"
      using H [of j] G [of j] lt p unfolding at by (auto simp: p_def)
  next
    fix j assume j: "0 < j \<and> j < sz" and q: "(j - 1) div 2 = p \<and> 0 < p"
    then have "key (h ! ((p - 1) div 2)) \<le> key (h ! p)" using H [of p] p by simp
    moreover have "(p - 1) div 2 < p" "(j - 1) div 2 < j" using q j by (intro parent_less, simp)+
    then have "(p - 1) div 2 \<noteq> p" "(p - 1) div 2 \<noteq> i" "j \<noteq> p" using q p(1) by auto
    moreover have "j \<noteq> i \<Longrightarrow> key (h ! p) \<le> key (h ! j)" using H [of j] j q by simp
    ultimately show "key (?h ! ((p - 1) div 2)) \<le> key (?h ! j)" unfolding at by auto
  qed
  then show ?thesis by (simp add: p_def)
qed

lemma sift_up_ok:
  assumes "heap_up key h sz i" "i < sz" "sz \<le> length h" "\<And>a b. before a b \<longleftrightarrow> key a < key b"
  shows "\<exists>h'. sift_up before h i = Inr h' \<and> heap_ok key h' sz \<and> length h' = length h \<and> mset (take sz h') = mset (take sz h)"
  using assms
proof (induction before h i rule: sift_up.induct)
  case (1 before h i)
  let ?p = "(i - 1) div 2"
  let ?h = "h[i := h ! ?p, ?p := h ! i]"
  show ?case
  proof (cases "i = 0")
    case True
    with 1 show ?thesis by (subst sift_up.simps) (simp add: heap_ok_iff)
  next
    case False
    have b: "i < length h" "?p < length h" "?p < sz" using 1 by auto
    show ?thesis
    proof (cases "key (h ! i) < key (h ! ?p)")
      case True
      have up: "heap_up key ?h sz ?p" by (rule sift_up_step) (use 1 True False in auto)
      have "\<exists>h'. sift_up before ?h ?p = Inr h' \<and> heap_ok key h' sz \<and> length h' = length ?h \<and> mset (take sz h') = mset (take sz ?h)"
        by (rule 1(1) [OF False refl _ _ _ _ _ up]) (use 1 b True in auto)
      moreover have "mset (take sz ?h) = mset (take sz h)" by (rule mset_take_swap) (use 1 b in auto)
      ultimately show ?thesis using False b True 1(5) by (subst sift_up.simps) auto
    next
      case le: False
      have "heap_ok key h sz" unfolding heap_ok_def
        using 1(2) le by (auto simp: heap_up_def not_less)
      with le False b 1(5) show ?thesis by (subst sift_up.simps) auto
    qed
  qed
qed

lemma heap_push_ok:
  assumes "heap_ok key h sz" "sz < length h" "\<And>a b. before a b \<longleftrightarrow> key a < key b"
  shows "\<exists>h'. heap_push before (h, sz) e = Inr (h', sz + 1) \<and> heap_ok key h' (sz + 1) \<and> length h' = length h \<and>
    mset (take (sz + 1) h') = add_mset e (mset (take sz h))"
proof -
  let ?h = "h[sz := e]"
  have "heap_up key ?h (sz + 1) sz"
    using assms(1,2) by (auto simp: heap_up_def heap_ok_def nth_list_update less_Suc_eq)
  then obtain h' where h': "sift_up before ?h sz = Inr h'" "heap_ok key h' (sz + 1)" "length h' = length ?h"
    "mset (take (sz + 1) h') = mset (take (sz + 1) ?h)"
    using sift_up_ok [of key ?h "sz + 1" sz before] assms by auto
  moreover have "take (sz + 1) ?h = take sz h @ [e]" using assms(2) by (simp add: take_Suc_conv_app_nth)
  ultimately show ?thesis using assms(2) by (simp add: heap_push_def)
qed

text \<open>Going down.\<close>

lemma smaller_child_ok:
  assumes "smallest < sz" "sz \<le> length h" "\<And>a b. before a b \<longleftrightarrow> key a < key b"
  shows "smaller_child before h sz l smallest = Inr (if l < sz \<and> key (h ! l) < key (h ! smallest) then l else smallest)"
  using assms by (auto simp: smaller_child_def)

definition smallest_of :: "('a \<Rightarrow> 'k::linorder) \<Rightarrow> 'a list \<Rightarrow> nat \<Rightarrow> nat \<Rightarrow> nat" where
  "smallest_of key h sz i =
     (let s = (if 2 * i + 1 < sz \<and> key (h ! (2 * i + 1)) < key (h ! i) then 2 * i + 1 else i)
      in if 2 * i + 2 < sz \<and> key (h ! (2 * i + 2)) < key (h ! s) then 2 * i + 2 else s)"

lemma smallest_of_ok:
  assumes "i < sz"
  shows "smallest_of key h sz i < sz" "smallest_of key h sz i \<in> {i, 2 * i + 1, 2 * i + 2}"
    "0 < j \<Longrightarrow> j < sz \<Longrightarrow> (j - 1) div 2 = i \<Longrightarrow> key (h ! smallest_of key h sz i) \<le> key (h ! j)"
    "smallest_of key h sz i \<noteq> i \<Longrightarrow> key (h ! smallest_of key h sz i) < key (h ! i)"
proof -
  show "smallest_of key h sz i < sz" "smallest_of key h sz i \<in> {i, 2 * i + 1, 2 * i + 2}"
    using assms by (auto simp: smallest_of_def Let_def)
  show "smallest_of key h sz i \<noteq> i \<Longrightarrow> key (h ! smallest_of key h sz i) < key (h ! i)"
    by (auto simp: smallest_of_def Let_def split: if_splits)
  assume "0 < j" "j < sz" "(j - 1) div 2 = i"
  then have "j = 2 * i + 1 \<or> j = 2 * i + 2" by auto
  then show "key (h ! smallest_of key h sz i) \<le> key (h ! j)"
    using \<open>j < sz\<close> by (auto simp: smallest_of_def Let_def)
qed

lemma sift_down_step:
  assumes "heap_down key h sz i" "i < sz" "sz \<le> length h" "s = smallest_of key h sz i" "s \<noteq> i"
  shows "heap_down key (h[i := h ! s, s := h ! i]) sz s"
proof -
  let ?h = "h[i := h ! s, s := h ! i]"
  note so = smallest_of_ok [OF assms(2), where key = key and h = h]
  have s: "i < s" "s < sz" "(s - 1) div 2 = i" "0 < s" "s < length h" "i < length h"
    using so(1,2) assms(2-5) by auto
  have H: "key (h ! ((j - 1) div 2)) \<le> key (h ! j)" if "0 < j" "j < sz" "(j - 1) div 2 \<noteq> i" for j
    using assms(1) that by (simp add: heap_down_def)
  have G: "key (h ! ((i - 1) div 2)) \<le> key (h ! j)" if "0 < j" "j < sz" "(j - 1) div 2 = i" "0 < i" for j
    using assms(1) that by (simp add: heap_down_def)
  have at: "?h ! j = (if j = s then h ! i else if j = i then h ! s else h ! j)" for j
    using s by (auto simp: nth_list_update)
  show ?thesis
    unfolding heap_down_def
  proof (intro allI impI conjI)
    fix j assume j: "0 < j \<and> j < sz" and q: "(j - 1) div 2 \<noteq> s"
    show "key (?h ! ((j - 1) div 2)) \<le> key (?h ! j)"
    proof (cases "(j - 1) div 2 = i")
      case True
      then have "key (h ! s) \<le> key (h ! j)" "j \<noteq> i" using so(3) j assms(4) by auto
      moreover have "key (h ! s) < key (h ! i)" using so(4) assms(4,5) by simp
      ultimately show ?thesis unfolding at using True s by auto
    next
      case False
      then have "j \<noteq> s" using s by auto
      then show ?thesis unfolding at using False q H [of j] G [of s] j s by auto
    qed
  next
    fix j assume j: "0 < j \<and> j < sz" and q: "(j - 1) div 2 = s \<and> 0 < s"
    then have "key (h ! s) \<le> key (h ! j)" "j \<noteq> s" "j \<noteq> i" using H [of j] s by auto
    then show "key (?h ! ((s - 1) div 2)) \<le> key (?h ! j)" unfolding at using s by auto
  qed
qed

lemma sift_down_ok:
  assumes "heap_down key h sz i" "i < sz" "sz \<le> length h" "\<And>a b. before a b \<longleftrightarrow> key a < key b"
  shows "\<exists>h'. sift_down before h sz i = Inr h' \<and> heap_ok key h' sz \<and> length h' = length h \<and> mset (take sz h') = mset (take sz h)"
  using assms
proof (induction "sz - i" arbitrary: h i rule: less_induct)
  case less
  define s where "s = smallest_of key h sz i"
  let ?h = "h[i := h ! s, s := h ! i]"
  note so = smallest_of_ok [OF less(3), where key = key and h = h, folded s_def]
  let ?m = "if 2 * i + 1 < sz \<and> key (h ! (2 * i + 1)) < key (h ! i) then 2 * i + 1 else i"
  have "smaller_child before h sz (2 * i + 1) i = Inr ?m" "smaller_child before h sz (2 * i + 2) ?m = Inr s"
    by (subst smaller_child_ok [where key = key]; use less in \<open>auto simp: s_def smallest_of_def Let_def\<close>)+
  then have unfold: "sift_down before h sz i = (if s = i then Inr h else sift_down before ?h sz s)"
    using less(3,4) so(1) by (subst sift_down.simps) simp
  show ?case
  proof (cases "s = i")
    case True
    have "heap_ok key h sz" unfolding heap_ok_def
      using less(2) so(3) True by (auto simp: heap_down_def)
    with True unfold show ?thesis by simp
  next
    case False
    have "heap_down key ?h sz s" by (rule sift_down_step) (use less False s_def in auto)
    moreover have "sz - s < sz - i" using so(1,2) False less(3) by auto
    ultimately have "\<exists>h'. sift_down before ?h sz s = Inr h' \<and> heap_ok key h' sz \<and> length h' = length ?h \<and> mset (take sz h') = mset (take sz ?h)"
      by (intro less(1)) (use less so(1) in auto)
    moreover have "mset (take sz ?h) = mset (take sz h)" by (rule mset_take_swap) (use less so(1) in auto)
    ultimately show ?thesis using False unfold by auto
  qed
qed

lemma heap_pop_ok:
  assumes "heap_ok key h sz" "0 < sz" "sz \<le> length h" "\<And>a b. before a b \<longleftrightarrow> key a < key b"
  shows "\<exists>h'. heap_pop before (h, sz) = Inr (h ! 0, h', sz - 1) \<and> heap_ok key h' (sz - 1) \<and> length h' = length h \<and>
    mset (take sz h) = add_mset (h ! 0) (mset (take (sz - 1) h'))"
proof -
  define n where "n = sz - 1"
  have sz: "sz = Suc n" "n < length h" using assms(2,3) by (auto simp: n_def)
  let ?h = "h[0 := h ! n]"
  have rest: "mset (take sz h) = add_mset (h ! 0) (mset (take n ?h))"
  proof (cases "n = 0")
    case True
    with sz show ?thesis by (cases h) auto
  next
    case False
    have "take sz h = take n h @ [h ! n]" using sz by (simp add: take_Suc_conv_app_nth)
    moreover have "take n ?h = (take n h)[0 := h ! n]" by (simp add: take_update_swap)
    moreover have "mset ((take n h)[0 := h ! n]) = add_mset (h ! n) (mset (take n h) - {#h ! 0#})"
      using False sz(2) by (subst mset_update) auto
    moreover have "h ! 0 \<in># mset (take n h)" using False sz(2) by (auto simp: in_set_conv_nth intro!: exI [of _ 0])
    ultimately show ?thesis by simp
  qed
  have "\<exists>h'. sift_down before ?h n 0 = Inr h' \<and> heap_ok key h' n \<and> length h' = length ?h \<and> mset (take n h') = mset (take n ?h)"
  proof (cases "n = 0")
    case True
    then show ?thesis by (subst sift_down.simps) (simp add: smaller_child_def heap_ok_def)
  next
    case False
    have "heap_down key ?h n 0"
      using assms(1) sz by (auto simp: heap_down_def heap_ok_def nth_list_update)
    then show ?thesis using False sz assms(4) by (intro sift_down_ok) auto
  qed
  moreover have "0 < length h" using sz by auto
  ultimately show ?thesis using sz rest by (auto simp: heap_pop_def n_def [symmetric])
qed

text \<open>The interface, for elements with a key.\<close>

definition heap_wf :: "nat \<Rightarrow> ('a \<Rightarrow> 'k::linorder) \<Rightarrow> 'a list \<times> nat \<Rightarrow> bool" where
  "heap_wf cap key q \<longleftrightarrow> heap_ok key (fst q) (snd q) \<and> snd q \<le> length (fst q) \<and> length (fst q) = cap"

definition heap_elems :: "'a list \<times> nat \<Rightarrow> 'a multiset" where
  "heap_elems q = mset (take (snd q) (fst q))"

lemma heap_size [simp]: "heap_wf cap key q \<Longrightarrow> size (heap_elems q) = snd q"
  by (simp add: heap_wf_def heap_elems_def)

lemma heap_priority_queue:
  assumes "\<And>a b. before a b \<longleftrightarrow> key a < key b"
  shows "priority_queue (heap_push before) (heap_pop before) (heap_wf cap key) heap_elems cap key"
proof
  fix q and e :: 'a assume "heap_wf cap key q" "size (heap_elems q) < cap"
  then show "\<exists>q'. heap_push before q e = Inr q' \<and> heap_wf cap key q' \<and> heap_elems q' = add_mset e (heap_elems q)"
    using heap_push_ok [where key = key and before = before and h = "fst q" and sz = "snd q" and e = e] assms by (cases q) (auto simp: heap_wf_def heap_elems_def)
next
  fix q :: "'a list \<times> nat" assume q: "heap_wf cap key q" "heap_elems q \<noteq> {#}"
  then have sz: "0 < snd q" by (cases "snd q") (auto simp: heap_elems_def)
  with q obtain h' where h': "heap_pop before q = Inr (fst q ! 0, h', snd q - 1)" "heap_ok key h' (snd q - 1)" "length h' = length (fst q)"
    "heap_elems q = add_mset (fst q ! 0) (mset (take (snd q - 1) h'))"
    using heap_pop_ok [where key = key and before = before and h = "fst q" and sz = "snd q"] assms by (cases q) (auto simp: heap_wf_def heap_elems_def)
  moreover have "\<forall>x \<in># heap_elems q. key (fst q ! 0) \<le> key x"
    using q heap_min [of key "fst q" "snd q"] by (fastforce simp: heap_elems_def heap_wf_def in_set_conv_nth)
  ultimately show "\<exists>e q'. heap_pop before q = Inr (e, q') \<and> heap_wf cap key q' \<and>
      heap_elems q = add_mset e (heap_elems q') \<and> (\<forall>x \<in># heap_elems q. key e \<le> key x)"
    using q sz by (intro exI [of _ "fst q ! 0"] exI [of _ "(h', snd q - 1)"]) (auto simp: heap_wf_def heap_elems_def)
qed

end
