(* ===== verification/Score_Tree.thy ===== *)
theory Score_Tree
  imports Score_Heap
begin

section \<open>Code trees: the Huffman algorithm the key searches implement\<close>

text \<open>
  The abstract algorithm: a forest of trees, each with its weight and a serial number, sorted by the two; the first two trees are
  joined until one is left.  The programs keep the forest in a binary heap or in two queues.  The
  trees are shallow: a tree of height \<open>h\<close> weighs at least the \<open>(h + 1)\<close>st Fibonacci number, provided that at most one leaf weighs nothing.
\<close>

datatype huff = Leaf nat nat | Node huff huff

fun weight :: "huff \<Rightarrow> nat" where
  "weight (Leaf w c) = w"
| "weight (Node l r) = weight l + weight r"

fun height :: "huff \<Rightarrow> nat" where
  "height (Leaf w c) = 0"
| "height (Node l r) = Suc (max (height l) (height r))"

fun leaves :: "huff \<Rightarrow> (nat \<times> nat) list" where
  "leaves (Leaf w c) = [(w, c)]"
| "leaves (Node l r) = leaves l @ leaves r"

definition symbols :: "huff \<Rightarrow> nat list" where
  "symbols t = map snd (leaves t)"

text \<open>The code of a symbol: the path to its leaf, \<open>False\<close> to the left.\<close>

fun code :: "huff \<Rightarrow> nat \<Rightarrow> bool list option" where
  "code (Leaf w c) x = (if x = c then Some [] else None)"
| "code (Node l r) x =
     (case code l x of Some bs \<Rightarrow> Some (False # bs) | None \<Rightarrow> map_option (Cons True) (code r x))"

lemma symbols_simps [simp]: "symbols (Leaf w c) = [c]" "symbols (Node l r) = symbols l @ symbols r"
  by (simp_all add: symbols_def)

lemma symbols_not_empty [simp]: "symbols t \<noteq> []"
  by (induction t) auto

lemma code_Some_iff: "(\<exists>bs. code t x = Some bs) \<longleftrightarrow> x \<in> set (symbols t)"
  by (induction t) (auto split: option.splits)

lemma code_height: "code t x = Some bs \<Longrightarrow> length bs \<le> height t"
  by (induction t arbitrary: bs) (fastforce split: if_splits option.splits)+

text \<open>No code is a prefix of the code of another symbol.\<close>

lemma code_prefix_free:
  "code t x = Some bs \<Longrightarrow> code t y = Some cs \<Longrightarrow> bs @ us = cs @ vs \<Longrightarrow> x = y"
proof (induction t arbitrary: bs cs)
  case (Node l r)
  then show ?case by (auto split: option.splits)
qed (auto split: if_splits)

lemma height_less_leaves: "height t < length (leaves t)"
  by (induction t) auto

subsection \<open>The algorithm\<close>

type_synonym item = "nat \<times> nat \<times> huff"

definition item_key :: "item \<Rightarrow> nat \<times> nat" where
  "item_key x = (fst x, fst (snd x))"

fun join :: "nat \<Rightarrow> item \<Rightarrow> item \<Rightarrow> item" where
  "join c (w, n, t) (w', n', t') = (w + w', c, Node t t')"

function huffman :: "nat \<Rightarrow> item list \<Rightarrow> item" where
  "huffman c [] = (0, 0, Leaf 0 0)"
| "huffman c [x] = x"
| "huffman c (x # y # xs) = huffman (Suc c) (insort_key item_key (join c x y) xs)"
  by pat_completeness auto
termination by (relation "measure (\<lambda>(c, xs). length xs)") auto

text \<open>A forest: sorted, with serial numbers below the next one, and with the weights of its trees.\<close>

definition forest_ok :: "nat \<Rightarrow> item list \<Rightarrow> bool" where
  "forest_ok c xs \<longleftrightarrow> sorted (map item_key xs) \<and> distinct (map (fst \<circ> snd) xs) \<and>
     (\<forall>(w, n, t) \<in> set xs. n < c \<and> w = weight t)"

lemma key_join: "item_key (join c x y) = (fst x + fst y, c)"
  by (cases x; cases y) (simp add: item_key_def)

lemma forest_insert:
  assumes "forest_ok c xs"
  shows "forest_ok (Suc c) (insort_key item_key (weight t, c, t) xs)"
proof -
  let ?xs = "insort_key item_key (weight t, c, t) xs"
  have "sorted (map item_key ?xs)" using assms by (simp add: forest_ok_def sorted_insort_key)
  moreover have "mset (map (fst \<circ> snd) ?xs) = mset (c # map (fst \<circ> snd) xs)" by simp
  then have "distinct (map (fst \<circ> snd) ?xs) \<longleftrightarrow> distinct (c # map (fst \<circ> snd) xs)" by (metis mset_eq_imp_distinct_iff)
  ultimately show ?thesis using assms by (fastforce simp: forest_ok_def set_insort_key)
qed

lemma forest_tl: "forest_ok c (x # xs) \<Longrightarrow> forest_ok c xs"
  by (auto simp: forest_ok_def)

lemma forest_join_eq: "forest_ok c (x # y # xs) \<Longrightarrow> join c x y = (weight (snd (snd (join c x y))), c, snd (snd (join c x y)))"
  by (cases x; cases y) (auto simp: forest_ok_def)

lemma forest_join:
  assumes "forest_ok c (x # y # xs)"
  shows "forest_ok (Suc c) (insort_key item_key (join c x y) xs)"
  using forest_insert [OF forest_tl [OF forest_tl [OF assms]]] forest_join_eq [OF assms] by metis

lemma forest_keys: "forest_ok c xs \<Longrightarrow> distinct (map item_key xs)"
  by (force simp: forest_ok_def distinct_map inj_on_def item_key_def)

lemma huffman_leaves:
  "xs \<noteq> [] \<Longrightarrow> mset (leaves (snd (snd (huffman c xs)))) = (\<Sum>x \<leftarrow> xs. mset (leaves (snd (snd x))))"
proof (induction c xs rule: huffman.induct)
  case (3 c x y xs)
  have "(\<Sum>z \<leftarrow> insort_key item_key (join c x y) xs. mset (leaves (snd (snd z)))) =
      mset (leaves (snd (snd (join c x y)))) + (\<Sum>z \<leftarrow> xs. mset (leaves (snd (snd z))))"
    by (induction xs) (auto simp: ac_simps)
  with 3 show ?case by (cases x; cases y) (simp add: ac_simps)
qed auto

subsection \<open>The trees are shallow\<close>

fun kids_below :: "huff \<Rightarrow> nat \<Rightarrow> bool" where
  "kids_below (Leaf w c) m = True"
| "kids_below (Node l r) m = (weight l \<le> m \<and> weight r \<le> m)"

fun balanced :: "huff \<Rightarrow> bool" where
  "balanced (Leaf w c) = True"
| "balanced (Node l r) = (balanced l \<and> balanced r \<and> kids_below l (weight r) \<and> kids_below r (weight l))"

definition siblings_ok :: "item list \<Rightarrow> bool" where
  "siblings_ok xs \<longleftrightarrow> (\<forall>x \<in> set xs. balanced (snd (snd x))) \<and>
     (\<forall>x \<in> set xs. \<forall>y \<in> set xs. fst (snd x) \<noteq> fst (snd y) \<longrightarrow> kids_below (snd (snd x)) (fst y))"

lemma siblingsD:
  assumes "siblings_ok xs"
  shows "x \<in> set xs \<Longrightarrow> balanced (snd (snd x))"
    and "x \<in> set xs \<Longrightarrow> y \<in> set xs \<Longrightarrow> fst (snd x) \<noteq> fst (snd y) \<Longrightarrow> kids_below (snd (snd x)) (fst y)"
  using assms by (auto simp: siblings_ok_def)

lemma kids_below_mono: "kids_below t m \<Longrightarrow> m \<le> n \<Longrightarrow> kids_below t n"
  by (cases t) auto

lemma siblings_join:
  assumes ok: "forest_ok c (x # y # xs)" and sib: "siblings_ok (x # y # xs)"
  shows "siblings_ok (insort_key item_key (join c x y) xs)"
proof -
  obtain w n t w' n' t' where x: "x = (w, n, t)" and y: "y = (w', n', t')" by (cases x; cases y)
  have n: "n \<noteq> n'" "w = weight t" "w' = weight t'" "n < c" "n' < c" using ok by (auto simp: forest_ok_def x y)
  have min: "w \<le> fst z \<and> w' \<le> fst z" if "z \<in> set xs" for z
  proof -
    have "item_key x \<le> item_key z" "item_key y \<le> item_key z" using ok that by (auto simp: forest_ok_def)
    then show ?thesis by (auto simp: x y item_key_def less_eq_prod_def)
  qed
  have other: "fst (snd z) \<notin> {n, n', c}" if "z \<in> set xs" for z
  proof -
    have "fst (snd z) < c" "fst (snd z) \<in> (fst \<circ> snd) ` set xs" using ok that by (auto simp: forest_ok_def)
    moreover have "n \<notin> (fst \<circ> snd) ` set xs" "n' \<notin> (fst \<circ> snd) ` set xs" using ok by (auto simp: forest_ok_def x y)
    ultimately show ?thesis by auto
  qed
  have "balanced t" "balanced t'" "kids_below t w'" "kids_below t' w"
    using siblingsD(1) [OF sib, of x] siblingsD(1) [OF sib, of y] siblingsD(2) [OF sib, of x y] siblingsD(2) [OF sib, of y x] n
    by (auto simp: x y)
  then have bal: "balanced (Node t t')" using n by simp
  have "kids_below (snd (snd z)) (w + w')" if "z \<in> set xs" for z
    by (rule kids_below_mono [of _ w]) (use siblingsD(2) [OF sib, of z x] that other [OF that] in \<open>auto simp: x\<close>)
  moreover have "kids_below (Node t t') (fst z)" if "z \<in> set xs" for z using min [OF that] n by simp
  moreover have "balanced (snd (snd z))" if "z \<in> set xs" for z using siblingsD(1) [OF sib, of z] that by simp
  moreover have "kids_below (snd (snd z)) (fst u)" if "z \<in> set xs" "u \<in> set xs" "fst (snd z) \<noteq> fst (snd u)" for z u
    using siblingsD(2) [OF sib, of z u] that by simp
  ultimately show ?thesis using bal unfolding siblings_ok_def set_insort_key x y by simp
qed

lemma huffman_balanced:
  "xs \<noteq> [] \<Longrightarrow> forest_ok c xs \<Longrightarrow> siblings_ok xs \<Longrightarrow> balanced (snd (snd (huffman c xs)))"
proof (induction c xs rule: huffman.induct)
  case (3 c x y xs)
  then show ?case using forest_join siblings_join by (metis huffman.simps(3) insort_not_Nil)
qed (auto simp: siblings_ok_def)

fun fib :: "nat \<Rightarrow> nat" where
  "fib 0 = 0"
| "fib (Suc 0) = 1"
| "fib (Suc (Suc n)) = fib (Suc n) + fib n"

definition zeros :: "huff \<Rightarrow> nat" where
  "zeros t = length (filter (\<lambda>l. fst l = 0) (leaves t))"

lemma zeros_simps [simp]:
  "zeros (Leaf w c) = (if w = 0 then 1 else 0)" "zeros (Node l r) = zeros l + zeros r"
  by (simp_all add: zeros_def)

lemma weight_zero: "weight t = 0 \<Longrightarrow> 1 \<le> zeros t"
  by (induction t) auto

lemma node_weight: "zeros (Node l r) \<le> 1 \<Longrightarrow> 1 \<le> weight (Node l r)"
  using weight_zero [of l] weight_zero [of r] by fastforce

lemma weight_fib: "balanced t \<Longrightarrow> zeros t \<le> 1 \<Longrightarrow> height t = Suc h \<Longrightarrow> fib (Suc (Suc h)) \<le> weight t"
proof (induction h arbitrary: t rule: less_induct)
  case (less h)
  have one: "fib (Suc (Suc h)) \<le> weight l + weight r"
    if b: "balanced l" "zeros l \<le> 1" "kids_below l (weight r)" and z: "zeros l + zeros r \<le> 1" and h: "height l = h" for l r
  proof (cases h)
    case 0
    then show ?thesis using node_weight [of l r] z by simp
  next
    case (Suc k)
    then obtain a c where l: "l = Node a c" using h by (cases l) auto
    have "fib (Suc (Suc k)) \<le> weight l" using less.IH [of k l] Suc b h by simp
    moreover have "fib (Suc k) \<le> weight r"
    proof (cases k)
      case 0
      then show ?thesis using node_weight [of a c] b l by auto
    next
      case k: (Suc k')
      obtain d where d: "d = a \<or> d = c" "height d = Suc k'" using h Suc k l by (auto simp: max_def split: if_splits)
      then have "fib (Suc (Suc k')) \<le> weight d" using less.IH [of k' d] Suc k b l by auto
      then show ?thesis using d b l k by auto
    qed
    ultimately show ?thesis using Suc by simp
  qed
  obtain l r where t: "t = Node l r" using less.prems(3) by (cases t) auto
  have "height l = h \<or> height r = h" using less.prems(3) t by (auto simp: max_def split: if_splits)
  then show ?case using one [of l r] one [of r l] less.prems t by (auto simp: add.commute)
qed

end
