(* ===== verification/Score_Deck.thy ===== *)
theory Score_Deck
  imports C_Runtime
begin

section \<open>Substitution and permutation of the C3 cipher\<close>

text \<open>
  \<open>d_char_to_idx\<close>, \<open>d_lcg_next\<close>, \<open>d_key_to_seed\<close>, \<open>d_fisher_yates\<close>, \<open>d_poker_substitute\<close> and \<open>d_permute\<close> of
  \<open>brute_force_gpu.cu\<close>.  A local array that a loop fills from its first cell on is the list of the cells filled so far:
  \<open>push\<close> is \<open>a[k++] = v\<close>, and a cell that was not written cannot be read.
\<close>

unbundle bit_operations_syntax

definition push :: "nat \<Rightarrow> 'a list \<Rightarrow> 'a \<Rightarrow> 'a list c" where
  "push cap xs v = (if length xs < cap then Inr (xs @ [v]) else Inl OutOfBounds)"

lemma push_in [simp]: "length xs < cap \<Longrightarrow> push cap xs v = Inr (xs @ [v])"
  by (simp add: push_def)

definition CHARSET_LEN :: nat where "CHARSET_LEN = 36"

definition PLAIN_LEN :: nat where "PLAIN_LEN = 4"

definition charset :: string where "charset = ''0123456789abcdefghijklmnopqrstuvwxyz''"

definition d_charset :: string where "d_charset = charset @ [NUL]"

text \<open>A \<open>char\<close> promoted to \<open>int\<close>; the type is signed.\<close>

definition schar :: "char \<Rightarrow> int" where
  "schar c = (let v = of_char c in if v < 128 then v else v - 256)"

definition d_char_to_idx :: "char \<Rightarrow> int" where
  "d_char_to_idx c =
     (if schar CHR ''0'' \<le> schar c \<and> schar c \<le> schar CHR ''9'' then schar c - schar CHR ''0''
      else 10 + (schar c - schar CHR ''a''))"

definition d_idx_to_char :: "int \<Rightarrow> char c" where
  "d_idx_to_char i = ldi d_charset i"

definition d_lcg_next :: "32 word \<Rightarrow> 32 word" where
  "d_lcg_next state = state * 1664525 + 1013904223"

definition d_xor32 :: "32 word \<Rightarrow> 32 word \<Rightarrow> 32 word" where
  "d_xor32 a b = a XOR b"

definition d_key_to_seed :: "string \<Rightarrow> 32 word" where
  "d_key_to_seed key = foldl (\<lambda>seed c. seed * 36 + of_int (d_char_to_idx c)) 0 key"

subsection \<open>The shuffled decks\<close>

fun shuffle_loop :: "nat list \<Rightarrow> 32 word \<Rightarrow> nat list \<Rightarrow> nat list c" where
  "shuffle_loop [] state deck = Inr deck"
| "shuffle_loop (i # is) state deck =
     (let state = d_lcg_next state; j = unat (state mod of_nat (i + 1))
      in bindc (ld deck i) (\<lambda>tmp. bindc (ld deck j) (\<lambda>v. bindc (sto deck i v) (\<lambda>deck. bindc (sto deck j tmp)
           (shuffle_loop is state)))))"

definition d_fisher_yates :: "32 word \<Rightarrow> nat list c" where
  "d_fisher_yates seed = shuffle_loop (rev [0..<CHARSET_LEN]) (seed AND 0xFFFFFFFF) [0..<CHARSET_LEN]"

subsection \<open>\<open>d_poker_substitute\<close>\<close>

fun poker_loop :: "nat \<Rightarrow> nat list \<Rightarrow> nat list \<Rightarrow> int \<Rightarrow> string \<Rightarrow> string \<Rightarrow> string c" where
  "poker_loop cap deck_A deck_B prev [] out = Inr out"
| "poker_loop cap deck_A deck_B prev (c # cs) out =
     (let i = length out;
          idx_c = d_char_to_idx c;
          offset = crem (int i + 1 + prev) (int CHARSET_LEN);
          idx = crem (idx_c + offset) (int CHARSET_LEN)
      in bindc (if i mod 2 = 0 then ldi deck_A idx else ldi deck_B idx) (\<lambda>out_idx.
         bindc (d_idx_to_char (int out_idx)) (\<lambda>d.
         bindc (push cap out d) (poker_loop cap deck_A deck_B (int out_idx) cs))))"

definition d_poker_substitute :: "nat \<Rightarrow> string \<Rightarrow> 32 word \<Rightarrow> nat \<Rightarrow> string c" where
  "d_poker_substitute cap inp seed_master round_num =
     bindc (d_fisher_yates (d_xor32 seed_master (0x1111 * of_nat round_num))) (\<lambda>deck_A.
     bindc (d_fisher_yates (d_xor32 seed_master (0x2222 * of_nat round_num))) (\<lambda>deck_B.
       poker_loop cap deck_A deck_B (int (unat (seed_master mod 36))) inp []))"

subsection \<open>\<open>d_permute\<close>\<close>

fun random_loop :: "nat \<Rightarrow> nat \<Rightarrow> 32 word \<Rightarrow> nat list \<Rightarrow> nat list c" where
  "random_loop cap 0 state rs = Inr rs"
| "random_loop cap (Suc n) state rs =
     (let state = d_lcg_next state
      in bindc (push cap rs (unat (state mod 10000))) (random_loop cap n state))"

fun index_loop :: "nat \<Rightarrow> nat list \<Rightarrow> nat list \<Rightarrow> nat list c" where
  "index_loop cap [] xs = Inr xs"
| "index_loop cap (i # is) xs = bindc (push cap xs i) (index_loop cap is)"

text \<open>The inner loop of the insertion sort, with \<open>j + 1\<close> as the counter: the loop ends at \<open>j = -1\<close>.\<close>

fun shift_loop :: "nat list \<Rightarrow> nat \<Rightarrow> nat \<Rightarrow> nat list \<Rightarrow> (nat list \<times> nat) c" where
  "shift_loop randoms v 0 xs = Inr (xs, 0)"
| "shift_loop randoms v (Suc j) xs =
     bindc (ld xs j) (\<lambda>s. bindc (ld randoms s) (\<lambda>r.
       if v < r then bindc (sto xs (j + 1) s) (shift_loop randoms v j) else Inr (xs, Suc j)))"

fun insert_loop :: "nat list \<Rightarrow> nat list \<Rightarrow> nat list \<Rightarrow> nat list c" where
  "insert_loop randoms [] xs = Inr xs"
| "insert_loop randoms (i # is) xs =
     bindc (ld xs i) (\<lambda>key_i. bindc (ld randoms key_i) (\<lambda>val_i.
     bindc (shift_loop randoms val_i i xs) (\<lambda>(xs, j). bindc (sto xs j key_i) (insert_loop randoms is))))"

fun gather_loop :: "nat \<Rightarrow> string \<Rightarrow> nat list \<Rightarrow> string \<Rightarrow> string c" where
  "gather_loop cap inp [] out = Inr out"
| "gather_loop cap inp (s # ss) out = bindc (ld inp s) (\<lambda>c. bindc (push cap out c) (gather_loop cap inp ss))"

text \<open>\<open>arr\<close> is the size of the two local arrays, \<open>cap\<close> that of the output buffer.\<close>

definition d_permute :: "nat \<Rightarrow> nat \<Rightarrow> string \<Rightarrow> 32 word \<Rightarrow> nat \<Rightarrow> string c" where
  "d_permute arr cap inp seed_master pid =
     (let n = length inp; seed1 = d_xor32 seed_master (of_nat pid * 0x3333); state = seed1 AND 0xFFFFFFFF
      in bindc (random_loop arr n state []) (\<lambda>randoms.
         bindc (index_loop arr [0..<n] []) (\<lambda>sorted_idx.
         bindc (insert_loop randoms [1..<n] sorted_idx) (\<lambda>sorted_idx.
           gather_loop cap inp sorted_idx []))))"

subsection \<open>What they compute\<close>

text \<open>The characters of the cipher.\<close>

definition idx_of :: "char \<Rightarrow> nat" where
  "idx_of c = nat (d_char_to_idx c)"

lemma charset_index:
  "c \<in> set charset \<Longrightarrow> 0 \<le> d_char_to_idx c \<and> d_char_to_idx c < 36 \<and> charset ! nat (d_char_to_idx c) = c"
  by (auto simp: charset_def d_char_to_idx_def schar_def Let_def)

lemma length_charset [simp]: "length charset = 36"
  by (simp add: charset_def)

lemma distinct_charset: "distinct charset"
  by (simp add: charset_def)

lemma idx_of_inj: "c \<in> set charset \<Longrightarrow> d \<in> set charset \<Longrightarrow> idx_of c = idx_of d \<Longrightarrow> c = d"
  by (metis charset_index idx_of_def)

lemma idx_of_less: "c \<in> set charset \<Longrightarrow> idx_of c < CHARSET_LEN"
  using charset_index [of c] by (auto simp: idx_of_def CHARSET_LEN_def)

lemma idx_of_int: "c \<in> set charset \<Longrightarrow> d_char_to_idx c = int (idx_of c)"
  using charset_index [of c] by (simp add: idx_of_def)

lemma d_idx_to_char_in: "n < 36 \<Longrightarrow> d_idx_to_char (int n) = Inr (charset ! n)"
  by (simp add: d_idx_to_char_def ldi_def d_charset_def ld_def)

lemma charset_nth_eq: "n < 36 \<Longrightarrow> m < 36 \<Longrightarrow> charset ! n = charset ! m \<longleftrightarrow> n = m"
  using distinct_charset by (simp add: nth_eq_iff_index_eq)

lemma unat_mod_less: "0 < n \<Longrightarrow> n < 2 ^ 32 \<Longrightarrow> unat ((s :: 32 word) mod of_nat n) < n"
  by (simp add: unat_mod_distrib unat_of_nat take_bit_nat_eq_self)

lemma shuffle_loop_perm:
  assumes "\<forall>i \<in> set is. i < length deck" "length deck < 2 ^ 32"
  shows "\<exists>deck'. shuffle_loop is state deck = Inr deck' \<and> mset deck' = mset deck"
  using assms
proof (induction "is" arbitrary: state deck)
  case (Cons i "is")
  let ?state = "d_lcg_next state"
  let ?j = "unat (?state mod of_nat (i + 1))"
  let ?deck = "deck[i := deck ! ?j, ?j := deck ! i]"
  have i: "i < length deck" using Cons.prems by simp
  have "?j < i + 1" by (rule unat_mod_less) (use Cons.prems i in auto)
  with i have j: "?j < length deck" by linarith
  have "shuffle_loop (i # is) state deck = shuffle_loop is ?state ?deck"
    using i j by (simp add: Let_def del: of_nat_Suc of_nat_add)
  moreover have "\<exists>deck'. shuffle_loop is ?state ?deck = Inr deck' \<and> mset deck' = mset ?deck"
    by (rule Cons.IH) (use Cons.prems in auto)
  ultimately show ?case using i j by (simp add: mset_swap)
qed simp

lemma d_fisher_yates_perm:
  obtains deck where "d_fisher_yates seed = Inr deck" "length deck = 36" "distinct deck" "set deck = {0..<36}"
proof -
  obtain deck where d: "d_fisher_yates seed = Inr deck" "mset deck = mset [0..<CHARSET_LEN]"
    using shuffle_loop_perm [of "rev [0..<CHARSET_LEN]" "[0..<CHARSET_LEN]"] unfolding d_fisher_yates_def
    by (auto simp: CHARSET_LEN_def simp del: upt_rec_numeral mset_upt)
  have "length deck = CHARSET_LEN" "distinct deck" "set deck = {0..<CHARSET_LEN}"
    using d(2) by (metis diff_zero length_upt size_mset, metis distinct_upt mset_eq_imp_distinct_iff, metis mset_eq_setD set_upt)
  with d(1) that show ?thesis by (simp add: CHARSET_LEN_def)
qed

text \<open>The substitution as a function of the decks: an autokey cipher, whose next shift depends on the last output.\<close>

definition is_deck :: "nat list \<Rightarrow> bool" where
  "is_deck d \<longleftrightarrow> length d = 36 \<and> distinct d \<and> set d = {0..<36}"

fun poker :: "nat list \<Rightarrow> nat list \<Rightarrow> nat \<Rightarrow> nat \<Rightarrow> string \<Rightarrow> string" where
  "poker A B i prev [] = []"
| "poker A B i prev (c # cs) =
     (let v = (if i mod 2 = 0 then A else B) ! ((idx_of c + (i + 1 + prev)) mod 36)
      in charset ! v # poker A B (Suc i) v cs)"

lemma is_deck_nth: "is_deck d \<Longrightarrow> i < 36 \<Longrightarrow> d ! i < 36"
  using nth_mem [of i d] by (auto simp: is_deck_def simp del: nth_mem)

lemma length_poker [simp]: "length (poker A B i prev cs) = length cs"
  by (induction cs arbitrary: i prev) (auto simp: Let_def)

lemma poker_charset: "is_deck A \<Longrightarrow> is_deck B \<Longrightarrow> set (poker A B i prev cs) \<subseteq> set charset"
  by (induction cs arbitrary: i prev) (auto simp: Let_def is_deck_nth)

lemma mod_shift:
  assumes "(a + k) mod n = (b + k) mod n" "a < n" "b < (n::nat)"
  shows "a = b"
proof -
  have "int a mod int n = ((int a + int k) mod int n - int k) mod int n" by (simp add: mod_diff_left_eq)
  also have "\<dots> = ((int b + int k) mod int n - int k) mod int n" using assms(1) by (metis of_nat_add zmod_int)
  also have "\<dots> = int b mod int n" by (simp add: mod_diff_left_eq)
  finally show ?thesis using assms(2,3) by (simp flip: zmod_int)
qed

lemma poker_inj:
  assumes "is_deck A" "is_deck B"
  shows "poker A B i prev cs = poker A B i prev ds \<Longrightarrow> set cs \<subseteq> set charset \<Longrightarrow> set ds \<subseteq> set charset \<Longrightarrow> cs = ds"
proof (induction cs arbitrary: i prev ds)
  case Nil
  then show ?case by (metis length_0_conv length_poker)
next
  case (Cons c cs)
  then obtain d ds' where ds: "ds = d # ds'" by (metis length_0_conv length_poker neq_Nil_conv)
  let ?D = "if i mod 2 = 0 then A else B"
  let ?k = "\<lambda>c. (idx_of c + (i + 1 + prev)) mod 36"
  have D: "is_deck ?D" using assms by simp
  have "charset ! (?D ! ?k c) = charset ! (?D ! ?k d)" and rest: "poker A B (Suc i) (?D ! ?k c) cs = poker A B (Suc i) (?D ! ?k d) ds'"
    using Cons.prems(1) ds by (simp_all add: Let_def)
  moreover have "?D ! ?k c < 36" "?D ! ?k d < 36" using is_deck_nth [OF D] by simp_all
  ultimately have eq: "?D ! ?k c = ?D ! ?k d" using charset_nth_eq by blast
  then have "?k c = ?k d" using D by (simp add: is_deck_def nth_eq_iff_index_eq)
  moreover have "idx_of c < 36" "idx_of d < 36" using Cons.prems ds idx_of_less by (auto simp: CHARSET_LEN_def)
  ultimately have "idx_of c = idx_of d" by (rule mod_shift)
  then have "c = d" using Cons.prems ds by (intro idx_of_inj) auto
  moreover have "cs = ds'" by (rule Cons.IH [of "Suc i" "?D ! ?k c"]) (use rest eq Cons.prems ds in auto)
  ultimately show ?case using ds by simp
qed

lemma poker_loop_ok:
  assumes "is_deck A" "is_deck B"
  shows "set cs \<subseteq> set charset \<Longrightarrow> length out + length cs \<le> cap \<Longrightarrow>
    poker_loop cap A B (int prev) cs out = Inr (out @ poker A B (length out) prev cs)"
proof (induction cs arbitrary: prev out)
  case (Cons c cs)
  define D where "D = (if length out mod 2 = 0 then A else B)"
  define k where "k = (idx_of c + (length out + 1 + prev)) mod 36"
  have c: "d_char_to_idx c = int (idx_of c)" using Cons.prems idx_of_int by simp
  have k: "crem (int (idx_of c) + crem (int (length out) + 1 + int prev) 36) 36 = int k"
    by (simp add: crem_def zmod_int mod_simps add_ac k_def)
  have D: "is_deck D" using assms by (simp add: D_def)
  have "k < 36" by (simp add: k_def)
  with D have v: "ldi D (int k) = Inr (D ! k)" "D ! k < 36" by (simp_all add: is_deck_nth) (simp add: is_deck_def ldi_def ld_def)
  have "poker_loop cap A B (int prev) (c # cs) out = poker_loop cap A B (int (D ! k)) cs (out @ [charset ! (D ! k)])"
    using v Cons.prems by (simp add: c k Let_def CHARSET_LEN_def d_idx_to_char_in D_def split: if_splits)
  also have "\<dots> = Inr ((out @ [charset ! (D ! k)]) @ poker A B (length (out @ [charset ! (D ! k)])) (D ! k) cs)"
    by (rule Cons.IH) (use Cons.prems in auto)
  finally show ?case by (simp add: Let_def D_def k_def)
qed simp

lemma d_poker_substitute_ok:
  obtains A B where "is_deck A" "is_deck B"
    "\<And>cs. set cs \<subseteq> set charset \<Longrightarrow> length cs \<le> cap \<Longrightarrow>
       d_poker_substitute cap cs sm r = Inr (poker A B 0 (unat (sm mod 36)) cs)"
proof -
  obtain A where A: "d_fisher_yates (d_xor32 sm (0x1111 * of_nat r)) = Inr A" "is_deck A"
    using d_fisher_yates_perm unfolding is_deck_def by metis
  obtain B where B: "d_fisher_yates (d_xor32 sm (0x2222 * of_nat r)) = Inr B" "is_deck B"
    using d_fisher_yates_perm unfolding is_deck_def by metis
  have "d_poker_substitute cap cs sm r = poker_loop cap A B (int (unat (sm mod 36))) cs []" for cs
    unfolding d_poker_substitute_def A(1) B(1) bindc_simps ..
  then have "d_poker_substitute cap cs sm r = Inr (poker A B 0 (unat (sm mod 36)) cs)" if "set cs \<subseteq> set charset" "length cs \<le> cap" for cs
    using poker_loop_ok [OF A(2) B(2) that(1), of "[]" cap "unat (sm mod 36)"] that(2) by (simp only: list.size append_Nil add_0)
  then show ?thesis by (rule that [OF A(2) B(2)])
qed

text \<open>The permutation: the positions sorted by their random numbers, ties in the order of the positions.\<close>

fun lcg_numbers :: "nat \<Rightarrow> 32 word \<Rightarrow> nat list" where
  "lcg_numbers 0 state = []"
| "lcg_numbers (Suc n) state = unat (d_lcg_next state mod 10000) # lcg_numbers n (d_lcg_next state)"

lemma length_lcg_numbers [simp]: "length (lcg_numbers n state) = n"
  by (induction n arbitrary: state) auto

lemma random_loop_ok: "length rs + n \<le> cap \<Longrightarrow> random_loop cap n state rs = Inr (rs @ lcg_numbers n state)"
  by (induction n arbitrary: state rs) (auto simp: Let_def)

lemma random_loop_over: "length rs \<le> cap \<Longrightarrow> cap < length rs + n \<Longrightarrow> random_loop cap n state rs = Inl OutOfBounds"
  by (induction n arbitrary: state rs) (auto simp: Let_def push_def)

lemma index_loop_ok: "length xs + length is \<le> cap \<Longrightarrow> index_loop cap is xs = Inr (xs @ is)"
  by (induction "is" arbitrary: xs) auto

lemma gather_loop_ok:
  "\<forall>s \<in> set ss. s < length inp \<Longrightarrow> length out + length ss \<le> cap \<Longrightarrow>
   gather_loop cap inp ss out = Inr (out @ map ((!) inp) ss)"
  by (induction ss arbitrary: out) auto

text \<open>
  The array during the insertion: the sorted part \<open>ps\<close>, of which the last cells with larger numbers have moved up by one over the
  cell of the element that is inserted.
\<close>

lemma shift_loop_ok:
  assumes "\<forall>s \<in> set ps. s < length rs"
  shows "\<exists>as bs y. ps = as @ bs \<and> shift_loop rs v (length ps) (ps @ x # zs) = Inr (as @ y # bs @ zs, length as) \<and>
    (as \<noteq> [] \<longrightarrow> rs ! last as \<le> v) \<and> (\<forall>b \<in> set bs. v < rs ! b)"
  using assms
proof (induction ps arbitrary: x zs rule: rev_induct)
  case Nil
  then show ?case by simp
next
  case (snoc p ps)
  show ?case
  proof (cases "v < rs ! p")
    case True
    have prem: "\<forall>s \<in> set ps. s < length rs" using snoc.prems by simp
    have "shift_loop rs v (length (ps @ [p])) ((ps @ [p]) @ x # zs) = shift_loop rs v (length ps) (ps @ p # p # zs)"
      using snoc.prems True by (simp add: ld_def sto_def nth_append list_update_append)
    moreover obtain as bs y where "ps = as @ bs" "shift_loop rs v (length ps) (ps @ p # p # zs) = Inr (as @ y # bs @ p # zs, length as)"
      "as \<noteq> [] \<longrightarrow> rs ! last as \<le> v" "\<forall>b \<in> set bs. v < rs ! b"
      using snoc.IH [OF prem, of p "p # zs"] by blast
    ultimately have "ps @ [p] = as @ (bs @ [p]) \<and>
        shift_loop rs v (length (ps @ [p])) ((ps @ [p]) @ x # zs) = Inr (as @ y # (bs @ [p]) @ zs, length as) \<and>
        (as \<noteq> [] \<longrightarrow> rs ! last as \<le> v) \<and> (\<forall>b \<in> set (bs @ [p]). v < rs ! b)" using True by simp
    then show ?thesis by blast
  next
    case False
    have "shift_loop rs v (length (ps @ [p])) ((ps @ [p]) @ x # zs) = Inr ((ps @ [p]) @ x # [] @ zs, length (ps @ [p]))"
      using snoc.prems False by (simp add: ld_def nth_append)
    with False show ?thesis by (intro exI [of _ "ps @ [p]"] exI [of _ "[]"] exI [of _ x]) simp
  qed
qed

lemma insert_sorted_split:
  assumes "sorted (map f (as @ bs))" "as \<noteq> [] \<longrightarrow> f (last as) \<le> v" "\<forall>b \<in> set bs. v < f b" "f k = (v :: nat)"
    and stable: "as @ bs = sort_key f xs"
  shows "as @ k # bs = sort_key f (xs @ [k])"
proof -
  have "\<forall>a \<in> set as. f a \<le> v"
  proof (cases as rule: rev_cases)
    case (snoc as' a)
    with assms(1,2) show ?thesis by (auto simp: sorted_append)
  qed simp
  then have s: "sorted (map f (as @ k # bs))" using assms(1,3,4) by (auto simp: sorted_append less_imp_le)
  have "filter (\<lambda>x. f c = f x) (as @ k # bs) = filter (\<lambda>x. f c = f x) (xs @ [k])" for c
  proof -
    have st: "filter (\<lambda>x. f c = f x) (as @ bs) = filter (\<lambda>x. f c = f x) xs"
      unfolding stable using sort_key_stable [of "\<lambda>x. f x" "f c" xs] by (simp add: eq_commute)
    show ?thesis
    proof (cases "f c = v")
      case True
      then have "filter (\<lambda>x. f c = f x) bs = []" using assms(3) by (auto simp: filter_empty_conv)
      with st True assms(4) show ?thesis by simp
    next
      case False
      with st assms(4) show ?thesis by simp
    qed
  qed
  moreover have "mset (as @ bs) = mset xs" by (simp only: stable mset_sort)
  then have "mset (as @ k # bs) = mset (xs @ [k])" by simp
  ultimately show ?thesis using s by (intro properties_for_sort_key [symmetric]) auto
qed

lemma insert_loop_ok:
  assumes "i \<le> n" "n \<le> length rs"
  shows "insert_loop rs [i..<n] (sort_key ((!) rs) [0..<i] @ [i..<n]) = Inr (sort_key ((!) rs) [0..<n])"
  using assms
proof (induction "n - i" arbitrary: i)
  case (Suc m)
  then have i: "i < n" by simp
  let ?ps = "sort_key ((!) rs) [0..<i]"
  have u: "[i..<n] = i # [Suc i..<n]" using i by (simp add: upt_conv_Cons)
  have len: "length ?ps = i" by simp
  have at: "ld (?ps @ i # [Suc i..<n]) i = Inr i" "ld rs i = Inr (rs ! i)" using Suc.prems i by (simp_all add: ld_def nth_append)
  have "\<forall>s \<in> set ?ps. s < length rs" using Suc.prems i by simp
  from shift_loop_ok [OF this, of "rs ! i" i "[Suc i..<n]"]
  obtain as bs y where s: "?ps = as @ bs" "shift_loop rs (rs ! i) i (?ps @ i # [Suc i..<n]) = Inr (as @ y # bs @ [Suc i..<n], length as)"
    "as \<noteq> [] \<longrightarrow> rs ! last as \<le> rs ! i" "\<forall>b \<in> set bs. rs ! i < rs ! b"
    unfolding len by blast
  have "as @ i # bs = sort_key ((!) rs) ([0..<i] @ [i])"
    by (rule insert_sorted_split [where v = "rs ! i"]) (use s in \<open>simp_all flip: s(1)\<close>)
  then have new: "as @ i # bs = sort_key ((!) rs) [0..<Suc i]" by simp
  have "insert_loop rs [i..<n] (?ps @ [i..<n]) = insert_loop rs [Suc i..<n] ((as @ i # bs) @ [Suc i..<n])"
    unfolding u using s(2) by (simp add: at sto_def)
  also have "\<dots> = insert_loop rs [Suc i..<n] (sort_key ((!) rs) [0..<Suc i] @ [Suc i..<n])" by (simp only: new)
  also have "\<dots> = Inr (sort_key ((!) rs) [0..<n])" by (rule Suc.hyps(1)) (use Suc i in auto)
  finally show ?case .
qed simp

definition permuted :: "string \<Rightarrow> 32 word \<Rightarrow> nat \<Rightarrow> string" where
  "permuted inp sm pid =
     map ((!) inp) (sort_key ((!) (lcg_numbers (length inp) (sm XOR of_nat pid * 0x3333))) [0..<length inp])"

lemma and_mask [simp]: "(w :: 32 word) AND 0xFFFFFFFF = w"
proof -
  have "(0xFFFFFFFF :: 32 word) = - 1" by simp
  then show ?thesis by (simp only: and.right_neutral)
qed

lemma d_permute_ok:
  assumes "length inp \<le> arr" "length inp \<le> cap"
  shows "d_permute arr cap inp sm pid = Inr (permuted inp sm pid)"
proof -
  let ?n = "length inp"
  let ?rs = "lcg_numbers ?n (sm XOR of_nat pid * 0x3333)"
  have "insert_loop ?rs [1..<?n] [0..<?n] = Inr (sort_key ((!) ?rs) [0..<?n])"
  proof (cases "?n = 0")
    case False
    then have "[0..<?n] = sort_key ((!) ?rs) [0..<1] @ [1..<?n]" by (simp add: upt_conv_Cons)
    with insert_loop_ok [of 1 ?n ?rs] False show ?thesis by simp
  qed simp
  with assms show ?thesis
    by (simp add: d_permute_def permuted_def d_xor32_def random_loop_ok index_loop_ok gather_loop_ok Let_def)
qed

lemma length_permuted [simp]: "length (permuted inp sm pid) = length inp"
  by (simp add: permuted_def)

lemma permuted_mset: "mset (permuted inp sm pid) = mset inp"
proof -
  have "mset (permuted inp sm pid) = image_mset ((!) inp) (mset [0..<length inp])"
    unfolding permuted_def mset_map mset_sort ..
  then show ?thesis by (metis map_nth mset_map)
qed

lemma permuted_inj: "length xs = length ys \<Longrightarrow> permuted xs sm pid = permuted ys sm pid \<Longrightarrow> xs = ys"
proof -
  assume len: "length xs = length ys" and eq: "permuted xs sm pid = permuted ys sm pid"
  show "xs = ys"
    by (rule nth_equalityI [OF len]) (use eq in \<open>simp add: permuted_def len\<close>)
qed

text \<open>
  \<open>d_permute\<close> reads its input in the order of the random numbers.  When the text fits the two local arrays and the output
  buffer, the insertion sort stays inside them and the result is the text read in the positions sorted by their numbers,
  equal numbers in the order of the positions: a rearrangement of the text.  A text longer than the local arrays overruns them.
\<close>

theorem d_permute_sorts:
  "(length inp \<le> arr \<and> length inp \<le> cap \<longrightarrow>
      d_permute arr cap inp sm pid =
        Inr (map ((!) inp) (sort_key ((!) (lcg_numbers (length inp) (sm XOR of_nat pid * 0x3333))) [0..<length inp])) \<and>
      mset (projr (d_permute arr cap inp sm pid)) = mset inp) \<and>
   (arr < length inp \<longrightarrow> d_permute arr cap inp sm pid = Inl OutOfBounds)"
proof (intro conjI impI)
  assume fits: "length inp \<le> arr \<and> length inp \<le> cap"
  then show "d_permute arr cap inp sm pid =
      Inr (map ((!) inp) (sort_key ((!) (lcg_numbers (length inp) (sm XOR of_nat pid * 0x3333))) [0..<length inp]))"
    using d_permute_ok [of inp arr cap sm pid] by (simp add: permuted_def)
  show "mset (projr (d_permute arr cap inp sm pid)) = mset inp" using fits by (simp add: d_permute_ok permuted_mset)
next
  assume "arr < length inp"
  then show "d_permute arr cap inp sm pid = Inl OutOfBounds"
    using random_loop_over [of "[]" arr "length inp"] by (simp add: d_permute_def Let_def)
qed

theorem d_permute_sorts_witness:
  "d_permute PLAIN_LEN 512 ''book'' 1 1 =
     Inr (map ((!) ''book'') (sort_key ((!) (lcg_numbers (length ''book'') (1 XOR of_nat 1 * 0x3333))) [0..<length ''book''])) \<and>
   d_permute PLAIN_LEN 512 ''books'' 1 2 = Inl OutOfBounds"
  using d_permute_sorts [of "''book''" PLAIN_LEN 512 1 1] d_permute_sorts [of "''books''" PLAIN_LEN 512 1 2]
  unfolding PLAIN_LEN_def by (simp only: list.size) simp

end
