(* ===== verification/Score_Build.thy ===== *)
theory Score_Build
  imports Score_Tree Score_Deck
begin

section \<open>\<open>d_build_huffman\<close> and \<open>d_get_code\<close> of \<open>brute_force_gpu.cu\<close>\<close>

text \<open>
  The tree is kept in the flat array \<open>nodes\<close>, the forest in a heap of triples.  The scores of the 36 characters are a parameter
  of the construction.  What the arrays hold before the construction is arbitrary.
\<close>

definition HUFF_MAX_NODES :: nat where "HUFF_MAX_NODES = 128"

definition CODE_MAX_LEN :: nat where "CODE_MAX_LEN = 24"

record HuffNode =
  n_score :: nat
  n_order :: nat
  n_ch :: int
  n_left :: int
  n_right :: int

record HeapElem =
  e_score :: nat
  e_order :: nat
  e_node :: nat

definition elem_before :: "HeapElem \<Rightarrow> HeapElem \<Rightarrow> bool" where
  "elem_before a b \<longleftrightarrow> e_score a < e_score b \<or> e_score a = e_score b \<and> e_order a < e_order b"

record huff_build =
  nodes :: "HuffNode list"
  queue :: "HeapElem list \<times> nat"
  counter :: nat
  nn :: nat

definition add_leaf :: "(nat \<Rightarrow> nat) \<Rightarrow> nat \<Rightarrow> huff_build \<Rightarrow> huff_build c" where
  "add_leaf score i b =
     (let sc = score i
      in bindc (sto (nodes b) (nn b) \<lparr>n_score = sc, n_order = counter b, n_ch = int i, n_left = - 1, n_right = - 1\<rparr>) (\<lambda>nodes'.
         bindc (heap_push elem_before (queue b) \<lparr>e_score = sc, e_order = counter b, e_node = nn b\<rparr>) (\<lambda>q.
           Inr \<lparr>nodes = nodes', queue = q, counter = counter b + 1, nn = nn b + 1\<rparr>)))"

fun leaf_loop :: "(nat \<Rightarrow> nat) \<Rightarrow> nat list \<Rightarrow> huff_build \<Rightarrow> huff_build c" where
  "leaf_loop score [] b = Inr b"
| "leaf_loop score (i # is) b = bindc (add_leaf score i b) (leaf_loop score is)"

lemma heap_push_size: "heap_push before q e = Inr q' \<Longrightarrow> snd q' = snd q + 1"
  by (cases q) (auto simp: heap_push_def bindc_Inr_iff)

lemma heap_pop_size: "heap_pop before q = Inr (e, q') \<Longrightarrow> snd q' = snd q - 1 \<and> 0 < snd q"
  by (cases q) (auto simp: heap_pop_def bindc_Inr_iff split: if_splits)

text \<open>\<open>while (hsz > 1)\<close>.\<close>

function join_loop :: "huff_build \<Rightarrow> huff_build c" where
  "join_loop b =
     (if snd (queue b) \<le> 1 then Inr b
      else bindc (heap_pop elem_before (queue b)) (\<lambda>p1. bindc (heap_pop elem_before (snd p1)) (\<lambda>p2.
           let e1 = fst p1; e2 = fst p2
           in bindc (ld (nodes b) (e_node e1)) (\<lambda>n1. bindc (ld (nodes b) (e_node e2)) (\<lambda>n2.
              let sc = n_score n1 + n_score n2
              in bindc (sto (nodes b) (nn b)
                   \<lparr>n_score = sc, n_order = counter b, n_ch = - 1, n_left = int (e_node e1), n_right = int (e_node e2)\<rparr>) (\<lambda>nodes'.
                 bindc (heap_push elem_before (snd p2) \<lparr>e_score = sc, e_order = counter b, e_node = nn b\<rparr>) (\<lambda>q.
                   join_loop \<lparr>nodes = nodes', queue = q, counter = counter b + 1, nn = nn b + 1\<rparr>)))))))"
  by pat_completeness auto
termination
  by (relation "measure (\<lambda>b. snd (queue b))") (auto dest!: heap_pop_size heap_push_size)

declare join_loop.simps [simp del]

definition d_build_huffman :: "(nat \<Rightarrow> nat) \<Rightarrow> HuffNode list \<Rightarrow> HeapElem list \<Rightarrow> (HuffNode list \<times> nat) c" where
  "d_build_huffman score nodes0 heap0 =
     bindc (leaf_loop score [0..<CHARSET_LEN] \<lparr>nodes = nodes0, queue = (heap0, 0), counter = 0, nn = 0\<rparr>) (\<lambda>b.
     bindc (join_loop b) (\<lambda>b. bindc (heap_pop elem_before (queue b)) (\<lambda>p. Inr (nodes b, e_node (fst p)))))"

text \<open>
  The traversal with an explicit stack, its top first.  A frame is a node and the bits of the path to it (\<open>bits[0..depth)\<close>); the
  stack has \<open>HUFF_MAX_NODES\<close> frames.
\<close>

definition push_frame :: "int \<Rightarrow> bool list \<Rightarrow> (int \<times> bool list) list \<Rightarrow> (int \<times> bool list) list c" where
  "push_frame child bits stk =
     (if child \<noteq> - 1 \<and> length bits \<le> CODE_MAX_LEN - 1
      then if length stk < HUFF_MAX_NODES then Inr ((child, bits) # stk) else Inl OutOfBounds
      else Inr stk)"

partial_function (option) code_loop :: "HuffNode list \<Rightarrow> int \<Rightarrow> (int \<times> bool list) list \<Rightarrow> bool list c option" where
  "code_loop ns char_idx stk =
     (case stk of
        [] \<Rightarrow> Some (Inr [])
      | fr # stk \<Rightarrow>
          case ldi ns (fst fr) of
            Inl e \<Rightarrow> Some (Inl e)
          | Inr nd \<Rightarrow>
              if n_ch nd \<noteq> - 1
              then if n_ch nd = char_idx then Some (Inr (if snd fr = [] then [False] else snd fr))
                   else code_loop ns char_idx stk
              else case bindc (push_frame (n_right nd) (snd fr @ [True]) stk) (push_frame (n_left nd) (snd fr @ [False])) of
                     Inl e \<Rightarrow> Some (Inl e)
                   | Inr stk \<Rightarrow> code_loop ns char_idx stk)"

definition d_get_code :: "HuffNode list \<Rightarrow> nat \<Rightarrow> int \<Rightarrow> bool list c option" where
  "d_get_code ns root char_idx = code_loop ns char_idx [(int root, [])]"

subsection \<open>The array represents the tree of the abstract algorithm\<close>

fun repr :: "HuffNode list \<Rightarrow> nat \<Rightarrow> nat \<Rightarrow> huff \<Rightarrow> bool" where
  "repr ns k n (Leaf w c) \<longleftrightarrow> n < k \<and> n_score (ns ! n) = w \<and> n_ch (ns ! n) = int c"
| "repr ns k n (Node l r) \<longleftrightarrow> n < k \<and> n_score (ns ! n) = weight (Node l r) \<and> n_ch (ns ! n) = - 1 \<and>
     (\<exists>i j. n_left (ns ! n) = int i \<and> n_right (ns ! n) = int j \<and> repr ns n i l \<and> repr ns n j r)"

lemma repr_mono: "repr ns k n t \<Longrightarrow> k \<le> k' \<Longrightarrow> repr ns k' n t"
  by (cases t) auto

lemma repr_less: "repr ns k n t \<Longrightarrow> n < k"
  by (cases t) auto

lemma repr_score: "repr ns k n t \<Longrightarrow> n_score (ns ! n) = weight t"
  by (cases t) auto

lemma repr_update: "repr ns k n t \<Longrightarrow> k \<le> m \<Longrightarrow> repr (ns[m := v]) k n t"
proof (induction t arbitrary: k n)
  case (Node l r)
  then obtain i j where "n < k" "repr ns n i l" "repr ns n j r" "n_left (ns ! n) = int i" "n_right (ns ! n) = int j" by auto
  moreover from this have "repr (ns[m := v]) n i l" "repr (ns[m := v]) n j r" using Node by auto
  ultimately show ?case using Node.prems by auto
qed auto

definition elem_of :: "item \<Rightarrow> HeapElem" where
  "elem_of x = \<lparr>e_score = fst x, e_order = fst (snd x), e_node = fst (snd x)\<rparr>"

definition elem_key :: "HeapElem \<Rightarrow> nat \<times> nat" where
  "elem_key e = (e_score e, e_order e)"

lemma elem_before_key: "elem_before a b \<longleftrightarrow> elem_key a < elem_key b"
  by (auto simp: elem_before_def elem_key_def less_prod_def)

interpretation gpu_heap: priority_queue
  "heap_push elem_before" "heap_pop elem_before" "heap_wf HUFF_MAX_NODES elem_key" heap_elems HUFF_MAX_NODES elem_key
  by (rule heap_priority_queue) (rule elem_before_key)

lemma elem_key_of [simp]: "elem_key (elem_of x) = item_key x"
  by (simp add: elem_key_def elem_of_def item_key_def)

definition build_ok :: "huff_build \<Rightarrow> item list \<Rightarrow> bool" where
  "build_ok b xs \<longleftrightarrow> counter b = nn b \<and> forest_ok (nn b) xs \<and>
     heap_wf HUFF_MAX_NODES elem_key (queue b) \<and> heap_elems (queue b) = mset (map elem_of xs) \<and>
     length (nodes b) = HUFF_MAX_NODES \<and> (\<forall>(w, n, t) \<in> set xs. repr (nodes b) (nn b) n t)"

lemma build_ok_size: "build_ok b xs \<Longrightarrow> snd (queue b) = length xs"
  by (metis build_ok_def heap_size length_map size_mset)

text \<open>Storing a node and pushing its element adds a tree to the forest.\<close>

lemma build_push:
  assumes ok: "build_ok b xs" and room: "nn b < HUFF_MAX_NODES" "length ys < HUFF_MAX_NODES"
    and q: "heap_wf HUFF_MAX_NODES elem_key q" "heap_elems q = mset (map elem_of ys)" "mset ys \<subseteq># mset xs" "forest_ok (nn b) ys"
    and t: "repr ((nodes b)[nn b := v]) (Suc (nn b)) (nn b) t"
  shows "\<exists>q'. heap_push elem_before q \<lparr>e_score = weight t, e_order = nn b, e_node = nn b\<rparr> = Inr q' \<and>
    build_ok \<lparr>nodes = (nodes b)[nn b := v], queue = q', counter = nn b + 1, nn = nn b + 1\<rparr>
      (insort_key item_key (weight t, nn b, t) ys)"
proof -
  let ?e = "\<lparr>e_score = weight t, e_order = nn b, e_node = nn b\<rparr>"
  have e: "?e = elem_of (weight t, nn b, t)" by (simp add: elem_of_def)
  have "size (heap_elems q) < HUFF_MAX_NODES" using q(2) room(2) by simp
  from gpu_heap.push_ok [OF q(1) this, of ?e]
  obtain q' where q': "heap_push elem_before q ?e = Inr q'" "heap_wf HUFF_MAX_NODES elem_key q'"
    "heap_elems q' = add_mset ?e (heap_elems q)" by blast
  have "set ys \<subseteq> set xs" using q(3) by (metis mset_subset_eqD set_mset_mset subsetI)
  then have "repr ((nodes b)[nn b := v]) (Suc (nn b)) n u" if "(w, n, u) \<in> set ys" for w n u
    using ok that by (intro repr_mono [OF repr_update [of _ "nn b"]]) (auto simp: build_ok_def)
  then have "build_ok \<lparr>nodes = (nodes b)[nn b := v], queue = q', counter = nn b + 1, nn = nn b + 1\<rparr>
      (insort_key item_key (weight t, nn b, t) ys)"
    using ok q' q(2) t forest_insert [OF q(4), of t] by (auto simp: build_ok_def set_insort_key e)
  with q'(1) show ?thesis by blast
qed

definition leaf_item :: "(nat \<Rightarrow> nat) \<Rightarrow> nat \<Rightarrow> item" where
  "leaf_item score i = (score i, i, Leaf (score i) i)"

lemma leaf_loop_ok:
  assumes "build_ok b xs" "nn b = k" "length xs = k" "k + m \<le> HUFF_MAX_NODES"
  shows "\<exists>b' xs'. leaf_loop score [k..<k + m] b = Inr b' \<and> build_ok b' xs' \<and> nn b' = k + m \<and>
    mset xs' = mset xs + mset (map (leaf_item score) [k..<k + m])"
  using assms
proof (induction m arbitrary: k b xs)
  case (Suc m)
  let ?v = "\<lparr>n_score = score k, n_order = k, n_ch = int k, n_left = - 1, n_right = - 1\<rparr>"
  let ?xs = "insort_key item_key (leaf_item score k) xs"
  have len: "length (nodes b) = HUFF_MAX_NODES" "counter b = nn b" using Suc.prems by (auto simp: build_ok_def)
  obtain q' where q': "heap_push elem_before (queue b) \<lparr>e_score = score k, e_order = k, e_node = k\<rparr> = Inr q'"
    "build_ok \<lparr>nodes = (nodes b)[k := ?v], queue = q', counter = k + 1, nn = k + 1\<rparr> ?xs"
    using build_push [OF Suc.prems(1), where q = "queue b" and ys = xs and v = ?v and t = "Leaf (score k) k"] Suc.prems len
    by (auto simp: build_ok_def leaf_item_def)
  let ?b = "\<lparr>nodes = (nodes b)[k := ?v], queue = q', counter = k + 1, nn = k + 1\<rparr>"
  have "add_leaf score k b = Inr ?b" using q'(1) Suc.prems len by (simp add: add_leaf_def Let_def)
  moreover obtain b' xs' where "leaf_loop score [Suc k..<Suc k + m] ?b = Inr b'" "build_ok b' xs'" "nn b' = Suc k + m"
    "mset xs' = mset ?xs + mset (map (leaf_item score) [Suc k..<Suc k + m])"
    using Suc.IH [OF q'(2), of "Suc k"] Suc.prems by (auto simp del: upt_Suc mset_upt mset_map)
  moreover have "[k..<k + Suc m] = k # [Suc k..<Suc k + m]" by (simp add: upt_conv_Cons)
  ultimately show ?case by (auto simp del: upt_Suc mset_upt)
qed auto

lemma sorted_heads:
  assumes "build_ok b (x # y # xs)"
  shows "\<exists>q1 q2. heap_pop elem_before (queue b) = Inr (elem_of x, q1) \<and> heap_pop elem_before q1 = Inr (elem_of y, q2) \<and>
    heap_wf HUFF_MAX_NODES elem_key q2 \<and> heap_elems q2 = mset (map elem_of xs)"
proof -
  have f: "forest_ok (nn b) (x # y # xs)" using assms by (simp add: build_ok_def)
  have s: "sorted (map elem_key (map elem_of zs))" "distinct (map elem_key (map elem_of zs))" if "forest_ok (nn b) zs" for zs
    using that forest_keys [OF that] by (simp_all add: forest_ok_def comp_def)
  obtain q1 where q1: "heap_pop elem_before (queue b) = Inr (elem_of x, q1)" "heap_wf HUFF_MAX_NODES elem_key q1"
    "heap_elems q1 = mset (map elem_of (y # xs))"
    using gpu_heap.pop_sorted [of "queue b" "elem_of x" "map elem_of (y # xs)"] s [OF f] assms by (auto simp: build_ok_def)
  then show ?thesis
    using gpu_heap.pop_sorted [of q1 "elem_of y" "map elem_of xs"] s [OF forest_tl [OF f]] by auto
qed

lemma join_loop_ok:
  assumes "build_ok b xs" "xs \<noteq> []" "nn b + length xs \<le> HUFF_MAX_NODES"
  shows "\<exists>b'. join_loop b = Inr b' \<and> build_ok b' [huffman (nn b) xs] \<and> nn b' = nn b + length xs - 1"
  using assms
proof (induction "length xs" arbitrary: b xs)
  case (Suc m)
  show ?case
  proof (cases xs)
    case (Cons x ys)
    show ?thesis
    proof (cases ys)
      case Nil
      with Cons Suc.prems show ?thesis by (subst join_loop.simps) (simp add: build_ok_size)
    next
      case (Cons y zs)
      with \<open>xs = x # ys\<close> have xs: "xs = x # y # zs" by simp
      obtain w n t w' n' t' where x: "x = (w, n, t)" and y: "y = (w', n', t')" by (cases x; cases y)
      let ?t = "Node t t'"
      let ?v = "\<lparr>n_score = weight ?t, n_order = nn b, n_ch = - 1, n_left = int n, n_right = int n'\<rparr>"
      have f: "forest_ok (nn b) (x # y # zs)" and len: "length (nodes b) = HUFF_MAX_NODES" "counter b = nn b"
        and r: "repr (nodes b) (nn b) n t" "repr (nodes b) (nn b) n' t'"
        using Suc.prems(1) by (auto simp: build_ok_def xs x y)
      obtain q1 q2 where q: "heap_pop elem_before (queue b) = Inr (elem_of x, q1)" "heap_pop elem_before q1 = Inr (elem_of y, q2)"
        "heap_wf HUFF_MAX_NODES elem_key q2" "heap_elems q2 = mset (map elem_of zs)"
        using sorted_heads [of b x y zs] Suc.prems(1) xs by blast
      have nn: "nn b < HUFF_MAX_NODES" using Suc.prems(3) by (simp add: xs)
      have "repr ((nodes b)[nn b := ?v]) (Suc (nn b)) (nn b) ?t"
        using r nn len by (auto intro: repr_update)
      from build_push [OF Suc.prems(1) nn _ q(3,4) _ _ this] Suc.prems(3) f
      obtain q' where q': "heap_push elem_before q2 \<lparr>e_score = weight ?t, e_order = nn b, e_node = nn b\<rparr> = Inr q'"
        "build_ok \<lparr>nodes = (nodes b)[nn b := ?v], queue = q', counter = nn b + 1, nn = nn b + 1\<rparr>
          (insort_key item_key (weight ?t, nn b, ?t) zs)"
        by (auto simp: xs dest: forest_tl)
      let ?b = "\<lparr>nodes = (nodes b)[nn b := ?v], queue = q', counter = nn b + 1, nn = nn b + 1\<rparr>"
      have "n_score (nodes b ! n) + n_score (nodes b ! n') = weight ?t" "n < HUFF_MAX_NODES" "n' < HUFF_MAX_NODES"
        using r nn repr_score repr_less by fastforce+
      then have "join_loop b = join_loop ?b"
        using Suc.prems(1) q q' nn len build_ok_size [OF Suc.prems(1)]
        by (subst join_loop.simps) (simp add: xs x y elem_of_def Let_def)
      moreover have j: "join (nn b) x y = (weight ?t, nn b, ?t)" using f by (auto simp: x y forest_ok_def)
      then have "huffman (nn b) xs = huffman (nn ?b) (insort_key item_key (weight ?t, nn b, ?t) zs)" by (simp add: xs)
      ultimately show ?thesis using Suc.hyps(1) [OF _ q'(2)] Suc.hyps(2) Suc.prems(3) by (auto simp: xs)
    qed
  qed (use Suc in simp)
qed simp

definition forest36 :: "(nat \<Rightarrow> nat) \<Rightarrow> item list" where
  "forest36 score = sort_key item_key (map (leaf_item score) [0..<CHARSET_LEN])"

definition score_tree :: "(nat \<Rightarrow> nat) \<Rightarrow> huff" where
  "score_tree score = snd (snd (huffman CHARSET_LEN (forest36 score)))"

text \<open>The forest of a construction is determined by its multiset.\<close>

lemma sorted_forest_unique:
  assumes "forest_ok c xs" "mset xs = mset (map (leaf_item score) [0..<CHARSET_LEN])"
  shows "xs = forest36 score"
proof -
  have "inj_on item_key (set xs)" using forest_keys [OF assms(1)] by (simp add: distinct_map)
  moreover have "set (map (leaf_item score) [0..<CHARSET_LEN]) = set xs" using assms(2) mset_eq_setD by metis
  ultimately have "sort_key item_key (map (leaf_item score) [0..<CHARSET_LEN]) = xs"
    using assms by (intro sort_key_inj_key_eq) (simp_all add: forest_ok_def)
  then show ?thesis by (simp add: forest36_def)
qed

lemma d_build_huffman_ok:
  assumes "length nodes0 = HUFF_MAX_NODES" "length heap0 = HUFF_MAX_NODES"
  shows "\<exists>ns root. d_build_huffman score nodes0 heap0 = Inr (ns, root) \<and> length ns = HUFF_MAX_NODES \<and>
    repr ns HUFF_MAX_NODES root (score_tree score)"
proof -
  let ?b = "\<lparr>nodes = nodes0, queue = (heap0, 0), counter = 0, nn = 0\<rparr>"
  have "build_ok ?b []"
    using assms by (simp add: build_ok_def forest_ok_def heap_wf_def heap_ok_def heap_elems_def)
  from leaf_loop_ok [OF this, of 0 CHARSET_LEN score] obtain b xs where b: "leaf_loop score [0..<CHARSET_LEN] ?b = Inr b"
    "build_ok b xs" "nn b = CHARSET_LEN" "mset xs = mset (map (leaf_item score) [0..<CHARSET_LEN])"
    by (auto simp: CHARSET_LEN_def HUFF_MAX_NODES_def simp del: upt_rec_numeral mset_upt upt_Suc mset_map)
  have xs: "xs = forest36 score" by (rule sorted_forest_unique [OF _ b(4), of "nn b"]) (use b(2) in \<open>simp add: build_ok_def\<close>)
  have len: "length xs = CHARSET_LEN" using b(4) by (metis diff_zero length_map length_upt size_mset)
  obtain b' where b': "join_loop b = Inr b'" "build_ok b' [huffman CHARSET_LEN xs]" "nn b' = CHARSET_LEN + CHARSET_LEN - 1"
    using join_loop_ok [OF b(2)] len b(3) by (cases "xs = []") (auto simp: CHARSET_LEN_def HUFF_MAX_NODES_def)
  obtain w n t where h: "huffman CHARSET_LEN xs = (w, n, t)" by (cases "huffman CHARSET_LEN xs")
  have "sorted (map elem_key (map elem_of [huffman CHARSET_LEN xs]))" "distinct (map elem_key (map elem_of [huffman CHARSET_LEN xs]))"
    by simp_all
  with gpu_heap.pop_sorted [of "queue b'" "elem_of (huffman CHARSET_LEN xs)" "[]"] b'(2)
  obtain q where "heap_pop elem_before (queue b') = Inr (elem_of (huffman CHARSET_LEN xs), q)" by (auto simp: build_ok_def)
  moreover have "repr (nodes b') HUFF_MAX_NODES n t"
    by (rule repr_mono [of _ "nn b'"]) (use b'(2,3) h in \<open>auto simp: build_ok_def CHARSET_LEN_def HUFF_MAX_NODES_def\<close>)
  ultimately show ?thesis
    using b(1) b'(1,2) h by (auto simp: d_build_huffman_def score_tree_def xs [symmetric] elem_of_def build_ok_def)
qed

subsection \<open>The traversal finds the code\<close>

text \<open>The first tree of a stack that has the symbol.\<close>

fun first_code :: "nat \<Rightarrow> (huff \<times> bool list) list \<Rightarrow> bool list option" where
  "first_code x [] = None"
| "first_code x ((t, bits) # ts) =
     (case code t x of Some bs \<Rightarrow> Some (bits @ bs) | None \<Rightarrow> first_code x ts)"

definition stack_repr :: "HuffNode list \<Rightarrow> (int \<times> bool list) list \<Rightarrow> (huff \<times> bool list) list \<Rightarrow> bool" where
  "stack_repr ns stk ts \<longleftrightarrow> list_all2 (\<lambda>(i, bits) (t, bits'). bits = bits' \<and> i \<ge> 0 \<and> repr ns HUFF_MAX_NODES (nat i) t \<and>
     length bits + height t < CODE_MAX_LEN) stk ts"

lemma code_loop_ok:
  assumes "length ns = HUFF_MAX_NODES" "stack_repr ns stk ts" "(\<Sum>(t, _) \<leftarrow> ts. length (leaves t)) \<le> HUFF_MAX_NODES"
  shows "code_loop ns (int x) stk = Some (Inr (case first_code x ts of None \<Rightarrow> [] | Some bs \<Rightarrow> if bs = [] then [False] else bs))"
  using assms
proof (induction "\<Sum>(t, _) \<leftarrow> ts. 2 * size t + 1" arbitrary: stk ts rule: less_induct)
  case less
  show ?case
  proof (cases ts)
    case Nil
    with less.prems show ?thesis by (subst code_loop.simps) (simp add: stack_repr_def)
  next
    case (Cons tb ts')
    obtain t bits where tb: "tb = (t, bits)" by (cases tb)
    obtain i stk' where stk: "stk = (i, bits) # stk'" "i \<ge> 0" "repr ns HUFF_MAX_NODES (nat i) t"
      "length bits + height t < CODE_MAX_LEN" "stack_repr ns stk' ts'"
      using less.prems(2) Cons tb by (auto simp: stack_repr_def list_all2_Cons2)
    have at: "ldi ns i = Inr (ns ! nat i)" using stk repr_less less.prems(1) by (fastforce simp: ldi_def)
    have len': "length stk' = length ts'" using stk(5) by (auto simp: stack_repr_def list_all2_lengthD)
    have "length ts' \<le> (\<Sum>(t, _) \<leftarrow> ts'. length (leaves t))"
    proof (induction ts')
      case (Cons p ps)
      moreover have "1 \<le> length (leaves (fst p))" using height_less_leaves [of "fst p"] by simp
      ultimately show ?case by (cases p) simp
    qed simp
    then show ?thesis
    proof (cases t)
      case (Leaf w c)
      have "code_loop ns (int x) stk = (if c = x then Some (Inr (if bits = [] then [False] else bits)) else code_loop ns (int x) stk')"
        using stk at Leaf by (subst code_loop.simps) simp
      with less.hyps [of ts' stk'] less.prems stk Leaf show ?thesis by (auto simp: Cons tb)
    next
      case (Node l r)
      obtain a b where ab: "n_left (ns ! nat i) = int a" "n_right (ns ! nat i) = int b" "repr ns (nat i) a l" "repr ns (nat i) b r"
        "n_ch (ns ! nat i) = - 1"
        using stk(3) Node by auto
      have i: "nat i \<le> HUFF_MAX_NODES" using repr_less [OF stk(3)] by simp
      let ?stk = "(int a, bits @ [False]) # (int b, bits @ [True]) # stk'"
      let ?ts = "(l, bits @ [False]) # (r, bits @ [True]) # ts'"
      have "1 \<le> length (leaves l)" "1 \<le> length (leaves r)" using height_less_leaves [of l] height_less_leaves [of r] by auto
      then have "length stk' + 1 < HUFF_MAX_NODES"
        using \<open>length ts' \<le> _\<close> less.prems(3) len' Node by (simp add: Cons tb)
      then have "code_loop ns (int x) stk = code_loop ns (int x) ?stk"
        using stk at ab Node by (subst code_loop.simps) (auto simp: push_frame_def CODE_MAX_LEN_def)
      moreover have "stack_repr ns ?stk ?ts"
        using stk ab Node i by (auto simp: stack_repr_def intro: repr_mono)
      moreover have "first_code x ?ts = first_code x ts" by (auto simp: Cons tb Node split: option.splits)
      ultimately show ?thesis using less.hyps [of ?ts ?stk] less.prems by (simp add: Cons tb Node)
    qed
  qed
qed

lemma d_get_code_ok:
  assumes "length ns = HUFF_MAX_NODES" "repr ns HUFF_MAX_NODES root t" "height t < CODE_MAX_LEN" "length (leaves t) \<le> HUFF_MAX_NODES"
  shows "d_get_code ns root (int x) = Some (Inr (case code t x of None \<Rightarrow> [] | Some bs \<Rightarrow> if bs = [] then [False] else bs))"
proof -
  have "stack_repr ns [(int root, [])] [(t, [])]" using assms by (simp add: stack_repr_def)
  from code_loop_ok [OF assms(1) this, of x] assms(4) show ?thesis by (auto simp: d_get_code_def split: option.splits)
qed

subsection \<open>The codes are short\<close>

lemma fib_mono: "m \<le> n \<Longrightarrow> fib m \<le> fib n"
proof (induction n)
  case (Suc n)
  moreover have "fib n \<le> fib (Suc n)" by (cases n) simp_all
  ultimately show ?case by (cases "m = Suc n") auto
qed simp

lemma fib_add: "fib (Suc n) = a \<Longrightarrow> fib n = b \<Longrightarrow> fib (n + 4) = 3 * a + 2 * b \<and> fib (n + 5) = 5 * a + 3 * b"
  by (simp add: eval_nat_numeral)

lemma fib_24: "fib 24 = 46368"
proof -
  have "fib 4 = 3 \<and> fib 5 = 5" using fib_add [of 0 1 0] by simp
  then have "fib 8 = 21 \<and> fib 9 = 34" using fib_add [of 4 5 3] by simp
  then have "fib 12 = 144 \<and> fib 13 = 233" using fib_add [of 8 34 21] by simp
  then have "fib 16 = 987 \<and> fib 17 = 1597" using fib_add [of 12 233 144] by simp
  then have "fib 20 = 6765 \<and> fib 21 = 10946" using fib_add [of 16 1597 987] by simp
  then show ?thesis using fib_add [of 20 10946 6765] by simp
qed

lemma forest36_nonempty: "forest36 score \<noteq> []"
proof -
  have "length (forest36 score) = 36" by (simp add: forest36_def CHARSET_LEN_def)
  then show ?thesis by auto
qed

lemma forest36_leaves: "mset (leaves (score_tree score)) = mset (map (\<lambda>i. (score i, i)) [0..<CHARSET_LEN])"
proof -
  let ?is = "[0..<CHARSET_LEN]"
  have "mset (leaves (score_tree score)) = (\<Sum>x \<leftarrow> forest36 score. mset (leaves (snd (snd x))))"
    unfolding score_tree_def by (intro huffman_leaves forest36_nonempty)
  also have "\<dots> = sum_mset (image_mset (\<lambda>x. mset (leaves (snd (snd x)))) (mset (forest36 score)))"
    by (metis mset_map sum_mset_sum_list)
  also have "\<dots> = sum_mset (image_mset (\<lambda>x. mset (leaves (snd (snd x)))) (mset (map (leaf_item score) ?is)))"
    by (simp add: forest36_def)
  also have "\<dots> = mset (map (\<lambda>i. (score i, i)) ?is)"
    by (simp add: leaf_item_def multiset.map_comp comp_def flip: mset_map)
      (induction ?is; simp)
  finally show ?thesis .
qed

lemma weight_leaves: "weight t = sum_list (map fst (leaves t))"
  by (induction t) auto

lemma forest36_ok: "forest_ok CHARSET_LEN (forest36 score)"
proof -
  have "distinct (map (fst \<circ> snd) (map (leaf_item score) [0..<CHARSET_LEN]))" by (simp add: leaf_item_def comp_def)
  moreover have "mset (map (fst \<circ> snd) (forest36 score)) = mset (map (fst \<circ> snd) (map (leaf_item score) [0..<CHARSET_LEN]))"
    unfolding forest36_def mset_map mset_sort by simp
  ultimately have "distinct (map (fst \<circ> snd) (forest36 score))" by (metis mset_eq_imp_distinct_iff)
  then show ?thesis by (auto simp: forest_ok_def forest36_def leaf_item_def)
qed

text \<open>Scores below 997, of which at most one is zero, give codes of at most 22 bits.\<close>

lemma score_tree_height:
  assumes "\<And>i. i < CHARSET_LEN \<Longrightarrow> score i \<le> 996"
    and "\<And>i j. i < CHARSET_LEN \<Longrightarrow> j < CHARSET_LEN \<Longrightarrow> score i = 0 \<Longrightarrow> score j = 0 \<Longrightarrow> i = j"
  shows "height (score_tree score) \<le> 22"
proof (rule ccontr)
  let ?t = "score_tree score" and ?is = "[0..<CHARSET_LEN]"
  assume "\<not> height ?t \<le> 22"
  then obtain h where h: "height ?t = Suc h" "22 \<le> h" by (cases "height ?t") auto
  have "siblings_ok (forest36 score)"
    by (auto simp: siblings_ok_def forest36_def leaf_item_def)
  then have bal: "balanced ?t"
    unfolding score_tree_def by (intro huffman_balanced forest36_ok forest36_nonempty)
  have "mset (filter (\<lambda>l. fst l = 0) (leaves ?t)) = mset (filter (\<lambda>l. fst l = 0) (map (\<lambda>i. (score i, i)) ?is))"
    using forest36_leaves [of score] by (metis mset_filter)
  then have "zeros ?t = length (filter (\<lambda>l. fst l = 0) (map (\<lambda>i. (score i, i)) ?is))" unfolding zeros_def by (metis size_mset)
  also have "\<dots> = card {i. i < CHARSET_LEN \<and> score i = 0}"
    by (simp add: filter_map comp_def distinct_length_filter Collect_conj_eq [symmetric] Int_def conj_commute)
  also have "\<dots> \<le> 1" using assms(2) by (auto simp: card_le_Suc0_iff_eq)
  finally have "fib (Suc (Suc h)) \<le> weight ?t" using weight_fib [OF bal _ h(1)] by simp
  moreover have "fib 24 \<le> fib (Suc (Suc h))" using h(2) by (intro fib_mono) simp
  moreover have "weight ?t = sum_list (map fst (map (\<lambda>i. (score i, i)) ?is))"
  proof -
    have "weight ?t = sum_mset (image_mset fst (mset (leaves ?t)))" by (simp add: weight_leaves flip: mset_map sum_mset_sum_list)
    also have "\<dots> = sum_mset (image_mset fst (mset (map (\<lambda>i. (score i, i)) ?is)))" by (simp only: forest36_leaves)
    finally show ?thesis by (simp only: mset_map [symmetric] sum_mset_sum_list)
  qed
  moreover have "\<dots> \<le> sum_list (map (\<lambda>i. 996) ?is)" using assms(1) by (auto simp: comp_def intro!: sum_list_mono)
  moreover have "\<dots> = 35856" by (simp add: sum_list_triv CHARSET_LEN_def)
  ultimately show False unfolding fib_24 by linarith
qed

lemma score_tree_code:
  assumes "x < CHARSET_LEN"
  shows "\<exists>bs. code (score_tree score) x = Some bs \<and> bs \<noteq> []"
proof -
  have "set (leaves (score_tree score)) = set (map (\<lambda>i. (score i, i)) [0..<CHARSET_LEN])"
    using forest36_leaves mset_eq_setD by blast
  then have "x \<in> set (symbols (score_tree score))" using assms by (force simp: symbols_def)
  then obtain bs where bs: "code (score_tree score) x = Some bs" using code_Some_iff by blast
  have "size (mset (leaves (score_tree score))) = 36" unfolding forest36_leaves by (simp add: CHARSET_LEN_def)
  then have "length (leaves (score_tree score)) = 36" by simp
  with bs have "bs \<noteq> []" by (cases "score_tree score") (auto split: option.splits)
  with bs show ?thesis by blast
qed

end
