(* ===== verification/Score_Sha.thy ===== *)
theory Score_Sha
  imports Score_Deck
begin

section \<open>SHA-256 in \<open>brute_force_gpu.cu\<close> and \<open>tforce.cpp\<close>\<close>

text \<open>
  \<open>d_sha256\<close> runs on a block buffer of 128 bytes; \<open>sha256\<close> of \<open>tforce.cpp\<close> has the same rounds and pads differently.  Both are
  compared with the definition of the standard (FIPS 180-4), which pads a message of any length, and whose constants are the fractions of roots of
  the first primes.
\<close>

type_synonym u8 = "8 word"
type_synonym u32 = "32 word"

definition K256 :: "u32 list" where
  "K256 = concat [
     [0x428a2f98, 0x71374491, 0xb5c0fbcf, 0xe9b5dba5], [0x3956c25b, 0x59f111f1, 0x923f82a4, 0xab1c5ed5],
     [0xd807aa98, 0x12835b01, 0x243185be, 0x550c7dc3], [0x72be5d74, 0x80deb1fe, 0x9bdc06a7, 0xc19bf174],
     [0xe49b69c1, 0xefbe4786, 0x0fc19dc6, 0x240ca1cc], [0x2de92c6f, 0x4a7484aa, 0x5cb0a9dc, 0x76f988da],
     [0x983e5152, 0xa831c66d, 0xb00327c8, 0xbf597fc7], [0xc6e00bf3, 0xd5a79147, 0x06ca6351, 0x14292967],
     [0x27b70a85, 0x2e1b2138, 0x4d2c6dfc, 0x53380d13], [0x650a7354, 0x766a0abb, 0x81c2c92e, 0x92722c85],
     [0xa2bfe8a1, 0xa81a664b, 0xc24b8b70, 0xc76c51a3], [0xd192e819, 0xd6990624, 0xf40e3585, 0x106aa070],
     [0x19a4c116, 0x1e376c08, 0x2748774c, 0x34b0bcb5], [0x391c0cb3, 0x4ed8aa4a, 0x5b9cca4f, 0x682e6ff3],
     [0x748f82ee, 0x78a5636f, 0x84c87814, 0x8cc70208], [0x90befffa, 0xa4506ceb, 0xbef9a3f7, 0xc67178f2]]"

definition ROTR32 :: "u32 \<Rightarrow> nat \<Rightarrow> u32" where
  "ROTR32 x n = drop_bit n x OR push_bit (32 - n) x"

definition CH :: "u32 \<Rightarrow> u32 \<Rightarrow> u32 \<Rightarrow> u32" where
  "CH e f g = (e AND f) XOR (NOT e AND g)"

definition MAJ :: "u32 \<Rightarrow> u32 \<Rightarrow> u32 \<Rightarrow> u32" where
  "MAJ a b c = (a AND b) XOR (a AND c) XOR (b AND c)"

definition SIG0 :: "u32 \<Rightarrow> u32" where
  "SIG0 a = ROTR32 a 2 XOR ROTR32 a 13 XOR ROTR32 a 22"

definition SIG1 :: "u32 \<Rightarrow> u32" where
  "SIG1 e = ROTR32 e 6 XOR ROTR32 e 11 XOR ROTR32 e 25"

definition sig0 :: "u32 \<Rightarrow> u32" where
  "sig0 x = ROTR32 x 7 XOR ROTR32 x 18 XOR drop_bit 3 x"

definition sig1 :: "u32 \<Rightarrow> u32" where
  "sig1 x = ROTR32 x 17 XOR ROTR32 x 19 XOR drop_bit 10 x"

record regs =
  ra :: u32
  rb :: u32
  rc :: u32
  rd :: u32
  re :: u32
  rf :: u32
  rg :: u32
  rh :: u32

definition sha_init :: regs where
  "sha_init = \<lparr>ra = 0x6a09e667, rb = 0xbb67ae85, rc = 0x3c6ef372, rd = 0xa54ff53a,
     re = 0x510e527f, rf = 0x9b05688c, rg = 0x1f83d9ab, rh = 0x5be0cd19\<rparr>"

subsection \<open>The rounds\<close>

text \<open>The words of a block: 16 read from its bytes, 48 computed.\<close>

definition load_word :: "u8 list \<Rightarrow> nat \<Rightarrow> u32 c" where
  "load_word b i =
     bindc (ld b (i * 4)) (\<lambda>b0. bindc (ld b (i * 4 + 1)) (\<lambda>b1. bindc (ld b (i * 4 + 2)) (\<lambda>b2. bindc (ld b (i * 4 + 3)) (\<lambda>b3.
       Inr (push_bit 24 (ucast b0) OR push_bit 16 (ucast b1) OR push_bit 8 (ucast b2) OR ucast b3)))))"

fun load_loop :: "u8 list \<Rightarrow> nat list \<Rightarrow> u32 list \<Rightarrow> u32 list c" where
  "load_loop b [] W = Inr W"
| "load_loop b (i # is) W = bindc (load_word b i) (\<lambda>w. bindc (push 64 W w) (load_loop b is))"

fun extend_loop :: "nat list \<Rightarrow> u32 list \<Rightarrow> u32 list c" where
  "extend_loop [] W = Inr W"
| "extend_loop (i # is) W =
     bindc (ld W (i - 2)) (\<lambda>w2. bindc (ld W (i - 7)) (\<lambda>w7. bindc (ld W (i - 15)) (\<lambda>w15. bindc (ld W (i - 16)) (\<lambda>w16.
       bindc (push 64 W (sig1 w2 + w7 + sig0 w15 + w16)) (extend_loop is)))))"

definition sha_round :: "u32 \<Rightarrow> u32 \<Rightarrow> regs \<Rightarrow> regs" where
  "sha_round k w s =
     (let T1 = rh s + SIG1 (re s) + CH (re s) (rf s) (rg s) + k + w;
          T2 = SIG0 (ra s) + MAJ (ra s) (rb s) (rc s)
      in \<lparr>ra = T1 + T2, rb = ra s, rc = rb s, rd = rc s, re = rd s + T1, rf = re s, rg = rf s, rh = rg s\<rparr>)"

fun round_loop :: "u32 list \<Rightarrow> nat list \<Rightarrow> regs \<Rightarrow> regs c" where
  "round_loop W [] s = Inr s"
| "round_loop W (i # is) s = bindc (ld K256 i) (\<lambda>k. bindc (ld W i) (\<lambda>w. round_loop W is (sha_round k w s)))"

definition add_regs :: "regs \<Rightarrow> regs \<Rightarrow> regs" where
  "add_regs h s = \<lparr>ra = ra h + ra s, rb = rb h + rb s, rc = rc h + rc s, rd = rd h + rd s,
     re = re h + re s, rf = rf h + rf s, rg = rg h + rg s, rh = rh h + rh s\<rparr>"

text \<open>One block, given from its first byte on.\<close>

definition sha_block :: "u8 list \<Rightarrow> regs \<Rightarrow> regs c" where
  "sha_block b hash =
     bindc (load_loop b [0..<16] []) (\<lambda>W. bindc (extend_loop [16..<64] W) (\<lambda>W.
     bindc (round_loop W [0..<64] hash) (\<lambda>s. Inr (add_regs hash s))))"

fun block_loop :: "u8 list \<Rightarrow> nat list \<Rightarrow> regs \<Rightarrow> regs c" where
  "block_loop block [] hash = Inr hash"
| "block_loop block (blk # blks) hash = bindc (sha_block (drop (blk * 64) block) hash) (block_loop block blks)"

subsection \<open>The padding of the two programs\<close>

fun copy_loop :: "u8 list \<Rightarrow> nat \<Rightarrow> u8 list \<Rightarrow> u8 list c" where
  "copy_loop [] i block = Inr block"
| "copy_loop (m # ms) i block = bindc (sto block i m) (copy_loop ms (i + 1))"

fun length_loop :: "64 word \<Rightarrow> nat \<Rightarrow> nat list \<Rightarrow> u8 list \<Rightarrow> u8 list c" where
  "length_loop bitlen lst [] block = Inr block"
| "length_loop bitlen lst (i # is) block =
     bindc (sto block (lst - i) (ucast (drop_bit (8 * i) bitlen))) (length_loop bitlen lst is)"

definition d_sha256 :: "u8 list \<Rightarrow> regs c" where
  "d_sha256 msg =
     (let len = length msg
      in bindc (copy_loop msg 0 (replicate 128 0)) (\<lambda>block. bindc (sto block len 0x80) (\<lambda>block.
         let bitlen = of_nat len * 8
         in if len < 56
            then bindc (length_loop bitlen 63 [0..<8] block) (\<lambda>block. block_loop block [0..<1] sha_init)
            else bindc (length_loop bitlen 127 [0..<8] block) (\<lambda>block. block_loop block [0..<2] sha_init))))"

fun length_loop_up :: "64 word \<Rightarrow> nat \<Rightarrow> nat list \<Rightarrow> u8 list \<Rightarrow> u8 list c" where
  "length_loop_up bit_len padded [] buf = Inr buf"
| "length_loop_up bit_len padded (i # is) buf =
     bindc (sto buf (padded - 8 + i) (ucast (drop_bit (56 - 8 * i) bit_len))) (length_loop_up bit_len padded is)"

definition word_bytes :: "u32 \<Rightarrow> u8 list" where
  "word_bytes h = [ucast (drop_bit 24 h), ucast (drop_bit 16 h), ucast (drop_bit 8 h), ucast h]"

definition reg_list :: "regs \<Rightarrow> u32 list" where
  "reg_list s = [ra s, rb s, rc s, rd s, re s, rf s, rg s, rh s]"

definition sha256 :: "u8 list \<Rightarrow> u8 list c" where
  "sha256 msg =
     (let len = length msg; bit_len = of_nat len * 8; padded = ((len + 9 + 63) div 64) * 64
      in bindc (copy_loop msg 0 (replicate 128 0)) (\<lambda>buf. bindc (sto buf len 0x80) (\<lambda>buf.
         bindc (length_loop_up bit_len padded [0..<8] buf) (\<lambda>buf.
         bindc (block_loop buf [0..<padded div 64] sha_init) (\<lambda>h. Inr (concat (map word_bytes (reg_list h))))))))"

subsection \<open>The standard\<close>

definition be_bytes :: "nat \<Rightarrow> u8 list" where
  "be_bytes n = map (\<lambda>i. of_nat (n div 256 ^ (7 - i))) [0..<8]"

definition pad :: "u8 list \<Rightarrow> u8 list" where
  "pad msg = msg @ 0x80 # replicate ((119 - length msg mod 64) mod 64) 0 @ be_bytes (8 * length msg)"

definition be_word :: "u8 list \<Rightarrow> u32" where
  "be_word bs = of_nat (foldl (\<lambda>n b. n * 256 + unat b) 0 bs)"

definition Sigma0 :: "u32 \<Rightarrow> u32" where
  "Sigma0 x = word_rotr 2 x XOR word_rotr 13 x XOR word_rotr 22 x"

definition Sigma1 :: "u32 \<Rightarrow> u32" where
  "Sigma1 x = word_rotr 6 x XOR word_rotr 11 x XOR word_rotr 25 x"

definition sigma0 :: "u32 \<Rightarrow> u32" where
  "sigma0 x = word_rotr 7 x XOR word_rotr 18 x XOR drop_bit 3 x"

definition sigma1 :: "u32 \<Rightarrow> u32" where
  "sigma1 x = word_rotr 17 x XOR word_rotr 19 x XOR drop_bit 10 x"

fun schedule :: "u8 list \<Rightarrow> nat \<Rightarrow> u32" where
  "schedule b t =
     (if t < 16 then be_word (take 4 (drop (4 * t) b))
      else sigma1 (schedule b (t - 2)) + schedule b (t - 7) + sigma0 (schedule b (t - 15)) + schedule b (t - 16))"

declare schedule.simps [simp del]

definition std_round :: "u8 list \<Rightarrow> nat \<Rightarrow> regs \<Rightarrow> regs" where
  "std_round b t s =
     (let T1 = rh s + Sigma1 (re s) + CH (re s) (rf s) (rg s) + K256 ! t + schedule b t;
          T2 = Sigma0 (ra s) + MAJ (ra s) (rb s) (rc s)
      in \<lparr>ra = T1 + T2, rb = ra s, rc = rb s, rd = rc s, re = rd s + T1, rf = re s, rg = rf s, rh = rg s\<rparr>)"

definition std_block :: "u8 list \<Rightarrow> regs \<Rightarrow> regs" where
  "std_block b h = add_regs h (fold (std_round b) [0..<64] h)"

function std_blocks :: "u8 list \<Rightarrow> regs \<Rightarrow> regs" where
  "std_blocks bs h = (if length bs < 64 then h else std_blocks (drop 64 bs) (std_block (take 64 bs) h))"
  by pat_completeness auto
termination by (relation "measure (\<lambda>(bs, h). length bs)") auto

declare std_blocks.simps [simp del]

definition SHA256 :: "u8 list \<Rightarrow> regs" where
  "SHA256 msg = std_blocks (pad msg) sha_init"

subsection \<open>The rounds are those of the standard\<close>

lemma ROTR32_rotr: "0 < n \<Longrightarrow> n < 32 \<Longrightarrow> ROTR32 x n = word_rotr n x"
proof (rule bit_word_eqI)
  fix k assume n: "0 < n" "n < 32" and "k < LENGTH(32)"
  then have k: "k < 32" by simp
  show "bit (ROTR32 x n) k = bit (word_rotr n x) k"
  proof (cases "k + n < 32")
    case True
    then have "\<not> 32 - n \<le> k" by linarith
    with True k n show ?thesis by (simp add: ROTR32_def bit_simps add.commute)
  next
    case False
    then have "(k + n) mod 32 = k + n - 32" using k n by (simp add: le_mod_geq)
    with False k n show ?thesis by (auto simp: ROTR32_def bit_simps dest: bit_imp_le_length)
  qed
qed

lemma sigma_eqs: "SIG0 x = Sigma0 x" "SIG1 x = Sigma1 x" "sig0 x = sigma0 x" "sig1 x = sigma1 x"
  by (simp_all add: SIG0_def SIG1_def sig0_def sig1_def Sigma0_def Sigma1_def sigma0_def sigma1_def ROTR32_rotr)

lemma or_bytes:
  "push_bit 24 (ucast (b0 :: u8)) OR push_bit 16 (ucast (b1 :: u8)) OR push_bit 8 (ucast (b2 :: u8)) OR ucast (b3 :: u8) =
   be_word [b0, b1, b2, b3]"
proof -
  have "push_bit 8 (ucast b2) OR ucast b3 = push_bit 8 (ucast b2) + (ucast b3 :: u32)"
    by (rule disjunctive_add [symmetric]) (auto simp: bit_simps dest: bit_imp_le_length)
  moreover have "push_bit 16 (ucast b1) OR (push_bit 8 (ucast b2) OR ucast b3) = push_bit 16 (ucast b1) + (push_bit 8 (ucast b2) OR (ucast b3 :: u32))"
    by (rule disjunctive_add [symmetric]) (auto simp: bit_simps dest: bit_imp_le_length)
  moreover have "push_bit 24 (ucast b0) OR (push_bit 16 (ucast b1) OR (push_bit 8 (ucast b2) OR ucast b3)) =
      push_bit 24 (ucast b0) + (push_bit 16 (ucast b1) OR (push_bit 8 (ucast b2) OR (ucast b3 :: u32)))"
    by (rule disjunctive_add [symmetric]) (auto simp: bit_simps dest: bit_imp_le_length)
  ultimately show ?thesis by (simp add: be_word_def push_bit_eq_mult algebra_simps )
qed

lemma take_4: "i + 3 < length b \<Longrightarrow> take 4 (drop i b) = [b ! i, b ! (i + 1), b ! (i + 2), b ! (i + 3)]"
  by (rule nth_equalityI) (auto simp: less_Suc_eq numeral_eq_Suc)

lemma load_word_ok: "t < 16 \<Longrightarrow> 64 \<le> length b \<Longrightarrow> load_word b t = Inr (schedule (take 64 b) t)"
proof -
  assume t: "t < 16" "64 \<le> length b"
  have "take 4 (drop (4 * t) (take 64 b)) = take 4 (drop (4 * t) b)" using t by (simp add: drop_take)
  also have "\<dots> = [b ! (4 * t), b ! (4 * t + 1), b ! (4 * t + 2), b ! (4 * t + 3)]" using t by (intro take_4) simp
  finally show ?thesis using t
    by (subst schedule.simps) (simp add: load_word_def or_bytes mult.commute)
qed

lemma load_loop_ok:
  "k + m \<le> 16 \<Longrightarrow> 64 \<le> length b \<Longrightarrow>
   load_loop b [k..<k + m] (map (schedule (take 64 b)) [0..<k]) = Inr (map (schedule (take 64 b)) [0..<k + m])"
proof (induction m arbitrary: k)
  case (Suc m)
  have "[k..<k + Suc m] = k # [Suc k..<Suc k + m]" by (simp add: upt_conv_Cons)
  with Suc.IH [of "Suc k"] Suc.prems show ?case by (simp add: load_word_ok del: upt_Suc add: upt_Suc_snoc)
qed simp

lemma extend_loop_ok:
  "16 \<le> k \<Longrightarrow> k + m \<le> 64 \<Longrightarrow>
   extend_loop [k..<k + m] (map (schedule b) [0..<k]) = Inr (map (schedule b) [0..<k + m])"
proof (induction m arbitrary: k)
  case (Suc m)
  have "[k..<k + Suc m] = k # [Suc k..<Suc k + m]" by (simp add: upt_conv_Cons)
  moreover have "schedule b k = sig1 (schedule b (k - 2)) + schedule b (k - 7) + sig0 (schedule b (k - 15)) + schedule b (k - 16)"
    using Suc.prems by (subst schedule.simps) (simp add: sigma_eqs)
  ultimately show ?case using Suc.IH [of "Suc k"] Suc.prems by (simp del: upt_Suc add: upt_Suc_snoc)
qed simp

lemma length_K256 [simp]: "length K256 = 64"
  by (simp add: K256_def)

lemma round_loop_ok:
  "\<forall>i \<in> set is. i < 64 \<Longrightarrow> round_loop (map (schedule b) [0..<64]) is s = Inr (fold (std_round b) is s)"
  by (induction "is" arbitrary: s) (simp_all add: sha_round_def std_round_def sigma_eqs)

lemma sha_block_ok: "64 \<le> length b \<Longrightarrow> sha_block b h = Inr (std_block (take 64 b) h)"
  using load_loop_ok [of 0 16 b] extend_loop_ok [of 16 48 "take 64 b"] round_loop_ok [of "[0..<64]" "take 64 b" h]
  unfolding sha_block_def std_block_def by (simp del: upt_rec_numeral)

lemma block_loop_ok:
  "64 * (k + m) \<le> length block \<Longrightarrow> block_loop block [k..<k + m] h = Inr (std_blocks (take (64 * m) (drop (64 * k) block)) h)"
proof (induction m arbitrary: k h)
  case 0
  then show ?case by (subst std_blocks.simps) simp
next
  case (Suc m)
  have u: "[k..<k + Suc m] = k # [Suc k..<Suc k + m]" by (simp add: upt_conv_Cons)
  have "std_blocks (take (64 * Suc m) (drop (64 * k) block)) h =
      std_blocks (take (64 * m) (drop (64 * Suc k) block)) (std_block (take 64 (drop (64 * k) block)) h)"
    using Suc.prems by (subst std_blocks.simps) (simp add: drop_take add.commute)
  with Suc.IH [of "Suc k"] Suc.prems show ?case unfolding u by (simp add: sha_block_ok mult.commute)
qed

subsection \<open>The padding is that of the standard\<close>

lemma copy_loop_ok:
  "length ms \<le> length zs \<Longrightarrow> copy_loop ms (length xs) (xs @ zs) = Inr (xs @ ms @ drop (length ms) zs)"
proof (induction ms arbitrary: xs zs)
  case (Cons m ms)
  then obtain z zs' where zs: "zs = z # zs'" by (cases zs) auto
  then have "copy_loop (m # ms) (length xs) (xs @ zs) = copy_loop ms (length (xs @ [m])) ((xs @ [m]) @ zs')" by (simp add: sto_def)
  also have "\<dots> = Inr ((xs @ [m]) @ ms @ drop (length ms) zs')" by (rule Cons.IH) (use Cons.prems zs in simp)
  finally show ?case by (simp add: zs)
qed simp

lemma length_8:
  assumes "length z = 8"
  obtains a b c d e f g h where "z = [a, b, c, d, e, f, g, h]"
  using assms by (auto simp: length_Suc_conv numeral_eq_Suc)

lemma bitlen_byte: "len < 2 ^ 60 \<Longrightarrow> ucast (drop_bit k (of_nat len * 8 :: 64 word)) = (of_nat (8 * len div 2 ^ k) :: u8)"
proof -
  assume "len < 2 ^ 60"
  then have "unat (of_nat (8 * len) :: 64 word) = 8 * len" by (simp add: unat_of_nat take_bit_nat_eq_self del: of_nat_mult)
  then have "unat (drop_bit k (of_nat (8 * len) :: 64 word)) = 8 * len div 2 ^ k"
    unfolding unat_drop_bit_eq by (simp only: drop_bit_eq_div)
  then show ?thesis by (metis mult.commute of_nat_mult of_nat_numeral of_nat_unat)
qed

lemma be_bytes_list:
  "be_bytes n = [of_nat (n div 2 ^ 56), of_nat (n div 2 ^ 48), of_nat (n div 2 ^ 40), of_nat (n div 2 ^ 32),
     of_nat (n div 2 ^ 24), of_nat (n div 2 ^ 16), of_nat (n div 2 ^ 8), of_nat n]"
  by (simp add: be_bytes_def upt_rec)

lemma length_loop_ok:
  assumes "length z = 8" "len < 2 ^ 60"
  shows "length_loop (of_nat len * 8) (length xs + 7) [0..<8] (xs @ z @ ys) = Inr (xs @ be_bytes (8 * len) @ ys)"
proof -
  obtain a b c d e f g h where z: "z = [a, b, c, d, e, f, g, h]" using length_8 [OF assms(1)] .
  have u: "[0..<8] = [0, 1, 2, 3, 4, 5, 6, 7 :: nat]" by (simp add: upt_rec)
  show ?thesis unfolding z u be_bytes_list using assms(2) by (simp add: sto_def list_update_append bitlen_byte bitlen_byte [of _ 0, simplified])
qed

lemma length_loop_up_ok:
  assumes "length z = 8" "len < 2 ^ 60"
  shows "length_loop_up (of_nat len * 8) (length xs + 8) [0..<8] (xs @ z @ ys) = Inr (xs @ be_bytes (8 * len) @ ys)"
proof -
  obtain a b c d e f g h where z: "z = [a, b, c, d, e, f, g, h]" using length_8 [OF assms(1)] .
  have u: "[0..<8] = [0, 1, 2, 3, 4, 5, 6, 7 :: nat]" by (simp add: upt_rec)
  show ?thesis unfolding z u be_bytes_list using assms(2) by (simp add: sto_def list_update_append bitlen_byte bitlen_byte [of _ 0, simplified])
qed

text \<open>The buffer after the message, the byte \<open>0x80\<close> and the zeros, split where the length goes; \<open>q\<close> is the length of the padded message.\<close>

definition padded_length :: "u8 list \<Rightarrow> nat" where
  "padded_length msg = (if length msg < 56 then 64 else 128)"

definition pad_prefix :: "u8 list \<Rightarrow> u8 list" where
  "pad_prefix msg = msg @ 0x80 # replicate (padded_length msg - 9 - length msg) 0"

lemma length_pad_prefix: "length msg \<le> 119 \<Longrightarrow> length (pad_prefix msg) + 8 = padded_length msg"
  by (auto simp: pad_prefix_def padded_length_def)

lemma pad_eq: "length msg \<le> 119 \<Longrightarrow> pad msg = pad_prefix msg @ be_bytes (8 * length msg)"
proof -
  assume len: "length msg \<le> 119"
  consider "length msg < 56" | "56 \<le> length msg" "length msg < 64" | "64 \<le> length msg" by linarith
  then have "(119 - length msg mod 64) mod 64 = padded_length msg - 9 - length msg"
  proof cases
    case 3
    then have "length msg mod 64 = length msg - 64" using len by (simp add: le_mod_geq)
    with 3 len show ?thesis by (simp add: padded_length_def le_mod_geq)
  qed (simp_all add: padded_length_def le_mod_geq)
  then show ?thesis by (simp add: pad_def pad_prefix_def)
qed

lemma buffer_split:
  assumes "length msg \<le> 119"
  shows "bindc (copy_loop msg 0 (replicate 128 0)) (\<lambda>block. bindc (sto block (length msg) 0x80) f) =
    f (pad_prefix msg @ replicate 8 0 @ replicate (128 - padded_length msg) 0)"
proof -
  have "copy_loop msg 0 (replicate 128 0) = Inr (msg @ replicate (128 - length msg) 0)"
    using copy_loop_ok [of msg "replicate 128 0" "[]"] assms by simp
  moreover have "replicate (128 - length msg) (0 :: u8) = 0 # replicate (127 - length msg) 0"
    using assms by (simp add: Suc_diff_le flip: replicate_Suc)
  moreover have "replicate (127 - length msg) (0 :: u8) =
      replicate (padded_length msg - 9 - length msg) 0 @ replicate 8 0 @ replicate (128 - padded_length msg) 0"
    unfolding replicate_add [symmetric] using assms by (auto simp: padded_length_def)
  ultimately show ?thesis by (simp add: sto_def pad_prefix_def)
qed

lemma length_be_bytes [simp]: "length (be_bytes n) = 8"
  by (simp add: be_bytes_def)

lemma blocks_of_buffer:
  assumes "length msg \<le> 119"
  shows "block_loop (pad_prefix msg @ be_bytes (8 * length msg) @ replicate (128 - padded_length msg) 0) [0..<padded_length msg div 64] h =
    Inr (std_blocks (pad msg) h)"
proof -
  let ?m = "padded_length msg div 64" and ?b = "pad msg @ replicate (128 - padded_length msg) 0"
  have m: "64 * ?m = padded_length msg" by (simp add: padded_length_def)
  have len: "length (pad msg) = padded_length msg" using length_pad_prefix [OF assms] by (simp add: pad_eq [OF assms])
  have "block_loop ?b [0..<0 + ?m] h = Inr (std_blocks (take (64 * ?m) (drop (64 * 0) ?b)) h)"
    by (rule block_loop_ok) (simp add: m len)
  with len assms show ?thesis unfolding m by (simp add: pad_eq)
qed

lemma d_sha256_ok:
  assumes "length msg \<le> 119"
  shows "d_sha256 msg = Inr (SHA256 msg)"
proof -
  have "padded_length msg - 1 = length (pad_prefix msg) + 7" using length_pad_prefix [OF assms] by linarith
  then have "length_loop (of_nat (length msg) * 8) (padded_length msg - 1) [0..<8] (pad_prefix msg @ replicate 8 0 @ replicate (128 - padded_length msg) 0) =
      Inr (pad_prefix msg @ be_bytes (8 * length msg) @ replicate (128 - padded_length msg) 0)"
    using assms by (simp only:) (rule length_loop_ok, simp_all)
  with blocks_of_buffer [OF assms, of sha_init] show ?thesis
    unfolding d_sha256_def Let_def buffer_split [OF assms] SHA256_def
    by (cases "length msg < 56") (simp_all add: padded_length_def del: upt_rec_numeral replicate.simps)
qed

lemma sha256_ok:
  assumes "length msg \<le> 119"
  shows "sha256 msg = Inr (concat (map word_bytes (reg_list (SHA256 msg))))"
proof -
  have p: "(length msg + 9 + 63) div 64 * 64 = padded_length msg" using assms by (auto simp: padded_length_def)
  have "length_loop_up (of_nat (length msg) * 8) (padded_length msg) [0..<8] (pad_prefix msg @ replicate 8 0 @ replicate (128 - padded_length msg) 0) =
      Inr (pad_prefix msg @ be_bytes (8 * length msg) @ replicate (128 - padded_length msg) 0)"
    using length_loop_up_ok [of "replicate 8 0" "length msg" "pad_prefix msg" "replicate (128 - padded_length msg) 0"]
      length_pad_prefix [OF assms] assms by (simp)
  with blocks_of_buffer [OF assms, of sha_init] show ?thesis
    unfolding sha256_def Let_def buffer_split [OF assms] SHA256_def p
    by (simp del: upt_rec_numeral replicate.simps)
qed

subsection \<open>The constants\<close>

text \<open>\<open>k\<close> is the first 32 bits of the fraction of the \<open>r\<close>-th root of \<open>p\<close>.\<close>

definition root_fraction :: "nat \<Rightarrow> int \<Rightarrow> u32 \<Rightarrow> bool" where
  "root_fraction r p k \<longleftrightarrow>
     (\<exists>q \<in> set [0..17]. (q * 2 ^ 32 + uint k) ^ r \<le> p * 2 ^ (32 * r) \<and> p * 2 ^ (32 * r) < (q * 2 ^ 32 + uint k + 1) ^ r)"

text \<open>The primes below 312: a composite number below 324 has a divisor up to 17.\<close>

definition first_primes :: "int list" where
  "first_primes = filter (\<lambda>p. \<forall>d \<in> set [2..17]. d = p \<or> p mod d \<noteq> 0) [2..311]"

lemma first_primes_64: "length first_primes = 64"
  by code_simp

lemma K256_roots: "list_all2 (root_fraction 3) first_primes K256"
  by code_simp

lemma sha_init_roots: "list_all2 (root_fraction 2) (take 8 first_primes) (reg_list sha_init)"
  by code_simp

text \<open>
  C29: the SHA-256 of the two programs is that of the standard.  For every message that fits the 128-byte buffer with its padding
  (119 bytes), \<open>d_sha256\<close> of \<open>brute_force_gpu.cu\<close> and \<open>sha256\<close> of \<open>tforce.cpp\<close> access their arrays in bounds and return the
  hash of the standard, as eight words and as 32 bytes.
\<close>

theorem sha256_standard:
  assumes "length msg \<le> 119"
  shows "d_sha256 msg = Inr (SHA256 msg) \<and> sha256 msg = Inr (concat (map word_bytes (reg_list (SHA256 msg))))"
  using d_sha256_ok [OF assms] sha256_ok [OF assms] by blast

theorem sha256_standard_witness:
  "d_sha256 [0x61, 0x62, 0x63] = Inr (SHA256 [0x61, 0x62, 0x63]) \<and>
   sha256 [0x61, 0x62, 0x63] = Inr (concat (map word_bytes (reg_list (SHA256 [0x61, 0x62, 0x63]))))"
  by (rule sha256_standard) simp

text \<open>
  The constants are those of the standard: the table holds, for the first 64 primes, the first 32 bits of the fractions of
  their cube roots, and the initial hash, for the first eight primes, those of their square roots.
\<close>

theorem sha256_constants:
  "length first_primes = 64 \<and> list_all2 (root_fraction 3) first_primes K256 \<and>
   list_all2 (root_fraction 2) (take 8 first_primes) (reg_list sha_init)"
  using first_primes_64 K256_roots sha_init_roots by blast

end
