(* ===== verification/Score_Seed.thy ===== *)
theory Score_Seed
  imports Score_Sha
begin

section \<open>Seeds and scores of \<open>brute_force_gpu.cu\<close>\<close>

text \<open>
  \<open>Seed128\<close>, \<open>d_update_seed\<close> and \<open>d_compute_score\<close>.  The 128-bit number is printed in decimal by repeated division of four 32-bit
  limbs; its remainder modulo 997 is taken in three 64-bit steps.
\<close>

record Seed128 =
  hi :: "64 word"
  lo :: "64 word"

definition seed_val :: "Seed128 \<Rightarrow> nat" where
  "seed_val s = unat (hi s) * 2 ^ 64 + unat (lo s)"

text \<open>One division of the limbs by ten.\<close>

fun div10_loop :: "u32 list \<Rightarrow> 64 word \<Rightarrow> u32 list \<times> 64 word" where
  "div10_loop [] rem = ([], rem)"
| "div10_loop (v # vs) rem =
     (let cur = rem * 0x100000000 + ucast v; (vs', r) = div10_loop vs (cur mod 10)
      in (ucast (cur div 10) # vs', r))"

definition limbs_from :: "nat \<Rightarrow> u32 list \<Rightarrow> nat" where
  "limbs_from n vs = foldl (\<lambda>n v. n * 2 ^ 32 + unat v) n vs"

lemma limbs_simps [simp]: "limbs_from n [] = n" "limbs_from n (v # vs) = limbs_from (n * 2 ^ 32 + unat v) vs"
  by (simp_all add: limbs_from_def)

lemma limbs_split: "limbs_from n vs = n * 2 ^ (32 * length vs) + limbs_from 0 vs"
proof (induction vs arbitrary: n)
  case (Cons v vs)
  have "limbs_from n (v # vs) = (n * 2 ^ 32 + unat v) * 2 ^ (32 * length vs) + limbs_from 0 vs"
    using Cons [of "n * 2 ^ 32 + unat v"] by simp
  moreover have "limbs_from 0 (v # vs) = unat v * 2 ^ (32 * length vs) + limbs_from 0 vs" using Cons [of "unat v"] by simp
  ultimately show ?case by (simp add: power_add algebra_simps)
qed simp

lemma limbs_div10: "limbs_from n vs = 10 * (n div 10 * 2 ^ (32 * length vs)) + limbs_from (n mod 10) vs"
proof -
  have "n * 2 ^ (32 * length vs) = (10 * (n div 10) + n mod 10) * 2 ^ (32 * length vs)" by simp
  also have "\<dots> = 10 * (n div 10 * 2 ^ (32 * length vs)) + n mod 10 * 2 ^ (32 * length vs)" by (simp only: add_mult_distrib mult.assoc)
  finally show ?thesis unfolding limbs_split [of n] limbs_split [of "n mod 10"] by simp
qed

lemma div10_loop_ok:
  "unat rem < 10 \<Longrightarrow> div10_loop vs rem = (vs', r) \<Longrightarrow>
   limbs_from 0 vs' = limbs_from (unat rem) vs div 10 \<and> unat r = limbs_from (unat rem) vs mod 10 \<and> length vs' = length vs"
proof (induction vs arbitrary: rem vs' r)
  case (Cons v vs)
  let ?n = "unat rem * 2 ^ 32 + unat v" and ?cur = "rem * 0x100000000 + ucast v"
  have v: "unat v < 2 ^ 32" using unsigned_less [of v] by simp
  have cur: "unat ?cur = ?n"
  proof -
    have "?cur = of_nat ?n" by simp
    moreover have "?n < 2 ^ 64" using v Cons.prems(1) by simp
    ultimately show ?thesis by (simp only: unat_of_nat) (simp add: take_bit_nat_eq_self)
  qed
  obtain us where us: "div10_loop vs (?cur mod 10) = (us, r)" "vs' = ucast (?cur div 10) # us"
    using Cons.prems(2) by (auto simp: Let_def split: prod.splits)
  have m: "unat (?cur mod 10) = ?n mod 10" unfolding unat_mod_distrib cur by simp
  then have "unat (?cur mod 10) < 10" by simp
  from Cons.IH [OF this us(1)] have IH: "limbs_from 0 us = limbs_from (?n mod 10) vs div 10" "unat r = limbs_from (?n mod 10) vs mod 10"
    "length us = length vs" unfolding m by simp_all
  have "unat (?cur div 10) = ?n div 10" unfolding unat_div_distrib cur by simp
  moreover have "?n div 10 < 2 ^ 32" using v Cons.prems(1) by simp
  ultimately have q: "unat (ucast (?cur div 10) :: u32) = ?n div 10" by (simp add: unsigned_ucast_eq take_bit_nat_eq_self)
  let ?B = "2 ^ (32 * length vs) :: nat"
  have "limbs_from ?n vs = 10 * (?n div 10 * ?B) + limbs_from (?n mod 10) vs" by (rule limbs_div10)
  moreover have "limbs_from 0 vs' = ?n div 10 * ?B + limbs_from 0 us"
    unfolding us(2) limbs_simps using limbs_split [of "?n div 10" us] by (simp add: q IH(3))
  ultimately show ?case using IH us(2) by simp
qed simp

lemma limbs_zero: "limbs_from 0 vs = 0 \<longleftrightarrow> (\<forall>v \<in> set vs. v = 0)"
proof (induction vs)
  case (Cons v vs)
  then show ?case using limbs_split [of "unat v" vs] by (simp add: unat_eq_zero)
qed simp

text \<open>\<open>while (v[0]||v[1]||v[2]||v[3])\<close>.\<close>

function digit_loop :: "u32 list \<Rightarrow> string \<Rightarrow> string c" where
  "digit_loop v tmp =
     (if \<forall>x \<in> set v. x = 0 then Inr tmp
      else let (v', rem) = div10_loop v 0
           in bindc (push 40 tmp (char_of (48 + unat rem))) (digit_loop v'))"
  by pat_completeness auto
termination
proof (relation "measure (\<lambda>(v, tmp). limbs_from 0 v)", goal_cases)
  case (2 v tmp x v' rem t)
  then have "limbs_from 0 v' = limbs_from 0 v div 10" using div10_loop_ok [of 0 v v' rem] by simp
  moreover have "limbs_from 0 v \<noteq> 0" using 2(1) limbs_zero by blast
  ultimately show ?case by simp
qed simp

declare digit_loop.simps [simp del]

fun reverse_loop :: "string \<Rightarrow> nat list \<Rightarrow> string \<Rightarrow> string c" where
  "reverse_loop tmp [] decstr = Inr decstr"
| "reverse_loop tmp (i # is) decstr = bindc (ld tmp i) (\<lambda>d. bindc (push 40 decstr d) (reverse_loop tmp is))"

definition d_update_seed :: "Seed128 \<Rightarrow> char \<Rightarrow> Seed128 c" where
  "d_update_seed seed ch =
     (let l = lo seed XOR of_char ch; h = hi seed;
          v = [ucast (drop_bit 32 h), ucast (h AND 0xFFFFFFFF), ucast (drop_bit 32 l), ucast (l AND 0xFFFFFFFF)] :: u32 list
      in bindc (if \<forall>x \<in> set v. x = 0 then push 40 [] CHR ''0''
                else bindc (digit_loop v []) (\<lambda>tmp. reverse_loop tmp (rev [0..<length tmp]) [])) (\<lambda>decstr.
         bindc (push 40 decstr NUL) (\<lambda>_.
         bindc (d_sha256 (map of_char decstr)) (\<lambda>hash.
           Inr \<lparr>hi = push_bit 32 (ucast (ra hash)) OR ucast (rb hash),
                lo = push_bit 32 (ucast (rc hash)) OR ucast (rd hash)\<rparr>))))"

definition d_compute_score :: "nat \<Rightarrow> Seed128 \<Rightarrow> nat" where
  "d_compute_score char_idx seed =
     (let mod_hi = hi seed mod 997;
          mod_lo = (push_bit 32 mod_hi OR drop_bit 32 (lo seed)) mod 997;
          mod_lo = (push_bit 32 mod_lo OR (lo seed AND 0xFFFFFFFF)) mod 997;
          seed_mod = mod_lo
      in unat ((of_nat (char_idx + 1) * seed_mod + 17) mod 997))"

subsection \<open>What they compute\<close>

lemma digit_char: "char_of (48 + d) = digit d"
  by (simp add: digit_def)

lemma digit_loop_ok:
  "length tmp + length (show_nat (limbs_from 0 v)) \<le> 40 \<Longrightarrow> limbs_from 0 v \<noteq> 0 \<Longrightarrow>
   digit_loop v tmp = Inr (tmp @ rev (show_nat (limbs_from 0 v)))"
proof (induction v tmp rule: digit_loop.induct)
  case (1 v tmp)
  obtain v' r where d: "div10_loop v 0 = (v', r)" by (cases "div10_loop v 0")
  let ?n = "limbs_from 0 v"
  have v': "limbs_from 0 v' = ?n div 10" and r: "unat r = ?n mod 10" using div10_loop_ok [of 0 v v' r] d by simp_all
  have nz: "\<not> (\<forall>x \<in> set v. x = 0)" using 1(3) by (simp only: limbs_zero) simp
  have room: "length tmp < 40" using 1(2) show_nat_nonempty [of ?n] by (cases "show_nat ?n") auto
  have step: "digit_loop v tmp = digit_loop v' (tmp @ [digit (?n mod 10)])"
    by (subst digit_loop.simps) (simp only: nz if_False d prod.case Let_def r digit_char push_in [OF room] bindc_simps)
  show ?case
  proof (cases "?n < 10")
    case True
    then have "\<forall>x \<in> set v'. x = 0" using v' limbs_zero [of v'] by simp
    then have "digit_loop v' (tmp @ [digit (?n mod 10)]) = Inr (tmp @ [digit (?n mod 10)])" by (subst digit_loop.simps) (rule if_P)
    with step True show ?thesis by (simp add: show_nat_rec)
  next
    case False
    then have "digit_loop v' (tmp @ [digit (?n mod 10)]) = Inr ((tmp @ [digit (?n mod 10)]) @ rev (show_nat (?n div 10)))"
      using 1(1) [OF nz d [symmetric] refl] 1(2) room v' by (simp add: r digit_char show_nat_rec)
    with step False show ?thesis by (simp add: show_nat_rec)
  qed
qed

lemma reverse_loop_ok:
  "k \<le> length tmp \<Longrightarrow> length d + k \<le> 40 \<Longrightarrow> reverse_loop tmp (rev [0..<k]) d = Inr (d @ rev (take k tmp))"
  by (induction k arbitrary: d) (simp_all add: take_Suc_conv_app_nth)

lemma unat_ucast_low: "unat (ucast (w AND 0xFFFFFFFF :: 64 word) :: u32) = unat w mod 2 ^ 32"
proof -
  have "(0xFFFFFFFF :: 64 word) = mask 32" by (simp add: mask_eq_exp_minus_1)
  then have "unat (w AND 0xFFFFFFFF) = unat w mod 2 ^ 32" by (simp only: take_bit_eq_mask [symmetric] unsigned_take_bit_eq) (simp only: take_bit_eq_mod)
  then show ?thesis by (simp add: unsigned_ucast_eq take_bit_nat_eq_self)
qed

lemma unat_ucast_high: "unat (ucast (drop_bit 32 (w :: 64 word)) :: u32) = unat w div 2 ^ 32"
proof -
  have "unat (drop_bit 32 w) = unat w div 2 ^ 32" unfolding unat_drop_bit_eq by (simp only: drop_bit_eq_div)
  moreover have "unat w div 2 ^ 32 < 2 ^ 32" using unsigned_less [of w, where ?'a = nat] by (simp add: less_mult_imp_div_less)
  ultimately show ?thesis by (simp add: unsigned_ucast_eq take_bit_nat_eq_self)
qed

lemma limbs_of_seed:
  "limbs_from 0 [ucast (drop_bit 32 h), ucast (h AND 0xFFFFFFFF), ucast (drop_bit 32 l), ucast (l AND 0xFFFFFFFF)] =
   seed_val \<lparr>hi = h, lo = l\<rparr>"
proof -
  have "unat w div 2 ^ 32 * 2 ^ 32 + unat w mod 2 ^ 32 = unat w" for w :: "64 word" by simp
  from this [of h] this [of l] show ?thesis
    unfolding limbs_simps unat_ucast_low unat_ucast_high seed_val_def Seed128.simps by (simp add: algebra_simps)
qed

text \<open>The decimal digits are those of the number, and the buffer of 40 bytes holds them with the final null byte.\<close>

lemma seed_val_less: "seed_val s < 2 ^ 128"
proof -
  have "unat (hi s) + 1 \<le> 2 ^ 64" "unat (lo s) < 2 ^ 64"
    using unsigned_less [of "hi s", where ?'a = nat] unsigned_less [of "lo s", where ?'a = nat] by simp_all
  moreover from this(1) have "(unat (hi s) + 1) * 2 ^ 64 \<le> 2 ^ 64 * 2 ^ 64" by (rule mult_le_mono1)
  ultimately show ?thesis unfolding seed_val_def by (simp add: algebra_simps)
qed

lemma length_show_seed: "length (show_nat (seed_val s)) \<le> 39"
  by (rule length_show_nat) (use seed_val_less [of s] in auto)

definition next_seed :: "Seed128 \<Rightarrow> char \<Rightarrow> Seed128" where
  "next_seed s c =
     (let h = SHA256 (map of_char (show_nat (seed_val s XOR of_char c)))
      in \<lparr>hi = of_nat (unat (ra h) * 2 ^ 32 + unat (rb h)), lo = of_nat (unat (rc h) * 2 ^ 32 + unat (rd h))\<rparr>)"

lemma small_bits: "l < 2 ^ n \<Longrightarrow> bit (l :: nat) m \<Longrightarrow> m < n"
  by (metis bit_take_bit_iff take_bit_nat_eq_self)

lemma nat_shift_add:
  assumes "l < 2 ^ n"
  shows "(h :: nat) * 2 ^ n + l = push_bit n h OR l"
proof -
  have "push_bit n h + l = push_bit n h OR l"
    by (rule disjunctive_add) (use small_bits [OF assms] in \<open>fastforce simp: bit_push_bit_iff\<close>)
  then show ?thesis by (simp add: push_bit_eq_mult)
qed

lemma shift_or_val:
  assumes "unat (a :: 64 word) < 2 ^ 32" "unat (b :: 64 word) < 2 ^ 32"
  shows "unat (push_bit 32 a OR b) = unat a * 2 ^ 32 + unat b"
proof -
  have "unat (push_bit 32 a OR b) = take_bit 64 (push_bit 32 (unat a)) OR unat b"
    by (simp add: unsigned_or_eq unsigned_push_bit_eq)
  also have "take_bit 64 (push_bit 32 (unat a)) = push_bit 32 (unat a)"
    by (rule take_bit_nat_eq_self) (use assms(1) in \<open>simp add: push_bit_eq_mult\<close>)
  also have "push_bit 32 (unat a) OR unat b = unat a * 2 ^ 32 + unat b" by (rule nat_shift_add [OF assms(2), symmetric])
  finally show ?thesis .
qed

lemma seed_xor: "seed_val \<lparr>hi = hi s, lo = lo s XOR of_char c\<rparr> = seed_val s XOR of_char c"
proof -
  have c: "unat (of_char c :: 64 word) = of_char c" "(of_char c :: nat) < 2 ^ 8"
  proof -
    show c8: "(of_char c :: nat) < 2 ^ 8" using nat_of_char_less_256 [of c] by simp
    have "unat (of_nat (of_char c) :: 64 word) = of_char c"
      unfolding unat_of_nat by (rule mod_less, rule less_trans [OF nat_of_char_less_256]) simp
    moreover have "of_nat (of_char c) = (of_char c :: 64 word)" by (simp add: of_char_def)
    ultimately show "unat (of_char c :: 64 word) = of_char c" by simp
  qed
  have l: "unat w < 2 ^ 64" for w :: "64 word" using unsigned_less [of w, where ?'a = nat] by simp
  have no: "\<not> bit (of_char c :: nat) n" if "64 \<le> n" for n using small_bits [OF c(2), of n] that by fastforce
  have "seed_val \<lparr>hi = hi s, lo = lo s XOR of_char c\<rparr> = push_bit 64 (unat (hi s)) OR (unat (lo s) XOR of_char c)"
    unfolding seed_val_def Seed128.simps nat_shift_add [OF l] by (simp add: unsigned_xor_eq c)
  also have "\<dots> = (push_bit 64 (unat (hi s)) OR unat (lo s)) XOR of_char c"
    by (rule bit_eqI) (use no in \<open>auto simp: bit_simps\<close>)
  finally show ?thesis unfolding seed_val_def nat_shift_add [OF l] .
qed

lemma limb_pair: "push_bit 32 (ucast (a :: u32)) OR ucast (b :: u32) = (of_nat (unat a * 2 ^ 32 + unat b) :: 64 word)"
proof -
  have w: "unat (ucast x :: 64 word) = unat x" "unat x < 2 ^ 32" for x :: u32
    using unsigned_less [of x, where ?'a = nat] by (simp_all add: unsigned_ucast_eq take_bit_nat_eq_self)
  have "unat (push_bit 32 (ucast a) OR ucast b :: 64 word) = unat a * 2 ^ 32 + unat b"
    using shift_or_val [of "ucast a" "ucast b"] unfolding w(1) by (simp only: w(2))
  then show ?thesis by (metis of_nat_unat ucast_id)
qed

lemma d_update_seed_ok: "d_update_seed s c = Inr (next_seed s c)"
proof -
  let ?l = "lo s XOR of_char c"
  let ?v = "[ucast (drop_bit 32 (hi s)), ucast (hi s AND 0xFFFFFFFF), ucast (drop_bit 32 ?l), ucast (?l AND 0xFFFFFFFF)] :: u32 list"
  let ?n = "seed_val s XOR of_char c"
  have n: "limbs_from 0 ?v = ?n" unfolding limbs_of_seed seed_xor ..
  have len: "length (show_nat ?n) \<le> 39" unfolding seed_xor [symmetric] by (rule length_show_seed)
  have dec: "(if \<forall>x \<in> set ?v. x = 0 then push 40 [] CHR ''0''
      else bindc (digit_loop ?v []) (\<lambda>tmp. reverse_loop tmp (rev [0..<length tmp]) [])) = Inr (show_nat ?n)"
  proof (cases "?n = 0")
    case True
    then have "\<forall>x \<in> set ?v. x = 0" using n limbs_zero [of ?v] by (simp only:)
    moreover have "show_nat 0 = ''0''" by (simp add: show_simps)
    ultimately show ?thesis using True by (subst if_P) (simp_all only: push_in list.size append_Nil zero_less_numeral)
  next
    case False
    then have "\<not> (\<forall>x \<in> set ?v. x = 0)" using n limbs_zero [of ?v] by (simp only: not_False_eq_True)
    moreover have "digit_loop ?v [] = Inr (rev (show_nat ?n))"
      using digit_loop_ok [of "[]" ?v] len False n by (simp only: list.size append_Nil add_0) simp
    moreover have "reverse_loop (rev (show_nat ?n)) (rev [0..<length (rev (show_nat ?n))]) [] = Inr (show_nat ?n)"
      using reverse_loop_ok [of "length (rev (show_nat ?n))" "rev (show_nat ?n)" "[]"] len by simp
    ultimately show ?thesis by (subst if_not_P) (simp_all only: bindc_simps not_False_eq_True)
  qed
  have "length (show_nat ?n) < 40" using len by simp
  then show ?thesis
    unfolding d_update_seed_def Let_def dec bindc_simps next_seed_def
    by (simp add: d_sha256_ok limb_pair)
qed

text \<open>The score is computed modulo 997 of the whole seed, without overflow.\<close>

definition score_of :: "nat \<Rightarrow> nat \<Rightarrow> nat" where
  "score_of seed i = ((i + 1) * seed + 17) mod 997"

lemma unat_mod_997: "unat (w mod 997 :: 64 word) = unat w mod 997"
  unfolding unat_mod_distrib by simp

lemma mod_997_small: "unat (w mod 997 :: 64 word) < 2 ^ 32"
  unfolding unat_mod_997 by (rule less_trans [OF mod_less_divisor]) simp_all

lemma mod_step: "(a mod m * b + c) mod m = (a * b + c) mod m" "(b * (a mod m) + c) mod m = (b * a + c) mod (m :: nat)"
  by (metis mod_add_left_eq mod_mult_left_eq, metis mod_add_left_eq mod_mult_right_eq)

lemma seed_mod:
  "unat ((push_bit 32 ((push_bit 32 (hi s mod 997) OR drop_bit 32 (lo s)) mod 997) OR (lo s AND 0xFFFFFFFF)) mod 997) = seed_val s mod 997"
proof -
  let ?h = "unat (hi s)" and ?x = "unat (lo s) div 2 ^ 32" and ?y = "unat (lo s) mod 2 ^ 32"
  have x: "unat (drop_bit 32 (lo s)) = ?x" unfolding unat_drop_bit_eq by (simp only: drop_bit_eq_div)
  have x32: "?x < 2 ^ 32" using unsigned_less [of "lo s", where ?'a = nat] by (simp add: less_mult_imp_div_less)
  have m: "(0xFFFFFFFF :: 64 word) = mask 32" by (simp add: mask_eq_exp_minus_1)
  have y: "unat (lo s AND 0xFFFFFFFF) = ?y" by (simp only: m take_bit_eq_mask [symmetric] unsigned_take_bit_eq) (simp only: take_bit_eq_mod)
  have y32: "?y < 2 ^ 32" by simp
  have "unat ((push_bit 32 (hi s mod 997) OR drop_bit 32 (lo s)) mod 997) = (?h mod 997 * 2 ^ 32 + ?x) mod 997"
    unfolding unat_mod_997 by (subst shift_or_val [OF mod_997_small]) (use x x32 in \<open>simp_all only: unat_mod_997\<close>)
  then have "unat ((push_bit 32 ((push_bit 32 (hi s mod 997) OR drop_bit 32 (lo s)) mod 997) OR (lo s AND 0xFFFFFFFF)) mod 997) =
      ((?h mod 997 * 2 ^ 32 + ?x) mod 997 * 2 ^ 32 + ?y) mod 997"
    by (subst unat_mod_997, subst shift_or_val [OF mod_997_small]) (use y y32 in \<open>simp_all only:\<close>)
  also have "\<dots> = ((?h * 2 ^ 32 + ?x) * 2 ^ 32 + ?y) mod 997"
    by (simp only: mod_step)
  also have "(?h * 2 ^ 32 + ?x) * 2 ^ 32 + ?y = ?h * 2 ^ 64 + (?x * 2 ^ 32 + ?y)" by (simp add: algebra_simps)
  also have "?x * 2 ^ 32 + ?y = unat (lo s)" by (rule div_mult_mod_eq)
  finally show ?thesis by (simp only: seed_val_def)
qed

lemma d_compute_score_ok: "i < 36 \<Longrightarrow> d_compute_score i s = score_of (seed_val s) i"
proof -
  assume i: "i < 36"
  define m where "m = (push_bit 32 ((push_bit 32 (hi s mod 997) OR drop_bit 32 (lo s)) mod 997) OR (lo s AND 0xFFFFFFFF)) mod 997"
  have m: "unat m = seed_val s mod 997" unfolding m_def by (rule seed_mod)
  have "of_nat (i + 1) * m + 17 = of_nat ((i + 1) * unat m + 17)" by (simp add: algebra_simps)
  moreover have "(i + 1) * unat m \<le> 36 * 996" using i m by (intro mult_le_mono) auto
  then have "unat (of_nat ((i + 1) * unat m + 17) :: 64 word) = (i + 1) * unat m + 17"
    unfolding unat_of_nat by (intro mod_less) simp
  ultimately have "unat ((of_nat (i + 1) * m + 17) mod 997) = ((i + 1) * unat m + 17) mod 997" by (simp only: unat_mod_997)
  also have "\<dots> = ((i + 1) * seed_val s + 17) mod 997" unfolding m by (simp only: mod_step)
  finally show ?thesis by (simp only: d_compute_score_def Let_def score_of_def m_def)
qed

text \<open>At most one character has the score zero: 997 is prime to every difference of two factors.\<close>

lemma coprime_997: "0 < k \<Longrightarrow> k < 36 \<Longrightarrow> coprime k (997 :: nat)"
proof -
  assume "0 < k" "k < 36"
  then have "k \<in> set [1..<36]" by simp
  moreover have "list_all (\<lambda>k. coprime k (997 :: nat)) [1..<36]" by code_simp
  ultimately show ?thesis unfolding list_all_iff by blast
qed

lemma score_zero_unique:
  assumes "i < 36" "j < 36" "score_of s i = 0" "score_of s j = 0"
  shows "i = j"
proof (rule ccontr)
  have zero: False if ij: "i < j" "j < 36" and z: "score_of s i = 0" "score_of s j = 0" for i j
  proof -
    have d: "997 dvd (i + 1) * s + 17" "997 dvd (j + 1) * s + 17" using z by (auto simp: score_of_def mod_eq_0_iff_dvd)
    obtain k where j: "j = i + k" using ij(1) by (metis less_imp_add_positive)
    then have "(j + 1) * s + 17 = k * s + ((i + 1) * s + 17)" by (simp add: algebra_simps)
    then have "997 dvd k * s" using d by (metis dvd_add_left_iff)
    moreover have "coprime k 997" using ij j by (intro coprime_997) auto
    ultimately have "997 dvd s" by (metis coprime_commute coprime_dvd_mult_right_iff)
    then have "997 dvd (i + 1) * s" by (rule dvd_mult)
    then have "997 dvd (17 :: nat)" using d(1) by (metis dvd_add_right_iff)
    then show False by simp
  qed
  assume "i \<noteq> j"
  then show False using zero [of i j] zero [of j i] assms by linarith
qed



end
