(* ===== verification/Score_Encrypt.thy ===== *)
theory Score_Encrypt
  imports Score_Build Score_Seed
begin

section \<open>The cipher of \<open>brute_force_gpu.cu\<close>\<close>

text \<open>
  \<open>d_score_tree_encode\<close> and \<open>d_encrypt_matches\<close>: two rounds of substitution, permutation and encoding with a tree of codes per
  character.  \<open>None\<close> is the result \<open>-1\<close> of an output buffer that is too small.  \<open>heap0\<close> and \<open>nodes0\<close> are the contents of the uninitialised
  arrays; \<open>target\<close> is the bit string to find.
\<close>

definition BUF_SIZE :: nat where "BUF_SIZE = 512"

definition TARGET_LEN :: nat where "TARGET_LEN = 119"

fun emit_loop :: "nat \<Rightarrow> bool list \<Rightarrow> string \<Rightarrow> string c" where
  "emit_loop cap [] out = Inr out"
| "emit_loop cap (b # bs) out = bindc (push cap out (char_of (48 + of_bool b :: nat))) (emit_loop cap bs)"

fun encode_loop :: "HeapElem list \<Rightarrow> nat \<Rightarrow> string \<Rightarrow> HuffNode list \<Rightarrow> Seed128 \<Rightarrow> string \<Rightarrow> string option run" where
  "encode_loop heap0 max_out [] ns seed out = Some (Inr (Some out))"
| "encode_loop heap0 max_out (c # cs) ns seed out =
     bindr (Some (d_build_huffman (\<lambda>i. d_compute_score i seed) ns heap0)) (\<lambda>(ns, root).
     bindr (d_get_code ns root (d_char_to_idx c)) (\<lambda>cd.
       if max_out < length out + length cd then Some (Inr None)
       else bindr (Some (emit_loop max_out cd out)) (\<lambda>out.
            bindr (Some (d_update_seed seed c)) (\<lambda>seed. encode_loop heap0 max_out cs ns seed out))))"

definition ord_sum :: "string \<Rightarrow> nat" where
  "ord_sum s = (\<Sum>c \<leftarrow> s. of_char c)"

definition round_suffix :: "nat \<Rightarrow> string" where
  "round_suffix rn1 = CHR ''R'' # (if 10 \<le> rn1 then [char_of (48 + rn1 div 10)] else []) @ [char_of (48 + rn1 mod 10)]"

definition d_score_tree_encode :: "HeapElem list \<Rightarrow> HuffNode list \<Rightarrow> string \<Rightarrow> string \<Rightarrow> nat \<Rightarrow> nat \<Rightarrow> string option run" where
  "d_score_tree_encode heap0 nodes0 text key round_num max_out =
     (let seed_init = ord_sum key + ord_sum (round_suffix (round_num - 1)) + 1
      in encode_loop heap0 max_out text nodes0 \<lparr>hi = 0, lo = of_nat seed_init\<rparr> [])"

fun compare_loop :: "string \<Rightarrow> string \<Rightarrow> nat list \<Rightarrow> bool c" where
  "compare_loop bits target [] = Inr True"
| "compare_loop bits target (i # is) =
     bindc (ld bits i) (\<lambda>b. bindc (ld target i) (\<lambda>t. if b \<noteq> t then Inr False else compare_loop bits target is))"

definition d_plain :: string where "d_plain = ''book''"

definition d_encrypt_matches :: "string \<Rightarrow> HeapElem list \<Rightarrow> HuffNode list \<Rightarrow> string \<Rightarrow> bool run" where
  "d_encrypt_matches target heap0 nodes0 key =
     (let sm = d_key_to_seed key
      in bindr (Some (d_poker_substitute BUF_SIZE d_plain sm 1)) (\<lambda>buf_a.
         bindr (Some (d_permute PLAIN_LEN BUF_SIZE buf_a sm 1)) (\<lambda>buf_b.
         bindr (d_score_tree_encode heap0 nodes0 buf_b key 1 BUF_SIZE) (\<lambda>r1.
           case r1 of None \<Rightarrow> Some (Inr False)
           | Some bits1 \<Rightarrow>
               bindr (Some (d_poker_substitute BUF_SIZE bits1 sm 2)) (\<lambda>buf_a.
               bindr (Some (d_permute BUF_SIZE BUF_SIZE buf_a sm 2)) (\<lambda>buf_b.
               bindr (d_score_tree_encode heap0 nodes0 buf_b key 2 (BUF_SIZE * 8)) (\<lambda>r2.
                 case r2 of None \<Rightarrow> Some (Inr False)
                 | Some bits2 \<Rightarrow>
                     if length bits2 \<noteq> TARGET_LEN then Some (Inr False)
                     else Some (compare_loop bits2 target [0..<TARGET_LEN]))))))))"

subsection \<open>The cipher as a function\<close>

definition deck :: "32 word \<Rightarrow> nat list" where
  "deck seed = (case d_fisher_yates seed of Inr d \<Rightarrow> d | Inl e \<Rightarrow> [])"

definition bit_chars :: "bool list \<Rightarrow> string" where
  "bit_chars bs = map (\<lambda>b. if b then CHR ''1'' else CHR ''0'') bs"

definition char_code :: "Seed128 \<Rightarrow> char \<Rightarrow> bool list" where
  "char_code s c = the (code (score_tree (score_of (seed_val s))) (idx_of c))"

fun score_encode :: "Seed128 \<Rightarrow> string \<Rightarrow> string" where
  "score_encode s [] = []"
| "score_encode s (c # cs) = bit_chars (char_code s c) @ score_encode (next_seed s c) cs"

definition start_seed :: "string \<Rightarrow> nat \<Rightarrow> Seed128" where
  "start_seed key r = \<lparr>hi = 0, lo = of_nat (ord_sum key + ord_sum (round_suffix (r - 1)) + 1)\<rparr>"

definition substituted :: "32 word \<Rightarrow> nat \<Rightarrow> string \<Rightarrow> string" where
  "substituted sm r text = poker (deck (d_xor32 sm (0x1111 * of_nat r))) (deck (d_xor32 sm (0x2222 * of_nat r))) 0 (unat (sm mod 36)) text"

definition cipher_round :: "string \<Rightarrow> nat \<Rightarrow> string \<Rightarrow> string" where
  "cipher_round key r text =
     (let sm = d_key_to_seed key in score_encode (start_seed key r) (permuted (substituted sm r text) sm r))"

definition score_cipher :: "string \<Rightarrow> string \<Rightarrow> string" where
  "score_cipher key text = cipher_round key 2 (cipher_round key 1 text)"

subsection \<open>The codes of one character\<close>

lemma d_fisher_yates_deck: "d_fisher_yates s = Inr (deck s)" and is_deck_deck: "is_deck (deck s)"
  using d_fisher_yates_perm [of s] by (metis deck_def is_deck_def sum.simps(6))+

lemma score_tree_cong:
  assumes "\<And>i. i < CHARSET_LEN \<Longrightarrow> f i = g i"
  shows "score_tree f = score_tree g"
proof -
  have "map (leaf_item f) [0..<CHARSET_LEN] = map (leaf_item g) [0..<CHARSET_LEN]"
    using assms by (intro map_cong refl) (simp add: leaf_item_def)
  then show ?thesis by (simp only: score_tree_def forest36_def)
qed

lemma seed_tree_height: "height (score_tree (score_of s)) \<le> 22"
proof (rule score_tree_height)
  show "score_of s i \<le> 996" for i
  proof -
    have "score_of s i < 997" by (simp add: score_of_def)
    then show ?thesis by linarith
  qed
qed (use score_zero_unique in \<open>simp add: CHARSET_LEN_def\<close>)

lemma char_code_ok:
  assumes "c \<in> set charset"
  shows "code (score_tree (score_of (seed_val s))) (idx_of c) = Some (char_code s c)"
    and "char_code s c \<noteq> []" and "length (char_code s c) \<le> 22"
proof -
  obtain bs where bs: "code (score_tree (score_of (seed_val s))) (idx_of c) = Some bs" "bs \<noteq> []"
    using score_tree_code [OF idx_of_less [OF assms]] by blast
  then show "code (score_tree (score_of (seed_val s))) (idx_of c) = Some (char_code s c)" "char_code s c \<noteq> []"
    by (simp_all add: char_code_def)
  have "length bs \<le> height (score_tree (score_of (seed_val s)))" using bs(1) by (rule code_height)
  also have "\<dots> \<le> 22" by (rule seed_tree_height)
  finally show "length (char_code s c) \<le> 22" using bs(1) by (simp add: char_code_def)
qed

lemma length_seed_leaves: "length (leaves (score_tree score)) = 36"
proof -
  have "size (mset (leaves (score_tree score))) = 36" unfolding forest36_leaves by (simp add: CHARSET_LEN_def)
  then show ?thesis by simp
qed

lemma build_and_code:
  assumes "length ns = HUFF_MAX_NODES" "length heap0 = HUFF_MAX_NODES" "c \<in> set charset"
  obtains ns' root where "d_build_huffman (\<lambda>i. d_compute_score i s) ns heap0 = Inr (ns', root)" "length ns' = HUFF_MAX_NODES"
    "d_get_code ns' root (d_char_to_idx c) = Some (Inr (char_code s c))"
proof -
  let ?f = "\<lambda>i. d_compute_score i s"
  have t: "score_tree ?f = score_tree (score_of (seed_val s))"
    by (rule score_tree_cong) (simp add: d_compute_score_ok CHARSET_LEN_def)
  obtain ns' root where b: "d_build_huffman ?f ns heap0 = Inr (ns', root)" "length ns' = HUFF_MAX_NODES"
    "repr ns' HUFF_MAX_NODES root (score_tree ?f)"
    using d_build_huffman_ok [OF assms(1,2)] by blast
  have "height (score_tree ?f) < CODE_MAX_LEN" unfolding t using seed_tree_height [of "seed_val s"] by (simp add: CODE_MAX_LEN_def)
  moreover have "length (leaves (score_tree ?f)) \<le> HUFF_MAX_NODES" by (simp add: length_seed_leaves HUFF_MAX_NODES_def)
  ultimately have "d_get_code ns' root (int (idx_of c)) = Some (Inr (char_code s c))"
    using d_get_code_ok [OF b(2,3), of "idx_of c"] char_code_ok [OF assms(3), of s] by (simp add: t)
  then show ?thesis using that [OF b(1,2)] idx_of_int [OF assms(3)] by simp
qed

subsection \<open>The encoding\<close>

lemma bit_char: "char_of (48 + of_bool b :: nat) = (if b then CHR ''1'' else CHR ''0'')"
  using digit_simps(1,2) by (simp add: digit_def)

lemma emit_loop_ok: "length out + length bs \<le> cap \<Longrightarrow> emit_loop cap bs out = Inr (out @ bit_chars bs)"
  by (induction bs arbitrary: out) (simp_all add: bit_char bit_chars_def)

lemma length_bit_chars [simp]: "length (bit_chars bs) = length bs"
  by (simp add: bit_chars_def)

lemma encode_loop_ok:
  assumes "length heap0 = HUFF_MAX_NODES"
  shows "set cs \<subseteq> set charset \<Longrightarrow> length ns = HUFF_MAX_NODES \<Longrightarrow> length out + 22 * length cs \<le> max_out \<Longrightarrow>
    encode_loop heap0 max_out cs ns s out = Some (Inr (Some (out @ score_encode s cs)))"
proof (induction cs arbitrary: ns s out)
  case (Cons c cs)
  have c: "c \<in> set charset" using Cons.prems by simp
  obtain ns' root where b: "d_build_huffman (\<lambda>i. d_compute_score i s) ns heap0 = Inr (ns', root)" "length ns' = HUFF_MAX_NODES"
    "d_get_code ns' root (d_char_to_idx c) = Some (Inr (char_code s c))"
    by (rule build_and_code [OF Cons.prems(2) assms c])
  have len: "length (char_code s c) \<le> 22" by (rule char_code_ok [OF c])
  then have "encode_loop heap0 max_out (c # cs) ns s out =
      encode_loop heap0 max_out cs ns' (next_seed s c) (out @ bit_chars (char_code s c))"
    using b Cons.prems(3) by (simp add: emit_loop_ok d_update_seed_ok)
  also have "\<dots> = Some (Inr (Some ((out @ bit_chars (char_code s c)) @ score_encode (next_seed s c) cs)))"
    by (rule Cons.IH) (use Cons.prems b(2) len in auto)
  finally show ?case by simp
qed simp

lemma length_score_encode: "set cs \<subseteq> set charset \<Longrightarrow> length (score_encode s cs) \<le> 22 * length cs"
proof (induction cs arbitrary: s)
  case (Cons c cs)
  then have "length (char_code s c) \<le> 22" "length (score_encode (next_seed s c) cs) \<le> 22 * length cs" using char_code_ok(3) by simp_all
  then show ?case by simp
qed simp

lemma score_encode_charset: "set (score_encode s cs) \<subseteq> set charset"
proof -
  have "CHR ''0'' \<in> set charset" "CHR ''1'' \<in> set charset" by (simp_all add: charset_def)
  then have "set (bit_chars bs) \<subseteq> set charset" for bs by (auto simp: bit_chars_def)
  then show ?thesis by (induction cs arbitrary: s) simp_all
qed

lemma d_score_tree_encode_ok:
  assumes "length heap0 = HUFF_MAX_NODES" "length nodes0 = HUFF_MAX_NODES" "set text \<subseteq> set charset" "22 * length text \<le> max_out"
  shows "d_score_tree_encode heap0 nodes0 text key r max_out = Some (Inr (Some (score_encode (start_seed key r) text)))"
  using encode_loop_ok [OF assms(1,3,2), of "[]" max_out] assms(4) by (simp add: d_score_tree_encode_def start_seed_def)

subsection \<open>The two rounds\<close>

lemma d_poker_substitute_eq:
  assumes "set text \<subseteq> set charset" "length text \<le> cap"
  shows "d_poker_substitute cap text sm r = Inr (substituted sm r text)"
proof -
  have "d_poker_substitute cap text sm r =
      poker_loop cap (deck (d_xor32 sm (0x1111 * of_nat r))) (deck (d_xor32 sm (0x2222 * of_nat r))) (int (unat (sm mod 36))) text []"
    unfolding d_poker_substitute_def d_fisher_yates_deck bindc_simps ..
  also have "\<dots> = Inr (substituted sm r text)"
    using poker_loop_ok [OF is_deck_deck is_deck_deck assms(1), of "[]" cap] assms(2)
    unfolding substituted_def by (simp only: list.size append_Nil add_0)
  finally show ?thesis .
qed

lemma length_substituted [simp]: "length (substituted sm r text) = length text"
  by (simp add: substituted_def)

lemma substituted_charset: "set (substituted sm r text) \<subseteq> set charset"
  unfolding substituted_def by (intro poker_charset is_deck_deck)

lemma permuted_charset: "set inp \<subseteq> set charset \<Longrightarrow> set (permuted inp sm r) \<subseteq> set charset"
  using permuted_mset mset_eq_setD by blast

lemma round_input_charset: "set (permuted (substituted sm r text) sm r) \<subseteq> set charset"
  by (intro permuted_charset substituted_charset)

lemma length_cipher_round: "length (cipher_round key r text) \<le> 22 * length text"
  using length_score_encode [OF round_input_charset] by (fastforce simp: cipher_round_def Let_def)

lemma cipher_round_charset: "set (cipher_round key r text) \<subseteq> set charset"
  by (simp add: cipher_round_def Let_def score_encode_charset)

lemma round_ok:
  assumes "length heap0 = HUFF_MAX_NODES" "length nodes0 = HUFF_MAX_NODES"
    and "set text \<subseteq> set charset" "length text \<le> arr" "length text \<le> cap" "22 * length text \<le> max_out"
  shows "bindr (Some (d_poker_substitute cap text (d_key_to_seed key) r)) (\<lambda>buf_a.
    bindr (Some (d_permute arr cap buf_a (d_key_to_seed key) r)) (\<lambda>buf_b.
    bindr (d_score_tree_encode heap0 nodes0 buf_b key r max_out) f)) = f (Some (cipher_round key r text))"
  using assms round_input_charset
  by (simp add: d_poker_substitute_eq d_permute_ok d_score_tree_encode_ok cipher_round_def Let_def)

lemma compare_loop_ok:
  "\<forall>i \<in> set is. i < length bits \<and> i < length target \<Longrightarrow>
   compare_loop bits target is = Inr (\<forall>i \<in> set is. bits ! i = target ! i)"
  by (induction "is") auto

text \<open>
  The test of one key does what the cipher says, without leaving an array and whatever the uninitialised arrays hold: the
  codes have at most 22 bits, so that the first round gives at most 88 characters and the second at most 1936.
\<close>

lemma d_encrypt_matches_ok:
  assumes "length heap0 = HUFF_MAX_NODES" "length nodes0 = HUFF_MAX_NODES" "TARGET_LEN \<le> length target"
  shows "d_encrypt_matches target heap0 nodes0 key = Some (Inr (score_cipher key d_plain = take TARGET_LEN target))"
proof -
  let ?b1 = "cipher_round key 1 d_plain" and ?b2 = "score_cipher key d_plain"
  have plain: "set d_plain \<subseteq> set charset" "length d_plain = 4" by (simp_all add: d_plain_def charset_def)
  have b1: "set ?b1 \<subseteq> set charset" "length ?b1 \<le> 88"
    using cipher_round_charset length_cipher_round [of key 1 d_plain] plain(2) by auto
  note first = round_ok [OF assms(1,2) plain(1), of PLAIN_LEN BUF_SIZE BUF_SIZE key 1]
    and second = round_ok [OF assms(1,2) b1(1), of BUF_SIZE BUF_SIZE "BUF_SIZE * 8" key 2]
  have fits: "length d_plain \<le> PLAIN_LEN" "length d_plain \<le> BUF_SIZE" "22 * length d_plain \<le> BUF_SIZE"
    "length ?b1 \<le> BUF_SIZE" "22 * length ?b1 \<le> BUF_SIZE * 8"
    using plain(2) b1(2) by (simp_all add: PLAIN_LEN_def BUF_SIZE_def)
  have "d_encrypt_matches target heap0 nodes0 key =
      (if length ?b2 \<noteq> TARGET_LEN then Some (Inr False) else Some (compare_loop ?b2 target [0..<TARGET_LEN]))"
    unfolding d_encrypt_matches_def Let_def first [OF fits(1-3)] option.case second [OF fits(4,4,5)] score_cipher_def ..
  also have "\<dots> = Some (Inr (?b2 = take TARGET_LEN target))"
    using assms(3) compare_loop_ok [of "[0..<TARGET_LEN]" ?b2 target] by (auto simp: list_eq_iff_nth_eq)
  finally show ?thesis .
qed

subsection \<open>Decoding\<close>

lemma bit_chars_append_eq: "bit_chars bs @ xs = bit_chars cs @ ys \<Longrightarrow> \<exists>us vs. bs @ us = cs @ vs"
proof (induction bs arbitrary: cs)
  case (Cons b bs)
  show ?case
  proof (cases cs)
    case (Cons c cs')
    then have "b = c" "bit_chars bs @ xs = bit_chars cs' @ ys" using Cons.prems by (auto simp: bit_chars_def split: if_splits)
    with Cons.IH \<open>cs = c # cs'\<close> show ?thesis by auto
  qed auto
qed auto

lemma score_encode_inj:
  "set xs \<subseteq> set charset \<Longrightarrow> set ys \<subseteq> set charset \<Longrightarrow> score_encode s xs = score_encode s ys \<Longrightarrow> xs = ys"
proof (induction xs arbitrary: ys s)
  case Nil
  then show ?case using char_code_ok(2) by (cases ys) (auto simp: bit_chars_def)
next
  case (Cons x xs)
  have x: "x \<in> set charset" using Cons.prems by simp
  obtain y ys' where ys: "ys = y # ys'" using Cons.prems(3) char_code_ok(2) [OF x, of s] by (cases ys) (auto simp: bit_chars_def)
  have y: "y \<in> set charset" using Cons.prems ys by simp
  have eq: "bit_chars (char_code s x) @ score_encode (next_seed s x) xs = bit_chars (char_code s y) @ score_encode (next_seed s y) ys'"
    using Cons.prems(3) ys by simp
  then obtain us vs where "char_code s x @ us = char_code s y @ vs" using bit_chars_append_eq by blast
  then have "idx_of x = idx_of y" by (rule code_prefix_free [OF char_code_ok(1) [OF x] char_code_ok(1) [OF y]])
  then have "x = y" by (rule idx_of_inj [OF x y])
  with eq Cons.IH [of ys' "next_seed s x"] Cons.prems ys show ?case by simp
qed

lemma cipher_round_inj:
  assumes "set xs \<subseteq> set charset" "set ys \<subseteq> set charset" "cipher_round key r xs = cipher_round key r ys"
  shows "xs = ys"
proof -
  let ?sm = "d_key_to_seed key"
  have p: "permuted (substituted ?sm r xs) ?sm r = permuted (substituted ?sm r ys) ?sm r"
    by (rule score_encode_inj [OF round_input_charset round_input_charset]) (use assms(3) in \<open>simp add: cipher_round_def Let_def\<close>)
  have "length (substituted ?sm r xs) = length (substituted ?sm r ys)" using p by (metis length_permuted)
  then have "substituted ?sm r xs = substituted ?sm r ys" using p by (rule permuted_inj)
  then show ?thesis unfolding substituted_def by (rule poker_inj [OF is_deck_deck is_deck_deck]) (use assms in auto)
qed

text \<open>
  C27: the code of a character.  For every seed, whatever the uninitialised arrays hold, \<open>d_build_huffman\<close> and \<open>d_get_code\<close> stay inside their
  arrays and return the code of the character in the tree of the Huffman algorithm for the 36 scores; the code has at least one and
  at most 22 bits, less than \<open>CODE_MAX_LEN\<close>.
\<close>

theorem gpu_code_correct:
  assumes "length ns = HUFF_MAX_NODES" "length heap0 = HUFF_MAX_NODES" "c \<in> set charset"
  shows "\<exists>ns' root bs. d_build_huffman (\<lambda>i. d_compute_score i s) ns heap0 = Inr (ns', root) \<and>
    d_get_code ns' root (d_char_to_idx c) = Some (Inr bs) \<and>
    code (score_tree (score_of (seed_val s))) (idx_of c) = Some bs \<and> 1 \<le> length bs \<and> length bs \<le> 22"
proof -
  obtain ns' root where "d_build_huffman (\<lambda>i. d_compute_score i s) ns heap0 = Inr (ns', root)"
    "d_get_code ns' root (d_char_to_idx c) = Some (Inr (char_code s c))"
    using build_and_code [OF assms] by metis
  with char_code_ok [OF assms(3), of s] show ?thesis by (fastforce simp: Suc_le_eq)
qed

theorem gpu_code_correct_witness:
  "\<exists>ns' root bs. d_build_huffman (\<lambda>i. d_compute_score i \<lparr>hi = 0, lo = 230\<rparr>)
      (replicate 128 \<lparr>n_score = 9, n_order = 9, n_ch = 9, n_left = 9, n_right = 9\<rparr>) (replicate 128 \<lparr>e_score = 9, e_order = 9, e_node = 9\<rparr>) =
      Inr (ns', root) \<and>
    d_get_code ns' root (d_char_to_idx CHR ''b'') = Some (Inr bs) \<and> 1 \<le> length bs \<and> length bs \<le> 22"
proof -
  have "CHR ''b'' \<in> set charset" by (simp add: charset_def)
  from gpu_code_correct [of "replicate 128 \<lparr>n_score = 9, n_order = 9, n_ch = 9, n_left = 9, n_right = 9\<rparr>"
      "replicate 128 \<lparr>e_score = 9, e_order = 9, e_node = 9\<rparr>", OF _ _ this, of "\<lparr>hi = 0, lo = 230\<rparr>"]
  show ?thesis by (simp only: length_replicate HUFF_MAX_NODES_def simp_thms) blast
qed

text \<open>
  The test of a key.  Whatever the uninitialised arrays hold, \<open>d_encrypt_matches\<close> ends without leaving an array, neither
  buffer is ever too small, and it returns whether the two rounds of the cipher turn the plain text into the first 119 bits of the target.
\<close>

theorem encrypt_matches_correct:
  assumes "length heap0 = HUFF_MAX_NODES" "length nodes0 = HUFF_MAX_NODES" "TARGET_LEN \<le> length target"
  shows "d_encrypt_matches target heap0 nodes0 key = Some (Inr (score_cipher key d_plain = take TARGET_LEN target))"
  by (rule d_encrypt_matches_ok [OF assms])

theorem encrypt_matches_correct_witness:
  "d_encrypt_matches (replicate 120 CHR ''1'') (replicate 128 \<lparr>e_score = 9, e_order = 9, e_node = 9\<rparr>)
     (replicate 128 \<lparr>n_score = 9, n_order = 9, n_ch = 9, n_left = 9, n_right = 9\<rparr>) ''ab'' =
   Some (Inr (score_cipher ''ab'' d_plain = replicate 119 CHR ''1''))"
  using encrypt_matches_correct [of "replicate 128 \<lparr>e_score = 9, e_order = 9, e_node = 9\<rparr>"
      "replicate 128 \<lparr>n_score = 9, n_order = 9, n_ch = 9, n_left = 9, n_right = 9\<rparr>" "replicate 120 CHR ''1''" "''ab''"]
  by (simp add: HUFF_MAX_NODES_def TARGET_LEN_def del: replicate.simps)



end
