(* ===== verification/Score_Search.thy ===== *)
theory Score_Search
  imports Score_Encrypt Cuda_Launch
begin

section \<open>The key search of \<open>brute_force_gpu.cu\<close>\<close>

text \<open>
  \<open>brute_force_kernel\<close>, \<open>decode_key\<close> and \<open>main\<close>.  One thread tests one key; a thread that succeeds sets the flag by \<open>atomicCAS\<close>, and
  the one that found it clear stores its index.  The threads interleave in any way.
\<close>

definition TOTAL_KEYS :: nat where "TOTAL_KEYS = 1727604"

definition THREADS :: nat where "THREADS = 256"

definition blocks :: nat where "blocks = (TOTAL_KEYS + THREADS - 1) div THREADS"

text \<open>The key of a thread.\<close>

definition kernel_key :: "nat \<Rightarrow> string c" where
  "kernel_key idx =
     (let L1 = 36; L2 = 36 * 36; L3 = 36 * 36 * 36
      in if idx < L1 then seqc [ld d_charset idx]
         else if idx < L1 + L2
         then let i = idx - L1 in seqc [ld d_charset (i div 36), ld d_charset (i mod 36)]
         else if idx < L1 + L2 + L3
         then let i = idx - (L1 + L2)
              in seqc [ld d_charset (i div (36 * 36)), ld d_charset (i div 36 mod 36), ld d_charset (i mod 36)]
         else let i = idx - (L1 + L2 + L3)
              in seqc [ld d_charset (i div (36 * 36 * 36)), ld d_charset (i div (36 * 36) mod 36),
                       ld d_charset (i div 36 mod 36), ld d_charset (i mod 36)])"

definition decode_key :: "nat \<Rightarrow> string c" where
  "decode_key idx =
     (let L1 = 36; L2 = 36 * 36; L3 = 36 * 36 * 36; chars = charset @ [NUL]
      in if idx < L1 then seqc [ld chars idx]
         else if idx < L1 + L2
         then let idx = idx - L1 in seqc [ld chars (idx div 36), ld chars (idx mod 36)]
         else if idx < L1 + L2 + L3
         then let idx = idx - (L1 + L2)
              in seqc [ld chars (idx div (36 * 36)), ld chars (idx div 36 mod 36), ld chars (idx mod 36)]
         else let idx = idx - (L1 + L2 + L3)
              in seqc [ld chars (idx div (36 * 36 * 36)), ld chars (idx div (36 * 36) mod 36),
                       ld chars (idx div 36 mod 36), ld chars (idx mod 36)])"

datatype kernel_pc = Test | Store | Exit | Fault c_error

record kernel_mem =
  found_flag :: nat
  found_key_idx :: nat
  kpc :: "nat \<Rightarrow> kernel_pc"

definition goto :: "nat \<Rightarrow> kernel_pc \<Rightarrow> kernel_mem \<Rightarrow> kernel_mem" where
  "goto t p s = s\<lparr>kpc := (kpc s)(t := p)\<rparr>"

text \<open>
  A step of thread \<open>t\<close> of \<open>n\<close>: the test of its key with the \<open>atomicCAS\<close>, or the store of the thread that won.  A
  test that does not return keeps the thread from making a step.
\<close>

definition brute_force_kernel :: "string \<Rightarrow> HeapElem list \<Rightarrow> HuffNode list \<Rightarrow> nat \<Rightarrow> nat \<Rightarrow> kernel_mem \<Rightarrow> kernel_mem option" where
  "brute_force_kernel target heap0 nodes0 n t s =
     (if n \<le> t then None
      else case kpc s t of
        Test \<Rightarrow>
          if TOTAL_KEYS \<le> t then Some (goto t Exit s)
          else (case bindr (Some (kernel_key t)) (d_encrypt_matches target heap0 nodes0) of
                  None \<Rightarrow> None
                | Some (Inl e) \<Rightarrow> Some (goto t (Fault e) s)
                | Some (Inr b) \<Rightarrow>
                    Some (if b then if found_flag s = 0 then goto t Store (s\<lparr>found_flag := 1\<rparr>) else goto t Exit s
                          else goto t Exit s))
      | Store \<Rightarrow> Some (goto t Exit (s\<lparr>found_key_idx := t\<rparr>))
      | Exit \<Rightarrow> None
      | Fault e \<Rightarrow> None)"

definition kernel_start :: kernel_mem where
  "kernel_start = \<lparr>found_flag = 0, found_key_idx = 0, kpc = (\<lambda>_. Test)\<rparr>"

datatype search_line = Key_found string | No_key

definition search_report :: "kernel_mem \<Rightarrow> search_line c" where
  "search_report s =
     (if found_flag s \<noteq> 0 then bindc (decode_key (found_key_idx s)) (\<lambda>key. Inr (Key_found key)) else Inr No_key)"

text \<open>\<open>main\<close>: the launch, the wait for all threads, the report.\<close>

definition search_main :: "string \<Rightarrow> HeapElem list \<Rightarrow> HuffNode list \<Rightarrow> search_line c \<Rightarrow> bool" where
  "search_main target heap0 nodes0 r \<longleftrightarrow>
     (\<exists>as s. run (brute_force_kernel target heap0 nodes0 (blocks * THREADS)) as kernel_start = Some s \<and>
        stuck (brute_force_kernel target heap0 nodes0 (blocks * THREADS)) s \<and> r = search_report s)"

subsection \<open>Indices and keys\<close>

definition valid_key :: "string \<Rightarrow> bool" where
  "valid_key k \<longleftrightarrow> 1 \<le> length k \<and> length k \<le> 4 \<and> set k \<subseteq> set charset"

definition key_index :: "string \<Rightarrow> nat" where
  "key_index k = sum_list (map (\<lambda>i. 36 ^ i) [1..<length k]) + foldl (\<lambda>n c. n * 36 + idx_of c) 0 k"

lemma ld_charset: "i < 36 \<Longrightarrow> ld d_charset i = Inr (charset ! i)"
  by (simp add: d_charset_def ld_def)

lemma idx_of_nth: "i < 36 \<Longrightarrow> idx_of (charset ! i) = i"
  by (metis charset_index charset_nth_eq idx_of_def idx_of_less CHARSET_LEN_def length_charset nth_mem)

lemma decode_key_eq: "decode_key = kernel_key"
  by (rule ext) (simp only: decode_key_def kernel_key_def d_charset_def Let_def)

lemma key_index_simps:
  "key_index [a] = idx_of a"
  "key_index [a, b] = 36 + (idx_of a * 36 + idx_of b)"
  "key_index [a, b, c] = 1332 + ((idx_of a * 36 + idx_of b) * 36 + idx_of c)"
  "key_index [a, b, c, d] = 47988 + (((idx_of a * 36 + idx_of b) * 36 + idx_of c) * 36 + idx_of d)"
  by (simp_all add: key_index_def upt_rec)

lemma valid_key_cases:
  assumes "valid_key k"
  obtains a where "k = [a]" "a \<in> set charset"
  | a b where "k = [a, b]" "a \<in> set charset" "b \<in> set charset"
  | a b c where "k = [a, b, c]" "a \<in> set charset" "b \<in> set charset" "c \<in> set charset"
  | a b c d where "k = [a, b, c, d]" "a \<in> set charset" "b \<in> set charset" "c \<in> set charset" "d \<in> set charset"
proof -
  have "length k = 1 \<or> length k = 2 \<or> length k = 3 \<or> length k = 4" using assms unfolding valid_key_def by linarith
  then show ?thesis using assms that unfolding valid_key_def by (auto simp: length_Suc_conv numeral_eq_Suc)
qed

text \<open>The four ranges of indices.\<close>

lemma kernel_key_ranges:
  "i < 36 \<Longrightarrow> kernel_key i = Inr [charset ! i]"
  "i < 1296 \<Longrightarrow> kernel_key (36 + i) = Inr [charset ! (i div 36), charset ! (i mod 36)]"
  "i < 46656 \<Longrightarrow> kernel_key (1332 + i) = Inr [charset ! (i div 1296), charset ! (i div 36 mod 36), charset ! (i mod 36)]"
  "i < 1679616 \<Longrightarrow> kernel_key (47988 + i) =
     Inr [charset ! (i div 46656), charset ! (i div 1296 mod 36), charset ! (i div 36 mod 36), charset ! (i mod 36)]"
  by (simp_all add: kernel_key_def ld_charset Let_def)

lemma index_ranges:
  assumes "idx < TOTAL_KEYS"
  obtains "idx < 36" | i where "idx = 36 + i" "i < 1296" | i where "idx = 1332 + i" "i < 46656" | i where "idx = 47988 + i" "i < 1679616"
proof -
  consider "idx < 36" | "36 \<le> idx" "idx < 1332" | "1332 \<le> idx" "idx < 47988" | "47988 \<le> idx" by linarith
  then show ?thesis
  proof cases
    case 2
    then show ?thesis using that(2) [of "idx - 36"] by linarith
  next
    case 3
    then show ?thesis using that(3) [of "idx - 1332"] by linarith
  next
    case 4
    then show ?thesis using that(4) [of "idx - 47988"] assms by (simp add: TOTAL_KEYS_def)
  qed (rule that(1))
qed

lemma digits_36:
  fixes a b c d :: nat
  shows "b < 36 \<Longrightarrow> (a * 36 + b) div 36 = a" "b < 36 \<Longrightarrow> (a * 36 + b) mod 36 = b"
    and "b < 36 \<Longrightarrow> c < 36 \<Longrightarrow> ((a * 36 + b) * 36 + c) div 1296 = a"
    and "b < 36 \<Longrightarrow> c < 36 \<Longrightarrow> d < 36 \<Longrightarrow> (((a * 36 + b) * 36 + c) * 36 + d) div 46656 = a"
  by auto

lemma digits_less:
  fixes a b n :: nat
  assumes "a < n" "b < 36"
  shows "a * 36 + b < n * 36"
  using assms by linarith

lemma idx_char: "c \<in> set charset \<Longrightarrow> idx_of c < 36" "c \<in> set charset \<Longrightarrow> charset ! idx_of c = c"
  using charset_index [of c] idx_of_less [of c] by (simp_all add: idx_of_def CHARSET_LEN_def)

lemma kernel_key_index:
  assumes "valid_key k"
  shows "kernel_key (key_index k) = Inr k \<and> key_index k < TOTAL_KEYS"
  using assms
proof (cases rule: valid_key_cases)
  case (1 a)
  then show ?thesis using idx_char [of a] by (simp add: key_index_simps kernel_key_ranges TOTAL_KEYS_def)
next
  case (2 a b)
  have "idx_of a * 36 + idx_of b < 36 * 36" using 2 by (intro digits_less idx_char)
  with 2 show ?thesis unfolding 2(1) key_index_simps by (simp add: kernel_key_ranges TOTAL_KEYS_def digits_36 idx_char)
next
  case (3 a b c)
  let ?i = "(idx_of a * 36 + idx_of b) * 36 + idx_of c"
  have i: "?i < 36 * 36 * 36" using 3 by (intro digits_less idx_char)
  then have "kernel_key (1332 + ?i) = Inr [charset ! (?i div 1296), charset ! (?i div 36 mod 36), charset ! (?i mod 36)]"
    by (intro kernel_key_ranges) simp
  also have "\<dots> = Inr k" using 3 by (simp only: digits_36 idx_char)
  finally show ?thesis using i unfolding 3(1) key_index_simps by (simp add: TOTAL_KEYS_def)
next
  case (4 a b c d)
  let ?i = "((idx_of a * 36 + idx_of b) * 36 + idx_of c) * 36 + idx_of d"
  have i: "?i < 36 * 36 * 36 * 36" using 4 by (intro digits_less idx_char)
  then have "kernel_key (47988 + ?i) =
      Inr [charset ! (?i div 46656), charset ! (?i div 1296 mod 36), charset ! (?i div 36 mod 36), charset ! (?i mod 36)]"
    by (intro kernel_key_ranges) simp
  also have "\<dots> = Inr k" using 4 by (simp only: digits_36 idx_char)
  finally show ?thesis using i unfolding 4(1) key_index_simps by (simp add: TOTAL_KEYS_def)
qed

lemma kernel_key_valid:
  assumes "idx < TOTAL_KEYS"
  shows "\<exists>k. kernel_key idx = Inr k \<and> valid_key k \<and> key_index k = idx"
  using assms
proof (cases rule: index_ranges)
  case 1
  then show ?thesis by (simp add: kernel_key_ranges valid_key_def key_index_simps idx_of_nth)
next
  case (2 i)
  then have "i div 36 < 36" by (simp add: less_mult_imp_div_less)
  with 2 show ?thesis by (simp add: kernel_key_ranges valid_key_def key_index_simps idx_of_nth)
next
  case (3 i)
  then have "i div 1296 < 36" by (simp add: less_mult_imp_div_less)
  moreover have "(i div 1296 * 36 + i div 36 mod 36) * 36 + i mod 36 = i" using div_mult_mod_eq [of "i div 36" 36] div_mult_mod_eq [of i 36]
    by (simp add: div_mult2_eq [symmetric])
  ultimately show ?thesis unfolding 3(1) kernel_key_ranges(3) [OF 3(2)] by (simp add: valid_key_def key_index_simps idx_of_nth)
next
  case (4 i)
  then have "i div 46656 < 36" by (simp add: less_mult_imp_div_less)
  moreover have "((i div 46656 * 36 + i div 1296 mod 36) * 36 + i div 36 mod 36) * 36 + i mod 36 = i"
    using div_mult_mod_eq [of "i div 1296" 36] div_mult_mod_eq [of "i div 36" 36] div_mult_mod_eq [of i 36]
    by (simp add: div_mult2_eq [symmetric])
  ultimately show ?thesis unfolding 4(1) kernel_key_ranges(4) [OF 4(2)] by (simp add: valid_key_def key_index_simps idx_of_nth)
qed

subsection \<open>The race for the flag\<close>

text \<open>The kernel for a test that always returns: \<open>hit t\<close> tells whether thread \<open>t\<close> succeeds.\<close>

definition race_step :: "(nat \<Rightarrow> bool) \<Rightarrow> nat \<Rightarrow> nat \<Rightarrow> kernel_mem \<Rightarrow> kernel_mem option" where
  "race_step hit n t s =
     (if n \<le> t then None
      else case kpc s t of
        Test \<Rightarrow> Some (if hit t \<and> found_flag s = 0 then goto t Store (s\<lparr>found_flag := 1\<rparr>) else goto t Exit s)
      | Store \<Rightarrow> Some (goto t Exit (s\<lparr>found_key_idx := t\<rparr>))
      | _ \<Rightarrow> None)"

definition race_inv :: "(nat \<Rightarrow> bool) \<Rightarrow> nat \<Rightarrow> kernel_mem \<Rightarrow> bool" where
  "race_inv hit n s \<longleftrightarrow>
     (\<forall>t. kpc s t \<in> {Test, Store, Exit}) \<and>
     (if found_flag s = 0 then \<forall>t. kpc s t \<noteq> Store \<and> (kpc s t = Exit \<longrightarrow> \<not> hit t)
      else \<exists>w < n. hit w \<and> (\<forall>t. kpc s t = Store \<longrightarrow> t = w) \<and> (kpc s w = Store \<or> kpc s w = Exit \<and> found_key_idx s = w))"

fun pc_left :: "kernel_pc \<Rightarrow> nat" where
  "pc_left Test = 2" | "pc_left Store = 1" | "pc_left Exit = 0" | "pc_left (Fault e) = 0"

definition race_left :: "nat \<Rightarrow> kernel_mem \<Rightarrow> nat" where
  "race_left n s = (\<Sum>t < n. pc_left (kpc s t))"

definition race_final :: "nat \<Rightarrow> kernel_mem \<Rightarrow> bool" where
  "race_final n s \<longleftrightarrow> (\<forall>t < n. kpc s t = Exit)"

lemma goto_simps [simp]:
  "kpc (goto t p s) = (kpc s)(t := p)" "found_flag (goto t p s) = found_flag s" "found_key_idx (goto t p s) = found_key_idx s"
  by (simp_all add: goto_def)

lemma race_step_cases:
  assumes "race_step hit n t s = Some s'"
  obtains (win) "t < n" "kpc s t = Test" "hit t" "found_flag s = 0" "s' = goto t Store (s\<lparr>found_flag := 1\<rparr>)"
  | (pass) "t < n" "kpc s t = Test" "hit t \<longrightarrow> found_flag s \<noteq> 0" "s' = goto t Exit s"
  | (store) "t < n" "kpc s t = Store" "s' = goto t Exit (s\<lparr>found_key_idx := t\<rparr>)"
  using assms by (auto simp: race_step_def split: if_splits kernel_pc.splits)

lemma race_inv_step:
  assumes "race_inv hit n s" "race_step hit n t s = Some s'"
  shows "race_inv hit n s'"
  using assms(2)
proof (cases rule: race_step_cases)
  case win
  with assms(1) show ?thesis by (auto simp: race_inv_def)
next
  case pass
  show ?thesis
  proof (cases "found_flag s = 0")
    case True
    with pass assms(1) show ?thesis by (simp add: race_inv_def) blast
  next
    case False
    then obtain w where w: "w < n" "hit w" "\<forall>t. kpc s t = Store \<longrightarrow> t = w" "kpc s w = Store \<or> kpc s w = Exit \<and> found_key_idx s = w"
      using assms(1) by (auto simp: race_inv_def)
    have "w \<noteq> t" using w(4) pass(2) by (metis kernel_pc.distinct(1,3))
    have "\<forall>u. kpc s' u \<in> {Test, Store, Exit}" using assms(1) unfolding pass(4) race_inv_def by simp
    moreover have "hit w \<and> (\<forall>u. kpc s' u = Store \<longrightarrow> u = w) \<and> (kpc s' w = Store \<or> kpc s' w = Exit \<and> found_key_idx s' = w)"
      using w \<open>w \<noteq> t\<close> unfolding pass(4) by simp
    moreover have "found_flag s' \<noteq> 0" using False pass(4) by simp
    ultimately show ?thesis using w(1) unfolding race_inv_def by (simp only: if_False) blast
  qed
next
  case store
  with assms(1) have "found_flag s \<noteq> 0" by (auto simp: race_inv_def split: if_splits)
  with store assms(1) show ?thesis by (auto simp: race_inv_def)
qed

lemma race_left_step:
  assumes "race_step hit n t s = Some s'"
  shows "race_left n s' < race_left n s"
proof -
  have "t < n" "\<forall>u. pc_left (kpc s' u) \<le> pc_left (kpc s u)" "pc_left (kpc s' t) < pc_left (kpc s t)"
    using assms by (cases rule: race_step_cases; simp)+
  then show ?thesis unfolding race_left_def by (intro sum_strict_mono_ex1) auto
qed

lemma race_progress: "race_inv hit n s \<Longrightarrow> \<not> race_final n s \<Longrightarrow> \<exists>t s'. race_step hit n t s = Some s'"
proof -
  assume "race_inv hit n s" "\<not> race_final n s"
  then obtain t where "t < n" "kpc s t = Test \<or> kpc s t = Store" by (fastforce simp: race_inv_def race_final_def)
  then have "\<exists>s'. race_step hit n t s = Some s'" by (auto simp: race_step_def)
  then show ?thesis by blast
qed

interpretation race: terminating_system "race_step hit n" kernel_start "race_inv hit n" "race_left n" "race_final n" for hit n
proof
  show "race_inv hit n kernel_start" by (simp add: race_inv_def kernel_start_def)
qed (auto intro: race_inv_step race_left_step race_progress)

lemma race_outcome:
  assumes "run (race_step hit n) as kernel_start = Some s" "stuck (race_step hit n) s"
  shows "if \<exists>t < n. hit t then found_flag s \<noteq> 0 \<and> found_key_idx s < n \<and> hit (found_key_idx s) else found_flag s = 0"
proof -
  have inv: "race_inv hit n s" by (rule race.run_inv [OF assms(1)])
  have "race_final n s" by (rule race.stuck_final [OF inv assms(2)])
  then have fin: "kpc s t = Exit" if "t < n" for t using that by (simp add: race_final_def)
  show ?thesis
  proof (cases "found_flag s = 0")
    case True
    then have "\<not> hit t" if "t < n" for t using inv fin [OF that] by (simp add: race_inv_def)
    with True show ?thesis by auto
  next
    case False
    then obtain w where "w < n" "hit w" "kpc s w = Store \<or> kpc s w = Exit \<and> found_key_idx s = w" using inv by (auto simp: race_inv_def)
    with False fin [of w] show ?thesis by auto
  qed
qed

text \<open>The kernel is the race in which a thread succeeds when its key encrypts the text to the target.\<close>

definition key_hit :: "string \<Rightarrow> nat \<Rightarrow> bool" where
  "key_hit target t \<longleftrightarrow> t < TOTAL_KEYS \<and> (\<exists>k. kernel_key t = Inr k \<and> score_cipher k d_plain = take TARGET_LEN target)"

lemma kernel_is_race:
  assumes "length heap0 = HUFF_MAX_NODES" "length nodes0 = HUFF_MAX_NODES" "TARGET_LEN \<le> length target"
  shows "brute_force_kernel target heap0 nodes0 n = race_step (key_hit target) n"
proof (intro ext)
  fix t s
  show "brute_force_kernel target heap0 nodes0 n t s = race_step (key_hit target) n t s"
  proof (cases "t < TOTAL_KEYS")
    case True
    then obtain k where k: "kernel_key t = Inr k" using kernel_key_valid by blast
    have "bindr (Some (kernel_key t)) (d_encrypt_matches target heap0 nodes0) = Some (Inr (key_hit target t))"
      using k True by (simp add: d_encrypt_matches_ok [OF assms] key_hit_def)
    with True show ?thesis by (simp add: brute_force_kernel_def race_step_def split: kernel_pc.splits)
  next
    case False
    then show ?thesis by (simp add: brute_force_kernel_def race_step_def key_hit_def split: kernel_pc.splits)
  qed
qed

lemma key_hit_iff: "(\<exists>t < blocks * THREADS. key_hit target t) \<longleftrightarrow> (\<exists>k. valid_key k \<and> score_cipher k d_plain = take TARGET_LEN target)"
proof
  assume "\<exists>t < blocks * THREADS. key_hit target t"
  then show "\<exists>k. valid_key k \<and> score_cipher k d_plain = take TARGET_LEN target"
    using kernel_key_valid unfolding key_hit_def by (metis sum.inject(2))
next
  assume "\<exists>k. valid_key k \<and> score_cipher k d_plain = take TARGET_LEN target"
  then obtain k where k: "valid_key k" "score_cipher k d_plain = take TARGET_LEN target" by blast
  have "TOTAL_KEYS \<le> blocks * THREADS" by (simp add: blocks_def THREADS_def TOTAL_KEYS_def)
  with kernel_key_index [OF k(1)] k(2) have "key_index k < blocks * THREADS" "key_hit target (key_index k)" by (auto simp: key_hit_def)
  then show "\<exists>t < blocks * THREADS. key_hit target t" by blast
qed

text \<open>
  C31: the indices and the keys.  The kernel's decoding maps the \<open>TOTAL_KEYS\<close> indices one to one onto the keys of one to four characters, and
  the host's \<open>decode_key\<close> is the same function.
\<close>

theorem key_decode_bijective:
  "bij_betw (\<lambda>idx. projr (kernel_key idx)) {..<TOTAL_KEYS} {k. valid_key k} \<and> decode_key = kernel_key"
proof
  show "bij_betw (\<lambda>idx. projr (kernel_key idx)) {..<TOTAL_KEYS} {k. valid_key k}"
    by (rule bij_betw_byWitness [where f' = key_index]) (use kernel_key_valid kernel_key_index in \<open>fastforce+\<close>)
qed (rule decode_key_eq)



end
