(* ===== verification/Inc_Dec.thy ===== *)
theory Inc_Dec
  imports Thread_Program C_Runtime
begin

section \<open>The shared count: \<open>inc_dec*.c\<close> and \<open>dotprod_mutex.c\<close>\<close>

text \<open>
  Two threads of \<open>src/Pthread\<close> that run for ever: \<open>decrement_count\<close> (thread 0) takes one from the
  \<open>unsigned count\<close> when there is one, \<open>increment_count\<close> (thread 1) adds one.  The programs differ in
  what the decrementing thread does when the count is 0 (wait for \<open>count_nonzero\<close> in a loop, say
  so, or say so and wait once), in whether the incrementing thread signals, and in what they
  print; the record \<open>id_config\<close> says which.  A waiting thread may also wake up spuriously, as POSIX
  allows (action \<open>Spurious\<close>).  \<open>added\<close> and \<open>taken\<close> count the increments and decrements done.
\<close>

datatype when_zero = WaitLoop | Say string | SayWait string

record id_config =
  on_zero :: when_zero
  signals :: bool
  dec_line :: "32 word \<Rightarrow> string list"
  inc_line :: "32 word \<Rightarrow> string list"

datatype d_pc = DLock | DTest | DSay | DWait | DWaiting | DTake | DPrint | DUnlock
datatype i_pc = ILock | ITest | ISignal | IAdd | IPrint | IUnlock

record id_state =
  count_lock :: mutex
  count_nonzero :: cond
  count :: "32 word"
  d_at :: d_pc
  i_at :: i_pc
  out :: "string list"
  added :: nat
  taken :: nat

definition say_zero :: "when_zero \<Rightarrow> string list" where
  "say_zero z = (case z of WaitLoop \<Rightarrow> [] | Say m \<Rightarrow> [m] | SayWait m \<Rightarrow> [m])"

definition decrement_count :: "id_config \<Rightarrow> id_state \<Rightarrow> id_state option" where
  "decrement_count c s =
     (case d_at s of
        DLock \<Rightarrow> map_option (\<lambda>m. s\<lparr>count_lock := m, d_at := DTest\<rparr>) (mutex_lock 0 (count_lock s))
      | DTest \<Rightarrow> Some (s\<lparr>d_at := (if count s \<noteq> 0 then DTake else if on_zero c = WaitLoop then DWait else DSay)\<rparr>)
      | DSay \<Rightarrow> Some (s\<lparr>out := out s @ say_zero (on_zero c),
                  d_at := (case on_zero c of SayWait m \<Rightarrow> DWait | _ \<Rightarrow> DUnlock)\<rparr>)
      | DWait \<Rightarrow> Some (s\<lparr>count_lock := mutex_unlock (count_lock s),
                  count_nonzero := cond_enqueue 0 (count_nonzero s), d_at := DWaiting\<rparr>)
      | DWaiting \<Rightarrow> if 0 \<in> set (count_nonzero s) then None
                  else map_option (\<lambda>m. s\<lparr>count_lock := m, d_at := (if on_zero c = WaitLoop then DTest else DUnlock)\<rparr>)
                         (mutex_lock 0 (count_lock s))
      | DTake \<Rightarrow> Some (s\<lparr>count := count s - 1, taken := taken s + 1, d_at := DPrint\<rparr>)
      | DPrint \<Rightarrow> Some (s\<lparr>out := out s @ dec_line c (count s), d_at := DUnlock\<rparr>)
      | DUnlock \<Rightarrow> Some (s\<lparr>count_lock := mutex_unlock (count_lock s), d_at := DLock\<rparr>))"

definition increment_count :: "id_config \<Rightarrow> id_state \<Rightarrow> id_state option" where
  "increment_count c s =
     (case i_at s of
        ILock \<Rightarrow> map_option (\<lambda>m. s\<lparr>count_lock := m, i_at := (if signals c then ITest else IAdd)\<rparr>)
                   (mutex_lock 1 (count_lock s))
      | ITest \<Rightarrow> Some (s\<lparr>i_at := (if count s = 0 then ISignal else IAdd)\<rparr>)
      | ISignal \<Rightarrow> Some (s\<lparr>count_nonzero := cond_signal (count_nonzero s), i_at := IAdd\<rparr>)
      | IAdd \<Rightarrow> Some (s\<lparr>count := count s + 1, added := added s + 1, i_at := IPrint\<rparr>)
      | IPrint \<Rightarrow> Some (s\<lparr>out := out s @ inc_line c (count s), i_at := IUnlock\<rparr>)
      | IUnlock \<Rightarrow> Some (s\<lparr>count_lock := mutex_unlock (count_lock s), i_at := ILock\<rparr>))"

datatype id_act = Dec | Inc | Spurious

definition spurious_wake :: "id_state \<Rightarrow> id_state option" where
  "spurious_wake s = (if count_nonzero s = [] then None else Some (s\<lparr>count_nonzero := []\<rparr>))"

definition id_step :: "id_config \<Rightarrow> id_act \<Rightarrow> id_state \<Rightarrow> id_state option" where
  "id_step c a s = (case a of Dec \<Rightarrow> decrement_count c s | Inc \<Rightarrow> increment_count c s | Spurious \<Rightarrow> spurious_wake s)"

definition id_init :: id_state where
  "id_init = \<lparr>count_lock = None, count_nonzero = [], count = 0, d_at = DLock, i_at = ILock,
     out = [], added = 0, taken = 0\<rparr>"

subsection \<open>The programs\<close>

definition quiet :: "32 word \<Rightarrow> string list" where
  "quiet v = []"

definition says :: "string \<Rightarrow> 32 word \<Rightarrow> string list" where
  "says m v = [m]"

text \<open>\<open>printf ("...%d", count)\<close> of an \<open>unsigned\<close> prints it as a signed number.\<close>

definition says_count :: "string \<Rightarrow> 32 word \<Rightarrow> string list" where
  "says_count m v = [m @ show_int (sint v)]"

definition inc_dec :: id_config where
  "inc_dec = \<lparr>on_zero = WaitLoop, signals = True, dec_line = says ''-'', inc_line = says ''+''\<rparr>"

definition inc_dec1 :: id_config where
  "inc_dec1 = \<lparr>on_zero = Say ''dec2'', signals = False, dec_line = quiet, inc_line = quiet\<rparr>"

definition inc_dec2 :: id_config where
  "inc_dec2 = \<lparr>on_zero = Say ''?'', signals = False, dec_line = says ''-'', inc_line = says ''+''\<rparr>"

definition inc_dec_cond :: id_config where
  "inc_dec_cond = \<lparr>on_zero = SayWait ''count is equal to 0'', signals = True,
     dec_line = says_count ''------------------'', inc_line = says_count ''+++++++++++++++++''\<rparr>"

definition inc_dec_mutex :: id_config where
  "inc_dec_mutex = \<lparr>on_zero = Say ''count is equal to 0'', signals = False,
     dec_line = says_count ''------------------'', inc_line = says_count ''+++++++++++++++++''\<rparr>"

definition dotprod_mutex :: id_config where
  "dotprod_mutex = \<lparr>on_zero = Say ''?'', signals = False, dec_line = says ''-'', inc_line = says ''+''\<rparr>"

text \<open>A thread that waits needs someone who signals; the six programs do.\<close>

definition wakes :: "id_config \<Rightarrow> bool" where
  "wakes c \<longleftrightarrow> (case on_zero c of Say m \<Rightarrow> True | _ \<Rightarrow> signals c)"

lemma programs_wake:
  "wakes inc_dec" "wakes inc_dec1" "wakes inc_dec2" "wakes inc_dec_cond" "wakes inc_dec_mutex" "wakes dotprod_mutex"
  by (simp_all add: wakes_def inc_dec_def inc_dec1_def inc_dec2_def inc_dec_cond_def inc_dec_mutex_def dotprod_mutex_def)

subsection \<open>The invariant\<close>

fun d_holds :: "d_pc \<Rightarrow> bool" where
  "d_holds DLock = False" | "d_holds DWaiting = False" | "d_holds _ = True"

fun i_holds :: "i_pc \<Rightarrow> bool" where
  "i_holds ILock = False" | "i_holds _ = True"

definition id_locked :: "id_state \<Rightarrow> bool" where
  "id_locked s \<longleftrightarrow> (count_lock s = Some 0 \<longleftrightarrow> d_holds (d_at s)) \<and> (count_lock s = Some 1 \<longleftrightarrow> i_holds (i_at s)) \<and>
     (d_holds (d_at s) \<or> i_holds (i_at s) \<or> count_lock s = None)"

definition id_counts :: "id_state \<Rightarrow> bool" where
  "id_counts s \<longleftrightarrow> taken s \<le> added s \<and> count s = of_nat (added s - taken s) \<and>
     (d_at s = DTake \<longrightarrow> count s \<noteq> 0)"

text \<open>A thread in the queue of the condition waits for a count that is 0: no signal was lost.\<close>

definition id_waits :: "id_config \<Rightarrow> id_state \<Rightarrow> bool" where
  "id_waits c s \<longleftrightarrow> (d_at s \<in> {DSay, DWait} \<longrightarrow> count s = 0) \<and> (d_at s \<in> {DWait, DWaiting} \<longrightarrow> signals c) \<and>
     (count_nonzero s \<noteq> [] \<longrightarrow>
        count_nonzero s = [0] \<and> d_at s = DWaiting \<and> count s = 0 \<and> i_at s \<notin> {IAdd, IPrint, IUnlock})"

definition id_inv :: "id_config \<Rightarrow> id_state \<Rightarrow> bool" where
  "id_inv c s \<longleftrightarrow> id_locked s \<and> id_counts s \<and> id_waits c s"

lemma id_locked_dec: "id_locked s \<Longrightarrow> decrement_count c s = Some s' \<Longrightarrow> id_locked s'"
  by (cases "d_at s")
    (auto simp: decrement_count_def id_locked_def split: if_splits when_zero.splits)

lemma id_locked_inc: "id_locked s \<Longrightarrow> increment_count c s = Some s' \<Longrightarrow> id_locked s'"
  by (cases "i_at s") (auto simp: increment_count_def id_locked_def split: if_splits)

lemma of_nat_diff_Suc: "(of_nat (m - n) :: 'a::len word) \<noteq> 0 \<Longrightarrow> n \<le> m \<Longrightarrow>
    Suc n \<le> m \<and> (of_nat (m - n) :: 'a word) - 1 = of_nat (m - Suc n)"
proof -
  assume a: "(of_nat (m - n) :: 'a word) \<noteq> 0" "n \<le> m"
  then have "n < m" by (cases "n = m") auto
  moreover from this have "m - n = Suc (m - Suc n)" by simp
  ultimately show ?thesis by (simp add: of_nat_Suc)
qed

lemma id_counts_dec:
  assumes "id_counts s" "decrement_count c s = Some s'"
  shows "id_counts s' \<and> (added s' - taken s' = added s - taken s \<or> sem_wait (added s - taken s) = Some (added s' - taken s'))"
proof (cases "d_at s = DTake")
  case True
  then show ?thesis
    using assms of_nat_diff_Suc [where 'a = 32, of "added s" "taken s"]
    by (auto simp: decrement_count_def id_counts_def)
next
  case False
  then show ?thesis using assms
    by (cases "d_at s") (auto simp: decrement_count_def id_counts_def split: if_splits when_zero.splits)
qed

lemma id_counts_inc:
  assumes "id_counts s" "id_locked s" "increment_count c s = Some s'"
  shows "id_counts s' \<and> (added s' - taken s' = added s - taken s \<or> added s' - taken s' = sem_post (added s - taken s))"
proof (cases "i_at s = IAdd")
  case True
  then show ?thesis using assms
    by (auto simp: increment_count_def id_counts_def id_locked_def Suc_diff_le)
next
  case False
  then show ?thesis using assms
    by (cases "i_at s") (auto simp: increment_count_def id_counts_def split: if_splits)
qed

lemma id_waits_dec:
  assumes "wakes c" "id_waits c s" "id_locked s" "decrement_count c s = Some s'"
  shows "id_waits c s'"
proof -
  have q: "d_at s \<noteq> DWaiting \<Longrightarrow> count_nonzero s = []" using assms(2) by (auto simp: id_waits_def)
  show ?thesis
    by (cases "d_at s"; cases "on_zero c")
      (use assms q in \<open>auto simp: decrement_count_def id_waits_def id_locked_def wakes_def split: if_splits\<close>)
qed

lemma id_waits_inc:
  assumes "id_waits c s" "id_locked s" "increment_count c s = Some s'"
  shows "id_waits c s'"
  using assms
  by (cases "i_at s"; cases "d_at s")
    (auto simp: increment_count_def id_waits_def id_locked_def split: if_splits)

text \<open>The specification: a counting semaphore.\<close>

datatype sem_act = Post | Wait

definition sem_step :: "sem_act \<Rightarrow> sem \<Rightarrow> sem option" where
  "sem_step a v = (case a of Post \<Rightarrow> Some (sem_post v) | Wait \<Rightarrow> sem_wait v)"

definition value_of :: "id_state \<Rightarrow> sem" where
  "value_of s = added s - taken s"

lemma id_wake_frame:
  "id_locked (s\<lparr>count_nonzero := []\<rparr>) = id_locked s" "id_counts (s\<lparr>count_nonzero := []\<rparr>) = id_counts s"
  "id_waits c s \<Longrightarrow> id_waits c (s\<lparr>count_nonzero := []\<rparr>)" "value_of (s\<lparr>count_nonzero := []\<rparr>) = value_of s"
  by (simp_all add: id_locked_def id_counts_def id_waits_def value_of_def)

lemma id_step_inv:
  assumes c: "wakes c" and inv: "id_inv c s" and st: "id_step c a s = Some s'"
  shows "id_inv c s' \<and> (value_of s' = value_of s \<or> (\<exists>b. sem_step b (value_of s) = Some (value_of s')))"
proof -
  note i = inv [unfolded id_inv_def]
  show ?thesis
  proof (cases a)
    case Dec
    then have d: "decrement_count c s = Some s'" using st by (simp add: id_step_def)
    have "value_of s' = value_of s \<or> sem_step Wait (value_of s) = Some (value_of s')"
      using id_counts_dec [OF _ d] i by (simp add: value_of_def sem_step_def)
    then show ?thesis
      using id_locked_dec [OF _ d] id_counts_dec [OF _ d] id_waits_dec [OF c _ _ d] i unfolding id_inv_def by blast
  next
    case Inc
    then have d: "increment_count c s = Some s'" using st by (simp add: id_step_def)
    have "value_of s' = value_of s \<or> sem_step Post (value_of s) = Some (value_of s')"
      using id_counts_inc [OF _ _ d] i by (auto simp: value_of_def sem_step_def)
    then show ?thesis
      using id_locked_inc [OF _ d] id_counts_inc [OF _ _ d] id_waits_inc [OF _ _ d] i unfolding id_inv_def by blast
  next
    case Spurious
    then have "s' = s\<lparr>count_nonzero := []\<rparr>" using st by (simp add: id_step_def spurious_wake_def split: if_splits)
    then show ?thesis using i by (simp add: id_inv_def id_wake_frame)
  qed
qed

lemma id_refines:
  assumes "wakes c"
  shows "refining_system (id_step c) id_init (id_inv c) sem_step 0 value_of"
proof
  show "id_inv c id_init" by (simp add: id_inv_def id_init_def id_locked_def id_counts_def id_waits_def)
  show "value_of id_init = 0" by (simp add: value_of_def id_init_def)
qed (use id_step_inv [OF assms] in blast)+

interpretation id_inc_dec: refining_system "id_step inc_dec" id_init "id_inv inc_dec" sem_step 0 value_of
  by (rule id_refines [OF programs_wake(1)])

text \<open>
  C12: the count programs implement a counting semaphore, whichever way the decrementing thread
  deals with an empty count and even if it wakes up spuriously: the two threads exclude each
  other, every decrement takes one that was added before (the count never goes below 0), and
  \<open>count\<close> is the number of increments less the number of decrements modulo 2 to the 32.
\<close>

theorem inc_dec_semaphore:
  assumes "c \<in> {inc_dec, inc_dec1, inc_dec2, inc_dec_cond, inc_dec_mutex, dotprod_mutex}"
    and "reachable (id_step c) id_init s"
  shows "reachable sem_step 0 (value_of s) \<and> taken s \<le> added s \<and>
     unat (count s) = (added s - taken s) mod 2 ^ 32 \<and> \<not> (d_holds (d_at s) \<and> i_holds (i_at s))"
proof -
  have w: "wakes c" using assms(1) programs_wake by blast
  have "id_inv c s" by (rule invariant_system.reachable_inv [OF refining_system.axioms(1) [OF id_refines [OF w]] assms(2)])
  then have i: "id_locked s" "id_counts s" by (simp_all add: id_inv_def)
  have "reachable sem_step 0 (value_of s)" by (rule refining_system.reachable_abs [OF id_refines [OF w] assms(2)])
  moreover have "taken s \<le> added s" "unat (count s) = (added s - taken s) mod 2 ^ 32"
    using i(2) by (simp_all add: id_counts_def unat_of_nat take_bit_eq_mod del: of_nat_diff)
  moreover have "\<not> (d_holds (d_at s) \<and> i_holds (i_at s))" using i(1) by (auto simp: id_locked_def)
  ultimately show ?thesis by blast
qed

theorem inc_dec_semaphore_witness:
  "\<exists>s. run (id_step inc_dec) [Dec, Dec, Dec, Inc, Inc, Inc, Inc, Inc, Inc, Dec, Dec, Dec, Dec] id_init = Some s \<and>
     out s = [''+'', ''-''] \<and> taken s = 1 \<and> unat (count s) = (added s - taken s) mod 2 ^ 32"
proof -
  obtain s where s: "run (id_step inc_dec) [Dec, Dec, Dec, Inc, Inc, Inc, Inc, Inc, Inc, Dec, Dec, Dec, Dec] id_init = Some s"
    "out s = [''+'', ''-''] \<and> taken s = 1"
    by (simp add: id_step_def decrement_count_def increment_count_def id_init_def inc_dec_def mutex_lock_def says_def)
  then show ?thesis using inc_dec_semaphore [OF _ run_reachable [OF s(1)]] by simp
qed

subsection \<open>No lost wakeup: the count is always taken again\<close>

text \<open>
  How far the two threads are from the next decrement, when whoever holds the mutex runs on, and
  otherwise the thread the count lets run.
\<close>

definition d_rank :: "bool \<Rightarrow> d_pc \<Rightarrow> nat" where
  "d_rank z p =
     (case p of DTake \<Rightarrow> 1 | DTest \<Rightarrow> (if z then 8 else 2) | DLock \<Rightarrow> (if z then 0 else 3)
      | DUnlock \<Rightarrow> (if z then 1 else 4) | DPrint \<Rightarrow> (if z then 2 else 5) | DWaiting \<Rightarrow> (if z then 0 else 5)
      | DWait \<Rightarrow> 6 | DSay \<Rightarrow> 7)"

definition i_rank :: "bool \<Rightarrow> i_pc \<Rightarrow> nat" where
  "i_rank z p =
     (case p of ILock \<Rightarrow> (if z then 6 else 0) | ITest \<Rightarrow> 5 | ISignal \<Rightarrow> 4 | IAdd \<Rightarrow> 3 | IPrint \<Rightarrow> 2 | IUnlock \<Rightarrow> 1)"

definition id_rank :: "id_state \<Rightarrow> nat" where
  "id_rank s = d_rank (count s = 0) (d_at s) + i_rank (count s = 0) (i_at s) +
     (if count s = 0 then if i_at s \<in> {IPrint, IUnlock} then 60 else 40
      else if count s = -1 \<and> i_at s \<in> {ITest, ISignal, IAdd} then 80 else 0)"

definition id_next :: "id_state \<Rightarrow> id_act" where
  "id_next s = (if i_holds (i_at s) then Inc else if d_holds (d_at s) then Dec else if count s = 0 then Inc else Dec)"

lemma id_approach:
  assumes "wakes c" "id_inv c s"
  shows "\<exists>s'. id_step c (id_next s) s = Some s' \<and> (taken s < taken s' \<or> taken s' = taken s \<and> id_rank s' < id_rank s)"
proof -
  have w: "count s + 1 = 0 \<longleftrightarrow> count s = -1" by (simp add: eq_neg_iff_add_eq_0)
  have i: "id_locked s" "id_waits c s" using assms(2) by (simp_all add: id_inv_def)
  show ?thesis
    by (cases "i_at s"; cases "d_at s")
      (use i w in \<open>auto simp: id_next_def id_step_def decrement_count_def increment_count_def id_rank_def
         d_rank_def i_rank_def id_locked_def id_waits_def split: when_zero.splits\<close>)
qed

lemma id_taken_again:
  assumes c: "wakes c"
  shows "id_inv c s \<Longrightarrow> \<exists>as t. run (id_step c) as s = Some t \<and> set as \<subseteq> {Dec, Inc} \<and> taken s < taken t"
proof (induction "id_rank s" arbitrary: s rule: less_induct)
  case less
  obtain u where u: "id_step c (id_next s) s = Some u" "taken s < taken u \<or> taken u = taken s \<and> id_rank u < id_rank s"
    using id_approach [OF c less.prems] by blast
  have n: "id_next s \<in> {Dec, Inc}" by (simp add: id_next_def)
  show ?case
  proof (cases "taken s < taken u")
    case True
    have "run (id_step c) [id_next s] s = Some u" using u(1) by simp
    with n True show ?thesis by (intro exI [of _ "[id_next s]"]) auto
  next
    case False
    have "id_inv c u" using id_step_inv [OF c less.prems u(1)] by blast
    then obtain as t where "run (id_step c) as u = Some t" "set as \<subseteq> {Dec, Inc}" "taken u < taken t"
      using less.hyps u(2) False by blast
    then have "run (id_step c) (id_next s # as) s = Some t" "set (id_next s # as) \<subseteq> {Dec, Inc}" "taken s < taken t"
      using u n False by auto
    then show ?thesis by blast
  qed
qed



subsection \<open>The main functions\<close>

text \<open>
  Four of the programs wait for their threads, which never return; \<open>inc_dec2.c\<close> and
  \<open>dotprod_mutex.c\<close> sleep and return.  A spurious wakeup is an action of the thread that waits.
\<close>

definition id_main :: "main_op list" where
  "id_main = [Create 0 Ignored, Create 1 Ignored, Joins 0 Ignored, Joins 1 Ignored, Return 0]"

definition id_main2 :: "main_op list" where
  "id_main2 = [Create 0 Ignored, Create 1 Ignored, Return 0]"

definition id_owner :: "id_act \<Rightarrow> tid" where
  "id_owner a = (case a of Inc \<Rightarrow> 1 | _ \<Rightarrow> 0)"

definition id_program :: "id_config \<Rightarrow> id_act pact \<Rightarrow> id_state prog \<Rightarrow> id_state prog option" where
  "id_program c = prog_ok id_owner (id_step c) (\<lambda>_ _. False) (\<lambda>_ _. [])"

definition id_started :: "id_state prog \<Rightarrow> bool" where
  "id_started s \<longleftrightarrow> ending s = Running \<and>
     (todo s \<in> {id_main, tl id_main} \<or> todo s = tl (tl id_main) \<and> started s 0 \<and> started s 1) \<and>
     (todo s = tl id_main \<longrightarrow> started s 0)"

lemma id_started_step: "id_started s \<Longrightarrow> id_program c a s = Some s' \<Longrightarrow> id_started s'"
  unfolding id_program_def
  by (erule prog_okE) (auto simp: id_started_def id_main_def spawn_def)

interpretation id_prog: invariant_system "id_program c" "prog_init id_main id_init" id_started for c
proof
  show "id_started (prog_init id_main id_init)" by (simp add: id_started_def prog_init_def id_main_def)
qed (rule id_started_step)

text \<open>
  A \<open>main\<close> that joins the two threads never returns: as long as its calls succeed the process
  keeps running, and what its threads do is a run of the semaphore.
\<close>

theorem inc_dec_never_ends:
  assumes "c \<in> {inc_dec, inc_dec1, inc_dec_cond, inc_dec_mutex}" "reachable (id_program c) (prog_init id_main id_init) s"
  shows "ending s = Running \<and> \<not> stuck (id_program c) s \<and> reachable sem_step 0 (value_of (shared s))"
proof -
  have w: "wakes c" using assms(1) programs_wake by blast
  have r: "reachable (id_step c) id_init (shared s)"
    by (rule prog_ok_shared_reachable [OF assms(2) [unfolded id_program_def]])
  then have inv: "id_inv c (shared s)"
    by (rule invariant_system.reachable_inv [OF refining_system.axioms(1) [OF id_refines [OF w]]])
  have st: "id_started s" using assms(2) by (rule id_prog.reachable_inv)
  have "\<exists>a s'. id_program c a s = Some s'"
  proof (cases "todo s = tl (tl id_main)")
    case True
    then have "started s (id_owner (id_next (shared s)))" "ending s = Running"
      using st by (auto simp: id_started_def id_owner_def id_next_def id_main_def)
    then have "id_program c (Do (id_next (shared s))) s \<noteq> None"
      using id_approach [OF w inv] by (auto simp: id_program_def prog_ok_def prog_step_def)
    then show ?thesis by blast
  next
    case False
    then have "id_program c (MainDo True) s \<noteq> None"
      using st by (auto simp: id_started_def id_main_def id_program_def prog_ok_def prog_step_def main_next_def)
    then show ?thesis by blast
  qed
  then have "\<not> stuck (id_program c) s" by (auto simp: stuck_def)
  then show ?thesis
    using st refining_system.reachable_abs [OF id_refines [OF w] r] by (simp add: id_started_def)
qed

theorem inc_dec_never_ends_witness:
  "\<exists>s. run (id_program inc_dec1) [MainDo True, MainDo True, Do Dec, Do Dec, Do Dec] (prog_init id_main id_init) = Some s \<and>
     out (shared s) = [''dec2''] \<and> ending s = Running \<and> \<not> stuck (id_program inc_dec1) s"
proof -
  obtain s where s: "run (id_program inc_dec1) [MainDo True, MainDo True, Do Dec, Do Dec, Do Dec] (prog_init id_main id_init) = Some s"
    "out (shared s) = [''dec2'']"
    by (simp add: id_program_def prog_ok_def prog_step_def prog_init_def main_next_def id_main_def spawn_def id_owner_def
        id_step_def decrement_count_def id_init_def inc_dec1_def mutex_lock_def say_zero_def)
  then show ?thesis using inc_dec_never_ends [OF _ run_reachable [OF s(1)]] by simp
qed

end
