(* ===== verification/Cond_Programs.thy ===== *)
theory Cond_Programs
  imports Thread_Program C_Runtime
begin

section \<open>Waiting for a condition: \<open>mutex_cond.c\<close> and \<open>condvar.c\<close>\<close>

text \<open>
  Two programs of \<open>src/Pthread\<close> in which a thread waits until others have changed a variable.
  Every library call and every \<open>printf\<close> is one step; the mutexes are taken and released as in the
  code.  A thread leaves \<open>pthread_cond_wait\<close> only when it is signalled.
\<close>

subsection \<open>\<open>mutex_cond.c\<close>\<close>

datatype a_pc = ALock | ARun | ATest | ASay | AWait | AWaiting | ANow | AUnlock | ASuccess | AEnd
datatype b_pc = BLock | BRun | BWake | BSetX | BSetY | BBroadcast | BAfter | BUnlock | BSuccess | BAfterUnlock | BEnd

record mc =
  mut :: mutex
  mcond :: cond
  mx :: int
  my :: int
  a_at :: a_pc
  b_at :: b_pc
  mlog :: "string list"

definition mc_print :: "string \<Rightarrow> mc \<Rightarrow> mc" where
  "mc_print m s = s\<lparr>mlog := mlog s @ [m]\<rparr>"

definition aThread :: "mc \<Rightarrow> mc option" where
  "aThread s =
     (case a_at s of
        ALock \<Rightarrow> map_option (\<lambda>m. s\<lparr>mut := m, a_at := ARun\<rparr>) (mutex_lock 0 (mut s))
      | ARun \<Rightarrow> Some ((mc_print ''RUN aThread'' s)\<lparr>a_at := ATest\<rparr>)
      | ATest \<Rightarrow> Some (s\<lparr>a_at := (if mx s \<le> my s then ASay else ANow)\<rparr>)
      | ASay \<Rightarrow> Some ((mc_print (''x='' @ show_int (mx s) @ '' <= y='' @ show_int (my s) @ '', so waiting for bThread !'') s)
                  \<lparr>a_at := AWait\<rparr>)
      | AWait \<Rightarrow> Some (s\<lparr>mut := mutex_unlock (mut s), mcond := cond_enqueue 0 (mcond s), a_at := AWaiting\<rparr>)
      | AWaiting \<Rightarrow> if 0 \<in> set (mcond s) then None
                  else map_option (\<lambda>m. s\<lparr>mut := m, a_at := ATest\<rparr>) (mutex_lock 0 (mut s))
      | ANow \<Rightarrow> Some ((mc_print ''NOW aThread restarted !'' s)\<lparr>a_at := AUnlock\<rparr>)
      | AUnlock \<Rightarrow> Some (s\<lparr>mut := mutex_unlock (mut s), a_at := ASuccess\<rparr>)
      | ASuccess \<Rightarrow> Some ((mc_print ''aThread unlock success----------------'' s)\<lparr>a_at := AEnd\<rparr>)
      | AEnd \<Rightarrow> None)"

definition BIG :: int where "BIG = 5"

definition LIT :: int where "LIT = 1"

definition bThread :: "mc \<Rightarrow> mc option" where
  "bThread s =
     (case b_at s of
        BLock \<Rightarrow> map_option (\<lambda>m. s\<lparr>mut := m, b_at := BRun\<rparr>) (mutex_lock 1 (mut s))
      | BRun \<Rightarrow> Some ((mc_print ''RUN bThread'' s)\<lparr>b_at := BWake\<rparr>)
      | BWake \<Rightarrow> Some ((mc_print ''wake up aThread !'' s)\<lparr>b_at := BSetX\<rparr>)
      | BSetX \<Rightarrow> Some (s\<lparr>mx := BIG, b_at := BSetY\<rparr>)
      | BSetY \<Rightarrow> Some (s\<lparr>my := LIT, b_at := BBroadcast\<rparr>)
      | BBroadcast \<Rightarrow> Some (s\<lparr>mcond := cond_broadcast (mcond s), b_at := BAfter\<rparr>)
      | BAfter \<Rightarrow> Some ((mc_print ''after broadcast !'' s)\<lparr>b_at := BUnlock\<rparr>)
      | BUnlock \<Rightarrow> Some (s\<lparr>mut := mutex_unlock (mut s), b_at := BSuccess\<rparr>)
      | BSuccess \<Rightarrow> Some ((mc_print ''bThread unlock success----------------'' s)\<lparr>b_at := BAfterUnlock\<rparr>)
      | BAfterUnlock \<Rightarrow> Some ((mc_print ''after unlock !'' s)\<lparr>b_at := BEnd\<rparr>)
      | BEnd \<Rightarrow> None)"

definition mc_step :: "tid \<Rightarrow> mc \<Rightarrow> mc option" where
  "mc_step t s = (if t = 0 then aThread s else if t = 1 then bThread s else None)"

text \<open>\<open>main\<close> sets \<open>x = LIT\<close> and \<open>y = BIG\<close>, creates and joins the threads.\<close>

definition mc_init :: mc where
  "mc_init = \<lparr>mut = None, mcond = [], mx = LIT, my = BIG, a_at = ALock, b_at = BLock, mlog = []\<rparr>"

definition mc_dead :: "tid \<Rightarrow> mc \<Rightarrow> bool" where
  "mc_dead t s \<longleftrightarrow> (if t = 0 then a_at s = AEnd else b_at s = BEnd)"

definition mc_main :: "main_op list" where
  "mc_main = [Create 0 Ignored, Create 1 Ignored, Joins 0 Ignored, Joins 1 Ignored, Return 0]"

fun a_holds :: "a_pc \<Rightarrow> bool" where
  "a_holds ALock = False" | "a_holds AWaiting = False" | "a_holds ASuccess = False" | "a_holds AEnd = False" | "a_holds _ = True"

fun b_stage :: "b_pc \<Rightarrow> nat" where
  "b_stage BLock = 0" | "b_stage BRun = 1" | "b_stage BWake = 2" | "b_stage BSetX = 3" | "b_stage BSetY = 4"
| "b_stage BBroadcast = 5" | "b_stage BAfter = 6" | "b_stage BUnlock = 7" | "b_stage BSuccess = 8"
| "b_stage BAfterUnlock = 9" | "b_stage BEnd = 10"

definition b_holds :: "b_pc \<Rightarrow> bool" where
  "b_holds p \<longleftrightarrow> 1 \<le> b_stage p \<and> b_stage p \<le> 7"

text \<open>The invariant: the mutex, the values \<open>bThread\<close> has set so far, and who may be in the queue.\<close>

definition mc_lock :: "mc \<Rightarrow> bool" where
  "mc_lock s \<longleftrightarrow>
     (mut s = Some 0 \<longleftrightarrow> a_holds (a_at s)) \<and> (mut s = Some 1 \<longleftrightarrow> b_holds (b_at s)) \<and>
     (a_holds (a_at s) \<or> b_holds (b_at s) \<or> mut s = None)"

definition x_at :: "nat \<Rightarrow> int" where
  "x_at k = (if k \<le> 3 then LIT else BIG)"

definition y_at :: "nat \<Rightarrow> int" where
  "y_at k = (if k \<le> 4 then BIG else LIT)"

definition mc_vals :: "mc \<Rightarrow> bool" where
  "mc_vals s \<longleftrightarrow> mx s = x_at (b_stage (b_at s)) \<and> my s = y_at (b_stage (b_at s))"

definition mc_queue :: "mc \<Rightarrow> bool" where
  "mc_queue s \<longleftrightarrow>
     (mcond s = [] \<or> mcond s = [0] \<and> a_at s = AWaiting \<and> b_stage (b_at s) \<le> 5) \<and>
     (a_at s = AWaiting \<and> mcond s = [] \<longrightarrow> 6 \<le> b_stage (b_at s)) \<and>
     (a_at s \<in> {ANow, AUnlock, ASuccess, AEnd} \<longrightarrow> 8 \<le> b_stage (b_at s)) \<and>
     (a_at s \<in> {ASay, AWait} \<longrightarrow> b_stage (b_at s) = 0)"

definition mc_logged :: "mc \<Rightarrow> bool" where
  "mc_logged s \<longleftrightarrow>
     (7 \<le> b_stage (b_at s) \<longrightarrow> ''after broadcast !'' \<in> set (mlog s)) \<and>
     (''NOW aThread restarted !'' \<in> set (mlog s) \<longleftrightarrow> a_at s \<in> {AUnlock, ASuccess, AEnd})"

definition mc_inv :: "mc \<Rightarrow> bool" where
  "mc_inv s \<longleftrightarrow> mc_lock s \<and> mc_vals s \<and> mc_queue s \<and> mc_logged s"

fun a_rank :: "bool \<Rightarrow> a_pc \<Rightarrow> nat" where
  "a_rank ready ALock = 20" | "a_rank ready ARun = 19" | "a_rank ready ATest = (if ready then 5 else 18)"
| "a_rank ready ASay = 17" | "a_rank ready AWait = 16" | "a_rank ready AWaiting = 15"
| "a_rank ready ANow = 4" | "a_rank ready AUnlock = 3" | "a_rank ready ASuccess = 2" | "a_rank ready AEnd = 0"

definition mc_msr :: "mc \<Rightarrow> nat" where
  "mc_msr s = a_rank (my s < mx s) (a_at s) + (10 - b_stage (b_at s))"

definition mc_final :: "mc \<Rightarrow> bool" where
  "mc_final s \<longleftrightarrow> a_at s = AEnd \<and> b_at s = BEnd"

lemma xy_at: "x_at k \<le> y_at k \<longleftrightarrow> k \<le> 4"
  by (simp add: x_at_def y_at_def BIG_def LIT_def)

lemma mc_lock_step: "mc_lock s \<Longrightarrow> mc_step t s = Some s' \<Longrightarrow> mc_lock s'"
proof -
  assume l: "mc_lock s" and st: "mc_step t s = Some s'"
  show ?thesis
  proof (cases "t = 0")
    case True
    then show ?thesis using l st
      by (cases "a_at s") (auto simp: mc_step_def aThread_def mc_lock_def mc_print_def split: if_splits)
  next
    case False
    then show ?thesis using l st
      by (cases "b_at s") (auto simp: mc_step_def bThread_def mc_lock_def mc_print_def b_holds_def split: if_splits)
  qed
qed

lemma mc_vals_step: "mc_vals s \<Longrightarrow> mc_step t s = Some s' \<Longrightarrow> mc_vals s'"
proof -
  assume l: "mc_vals s" and st: "mc_step t s = Some s'"
  show ?thesis
  proof (cases "t = 0")
    case True
    then show ?thesis using l st
      by (cases "a_at s") (auto simp: mc_step_def aThread_def mc_vals_def mc_print_def split: if_splits)
  next
    case False
    then show ?thesis using l st
      by (cases "b_at s") (auto simp: mc_step_def bThread_def mc_vals_def mc_print_def x_at_def y_at_def split: if_splits)
  qed
qed

lemma mc_queue_step:
  assumes "mc_queue s" "mc_lock s" "mc_vals s" "mc_step t s = Some s'"
  shows "mc_queue s'"
proof (cases "t = 0")
  case True
  have "b_holds (b_at s) \<or> b_stage (b_at s) = 0 \<or> 8 \<le> b_stage (b_at s)" by (auto simp: b_holds_def)
  with True show ?thesis using assms
    by (cases "a_at s") (auto simp: mc_step_def aThread_def mc_queue_def mc_lock_def mc_vals_def mc_print_def xy_at split: if_splits)
next
  case False
  then show ?thesis using assms
    by (cases "b_at s") (auto simp: mc_step_def bThread_def mc_queue_def mc_lock_def mc_print_def b_holds_def split: if_splits)
qed

lemma mc_logged_step: "mc_logged s \<Longrightarrow> mc_step t s = Some s' \<Longrightarrow> mc_logged s'"
proof -
  assume l: "mc_logged s" and st: "mc_step t s = Some s'"
  show ?thesis
  proof (cases "t = 0")
    case True
    then show ?thesis using l st
      by (cases "a_at s") (auto simp: mc_step_def aThread_def mc_logged_def mc_print_def split: if_splits)
  next
    case False
    then show ?thesis using l st
      by (cases "b_at s") (auto simp: mc_step_def bThread_def mc_logged_def mc_print_def split: if_splits)
  qed
qed

lemma a_rank_mono: "(r \<Longrightarrow> r') \<Longrightarrow> a_rank r' p \<le> a_rank r p"
  by (cases p) auto

lemma mc_msr_step:
  assumes "mc_inv s" "mc_step t s = Some s'"
  shows "mc_msr s' < mc_msr s"
proof (cases "t = 0")
  case True
  then show ?thesis using assms
    by (cases "a_at s") (auto simp: mc_step_def aThread_def mc_inv_def mc_queue_def mc_vals_def mc_msr_def mc_print_def xy_at not_le [symmetric] split: if_splits)
next
  case False
  then have b: "bThread s = Some s'" using assms(2) by (simp add: mc_step_def split: if_splits)
  then have st: "b_stage (b_at s') = Suc (b_stage (b_at s))" "b_stage (b_at s) < 10" "a_at s' = a_at s"
    by (cases "b_at s"; auto simp: bThread_def mc_print_def)+
  have "mc_vals s" "mc_vals s'" using assms mc_vals_step by (auto simp: mc_inv_def)
  then have "a_rank (my s' < mx s') (a_at s) \<le> a_rank (my s < mx s) (a_at s)"
    using st by (intro a_rank_mono) (simp add: mc_vals_def not_le [symmetric] xy_at)
  with st show ?thesis by (simp add: mc_msr_def)
qed

lemma mc_progress: "mc_inv s \<Longrightarrow> \<not> mc_final s \<Longrightarrow> \<exists>t s'. mc_step t s = Some s'"
proof -
  assume i: "mc_inv s" and f: "\<not> mc_final s"
  have "aThread s \<noteq> None \<or> bThread s \<noteq> None"
    by (cases "a_at s"; cases "b_at s")
      (use i f in \<open>auto simp: aThread_def bThread_def mc_inv_def mc_lock_def mc_queue_def mc_final_def b_holds_def\<close>)
  then have "mc_step 0 s \<noteq> None \<or> mc_step 1 s \<noteq> None" by (simp add: mc_step_def)
  then show ?thesis by blast
qed

interpretation mutex_cond: thread_program mc_step mc_init mc_inv mc_msr mc_final "\<lambda>t. t" mc_dead "\<lambda>_ _. []" 2 mc_main
proof
  show "mc_inv mc_init" by (simp add: mc_inv_def mc_init_def mc_lock_def mc_vals_def x_at_def y_at_def mc_queue_def mc_logged_def b_holds_def)
  show "mc_inv t" "mc_msr t < mc_msr s" if "mc_inv s" "mc_step a s = Some t" for s a t
    using that mc_lock_step mc_vals_step mc_queue_step mc_logged_step mc_msr_step unfolding mc_inv_def by blast+
  show "\<exists>a t. mc_step a s = Some t" if "mc_inv s" "\<not> mc_final s" for s using mc_progress that .
  show "mc_dead t c'" if "mc_step x c = Some c'" "mc_dead t c" for t x c c'
    using that by (auto simp: mc_step_def mc_dead_def aThread_def bThread_def mc_print_def split: if_splits a_pc.splits b_pc.splits)
qed (auto simp: mc_main_def mc_step_def mc_dead_def mc_final_def all_less_2 split: if_splits)

text \<open>
  C33: \<open>mutex_cond.c\<close> works under every schedule: \<open>aThread\<close> restarts only after \<open>bThread\<close> has set the
  variables and broadcast (whether it had to wait or came second), no wakeup is lost, and the
  program returns 0 after at most 41 steps with both threads finished.
\<close>

theorem mutex_cond_correct:
  assumes "run (prog_ok (\<lambda>t. t) mc_step mc_dead (\<lambda>_ _. [])) as (prog_init mc_main mc_init) = Some s"
  shows "length as \<le> 41 \<and>
     (''NOW aThread restarted !'' \<in> set (mlog (shared s)) \<longrightarrow> ''after broadcast !'' \<in> set (mlog (shared s)) \<and> my (shared s) < mx (shared s)) \<and>
     (stuck (prog_ok (\<lambda>t. t) mc_step mc_dead (\<lambda>_ _. [])) s \<longrightarrow>
        ending s = Exited 0 \<and> ''NOW aThread restarted !'' \<in> set (mlog (shared s)))"
proof -
  have "mc_inv (shared s)"
    by (rule mutex_cond.reachable_inv [OF prog_ok_shared_reachable [OF run_reachable [OF assms]]])
  moreover have "length as \<le> 41"
    using mutex_cond.program_returns(1) [OF assms] by (simp add: mc_msr_def mc_init_def mc_main_def BIG_def LIT_def)
  moreover have "ending s = Exited 0 \<and> a_at (shared s) = AEnd" if "stuck (prog_ok (\<lambda>t. t) mc_step mc_dead (\<lambda>_ _. [])) s"
    using mutex_cond.program_returns(2) [OF assms that] by (simp add: mc_main_def mc_dead_def all_less_2)
  moreover have "my (shared s) < mx (shared s)" if "a_at (shared s) \<in> {AUnlock, ASuccess, AEnd}"
    using that \<open>mc_inv (shared s)\<close> by (auto simp: mc_inv_def mc_queue_def mc_vals_def not_le [symmetric] xy_at)
  moreover have "''after broadcast !'' \<in> set (mlog (shared s))" if "a_at (shared s) \<in> {AUnlock, ASuccess, AEnd}"
    using that \<open>mc_inv (shared s)\<close> by (auto simp: mc_inv_def mc_queue_def mc_logged_def)
  moreover have "''NOW aThread restarted !'' \<in> set (mlog (shared s)) \<longleftrightarrow> a_at (shared s) \<in> {AUnlock, ASuccess, AEnd}"
    using \<open>mc_inv (shared s)\<close> by (simp add: mc_inv_def mc_logged_def)
  ultimately show ?thesis by blast
qed

theorem mutex_cond_correct_witness:
  "\<exists>s. run (prog_ok (\<lambda>t. t) mc_step mc_dead (\<lambda>_ _. []))
      [MainDo True, MainDo True, Do 0, Do 0, Do 0, Do 0, Do 0, Do 1, Do 1] (prog_init mc_main mc_init) = Some s \<and>
     mlog (shared s) = [''RUN aThread'', ''x=1 <= y=5, so waiting for bThread !'', ''RUN bThread''] \<and>
     (\<not> stuck (prog_ok (\<lambda>t. t) mc_step mc_dead (\<lambda>_ _. [])) s)"
proof -
  obtain s where s: "run (prog_ok (\<lambda>t. t) mc_step mc_dead (\<lambda>_ _. []))
      [MainDo True, MainDo True, Do 0, Do 0, Do 0, Do 0, Do 0, Do 1, Do 1] (prog_init mc_main mc_init) = Some s"
    "mlog (shared s) = [''RUN aThread'', ''x=1 <= y=5, so waiting for bThread !'', ''RUN bThread'']"
    by (simp add: prog_ok_def prog_step_def prog_init_def main_next_def mc_main_def spawn_def mc_step_def aThread_def
        bThread_def mc_init_def mc_print_def mutex_lock_def BIG_def LIT_def show_simps)
  then show ?thesis using mutex_cond_correct [OF s(1)] by auto
qed

subsection \<open>\<open>condvar.c\<close>\<close>

text \<open>
  Thread 0 runs \<open>watch_count\<close>, threads 1 and 2 run \<open>inc_count\<close>; they call themselves 1, 2 and 3.
\<close>

datatype watch_pc = VStart | VLock | VTest | VSay | VWait | VWaiting | VReceived | VAdd | VNow | VUnlock | VEnd
datatype inc_pc = CLoop nat | CLock nat | CAdd nat | CTest nat | CSay nat | CSignal nat | CSaid nat | CUnlocking nat | CUnlock nat | CEnd

record cv =
  count_mutex :: mutex
  count_threshold_cv :: cond
  cv_count :: int
  watch_at :: watch_pc
  inc_at :: "tid \<Rightarrow> inc_pc"
  cv_log :: "string list"

definition TCOUNT :: nat where "TCOUNT = 10"

definition COUNT_LIMIT :: int where "COUNT_LIMIT = 12"

definition cv_print :: "string \<Rightarrow> cv \<Rightarrow> cv" where
  "cv_print m s = s\<lparr>cv_log := cv_log s @ [m]\<rparr>"

definition my_id :: "tid \<Rightarrow> string" where
  "my_id t = show_nat (t + 1)"

definition inc_count :: "tid \<Rightarrow> cv \<Rightarrow> cv option" where
  "inc_count t s =
     (let goto = (\<lambda>p s. s\<lparr>inc_at := (inc_at s)(t := p)\<rparr>) in
      case inc_at s t of
        CLoop i \<Rightarrow> Some (goto (if i < TCOUNT then CLock i else CEnd) s)
      | CLock i \<Rightarrow> map_option (\<lambda>m. goto (CAdd i) (s\<lparr>count_mutex := m\<rparr>)) (mutex_lock t (count_mutex s))
      | CAdd i \<Rightarrow> Some (goto (CTest i) (s\<lparr>cv_count := cv_count s + 1\<rparr>))
      | CTest i \<Rightarrow> Some (goto (if cv_count s < COUNT_LIMIT then CSay i else CUnlocking i) s)
      | CSay i \<Rightarrow> Some (goto (CSignal i) (cv_print (''inc_count(): thread '' @ my_id t @ '', count = '' @ show_int (cv_count s) @ ''  Threshold reached. '') s))
      | CSignal i \<Rightarrow> Some (goto (CSaid i) (s\<lparr>count_threshold_cv := cond_signal (count_threshold_cv s)\<rparr>))
      | CSaid i \<Rightarrow> Some (goto (CTest i) (cv_print ''Just sent signal.'' s))
      | CUnlocking i \<Rightarrow> Some (goto (CUnlock i) (cv_print (''inc_count(): thread '' @ my_id t @ '', count = '' @ show_int (cv_count s) @ '', unlocking mutex'') s))
      | CUnlock i \<Rightarrow> Some (goto (CLoop (i + 1)) (s\<lparr>count_mutex := mutex_unlock (count_mutex s)\<rparr>))
      | CEnd \<Rightarrow> None)"

definition watch_count :: "cv \<Rightarrow> cv option" where
  "watch_count s =
     (case watch_at s of
        VStart \<Rightarrow> Some ((cv_print (''Starting watch_count(): thread '' @ my_id 0) s)\<lparr>watch_at := VLock\<rparr>)
      | VLock \<Rightarrow> map_option (\<lambda>m. s\<lparr>count_mutex := m, watch_at := VTest\<rparr>) (mutex_lock 0 (count_mutex s))
      | VTest \<Rightarrow> Some (s\<lparr>watch_at := (if cv_count s < COUNT_LIMIT then VSay else VUnlock)\<rparr>)
      | VSay \<Rightarrow> Some ((cv_print (''watch_count(): thread '' @ my_id 0 @ '' going into wait...'') s)\<lparr>watch_at := VWait\<rparr>)
      | VWait \<Rightarrow> Some (s\<lparr>count_mutex := mutex_unlock (count_mutex s),
                    count_threshold_cv := cond_enqueue 0 (count_threshold_cv s), watch_at := VWaiting\<rparr>)
      | VWaiting \<Rightarrow> if 0 \<in> set (count_threshold_cv s) then None
                    else map_option (\<lambda>m. s\<lparr>count_mutex := m, watch_at := VReceived\<rparr>) (mutex_lock 0 (count_mutex s))
      | VReceived \<Rightarrow> Some ((cv_print (''watch_count(): thread '' @ my_id 0 @ '' Condition signal received.'') s)\<lparr>watch_at := VAdd\<rparr>)
      | VAdd \<Rightarrow> Some (s\<lparr>cv_count := cv_count s + 125, watch_at := VNow\<rparr>)
      | VNow \<Rightarrow> Some ((cv_print (''watch_count(): thread '' @ my_id 0 @ '' count now = '' @ show_int (cv_count s) @ ''.'') s)\<lparr>watch_at := VUnlock\<rparr>)
      | VUnlock \<Rightarrow> Some (s\<lparr>count_mutex := mutex_unlock (count_mutex s), watch_at := VEnd\<rparr>)
      | VEnd \<Rightarrow> None)"

definition cv_step :: "tid \<Rightarrow> cv \<Rightarrow> cv option" where
  "cv_step t s = (if t = 0 then watch_count s else if t \<le> 2 then inc_count t s else None)"

definition cv_init :: cv where
  "cv_init = \<lparr>count_mutex = None, count_threshold_cv = [], cv_count = 0, watch_at = VStart,
     inc_at = (\<lambda>_. CLoop 0), cv_log = []\<rparr>"

definition cv_dead :: "tid \<Rightarrow> cv \<Rightarrow> bool" where
  "cv_dead t s \<longleftrightarrow> (if t = 0 then watch_at s = VEnd else inc_at s t = CEnd)"

definition cv_main :: "main_op list" where
  "cv_main = [Create 0 Ignored, Create 1 Ignored, Create 2 Ignored,
     Joins 0 Ignored, Joins 1 Ignored, Joins 2 Ignored, Report 0, PthreadExit]"

definition cv_report :: "nat \<Rightarrow> cv \<Rightarrow> string" where
  "cv_report k s = ''Main(): Waited on 3 threads. Final value of count = '' @ show_int (cv_count s) @ ''. Done.''"

text \<open>
  The loop of line 40 repeats the signal for as long as \<open>count < COUNT_LIMIT\<close>, with the mutex held, so
  nobody can change \<open>count\<close>.  The invariant: an incrementing thread is in its first round and never
  gets past that loop, and the watching thread never gets past its wait.
\<close>

definition inc_early :: "inc_pc \<Rightarrow> bool" where
  "inc_early p \<longleftrightarrow> p \<in> {CLoop 0, CLock 0}"

definition inc_looping :: "inc_pc \<Rightarrow> bool" where
  "inc_looping p \<longleftrightarrow> p \<in> {CTest 0, CSay 0, CSignal 0, CSaid 0}"

definition cv_incs :: "cv \<Rightarrow> bool" where
  "cv_incs s \<longleftrightarrow>
     (case count_mutex s of
        Some (Suc u) \<Rightarrow> u < 2 \<and> (\<forall>v. v \<noteq> Suc u \<longrightarrow> inc_early (inc_at s v)) \<and>
          (inc_at s (Suc u) = CAdd 0 \<and> cv_count s = 0 \<or> inc_looping (inc_at s (Suc u)) \<and> cv_count s = 1)
      | _ \<Rightarrow> (\<forall>v. inc_early (inc_at s v)) \<and> cv_count s = 0)"

definition cv_watch :: "cv \<Rightarrow> bool" where
  "cv_watch s \<longleftrightarrow>
     (if count_mutex s = Some 0 then watch_at s \<in> {VTest, VSay, VWait}
      else watch_at s \<in> {VStart, VLock} \<or>
        watch_at s = VWaiting \<and> (0 \<in> set (count_threshold_cv s) \<or> count_mutex s \<noteq> None))"

lemma cv_inc_cases:
  assumes "cv_incs s" "inc_count t s = Some s'" "0 < t"
  obtains (start) "inc_at s t = CLoop 0" "s' = s\<lparr>inc_at := (inc_at s)(t := CLock 0)\<rparr>"
    | (lock) "inc_at s t = CLock 0" "count_mutex s = None" "s' = s\<lparr>count_mutex := Some t, inc_at := (inc_at s)(t := CAdd 0)\<rparr>"
    | (add) "count_mutex s = Some t" "inc_at s t = CAdd 0" "s' = s\<lparr>cv_count := cv_count s + 1, inc_at := (inc_at s)(t := CTest 0)\<rparr>"
    | (loop) "count_mutex s = Some t" "inc_looping (inc_at s t)" "count_mutex s' = Some t" "cv_count s' = cv_count s"
        "watch_at s' = watch_at s" "inc_looping (inc_at s' t)" "\<forall>v. v \<noteq> t \<longrightarrow> inc_at s' v = inc_at s v"
proof (cases "count_mutex s = Some t")
  case True
  then obtain u where u: "t = Suc u" using assms(3) by (cases t) auto
  then have "inc_at s t = CAdd 0 \<and> cv_count s = 0 \<or> inc_looping (inc_at s t) \<and> cv_count s = 1"
    using assms(1) True by (simp add: cv_incs_def)
  then show ?thesis
  proof
    assume "inc_at s t = CAdd 0 \<and> cv_count s = 0"
    then show ?thesis using assms(2) True by (intro add) (auto simp: inc_count_def)
  next
    assume l: "inc_looping (inc_at s t) \<and> cv_count s = 1"
    then have "count_mutex s' = Some t \<and> cv_count s' = cv_count s \<and> watch_at s' = watch_at s \<and>
        inc_looping (inc_at s' t) \<and> (\<forall>v. v \<noteq> t \<longrightarrow> inc_at s' v = inc_at s v)"
      using assms(2) True by (cases "inc_at s t") (auto simp: inc_looping_def inc_count_def cv_print_def COUNT_LIMIT_def)
    then show ?thesis using l True by (intro loop) auto
  qed
next
  case False
  then have "inc_early (inc_at s t)"
    using assms(1) by (auto simp: cv_incs_def split: option.splits nat.splits)
  then have "inc_at s t = CLoop 0 \<and> s' = s\<lparr>inc_at := (inc_at s)(t := CLock 0)\<rparr> \<or>
      inc_at s t = CLock 0 \<and> count_mutex s = None \<and> s' = s\<lparr>count_mutex := Some t, inc_at := (inc_at s)(t := CAdd 0)\<rparr>"
    using assms(2) by (auto simp: inc_early_def inc_count_def TCOUNT_def)
  then show ?thesis using start lock by blast
qed

lemma cv_inc_step:
  assumes "cv_incs s" "cv_watch s" "inc_count t s = Some s'" "0 < t" "t \<le> 2"
  shows "cv_incs s' \<and> cv_watch s'"
proof -
  obtain u where u: "t = Suc u" using assms(4) by (cases t) auto
  from assms(1,3,4) show ?thesis
  proof (cases rule: cv_inc_cases)
    case start
    then have "inc_early (CLock 0)" "count_mutex s \<noteq> Some t"
      using assms(1) u by (auto simp: inc_early_def inc_looping_def cv_incs_def)
    then show ?thesis using start assms(1,2) u
      by (auto simp: cv_incs_def cv_watch_def split: option.splits nat.splits)
  next
    case lock
    then show ?thesis using assms(1,2,5) u by (auto simp: cv_incs_def cv_watch_def)
  next
    case add
    then show ?thesis using assms(1,2) u by (auto simp: cv_incs_def cv_watch_def inc_looping_def)
  next
    case loop
    moreover have "cv_count s = 1" using loop(1,2) assms(1) u by (auto simp: cv_incs_def inc_looping_def)
    ultimately show ?thesis using assms(1,2) u by (simp add: cv_incs_def cv_watch_def)
  qed
qed

lemma cv_watch_step: "cv_incs s \<Longrightarrow> cv_watch s \<Longrightarrow> watch_count s = Some s' \<Longrightarrow> cv_incs s' \<and> cv_watch s'"
  by (cases "watch_at s")
    (auto simp: watch_count_def cv_incs_def cv_watch_def cv_print_def COUNT_LIMIT_def cond_enqueue_def
      split: option.splits if_splits nat.splits)

interpretation condvar: invariant_system cv_step cv_init "\<lambda>s. cv_incs s \<and> cv_watch s"
proof
  show "cv_incs cv_init \<and> cv_watch cv_init" by (simp add: cv_incs_def cv_watch_def cv_init_def inc_early_def)
  show "cv_incs t \<and> cv_watch t" if "cv_incs s \<and> cv_watch s" "cv_step a s = Some t" for s a t
  proof (cases "a = 0")
    case True
    then have "watch_count s = Some t" using that(2) by (simp add: cv_step_def)
    then show ?thesis using that(1) cv_watch_step by blast
  next
    case False
    then have "inc_count a s = Some t" "a \<le> 2" using that(2) by (simp_all add: cv_step_def split: if_splits)
    then show ?thesis using that(1) False cv_inc_step by blast
  qed
qed

definition condvar_program :: "tid pact \<Rightarrow> cv prog \<Rightarrow> cv prog option" where
  "condvar_program = prog_ok (\<lambda>t. t) cv_step cv_dead cv_report"

definition cv_prog_inv :: "cv prog \<Rightarrow> bool" where
  "cv_prog_inv s \<longleftrightarrow> ending s = Running \<and> cv_incs (shared s) \<and> cv_watch (shared s) \<and>
     (\<exists>k \<le> 3. todo s = drop k cv_main \<and> (\<forall>t. started s t \<longleftrightarrow> t < k))"

lemma cv_not_dead: "cv_watch s \<Longrightarrow> \<not> cv_dead 0 s"
  by (auto simp: cv_watch_def cv_dead_def split: if_splits)

lemma cv_prog_inv_step:
  assumes "cv_prog_inv s" "condvar_program a s = Some s'"
  shows "cv_prog_inv s'"
proof -
  obtain k where k: "k \<le> 3" "todo s = drop k cv_main" "\<forall>t. started s t \<longleftrightarrow> t < k"
    using assms(1) by (auto simp: cv_prog_inv_def)
  have "k \<in> {0, 1, 2, 3}" using k(1) by auto
  from assms(2) [unfolded condvar_program_def] show ?thesis
  proof (cases rule: prog_okE)
    case (thread x c)
    have "cv_incs (shared s) \<and> cv_watch (shared s)" using assms(1) by (simp add: cv_prog_inv_def)
    then have "cv_incs c \<and> cv_watch c" using condvar.inv_step thread(4) by blast
    moreover have "ending s' = Running" "todo s' = todo s" "started s' = started s" "shared s' = c"
      using thread by simp_all
    ultimately show ?thesis using k unfolding cv_prog_inv_def by metis
  next
    case (create t e ops)
    then have "k < 3 \<and> t = k \<and> ops = drop (Suc k) cv_main" using \<open>k \<in> _\<close> k(2) by (auto simp: cv_main_def)
    then have "Suc k \<le> 3 \<and> todo s' = drop (Suc k) cv_main \<and> (\<forall>t. started s' t \<longleftrightarrow> t < Suc k)"
      using create k(3) by (simp add: spawn_def less_Suc_eq)
    moreover have "ending s' = Running" "shared s' = shared s" using create by (simp_all add: spawn_def)
    ultimately show ?thesis using assms(1) unfolding cv_prog_inv_def by metis
  next
    case (join t e ops)
    then have "t = 0" using \<open>k \<in> _\<close> k(2) by (auto simp: cv_main_def)
    moreover have "cv_watch (shared s)" using assms(1) by (simp add: cv_prog_inv_def)
    ultimately show ?thesis using join(5) cv_not_dead by blast
  next
    case (unborn t e ops)
    then have "k = 3 \<and> t = 0" using \<open>k \<in> _\<close> k(2) by (auto simp: cv_main_def)
    then show ?thesis using k(3) unborn(4) by simp
  qed (use \<open>k \<in> _\<close> k(2) in \<open>auto simp: cv_main_def\<close>)
qed

interpretation condvar_main: invariant_system condvar_program "prog_init cv_main cv_init" cv_prog_inv
proof
  show "cv_prog_inv (prog_init cv_main cv_init)"
    using condvar.inv_init by (auto simp: cv_prog_inv_def prog_init_def)
qed (rule cv_prog_inv_step)

lemma cv_moves:
  assumes "cv_incs s" "cv_watch s"
  shows "\<exists>t < 3. cv_step t s \<noteq> None"
proof (cases "count_mutex s")
  case None
  then have "inc_early (inc_at s 1)" using assms(1) by (simp add: cv_incs_def)
  then have "cv_step 1 s \<noteq> None" using None by (auto simp: inc_early_def cv_step_def inc_count_def)
  then show ?thesis by (intro exI [of _ 1]) simp
next
  case (Some t)
  show ?thesis
  proof (cases t)
    case 0
    then have "watch_at s \<in> {VTest, VSay, VWait}" using assms(2) Some by (simp add: cv_watch_def)
    then have "cv_step 0 s \<noteq> None" by (auto simp: cv_step_def watch_count_def)
    then show ?thesis by (intro exI [of _ 0]) simp
  next
    case (Suc u)
    then have "u < 2" "inc_at s t = CAdd 0 \<or> inc_looping (inc_at s t)" using assms(1) Some by (auto simp: cv_incs_def)
    then have "cv_step t s \<noteq> None" using Suc by (auto simp: cv_step_def inc_count_def inc_looping_def)
    then show ?thesis using Suc \<open>u < 2\<close> by (intro exI [of _ t]) simp
  qed
qed

text \<open>
  \<open>condvar.c\<close> never ends.  Its \<open>while\<close> of line 40 (an \<open>if\<close> is what its comments describe) keeps
  the thread that incremented first in a loop with the mutex held: the process runs on for ever,
  the count never gets above 1, no incrementing thread comes to its unlock, and the watching
  thread never receives the condition.
\<close>

theorem condvar_never_ends:
  assumes "reachable condvar_program (prog_init cv_main cv_init) s"
  shows "ending s = Running \<and> \<not> stuck condvar_program s \<and> cv_count (shared s) \<le> 1 \<and>
     watch_at (shared s) \<noteq> VReceived \<and> (\<forall>t i. inc_at (shared s) t \<notin> {CUnlocking i, CUnlock i, CEnd})"
proof -
  have inv: "cv_prog_inv s" using assms by (rule condvar_main.reachable_inv)
  then obtain k where k: "k \<le> 3" "todo s = drop k cv_main" "\<forall>t. started s t \<longleftrightarrow> t < k" "ending s = Running"
    and sh: "cv_incs (shared s)" "cv_watch (shared s)"
    by (auto simp: cv_prog_inv_def)
  have "\<not> stuck condvar_program s"
  proof (cases "k = 3")
    case True
    obtain t where "t < 3" "cv_step t (shared s) \<noteq> None" using cv_moves [OF sh] by blast
    then have "condvar_program (Do t) s \<noteq> None"
      using True k by (auto simp: condvar_program_def prog_ok_def prog_step_def)
    then show ?thesis by (auto simp: stuck_def)
  next
    case False
    then have "k \<in> {0, 1, 2}" using k(1) by auto
    then have "condvar_program (MainDo True) s \<noteq> None"
      using k by (auto simp: condvar_program_def prog_ok_def prog_step_def main_next_def cv_main_def)
    then show ?thesis by (auto simp: stuck_def)
  qed
  moreover have "cv_count (shared s) \<le> 1" using sh(1) by (auto simp: cv_incs_def split: option.splits nat.splits)
  moreover have "watch_at (shared s) \<noteq> VReceived" using sh(2) by (auto simp: cv_watch_def split: if_splits)
  moreover have "inc_at (shared s) t \<notin> {CUnlocking i, CUnlock i, CEnd}" for t i
  proof -
    have "inc_early (inc_at (shared s) t) \<or> inc_at (shared s) t = CAdd 0 \<or> inc_looping (inc_at (shared s) t)"
    using sh(1) by (cases "count_mutex (shared s) = Some t") (auto simp: cv_incs_def split: option.splits nat.splits)
    then show ?thesis by (auto simp: inc_early_def inc_looping_def)
  qed
  ultimately show ?thesis using k(4) by blast
qed

theorem condvar_never_ends_witness:
  "\<exists>s. run condvar_program [MainDo True, MainDo True, Do 1, Do 1, Do 1, Do 1, Do 1] (prog_init cv_main cv_init) = Some s \<and>
     cv_log (shared s) = [''inc_count(): thread 2, count = 1  Threshold reached. ''] \<and>
     ending s = Running \<and> \<not> stuck condvar_program s"
proof -
  obtain s where s: "run condvar_program [MainDo True, MainDo True, Do 1, Do 1, Do 1, Do 1, Do 1] (prog_init cv_main cv_init) = Some s"
    "cv_log (shared s) = [''inc_count(): thread 2, count = 1  Threshold reached. '']"
    by (simp add: condvar_program_def prog_ok_def prog_step_def prog_init_def main_next_def cv_main_def spawn_def cv_step_def
        inc_count_def cv_init_def cv_print_def mutex_lock_def TCOUNT_def COUNT_LIMIT_def my_id_def show_simps
        numeral_2_eq_2 [symmetric])
  then show ?thesis using condvar_never_ends [OF run_reachable [OF s(1)]] by simp
qed

end
