(* ===== verification/Rendezvous.thy ===== *)
theory Rendezvous
  imports Thread_Program C_Runtime
begin

section \<open>Starting together: \<open>barrier.c\<close> and \<open>race_mutex_cond.c\<close>\<close>

text \<open>
  Two programs of \<open>src/Pthread\<close> in which \<open>main\<close> itself takes part in the meeting of its threads, so
  that \<open>main\<close> is one of the threads of the model.  What is printed is recorded as messages;
  \<open>bar_text\<close> and \<open>race_text\<close> give their text.
\<close>

subsection \<open>\<open>barrier.c\<close>\<close>

text \<open>
  A barrier is the list of the threads that have come to \<open>pthread_barrier_wait\<close>; the last of the
  \<open>n\<close> threads it was initialised for empties it, and a thread that is no longer in it goes on.
  Threads 0 to 3 run \<open>threadFn\<close>, thread 4 is \<open>main\<close>; \<open>wait_sec\<close> is what \<open>1 + rand () % 5\<close> gives them.
\<close>

definition barrier_arrive :: "nat \<Rightarrow> tid \<Rightarrow> tid list \<Rightarrow> tid list" where
  "barrier_arrive n t b = (if Suc (length b) = n then [] else b @ [t])"

datatype bar_msg = WaitFor tid int | Ready tid | Going tid | MainReady | MainGoing

fun bar_text :: "bar_msg \<Rightarrow> string" where
  "bar_text (WaitFor t w) = ''thread '' @ show_nat t @ '': Wait for '' @ show_int w @ '' seconds.''"
| "bar_text (Ready t) = ''thread '' @ show_nat t @ '': I'' @ [CHR 0x27] @ ''m ready...''"
| "bar_text (Going t) = ''thread '' @ show_nat t @ '': going!''"
| "bar_text MainReady = ''main() is ready.''"
| "bar_text MainGoing = ''main() is going!''"

datatype t_pc = TUnborn | TSay | TReady | TArrive | TBlocked | TGoing | TEnd
datatype m_pc = MCreate nat | MReady | MArrive | MBlocked | MGoing | MJoin nat | MDestroy | MReturn | MEnd

definition THREAD_COUNT :: nat where "THREAD_COUNT = 4"

record bar =
  mybarrier :: "tid list"
  t_at :: "tid \<Rightarrow> t_pc"
  m_at :: m_pc
  bar_log :: "bar_msg list"

definition threadFn :: "(tid \<Rightarrow> int) \<Rightarrow> tid \<Rightarrow> bar \<Rightarrow> bar option" where
  "threadFn wait_sec t s =
     (let goto = (\<lambda>p s. s\<lparr>t_at := (t_at s)(t := p)\<rparr>) in
      case t_at s t of
        TUnborn \<Rightarrow> None
      | TSay \<Rightarrow> Some (goto TReady (s\<lparr>bar_log := bar_log s @ [WaitFor t (wait_sec t)]\<rparr>))
      | TReady \<Rightarrow> Some (goto TArrive (s\<lparr>bar_log := bar_log s @ [Ready t]\<rparr>))
      | TArrive \<Rightarrow> Some (goto TBlocked (s\<lparr>mybarrier := barrier_arrive (THREAD_COUNT + 1) t (mybarrier s)\<rparr>))
      | TBlocked \<Rightarrow> if t \<in> set (mybarrier s) then None else Some (goto TGoing s)
      | TGoing \<Rightarrow> Some (goto TEnd (s\<lparr>bar_log := bar_log s @ [Going t]\<rparr>))
      | TEnd \<Rightarrow> None)"

definition bar_main :: "bar \<Rightarrow> bar option" where
  "bar_main s =
     (case m_at s of
        MCreate i \<Rightarrow> if i < THREAD_COUNT then Some (s\<lparr>t_at := (t_at s)(i := TSay), m_at := MCreate (i + 1)\<rparr>)
                     else Some (s\<lparr>m_at := MReady\<rparr>)
      | MReady \<Rightarrow> Some (s\<lparr>bar_log := bar_log s @ [MainReady], m_at := MArrive\<rparr>)
      | MArrive \<Rightarrow> Some (s\<lparr>mybarrier := barrier_arrive (THREAD_COUNT + 1) THREAD_COUNT (mybarrier s), m_at := MBlocked\<rparr>)
      | MBlocked \<Rightarrow> if THREAD_COUNT \<in> set (mybarrier s) then None else Some (s\<lparr>m_at := MGoing\<rparr>)
      | MGoing \<Rightarrow> Some (s\<lparr>bar_log := bar_log s @ [MainGoing], m_at := MJoin 0\<rparr>)
      | MJoin i \<Rightarrow> if i < THREAD_COUNT then (if t_at s i = TEnd then Some (s\<lparr>m_at := MJoin (i + 1)\<rparr>) else None)
                   else Some (s\<lparr>m_at := MDestroy\<rparr>)
      | MDestroy \<Rightarrow> Some (s\<lparr>m_at := MReturn\<rparr>)
      | MReturn \<Rightarrow> Some (s\<lparr>m_at := MEnd\<rparr>)
      | MEnd \<Rightarrow> None)"

definition bar_step :: "(tid \<Rightarrow> int) \<Rightarrow> tid \<Rightarrow> bar \<Rightarrow> bar option" where
  "bar_step w t s = (if m_at s = MEnd then None else if t < THREAD_COUNT then threadFn w t s
     else if t = THREAD_COUNT then bar_main s else None)"

definition bar_init :: bar where
  "bar_init = \<lparr>mybarrier = [], t_at = (\<lambda>_. TUnborn), m_at = MCreate 0, bar_log = []\<rparr>"

text \<open>
  The invariant: before the barrier opens it holds exactly the threads that are blocked and nobody
  is beyond it; afterwards it is empty and everybody has reached it.
\<close>

fun m_made :: "m_pc \<Rightarrow> nat" where
  "m_made (MCreate i) = i" | "m_made _ = 4"

fun m_before :: "m_pc \<Rightarrow> bool" where
  "m_before (MCreate i) = (i \<le> 4)" | "m_before MReady = True" | "m_before MArrive = True" | "m_before _ = False"

definition blocked :: "(tid \<Rightarrow> t_pc) \<Rightarrow> tid set" where
  "blocked f = {t. t < 4 \<and> f t = TBlocked}"

fun t_arrived :: "t_pc \<Rightarrow> bool" where
  "t_arrived TBlocked = True" | "t_arrived TGoing = True" | "t_arrived TEnd = True" | "t_arrived _ = False"

fun t_beyond :: "t_pc \<Rightarrow> bool" where
  "t_beyond TGoing = True" | "t_beyond TEnd = True" | "t_beyond _ = False"

fun going :: "bar_msg \<Rightarrow> bool" where
  "going (Going t) = True" | "going MainGoing = True" | "going _ = False"

definition bar_closed :: "bar \<Rightarrow> bool" where
  "bar_closed s \<longleftrightarrow> distinct (mybarrier s) \<and> length (mybarrier s) < 5 \<and>
     set (mybarrier s) = blocked (t_at s) \<union> (if m_at s = MBlocked then {4} else {}) \<and>
     (\<forall>t < 4. \<not> t_beyond (t_at s t)) \<and> (m_before (m_at s) \<or> m_at s = MBlocked) \<and>
     (\<forall>m \<in> set (bar_log s). \<not> going m)"

definition bar_open :: "bar \<Rightarrow> bool" where
  "bar_open s \<longleftrightarrow> mybarrier s = [] \<and> (\<forall>t < 4. t_arrived (t_at s t)) \<and> \<not> m_before (m_at s) \<and> m_made (m_at s) = 4"

definition said_ready :: "(tid \<Rightarrow> t_pc) \<Rightarrow> bar_msg list \<Rightarrow> bool" where
  "said_ready f l \<longleftrightarrow> (\<forall>t < 4. t_arrived (f t) \<or> f t = TArrive \<longrightarrow> Ready t \<in> set l)"

definition born :: "(tid \<Rightarrow> t_pc) \<Rightarrow> nat \<Rightarrow> bool" where
  "born f n \<longleftrightarrow> (\<forall>t < 4. f t = TUnborn \<longleftrightarrow> n \<le> t)"

definition bar_logged :: "bar \<Rightarrow> bool" where
  "bar_logged s \<longleftrightarrow> said_ready (t_at s) (bar_log s) \<and> born (t_at s) (m_made (m_at s)) \<and>
     (m_at s = MArrive \<or> m_made (m_at s) = 4 \<and> \<not> m_before (m_at s) \<longrightarrow> MainReady \<in> set (bar_log s))"

definition bar_joined :: "bar \<Rightarrow> bool" where
  "bar_joined s \<longleftrightarrow>
     (case m_at s of MJoin i \<Rightarrow> i \<le> 4 \<and> (\<forall>t < i. t_at s t = TEnd) | MDestroy \<Rightarrow> (\<forall>t < 4. t_at s t = TEnd)
      | MReturn \<Rightarrow> (\<forall>t < 4. t_at s t = TEnd) | MEnd \<Rightarrow> (\<forall>t < 4. t_at s t = TEnd) | _ \<Rightarrow> True)"

definition bar_inv :: "bar \<Rightarrow> bool" where
  "bar_inv s \<longleftrightarrow> (bar_closed s \<or> bar_open s) \<and> bar_logged s \<and> bar_joined s"

lemma blocked_upd:
  "f t \<noteq> TBlocked \<Longrightarrow> blocked (f(t := p)) = (if p = TBlocked \<and> t < 4 then insert t (blocked f) else blocked f)"
  by (auto simp: blocked_def)

lemma blocked_le: "blocked f \<subseteq> {..4}" "4 \<notin> blocked f"
  by (auto simp: blocked_def)

lemma said_ready_append: "said_ready f l \<Longrightarrow> said_ready f (l @ ms)"
  by (simp add: said_ready_def)

lemma said_ready_upd:
  "said_ready f l \<Longrightarrow> Ready t \<in> set l \<or> \<not> (t_arrived p \<or> p = TArrive) \<Longrightarrow> said_ready (f(t := p)) l"
  by (auto simp: said_ready_def)

lemma born_upd: "born f n \<Longrightarrow> f t \<noteq> TUnborn \<Longrightarrow> p \<noteq> TUnborn \<Longrightarrow> born (f(t := p)) n"
  by (auto simp: born_def)

lemma born_next: "born f n \<Longrightarrow> born (f(n := TSay)) (Suc n)"
  by (auto simp: born_def)

text \<open>The barrier is full when all five have come.\<close>

lemma barrier_full:
  assumes "distinct b" "set b \<subseteq> {..4::nat}" "t \<le> 4" "t \<notin> set b" "Suc (length b) = 5"
  shows "set b = {..4} - {t}"
proof (rule card_subset_eq)
  show "card (set b) = card ({..4} - {t})" using assms by (simp add: distinct_card)
qed (use assms in auto)

lemma bar_closed_arrive:
  assumes "bar_closed s" "t < 4" "t_at s t = TArrive" and s': "threadFn w t s = Some s'"
  shows "bar_closed s' \<or> bar_open s'"
proof -
  have mem: "set (mybarrier s) = blocked (t_at s) \<union> (if m_at s = MBlocked then {4} else {})"
    and d: "distinct (mybarrier s)" using assms(1) by (simp_all add: bar_closed_def)
  have nt: "t \<notin> set (mybarrier s)" using mem assms(2,3) by (simp add: blocked_def)
  have s: "s' = s\<lparr>mybarrier := barrier_arrive 5 t (mybarrier s), t_at := (t_at s)(t := TBlocked)\<rparr>"
    using assms(3) s' by (simp add: threadFn_def THREAD_COUNT_def)
  show ?thesis
  proof (cases "Suc (length (mybarrier s)) = 5")
    case True
    have "set (mybarrier s) \<subseteq> {..4}" using mem blocked_le by simp
    then have "set (mybarrier s) = {..4} - {t}" using d nt True assms(2) by (intro barrier_full) simp_all
    then have "u \<in> set (mybarrier s)" if "u \<le> 4" "u \<noteq> t" for u using that by simp
    then have "t_at s u = TBlocked" if "u < 4" "u \<noteq> t" for u
      using that \<open>\<And>u. u \<le> 4 \<Longrightarrow> u \<noteq> t \<Longrightarrow> _\<close> [of u] mem by (auto simp: blocked_def split: if_splits)
    moreover have "m_at s = MBlocked"
      using \<open>\<And>u. u \<le> 4 \<Longrightarrow> u \<noteq> t \<Longrightarrow> _\<close> [of 4] mem assms(2) blocked_le(2) by (simp split: if_splits)
    ultimately show ?thesis using True s by (simp add: bar_open_def barrier_arrive_def)
  next
    case False
    have "blocked ((t_at s)(t := TBlocked)) = insert t (blocked (t_at s))" using assms(2,3) by (simp add: blocked_upd)
    then show ?thesis using assms(1,2) nt s False by (intro disjI1) (simp add: bar_closed_def barrier_arrive_def)
  qed
qed

lemma bar_closed_main_arrive:
  assumes "bar_closed s" "m_at s = MArrive" and s': "bar_main s = Some s'"
  shows "bar_closed s' \<or> bar_open s'"
proof -
  have mem: "set (mybarrier s) = blocked (t_at s)" and d: "distinct (mybarrier s)"
    using assms(1,2) by (simp_all add: bar_closed_def)
  have n4: "4 \<notin> set (mybarrier s)" using mem blocked_le by simp
  have s: "s' = s\<lparr>mybarrier := barrier_arrive 5 4 (mybarrier s), m_at := MBlocked\<rparr>"
    using assms(2) s' by (simp add: bar_main_def THREAD_COUNT_def)
  show ?thesis
  proof (cases "Suc (length (mybarrier s)) = 5")
    case True
    have "set (mybarrier s) \<subseteq> {..4}" using mem blocked_le by simp
    then have "set (mybarrier s) = {..4} - {4}" using d n4 True by (intro barrier_full) simp_all
    then have "u \<in> set (mybarrier s)" if "u < 4" for u using that by simp
    then have "\<forall>u < 4. t_at s u = TBlocked" using mem by (simp add: blocked_def)
    then show ?thesis using True s by (simp add: bar_open_def barrier_arrive_def)
  next
    case False
    then show ?thesis using assms(1,2) n4 s by (intro disjI1) (simp add: bar_closed_def barrier_arrive_def)
  qed
qed

lemma bar_closed_step:
  assumes "bar_closed s" "bar_logged s" "bar_step w t s = Some s'"
  shows "bar_closed s' \<or> bar_open s'"
proof (cases "t < 4")
  case True
  then have f: "threadFn w t s = Some s'" using assms(3) by (simp add: bar_step_def THREAD_COUNT_def split: if_splits)
  have b: "\<not> t_beyond (t_at s t)" using assms(1) True by (simp add: bar_closed_def)
  show ?thesis
  proof (cases "t_at s t")
    case TArrive
    then show ?thesis using bar_closed_arrive assms(1) True f by blast
  next
    case TBlocked
    then have "t \<in> set (mybarrier s)" using assms(1) True by (simp add: bar_closed_def blocked_def)
    then show ?thesis using f TBlocked by (simp add: threadFn_def)
  next
    case TSay
    with f assms(1) show ?thesis by (intro disjI1) (auto simp: threadFn_def bar_closed_def blocked_upd split: if_splits)
  next
    case TReady
    with f assms(1) show ?thesis by (intro disjI1) (auto simp: threadFn_def bar_closed_def blocked_upd split: if_splits)
  qed (use f b in \<open>simp_all add: threadFn_def\<close>)
next
  case False
  then have f: "bar_main s = Some s'" using assms(3) by (simp add: bar_step_def THREAD_COUNT_def split: if_splits)
  have b: "m_before (m_at s) \<or> m_at s = MBlocked" using assms(1) by (simp add: bar_closed_def)
  show ?thesis
  proof (cases "m_at s")
    case MArrive
    then show ?thesis using bar_closed_main_arrive assms(1) f by blast
  next
    case MBlocked
    then have "4 \<in> set (mybarrier s)" using assms(1) by (simp add: bar_closed_def)
    then show ?thesis using f MBlocked by (simp add: bar_main_def THREAD_COUNT_def)
  next
    case (MCreate i)
    then have "i < 4 \<Longrightarrow> t_at s i = TUnborn" using assms(2) by (simp add: bar_logged_def born_def)
    with MCreate f assms(1) show ?thesis
      by (intro disjI1) (auto simp: bar_main_def bar_closed_def THREAD_COUNT_def blocked_upd split: if_splits)
  next
    case MReady
    with f assms(1) show ?thesis by (intro disjI1) (auto simp: bar_main_def bar_closed_def)
  qed (use f b in \<open>simp_all add: bar_main_def\<close>)
qed

lemma bar_open_step:
  assumes "bar_open s" "bar_step w t s = Some s'"
  shows "bar_open s'"
proof (cases "t < 4")
  case True
  then have "threadFn w t s = Some s'" using assms(2) by (simp add: bar_step_def THREAD_COUNT_def split: if_splits)
  moreover have "t_arrived (t_at s t)" using assms(1) True by (simp add: bar_open_def)
  ultimately show ?thesis using assms(1)
    by (cases "t_at s t") (auto simp: threadFn_def bar_open_def split: if_splits)
next
  case False
  then have "bar_main s = Some s'" using assms(2) by (simp add: bar_step_def THREAD_COUNT_def split: if_splits)
  then show ?thesis using assms(1) by (cases "m_at s") (auto simp: bar_main_def bar_open_def split: if_splits)
qed

lemma bar_logged_thread:
  assumes "bar_logged s" "t < 4" "threadFn w t s = Some s'"
  shows "bar_logged s'"
  using assms
  by (cases "t_at s t")
    (auto simp: threadFn_def bar_logged_def said_ready_append intro!: said_ready_upd born_upd split: if_splits,
     simp_all add: said_ready_def)

lemma bar_logged_main:
  assumes "bar_logged s" "m_made (m_at s) \<le> 4" "bar_main s = Some s'"
  shows "bar_logged s'"
  using assms
  by (cases "m_at s")
    (auto simp: bar_main_def bar_logged_def said_ready_append THREAD_COUNT_def intro!: said_ready_upd born_next
      dest!: le_antisym split: if_splits)

lemma bar_made: "bar_closed s \<or> bar_open s \<Longrightarrow> m_made (m_at s) \<le> 4"
  by (cases "m_at s") (auto simp: bar_closed_def bar_open_def)

lemma bar_joined_step:
  assumes "bar_joined s" "bar_step w t s = Some s'"
  shows "bar_joined s'"
proof (cases "t < 4")
  case True
  then have "threadFn w t s = Some s'" using assms(2) by (simp add: bar_step_def THREAD_COUNT_def split: if_splits)
  then have "t_at s t \<noteq> TEnd \<and> m_at s' = m_at s \<and> (\<exists>p. t_at s' = (t_at s)(t := p))"
    by (cases "t_at s t") (auto simp: threadFn_def split: if_splits)
  then show ?thesis using assms(1) True by (auto simp: bar_joined_def split: m_pc.splits)
next
  case False
  then have "bar_main s = Some s'" using assms(2) by (simp add: bar_step_def THREAD_COUNT_def split: if_splits)
  then show ?thesis using assms(1)
    by (cases "m_at s") (auto simp: bar_main_def bar_joined_def THREAD_COUNT_def less_Suc_eq split: if_splits)
qed

lemma bar_inv_step:
  assumes "bar_inv s" "bar_step w t s = Some s'"
  shows "bar_inv s'"
proof -
  have i: "bar_closed s \<or> bar_open s" "bar_logged s" "bar_joined s" using assms(1) by (simp_all add: bar_inv_def)
  have "threadFn w t s = Some s' \<and> t < 4 \<or> bar_main s = Some s'"
    using assms(2) by (auto simp: bar_step_def THREAD_COUNT_def split: if_splits)
  then have "bar_logged s'" using bar_logged_thread bar_logged_main i(2) bar_made [OF i(1)] by blast
  then show ?thesis
    using i bar_closed_step bar_open_step bar_joined_step assms(2) unfolding bar_inv_def by blast
qed

fun t_rank :: "t_pc \<Rightarrow> nat" where
  "t_rank TUnborn = 6" | "t_rank TSay = 5" | "t_rank TReady = 4" | "t_rank TArrive = 3" | "t_rank TBlocked = 2"
| "t_rank TGoing = 1" | "t_rank TEnd = 0"

fun m_rank :: "m_pc \<Rightarrow> nat" where
  "m_rank (MCreate i) = 17 - i" | "m_rank MReady = 12" | "m_rank MArrive = 11" | "m_rank MBlocked = 10" | "m_rank MGoing = 9"
| "m_rank (MJoin i) = 8 - i" | "m_rank MDestroy = 3" | "m_rank MReturn = 2" | "m_rank MEnd = 0"

definition bar_msr :: "bar \<Rightarrow> nat" where
  "bar_msr s = (\<Sum>t < 4. t_rank (t_at s t)) + m_rank (m_at s)"

lemma sum_upd:
  fixes g :: "'a \<Rightarrow> nat"
  shows "(t::nat) < n \<Longrightarrow> (\<Sum>u < n. g ((f(t := p)) u)) + g (f t) = (\<Sum>u < n. g (f u)) + g p"
  by (simp add: sum.remove [of "{..<n}" t])

lemma bar_msr_step:
  assumes "bar_inv s" "bar_step w t s = Some s'"
  shows "bar_msr s' < bar_msr s"
proof (cases "t < 4")
  case True
  then have "threadFn w t s = Some s'" using assms(2) by (simp add: bar_step_def THREAD_COUNT_def split: if_splits)
  then have r: "t_rank (t_at s' t) < t_rank (t_at s t)" "m_at s' = m_at s" "t_at s' = (t_at s)(t := t_at s' t)"
    by (cases "t_at s t"; auto simp: threadFn_def split: if_splits)+
  have "(\<Sum>u < 4. t_rank (t_at s' u)) + t_rank (t_at s t) = (\<Sum>u < 4. t_rank (t_at s u)) + t_rank (t_at s' t)"
    using sum_upd [OF True, of t_rank "t_at s" "t_at s' t"] r(3) by simp
  then show ?thesis using r(1,2) by (simp add: bar_msr_def)
next
  case False
  then have f: "bar_main s = Some s'" using assms(2) by (simp add: bar_step_def THREAD_COUNT_def split: if_splits)
  have i: "bar_closed s \<or> bar_open s" "bar_logged s" "bar_joined s" using assms(1) by (simp_all add: bar_inv_def)
  show ?thesis
  proof (cases "m_at s")
    case (MCreate i)
    show ?thesis
    proof (cases "i < 4")
      case True
      then have "t_at s i = TUnborn" using i(2) MCreate by (simp add: bar_logged_def born_def)
      then show ?thesis using True MCreate f sum_upd [OF True, of t_rank "t_at s" TSay]
        by (auto simp: bar_main_def bar_msr_def THREAD_COUNT_def)
    next
      case False
      then show ?thesis using MCreate f bar_made [OF i(1)] by (auto simp: bar_main_def bar_msr_def THREAD_COUNT_def)
    qed
  next
    case (MJoin i)
    then show ?thesis using f i(3) by (auto simp: bar_main_def bar_msr_def THREAD_COUNT_def bar_joined_def split: if_splits)
  qed (use f in \<open>auto simp: bar_main_def bar_msr_def split: if_splits\<close>)
qed

lemma bar_progress:
  assumes "bar_inv s" "m_at s \<noteq> MEnd"
  shows "\<exists>t s'. bar_step w t s = Some s'"
proof -
  have i: "bar_closed s \<or> bar_open s" "bar_logged s" "bar_joined s" using assms(1) by (simp_all add: bar_inv_def)
  have thr: ?thesis if "t < 4" "threadFn w t s \<noteq> None" for t
  proof -
    have "bar_step w t s \<noteq> None" using that assms(2) by (simp add: bar_step_def THREAD_COUNT_def)
    then show ?thesis by blast
  qed
  have mn: ?thesis if "bar_main s \<noteq> None"
  proof -
    have "bar_step w 4 s \<noteq> None" using that assms(2) by (simp add: bar_step_def THREAD_COUNT_def)
    then show ?thesis by blast
  qed
  from i(1) show ?thesis
  proof
    assume c: "bar_closed s"
    show ?thesis
    proof (cases "m_at s = MBlocked \<and> (\<forall>t < 4. t_at s t = TBlocked)")
      case True
      then have "blocked (t_at s) = {..<4}" by (auto simp: blocked_def)
      then have "set (mybarrier s) = {..<5}" using c True by (auto simp: bar_closed_def)
      moreover have "distinct (mybarrier s)" using c by (simp add: bar_closed_def)
      ultimately have "length (mybarrier s) = 5" using distinct_card [of "mybarrier s"] by simp
      then show ?thesis using c by (simp add: bar_closed_def)
    next
      case False
      show ?thesis
      proof (cases "m_at s = MBlocked")
        case True
        then obtain t where t: "t < 4" "t_at s t \<noteq> TBlocked" using False by blast
        then have "t_at s t \<noteq> TUnborn" "\<not> t_beyond (t_at s t)"
          using i(2) c True by (simp_all add: bar_logged_def born_def bar_closed_def)
        then have "threadFn w t s \<noteq> None" using t(2) by (cases "t_at s t") (simp_all add: threadFn_def)
        then show ?thesis using thr t(1) by blast
      next
        case False
        then have "m_before (m_at s)" using c by (simp add: bar_closed_def)
        then have "bar_main s \<noteq> None" by (cases "m_at s") (simp_all add: bar_main_def)
        then show ?thesis by (rule mn)
      qed
    qed
  next
    assume o: "bar_open s"
    show ?thesis
    proof (cases "\<exists>i < 4. m_at s = MJoin i \<and> t_at s i \<noteq> TEnd")
      case True
      then obtain i where "i < 4" "t_at s i \<noteq> TEnd" by blast
      moreover from this have "threadFn w i s \<noteq> None" using o
        by (cases "t_at s i") (auto simp: threadFn_def bar_open_def)
      ultimately show ?thesis using thr by blast
    next
      case False
      then have "bar_main s \<noteq> None" using o assms(2)
        by (cases "m_at s") (auto simp: bar_main_def bar_open_def THREAD_COUNT_def)
      then show ?thesis by (rule mn)
    qed
  qed
qed

interpretation barrier: terminating_system "bar_step w" bar_init bar_inv bar_msr "\<lambda>s. m_at s = MEnd" for w
proof
  show "bar_inv bar_init"
    by (simp add: bar_inv_def bar_init_def bar_closed_def blocked_def bar_logged_def said_ready_def born_def bar_joined_def)
qed (fact bar_inv_step bar_msr_step bar_progress)+

text \<open>
  C34: in \<open>barrier.c\<close> nobody goes before everybody is ready: when any thread, or \<open>main\<close>, has printed
  that it is going, the ready lines of all four threads and of \<open>main\<close> have been printed; and the
  program always comes to its \<open>return\<close>, in at most 41 steps, with all threads over.
\<close>

theorem barrier_correct:
  assumes "run (bar_step w) as bar_init = Some s"
  shows "length as \<le> 41 \<and>
     ((\<exists>m \<in> set (bar_log s). going m) \<longrightarrow> MainReady \<in> set (bar_log s) \<and> (\<forall>t < THREAD_COUNT. Ready t \<in> set (bar_log s))) \<and>
     (stuck (bar_step w) s \<longrightarrow> m_at s = MEnd \<and> (\<forall>t < THREAD_COUNT. t_at s t = TEnd))"
proof -
  have inv: "bar_inv s" by (rule barrier.run_inv [OF assms])
  have "length as \<le> 41" using barrier.run_bounded [OF assms] by (simp add: bar_msr_def bar_init_def)
  moreover have "MainReady \<in> set (bar_log s) \<and> (\<forall>t < THREAD_COUNT. Ready t \<in> set (bar_log s))"
    if "\<exists>m \<in> set (bar_log s). going m"
  proof -
    have "bar_open s" using that inv by (auto simp: bar_inv_def bar_closed_def)
    then show ?thesis using inv by (auto simp: bar_inv_def bar_logged_def said_ready_def bar_open_def THREAD_COUNT_def)
  qed
  moreover have "m_at s = MEnd \<and> (\<forall>t < THREAD_COUNT. t_at s t = TEnd)" if "stuck (bar_step w) s"
    using barrier.stuck_final [OF inv that] inv by (simp add: bar_inv_def bar_joined_def THREAD_COUNT_def)
  ultimately show ?thesis by blast
qed

theorem barrier_correct_witness:
  "\<exists>s. run (bar_step (\<lambda>t. 1)) [4, 4, 4, 4, 4, 4, 0, 0, 0] bar_init = Some s \<and>
     map bar_text (bar_log s) = [''main() is ready.'', ''thread 0: Wait for 1 seconds.'', ''thread 0: I'' @ [CHR 0x27] @ ''m ready...''] \<and>
     \<not> stuck (bar_step (\<lambda>t. 1)) s"
proof -
  obtain s where s: "run (bar_step (\<lambda>t. 1)) [4, 4, 4, 4, 4, 4, 0, 0, 0] bar_init = Some s" "m_at s = MArrive"
    "map bar_text (bar_log s) = [''main() is ready.'', ''thread 0: Wait for 1 seconds.'', ''thread 0: I'' @ [CHR 0x27] @ ''m ready...'']"
    by (simp add: bar_step_def bar_main_def threadFn_def bar_init_def THREAD_COUNT_def barrier_arrive_def show_simps)
  then show ?thesis using barrier_correct [OF s(1)] by auto
qed

subsection \<open>\<open>race_mutex_cond.c\<close>\<close>

text \<open>
  Threads 0 to 4 run \<open>GoRun\<close> (the horses), thread 5 is \<open>main\<close>.  Using the mutex or the condition
  variable after it has been destroyed, destroying the condition variable while a thread is
  blocked on it, or the mutex while it is locked, is undefined: it ends the run (\<open>bad\<close>).
\<close>

definition NUM_THREADS :: nat where "NUM_THREADS = 5"

definition Target :: nat where "Target = 10000"

datatype race_msg = Number nat | ReadyPlus tid | ReadyMinus tid | Go tid | Achieves tid | JoinOf tid

fun race_text :: "race_msg \<Rightarrow> string" where
  "race_text (Number i) = show_nat i"
| "race_text (ReadyPlus t) = ''Horse['' @ show_nat t @ ''] ready++++''"
| "race_text (ReadyMinus t) = ''Horse['' @ show_nat t @ ''] ready----''"
| "race_text (Go t) = ''Horse['' @ show_nat t @ ''] go!''"
| "race_text (Achieves t) = ''Horse['' @ show_nat t @ ''] achieves target''"
| "race_text (JoinOf t) = ''join '' @ show_nat t"

datatype h_pc = HUnborn | HLock | HReady | HWait | HWaiting | HUp | HUnlock | HGo | HMove nat | HTarget | HEnd
datatype g_pc = GPrint nat | GCreate nat | GLock | GBroadcast | GUnlock | GCondDestroy | GMutexDestroy | GJoin nat | GJoined nat | GReturn | GEnd

record race =
  rmutex :: mutex
  rcond :: cond
  cond_gone :: bool
  mutex_gone :: bool
  h_at :: "tid \<Rightarrow> h_pc"
  g_at :: g_pc
  race_log :: "race_msg list"
  bad :: bool

definition needs :: "bool \<Rightarrow> race \<Rightarrow> race option \<Rightarrow> race option" where
  "needs ok s s' = (if ok then s' else Some (s\<lparr>bad := True\<rparr>))"

definition GoRun :: "tid \<Rightarrow> race \<Rightarrow> race option" where
  "GoRun t s =
     (let goto = (\<lambda>p s. s\<lparr>h_at := (h_at s)(t := p)\<rparr>); say = (\<lambda>m s. s\<lparr>race_log := race_log s @ [m]\<rparr>) in
      case h_at s t of
        HUnborn \<Rightarrow> None
      | HLock \<Rightarrow> needs (\<not> mutex_gone s) s (map_option (\<lambda>m. goto HReady (s\<lparr>rmutex := m\<rparr>)) (mutex_lock t (rmutex s)))
      | HReady \<Rightarrow> Some (goto HWait (say (ReadyPlus t) s))
      | HWait \<Rightarrow> needs (\<not> cond_gone s \<and> \<not> mutex_gone s) s
                  (Some (goto HWaiting (s\<lparr>rmutex := mutex_unlock (rmutex s), rcond := cond_enqueue t (rcond s)\<rparr>)))
      | HWaiting \<Rightarrow> if t \<in> set (rcond s) then None
                  else needs (\<not> mutex_gone s) s (map_option (\<lambda>m. goto HUp (s\<lparr>rmutex := m\<rparr>)) (mutex_lock t (rmutex s)))
      | HUp \<Rightarrow> Some (goto HUnlock (say (ReadyMinus t) s))
      | HUnlock \<Rightarrow> needs (\<not> mutex_gone s) s (Some (goto HGo (s\<lparr>rmutex := mutex_unlock (rmutex s)\<rparr>)))
      | HGo \<Rightarrow> Some (goto (HMove 0) (say (Go t) s))
      | HMove n \<Rightarrow> Some (goto (if n < Target then HMove (n + 1) else HTarget) s)
      | HTarget \<Rightarrow> Some (goto HEnd (say (Achieves t) s))
      | HEnd \<Rightarrow> None)"

definition race_main :: "race \<Rightarrow> race option" where
  "race_main s =
     (let say = (\<lambda>m s. s\<lparr>race_log := race_log s @ [m]\<rparr>) in
      case g_at s of
        GPrint i \<Rightarrow> if i < NUM_THREADS then Some ((say (Number i) s)\<lparr>g_at := GCreate i\<rparr>) else Some (s\<lparr>g_at := GLock\<rparr>)
      | GCreate i \<Rightarrow> Some (s\<lparr>h_at := (h_at s)(i := HLock), g_at := GPrint (i + 1)\<rparr>)
      | GLock \<Rightarrow> map_option (\<lambda>m. s\<lparr>rmutex := m, g_at := GBroadcast\<rparr>) (mutex_lock NUM_THREADS (rmutex s))
      | GBroadcast \<Rightarrow> Some (s\<lparr>rcond := cond_broadcast (rcond s), g_at := GUnlock\<rparr>)
      | GUnlock \<Rightarrow> Some (s\<lparr>rmutex := mutex_unlock (rmutex s), g_at := GCondDestroy\<rparr>)
      | GCondDestroy \<Rightarrow> needs (rcond s = []) s (Some (s\<lparr>cond_gone := True, g_at := GMutexDestroy\<rparr>))
      | GMutexDestroy \<Rightarrow> needs (rmutex s = None) s (Some (s\<lparr>mutex_gone := True, g_at := GJoin 0\<rparr>))
      | GJoin i \<Rightarrow> if i < NUM_THREADS then (if h_at s i = HEnd then Some (s\<lparr>g_at := GJoined i\<rparr>) else None)
                   else Some (s\<lparr>g_at := GReturn\<rparr>)
      | GJoined i \<Rightarrow> Some ((say (JoinOf i) s)\<lparr>g_at := GJoin (i + 1)\<rparr>)
      | GReturn \<Rightarrow> Some (s\<lparr>g_at := GEnd\<rparr>)
      | GEnd \<Rightarrow> None)"

definition race_step :: "tid \<Rightarrow> race \<Rightarrow> race option" where
  "race_step t s = (if bad s \<or> g_at s = GEnd then None else if t < NUM_THREADS then GoRun t s
     else if t = NUM_THREADS then race_main s else None)"

definition race_init :: race where
  "race_init = \<lparr>rmutex = None, rcond = [], cond_gone = False, mutex_gone = False, h_at = (\<lambda>_. HUnborn),
     g_at = GPrint 0, race_log = [], bad = False\<rparr>"

text \<open>Who holds the mutex; how far \<open>main\<close> is; which horses have left the gate.\<close>

fun h_holds :: "h_pc \<Rightarrow> bool" where
  "h_holds HReady = True" | "h_holds HWait = True" | "h_holds HUp = True" | "h_holds HUnlock = True" | "h_holds _ = False"

fun h_away :: "h_pc \<Rightarrow> bool" where
  "h_away HUp = True" | "h_away HUnlock = True" | "h_away HGo = True" | "h_away (HMove n) = True" | "h_away HTarget = True"
| "h_away HEnd = True" | "h_away _ = False"

fun g_stage :: "g_pc \<Rightarrow> nat" where
  "g_stage (GPrint i) = 0" | "g_stage (GCreate i) = 0" | "g_stage GLock = 0" | "g_stage GBroadcast = 0"
| "g_stage GUnlock = 1" | "g_stage GCondDestroy = 1" | "g_stage GMutexDestroy = 2" | "g_stage _ = 3"

fun g_holds :: "g_pc \<Rightarrow> bool" where
  "g_holds GBroadcast = True" | "g_holds GUnlock = True" | "g_holds _ = False"

fun g_made :: "g_pc \<Rightarrow> nat" where
  "g_made (GPrint i) = i" | "g_made (GCreate i) = i" | "g_made _ = 5"

fun is_go :: "race_msg \<Rightarrow> bool" where
  "is_go (Go t) = True" | "is_go _ = False"

definition race_lock :: "race \<Rightarrow> bool" where
  "race_lock s \<longleftrightarrow> (\<forall>t < 5. h_holds (h_at s t) \<longleftrightarrow> rmutex s = Some t) \<and> (g_holds (g_at s) \<longleftrightarrow> rmutex s = Some 5) \<and>
     (\<forall>t. rmutex s = Some t \<longrightarrow> t \<le> 5)"

definition race_gate :: "race \<Rightarrow> bool" where
  "race_gate s \<longleftrightarrow> cond_gone s = (2 \<le> g_stage (g_at s)) \<and> mutex_gone s = (3 \<le> g_stage (g_at s)) \<and>
     (cond_gone s \<longrightarrow> rcond s = []) \<and>
     (g_stage (g_at s) = 0 \<longrightarrow>
        (\<forall>t < 5. \<not> h_away (h_at s t) \<and> (h_at s t = HWaiting \<longrightarrow> t \<in> set (rcond s))) \<and> (\<forall>m \<in> set (race_log s). \<not> is_go m))"

definition race_made :: "race \<Rightarrow> bool" where
  "race_made s \<longleftrightarrow> g_made (g_at s) \<le> 5 \<and> (\<forall>i. g_at s = GCreate i \<longrightarrow> i < 5) \<and>
     (\<forall>t < 5. h_at s t = HUnborn \<longleftrightarrow> g_made (g_at s) \<le> t)"

definition race_joined :: "race \<Rightarrow> bool" where
  "race_joined s \<longleftrightarrow>
     (case g_at s of GJoin i \<Rightarrow> i \<le> 5 \<and> (\<forall>t < i. h_at s t = HEnd) | GJoined i \<Rightarrow> i < 5 \<and> (\<forall>t < Suc i. h_at s t = HEnd)
      | GReturn \<Rightarrow> (\<forall>t < 5. h_at s t = HEnd) | GEnd \<Rightarrow> (\<forall>t < 5. h_at s t = HEnd) | _ \<Rightarrow> True)"

definition race_inv :: "race \<Rightarrow> bool" where
  "race_inv s \<longleftrightarrow> race_lock s \<and> race_gate s \<and> race_made s \<and> race_joined s"

lemma needs_Some: "needs ok s s' = Some t \<longleftrightarrow> (if ok then s' = Some t else t = s\<lparr>bad := True\<rparr>)"
  by (auto simp: needs_def)

text \<open>What a step of a horse does: it moves that horse, takes or frees the mutex, joins the queue.\<close>

lemma GoRunE:
  assumes "GoRun t s = Some s'"
  obtains (bad) "s' = s\<lparr>bad := True\<rparr>"
    | (lock) "h_at s t = HLock" "rmutex s = None" "s' = s\<lparr>rmutex := Some t, h_at := (h_at s)(t := HReady)\<rparr>"
    | (wait) "h_at s t = HWait" "\<not> cond_gone s"
        "s' = s\<lparr>rmutex := None, rcond := rcond s @ [t], h_at := (h_at s)(t := HWaiting)\<rparr>"
    | (relock) "h_at s t = HWaiting" "t \<notin> set (rcond s)" "rmutex s = None" "s' = s\<lparr>rmutex := Some t, h_at := (h_at s)(t := HUp)\<rparr>"
    | (unlock) "h_at s t = HUnlock" "s' = s\<lparr>rmutex := None, h_at := (h_at s)(t := HGo)\<rparr>"
    | (ready) "h_at s t = HReady" "s' = s\<lparr>race_log := race_log s @ [ReadyPlus t], h_at := (h_at s)(t := HWait)\<rparr>"
    | (up) "h_at s t = HUp" "s' = s\<lparr>race_log := race_log s @ [ReadyMinus t], h_at := (h_at s)(t := HUnlock)\<rparr>"
    | (go) "h_at s t = HGo" "s' = s\<lparr>race_log := race_log s @ [Go t], h_at := (h_at s)(t := HMove 0)\<rparr>"
    | (moves) n where "h_at s t = HMove n" "s' = s\<lparr>h_at := (h_at s)(t := if n < Target then HMove (n + 1) else HTarget)\<rparr>"
    | (achieves) "h_at s t = HTarget" "s' = s\<lparr>race_log := race_log s @ [Achieves t], h_at := (h_at s)(t := HEnd)\<rparr>"
proof (cases "h_at s t")
  case HLock
  then show thesis using assms bad lock by (simp add: GoRun_def needs_Some cond_enqueue_def split: if_splits)
next
  case HWait
  then show thesis using assms bad wait by (simp add: GoRun_def needs_Some cond_enqueue_def split: if_splits)
next
  case HWaiting
  then show thesis using assms bad relock by (simp add: GoRun_def needs_Some cond_enqueue_def split: if_splits)
next
  case HUnlock
  then show thesis using assms bad unlock by (simp add: GoRun_def needs_Some cond_enqueue_def split: if_splits)
next
  case HReady
  then show thesis using assms ready by (simp add: GoRun_def needs_Some cond_enqueue_def split: if_splits)
next
  case HUp
  then show thesis using assms up by (simp add: GoRun_def needs_Some cond_enqueue_def split: if_splits)
next
  case HGo
  then show thesis using assms go by (simp add: GoRun_def needs_Some cond_enqueue_def split: if_splits)
next
  case (HMove n)
  then show thesis using assms moves by (simp add: GoRun_def needs_Some cond_enqueue_def split: if_splits)
next
  case HTarget
  then show thesis using assms achieves by (simp add: GoRun_def needs_Some cond_enqueue_def split: if_splits)
next
  case HUnborn
  then have False using assms by (simp add: GoRun_def)
  then show thesis ..
next
  case HEnd
  then have False using assms by (simp add: GoRun_def)
  then show thesis ..
qed

lemma race_frame [simp]:
  "race_lock (s\<lparr>bad := b\<rparr>) = race_lock s" "race_gate (s\<lparr>bad := b\<rparr>) = race_gate s"
  "race_made (s\<lparr>bad := b\<rparr>) = race_made s" "race_joined (s\<lparr>bad := b\<rparr>) = race_joined s"
  by (simp_all add: race_lock_def race_gate_def race_made_def race_joined_def split: g_pc.splits)

lemma race_lock_horse:
  assumes "race_lock s" "t < 5" "GoRun t s = Some s'"
  shows "race_lock s'"
proof -
  have h: "h_holds (h_at s t) \<longleftrightarrow> rmutex s = Some t" using assms(1,2) by (simp add: race_lock_def)
  show ?thesis using assms(3)
    by (cases rule: GoRunE) (use assms(1,2) h in \<open>auto simp: race_lock_def split: if_splits\<close>)
qed

lemma race_gate_horse:
  assumes "race_gate s" "race_lock s" "t < 5" "GoRun t s = Some s'"
  shows "race_gate s'"
proof -
  have h: "g_stage (g_at s) = 0 \<Longrightarrow> \<not> h_away (h_at s t) \<and> (h_at s t = HWaiting \<longrightarrow> t \<in> set (rcond s))"
    using assms(1,3) by (simp add: race_gate_def)
  show ?thesis using assms(4)
    by (cases rule: GoRunE) (use assms(1,3) h in \<open>auto simp: race_gate_def split: if_splits\<close>)
qed

lemma race_made_horse:
  assumes "race_made s" "t < 5" "GoRun t s = Some s'"
  shows "race_made s'"
  using assms(3) by (cases rule: GoRunE) (use assms(1,2) in \<open>auto simp: race_made_def\<close>)

lemma race_joined_horse:
  assumes "race_joined s" "t < 5" "GoRun t s = Some s'"
  shows "race_joined s'"
proof -
  have "h_at s u = HEnd \<Longrightarrow> h_at s' u = HEnd" "g_at s' = g_at s" for u
    using assms(3) by (cases rule: GoRunE; auto)+
  then show ?thesis using assms(1) by (auto simp: race_joined_def split: g_pc.splits)
qed

lemma race_mainE:
  assumes "race_main s = Some s'"
  obtains (bad) "s' = s\<lparr>bad := True\<rparr>"
    | (print) i where "g_at s = GPrint i" "i < 5" "s' = s\<lparr>race_log := race_log s @ [Number i], g_at := GCreate i\<rparr>"
    | (made) i where "g_at s = GPrint i" "\<not> i < 5" "s' = s\<lparr>g_at := GLock\<rparr>"
    | (create) i where "g_at s = GCreate i" "s' = s\<lparr>h_at := (h_at s)(i := HLock), g_at := GPrint (Suc i)\<rparr>"
    | (lock) "g_at s = GLock" "rmutex s = None" "s' = s\<lparr>rmutex := Some 5, g_at := GBroadcast\<rparr>"
    | (broadcast) "g_at s = GBroadcast" "s' = s\<lparr>rcond := [], g_at := GUnlock\<rparr>"
    | (unlock) "g_at s = GUnlock" "s' = s\<lparr>rmutex := None, g_at := GCondDestroy\<rparr>"
    | (cond) "g_at s = GCondDestroy" "rcond s = []" "s' = s\<lparr>cond_gone := True, g_at := GMutexDestroy\<rparr>"
    | (mutex) "g_at s = GMutexDestroy" "rmutex s = None" "s' = s\<lparr>mutex_gone := True, g_at := GJoin 0\<rparr>"
    | (join) i where "g_at s = GJoin i" "i < 5" "h_at s i = HEnd" "s' = s\<lparr>g_at := GJoined i\<rparr>"
    | (all) i where "g_at s = GJoin i" "\<not> i < 5" "s' = s\<lparr>g_at := GReturn\<rparr>"
    | (joined) i where "g_at s = GJoined i" "s' = s\<lparr>race_log := race_log s @ [JoinOf i], g_at := GJoin (Suc i)\<rparr>"
    | (return) "g_at s = GReturn" "s' = s\<lparr>g_at := GEnd\<rparr>"
proof (cases "g_at s")
  case (GPrint i)
  then show thesis using assms print made by (simp add: race_main_def needs_Some NUM_THREADS_def split: if_splits)
next
  case (GCreate i)
  then show thesis using assms create by (simp add: race_main_def needs_Some NUM_THREADS_def split: if_splits)
next
  case GLock
  then show thesis using assms lock by (simp add: race_main_def needs_Some NUM_THREADS_def split: if_splits)
next
  case GBroadcast
  then show thesis using assms broadcast by (simp add: race_main_def needs_Some NUM_THREADS_def split: if_splits)
next
  case GUnlock
  then show thesis using assms unlock by (simp add: race_main_def needs_Some NUM_THREADS_def split: if_splits)
next
  case GCondDestroy
  then show thesis using assms bad cond by (simp add: race_main_def needs_Some NUM_THREADS_def split: if_splits)
next
  case GMutexDestroy
  then show thesis using assms bad mutex by (simp add: race_main_def needs_Some NUM_THREADS_def split: if_splits)
next
  case (GJoin i)
  then show thesis using assms join all by (simp add: race_main_def needs_Some NUM_THREADS_def split: if_splits)
next
  case (GJoined i)
  then show thesis using assms joined by (simp add: race_main_def needs_Some NUM_THREADS_def split: if_splits)
next
  case GReturn
  then show thesis using assms return by (simp add: race_main_def needs_Some NUM_THREADS_def split: if_splits)
next
  case GEnd
  then have False using assms by (simp add: race_main_def)
  then show thesis ..
qed

lemma race_lock_main:
  assumes "race_lock s" "race_made s" "race_main s = Some s'"
  shows "race_lock s'"
proof -
  have "h_at s i = HUnborn \<and> rmutex s \<noteq> Some i" if "g_at s = GCreate i" for i
  proof -
    have u: "i < 5" "h_at s i = HUnborn" using assms(2) that by (simp_all add: race_made_def)
    then have "h_holds HUnborn \<longleftrightarrow> rmutex s = Some i" using assms(1) by (metis race_lock_def)
    with u show ?thesis by simp
  qed
  with assms(3) show ?thesis
    by (cases rule: race_mainE) (use assms(1) in \<open>auto simp: race_lock_def split: if_splits\<close>)
qed

lemma race_gate_main: "race_gate s \<Longrightarrow> race_made s \<Longrightarrow> race_main s = Some s' \<Longrightarrow> race_gate s'"
  by (erule race_mainE) (auto simp: race_gate_def race_made_def split: if_splits)

lemma race_made_main: "race_made s \<Longrightarrow> race_main s = Some s' \<Longrightarrow> race_made s'"
  by (erule race_mainE) (auto simp: race_made_def split: if_splits)

lemma race_joined_main:
  assumes "race_joined s" "race_main s = Some s'"
  shows "race_joined s'"
  using assms(2)
proof (cases rule: race_mainE)
  case bad
  then show ?thesis using assms(1) by simp
qed (use assms(1) in \<open>auto simp: race_joined_def less_Suc_eq split: if_splits\<close>)

lemma race_stepE:
  assumes "race_step t s = Some s'"
  obtains "t < 5" "GoRun t s = Some s'" "\<not> bad s" "g_at s \<noteq> GEnd" | "race_main s = Some s'" "\<not> bad s" "g_at s \<noteq> GEnd"
  using assms by (auto simp: race_step_def NUM_THREADS_def split: if_splits)

lemma race_inv_keeps:
  assumes "race_inv s" "race_step t s = Some s'"
  shows "race_inv s'"
proof -
  have i: "race_lock s" "race_gate s" "race_made s" "race_joined s" using assms(1) by (simp_all add: race_inv_def)
  show ?thesis using assms(2)
  proof (cases rule: race_stepE)
    case 1
    show ?thesis unfolding race_inv_def
      using race_lock_horse [OF i(1) 1(1,2)] race_gate_horse [OF i(2,1) 1(1,2)]
        race_made_horse [OF i(3) 1(1,2)] race_joined_horse [OF i(4) 1(1,2)] by blast
  next
    case 2
    show ?thesis unfolding race_inv_def
      using race_lock_main [OF i(1,3) 2(1)] race_gate_main [OF i(2,3) 2(1)]
        race_made_main [OF i(3) 2(1)] race_joined_main [OF i(4) 2(1)] by blast
  qed
qed

fun h_rank :: "h_pc \<Rightarrow> nat" where
  "h_rank HUnborn = Target + 11" | "h_rank HLock = Target + 10" | "h_rank HReady = Target + 9" | "h_rank HWait = Target + 8"
| "h_rank HWaiting = Target + 7" | "h_rank HUp = Target + 6" | "h_rank HUnlock = Target + 5" | "h_rank HGo = Target + 4"
| "h_rank (HMove n) = Target - n + 2" | "h_rank HTarget = 1" | "h_rank HEnd = 0"

fun g_rank :: "g_pc \<Rightarrow> nat" where
  "g_rank (GPrint i) = 50 - 2 * i" | "g_rank (GCreate i) = 49 - 2 * i" | "g_rank GLock = 39" | "g_rank GBroadcast = 38"
| "g_rank GUnlock = 37" | "g_rank GCondDestroy = 36" | "g_rank GMutexDestroy = 35" | "g_rank (GJoin i) = 34 - 2 * i"
| "g_rank (GJoined i) = 33 - 2 * i" | "g_rank GReturn = 2" | "g_rank GEnd = 0"

definition race_msr :: "race \<Rightarrow> nat" where
  "race_msr s = (\<Sum>t < 5. h_rank (h_at s t)) + g_rank (g_at s) + (if bad s then 0 else 1)"

lemma race_msr_step:
  assumes "race_inv s" "race_step t s = Some s'"
  shows "race_msr s' < race_msr s"
  using assms(2)
proof (cases rule: race_stepE)
  case 1
  show ?thesis
  proof (cases "s' = s\<lparr>bad := True\<rparr>")
    case True
    then show ?thesis using 1 by (simp add: race_msr_def)
  next
    case False
    have r: "h_rank (h_at s' t) < h_rank (h_at s t) \<and> g_at s' = g_at s \<and> bad s' = bad s \<and> h_at s' = (h_at s)(t := h_at s' t)"
      using 1(2) by (cases rule: GoRunE) (use False in \<open>auto split: if_splits\<close>)
    then have "(\<Sum>u < 5. h_rank (h_at s' u)) + h_rank (h_at s t) = (\<Sum>u < 5. h_rank (h_at s u)) + h_rank (h_at s' t)"
      using sum_upd [OF 1(1), of h_rank "h_at s" "h_at s' t"] by simp
    then show ?thesis using r by (simp add: race_msr_def)
  qed
next
  case 2
  have i: "race_made s" "race_joined s" using assms(1) by (simp_all add: race_inv_def)
  show ?thesis using 2(1)
  proof (cases rule: race_mainE)
    case bad
    then show ?thesis using 2 by (simp add: race_msr_def)
  next
    case (create i)
    then have "i < 5" "h_at s i = HUnborn" using i(1) by (simp_all add: race_made_def)
    then show ?thesis using create sum_upd [of i 5 h_rank "h_at s" HLock] by (simp add: race_msr_def)
  qed (use i in \<open>auto simp: race_msr_def race_made_def race_joined_def\<close>)
qed

lemma race_holder_moves:
  assumes "race_lock s" "rmutex s = Some t" "\<not> bad s" "g_at s \<noteq> GEnd"
  shows "race_step t s \<noteq> None"
proof (cases "t < 5")
  case True
  then have "h_holds (h_at s t)" using assms(1,2) by (simp add: race_lock_def)
  then have "GoRun t s \<noteq> None" by (cases "h_at s t") (simp_all add: GoRun_def needs_def)
  then show ?thesis using True assms(3,4) by (simp add: race_step_def NUM_THREADS_def)
next
  case False
  then have "t = 5" "g_holds (g_at s)" using assms(1,2) by (force simp: race_lock_def)+
  then have "race_main s \<noteq> None" by (cases "g_at s") (simp_all add: race_main_def)
  then show ?thesis using \<open>t = 5\<close> assms(3,4) by (simp add: race_step_def NUM_THREADS_def)
qed

lemma race_moves:
  assumes "race_inv s" "\<not> (bad s \<or> g_at s = GEnd)"
  shows "\<exists>t s'. race_step t s = Some s'"
proof -
  have i: "race_lock s" "race_gate s" "race_made s" using assms(1) by (simp_all add: race_inv_def)
  have "\<exists>t. race_step t s \<noteq> None"
  proof (cases "rmutex s")
    case (Some t)
    then show ?thesis using race_holder_moves i(1) assms(2) by blast
  next
    case None
    show ?thesis
    proof (cases "\<exists>i < 5. g_at s = GJoin i \<and> h_at s i \<noteq> HEnd")
      case True
      then obtain i where t: "i < 5" "g_at s = GJoin i" "h_at s i \<noteq> HEnd" by blast
      then have "h_at s i \<noteq> HUnborn" "rcond s = []" using i(2,3) by (simp_all add: race_made_def race_gate_def)
      then have "GoRun i s \<noteq> None" using t(3) None by (cases "h_at s i") (simp_all add: GoRun_def needs_def)
      then have "race_step i s \<noteq> None" using t(1) assms(2) by (simp add: race_step_def NUM_THREADS_def)
      then show ?thesis by blast
    next
      case False
      then have "race_main s \<noteq> None" using None assms(2)
        by (cases "g_at s") (auto simp: race_main_def needs_def NUM_THREADS_def)
      then have "race_step 5 s \<noteq> None" using assms(2) by (simp add: race_step_def NUM_THREADS_def)
      then show ?thesis by blast
    qed
  qed
  then show ?thesis by blast
qed

interpretation race: terminating_system race_step race_init race_inv race_msr "\<lambda>s. bad s \<or> g_at s = GEnd"
proof
  show "race_inv race_init"
    by (simp add: race_inv_def race_init_def race_lock_def race_gate_def race_made_def race_joined_def)
qed (fact race_inv_keeps race_msr_step race_moves)+

text \<open>
  In \<open>race_mutex_cond.c\<close> no horse goes before \<open>main\<close> has broadcast the start; every run ends; and
  one that ends without undefined behaviour has all five horses at the target and \<open>main\<close> returned.
\<close>

theorem race_correct:
  assumes "run race_step as race_init = Some s"
  shows "length as \<le> 5 * (Target + 11) + 51 \<and>
     (g_stage (g_at s) = 0 \<longrightarrow> (\<forall>t. Go t \<notin> set (race_log s))) \<and>
     (stuck race_step s \<and> \<not> bad s \<longrightarrow> g_at s = GEnd \<and> (\<forall>t < NUM_THREADS. h_at s t = HEnd))"
proof -
  have inv: "race_inv s" by (rule race.run_inv [OF assms])
  have "length as \<le> 5 * (Target + 11) + 51"
    using race.run_bounded [OF assms] by (simp add: race_msr_def race_init_def)
  moreover have "Go t \<notin> set (race_log s)" if "g_stage (g_at s) = 0" for t
    using inv that by (auto simp: race_inv_def race_gate_def)
  moreover have "g_at s = GEnd \<and> (\<forall>t < NUM_THREADS. h_at s t = HEnd)" if "stuck race_step s" "\<not> bad s"
  proof -
    have "g_at s = GEnd" using race.stuck_final [OF inv that(1)] that(2) by simp
    then show ?thesis using inv by (simp add: race_inv_def race_joined_def NUM_THREADS_def)
  qed
  ultimately show ?thesis by blast
qed

text \<open>The schedule the sleep is meant to give: all horses wait when \<open>main\<close> broadcasts.\<close>

definition to_broadcast :: "tid list" where
  "to_broadcast = replicate 11 5 @ [0, 0, 0, 1, 1, 1, 2, 2, 2, 3, 3, 3, 4, 4, 4, 5, 5, 5]"

theorem race_correct_witness:
  "\<exists>s. run race_step to_broadcast race_init = Some s \<and> g_at s = GCondDestroy \<and> rcond s = [] \<and> \<not> stuck race_step s"
proof -
  obtain s where s: "run race_step to_broadcast race_init = Some s" "g_at s = GCondDestroy" "rcond s = []" "\<not> bad s"
    by (simp add: to_broadcast_def numeral_eq_Suc race_step_def race_main_def GoRun_def needs_def NUM_THREADS_def race_init_def mutex_lock_def cond_enqueue_def)
  then show ?thesis using race_correct [OF s(1)] by auto
qed

text \<open>Once the horses are away and \<open>main\<close> only joins them, nothing can go wrong any more.\<close>

fun h_running :: "h_pc \<Rightarrow> bool" where
  "h_running HGo = True" | "h_running (HMove n) = True" | "h_running HTarget = True" | "h_running HEnd = True" | "h_running _ = False"

fun g_joining :: "g_pc \<Rightarrow> bool" where
  "g_joining (GJoin i) = True" | "g_joining (GJoined i) = True" | "g_joining GReturn = True" | "g_joining GEnd = True" | "g_joining _ = False"

definition race_safe :: "race \<Rightarrow> bool" where
  "race_safe s \<longleftrightarrow> \<not> bad s \<and> g_joining (g_at s) \<and> (\<forall>t < 5. h_running (h_at s t))"

lemma race_safe_step:
  assumes "race_safe s" "race_step t s = Some s'"
  shows "race_safe s'"
  using assms(2)
proof (cases rule: race_stepE)
  case 1
  then have "h_running (h_at s t)" using assms(1) by (simp add: race_safe_def)
  then show ?thesis using 1(2) assms(1)
    by (cases "h_at s t") (auto simp: GoRun_def race_safe_def split: if_splits)
next
  case 2
  then show ?thesis using assms(1) by (cases "g_at s") (auto simp: race_main_def race_safe_def split: if_splits)
qed

lemma race_safe_run: "race_safe s \<Longrightarrow> run race_step as s = Some t \<Longrightarrow> race_safe t"
  by (induction as arbitrary: s) (auto split: option.splits intro: race_safe_step)

definition all_away :: "tid list" where
  "all_away = [0, 0, 0, 1, 1, 1, 2, 2, 2, 3, 3, 3, 4, 4, 4, 5, 5]"

text \<open>
  Whether \<open>race_mutex_cond.c\<close> is defined depends on the schedule, even when all horses wait at
  the broadcast: if \<open>main\<close> goes on and destroys the mutex, the first horse that wakes up locks a
  destroyed mutex (lines 68, 69); if the horses are quick the race is run to its end.
\<close>

theorem race_outcomes:
  "(\<exists>s. run race_step (to_broadcast @ [5, 5, 0]) race_init = Some s \<and> bad s) \<and>
   (\<exists>as s. run race_step (to_broadcast @ all_away @ as) race_init = Some s \<and> stuck race_step s \<and> \<not> bad s)"
proof
  show "\<exists>s. run race_step (to_broadcast @ [5, 5, 0]) race_init = Some s \<and> bad s"
    by (simp add: to_broadcast_def numeral_eq_Suc race_step_def race_main_def GoRun_def needs_def NUM_THREADS_def race_init_def
        mutex_lock_def cond_enqueue_def)
  obtain x where x: "run race_step (to_broadcast @ all_away) race_init = Some x" "race_safe x"
    by (simp add: to_broadcast_def all_away_def numeral_eq_Suc race_step_def race_main_def GoRun_def needs_def NUM_THREADS_def
        race_init_def mutex_lock_def cond_enqueue_def race_safe_def less_Suc_eq)
  obtain as s where s: "run race_step as x = Some s" "stuck race_step s"
    using race.reaches_stuck [OF race.run_inv [OF x(1)]] by blast
  have "run race_step (to_broadcast @ all_away @ as) race_init = Some s"
    using x(1) s(1) run_append [of race_step "to_broadcast @ all_away" as race_init] by simp
  then show "\<exists>as s. run race_step (to_broadcast @ all_away @ as) race_init = Some s \<and> stuck race_step s \<and> \<not> bad s"
    using s(2) race_safe_run [OF x(2) s(1)] by (auto simp: race_safe_def)
qed

end
