(* ===== verification/Rw_Lock.thy ===== *)
theory Rw_Lock
  imports Thread_Program C_Runtime
begin

section \<open>A read-write lock: \<open>read_write_lock.c\<close>\<close>

text \<open>
  Thread 0 runs \<open>write_1\<close>, thread 1 \<open>read_1\<close>, thread 2 \<open>read_2\<close> and thread 3 \<open>write_2\<close> of
  \<open>src/Pthread/read_write_lock.c\<close>, on the file \<open>temp\<close> and the words typed in.  Every call is a step; the sleeps
  order nothing.  A word that does not fit the ten bytes it is read into, the end of the input, and a
  missing file are undefined: they end the run (\<open>broken\<close>).  The lock lets readers in whenever no writer
  holds it.
\<close>

datatype x_pc = XLock | XSay | XOpen | XScan | XPrint | XClose | XUnlock | XSaid | XEnd
  | YLock | YSay | YOpen | YScan | YPrint | YClose | YSaid | YUnlock | YAgain | YEnd

record rwl =
  lock_readers :: nat
  lock_writer :: "tid option"
  temp :: "string option"
  typed :: "string list"
  str_of :: "tid \<Rightarrow> string"
  at :: "tid \<Rightarrow> x_pc"
  said :: "string list"
  broken :: bool

definition rwlock_wrlock :: "tid \<Rightarrow> rwl \<Rightarrow> rwl option" where
  "rwlock_wrlock t s = (if lock_readers s = 0 \<and> lock_writer s = None then Some (s\<lparr>lock_writer := Some t\<rparr>) else None)"

definition rwlock_rdlock :: "rwl \<Rightarrow> rwl option" where
  "rwlock_rdlock s = (if lock_writer s = None then Some (s\<lparr>lock_readers := lock_readers s + 1\<rparr>) else None)"

definition rwlock_unlock :: "tid \<Rightarrow> rwl \<Rightarrow> rwl" where
  "rwlock_unlock t s = (if lock_writer s = Some t then s\<lparr>lock_writer := None\<rparr> else s\<lparr>lock_readers := lock_readers s - 1\<rparr>)"

definition next_pc :: "tid \<Rightarrow> x_pc \<Rightarrow> rwl \<Rightarrow> rwl" where
  "next_pc t p s = s\<lparr>at := (at s)(t := p)\<rparr>"

definition say :: "string \<Rightarrow> rwl \<Rightarrow> rwl" where
  "say m s = s\<lparr>said := said s @ [[CHR 0x0A] @ m @ [CHR 0x0A]]\<rparr>"

definition break :: "rwl \<Rightarrow> rwl" where
  "break s = s\<lparr>broken := True\<rparr>"

text \<open>\<open>scanf ("%s", str)\<close> into ten bytes: the next word with its null byte.\<close>

definition scan_word :: "tid \<Rightarrow> string option \<Rightarrow> rwl \<Rightarrow> rwl option" where
  "scan_word t w s = (case w of None \<Rightarrow> None
     | Some v \<Rightarrow> if v \<noteq> [] \<and> length v < 10 then Some (s\<lparr>str_of := (str_of s)(t := v)\<rparr>) else None)"

definition first_word :: "string \<Rightarrow> string" where
  "first_word s = takeWhile (\<lambda>c. \<not> isspace c) (dropWhile isspace s)"

text \<open>A writer: \<open>app\<close> is the mode of its \<open>fopen\<close> (\<open>"w"\<close> or \<open>"a"\<close>), \<open>me\<close> its name in the messages.\<close>

definition writer_thread :: "bool \<Rightarrow> string \<Rightarrow> string \<Rightarrow> tid \<Rightarrow> rwl \<Rightarrow> rwl option" where
  "writer_thread app me who t s =
     (case at s t of
        XLock \<Rightarrow> map_option (next_pc t XSay) (rwlock_wrlock t s)
      | XSay \<Rightarrow> Some (next_pc t XOpen (say (''File locked by '' @ me @ '', please enter the message '') s))
      | XOpen \<Rightarrow> Some (next_pc t XScan (s\<lparr>temp := Some (if app then (case temp s of None \<Rightarrow> [] | Some c \<Rightarrow> c) else [])\<rparr>))
      | XScan \<Rightarrow> (case typed s of
            [] \<Rightarrow> Some (break s)
          | w # ws \<Rightarrow> (case scan_word t (Some w) s of
                None \<Rightarrow> Some (break s) | Some u \<Rightarrow> Some (next_pc t XPrint (u\<lparr>typed := ws\<rparr>))))
      | XPrint \<Rightarrow> Some (next_pc t XClose (s\<lparr>temp := map_option (\<lambda>c. c @ str_of s t) (temp s)\<rparr>))
      | XClose \<Rightarrow> Some (next_pc t XUnlock s)
      | XUnlock \<Rightarrow> Some (next_pc t XSaid (rwlock_unlock t s))
      | XSaid \<Rightarrow> Some (next_pc t XEnd (say (who @ '' Unlocked the file you can read it now '') s))
      | _ \<Rightarrow> None)"

definition write_1 :: "rwl \<Rightarrow> rwl option" where
  "write_1 = writer_thread False ''write_1'' ''writer1'' 0"

definition write_2 :: "rwl \<Rightarrow> rwl option" where
  "write_2 = writer_thread True ''write_2'' ''writer2'' 3"

text \<open>What the readers have in common: from the lock to \<open>fclose\<close>.\<close>

definition reader_thread :: "string \<Rightarrow> string \<Rightarrow> string \<Rightarrow> x_pc \<Rightarrow> tid \<Rightarrow> rwl \<Rightarrow> rwl option" where
  "reader_thread no me gap after t s =
     (case at s t of
        YLock \<Rightarrow> map_option (next_pc t YSay) (rwlock_rdlock s)
      | YSay \<Rightarrow> Some (next_pc t YOpen (say (no @ '' Opening file for reading, by '' @ me) s))
      | YOpen \<Rightarrow> Some (next_pc t YScan s)
      | YScan \<Rightarrow> (case scan_word t (map_option first_word (temp s)) s of
            None \<Rightarrow> Some (break s) | Some u \<Rightarrow> Some (next_pc t YPrint u))
      | YPrint \<Rightarrow> Some (next_pc t YClose (say (''Message from file is '' @ str_of s t @ '', by '' @ me @ gap) s))
      | YClose \<Rightarrow> Some (next_pc t after s)
      | _ \<Rightarrow> None)"

definition read_1 :: "rwl \<Rightarrow> rwl option" where
  "read_1 s =
     (case at s 1 of
        YSaid \<Rightarrow> Some (next_pc 1 YUnlock (say ''read 1 Unlocking rwlock'' s))
      | YUnlock \<Rightarrow> Some (next_pc 1 YEnd (rwlock_unlock 1 s))
      | _ \<Rightarrow> reader_thread ''1'' ''read_1'' '' '' YSaid 1 s)"

text \<open>\<open>read_2\<close> ends with \<open>pthread_rwlock_rdlock\<close> once more (line 92), not with \<open>unlock\<close>.\<close>

definition read_2 :: "rwl \<Rightarrow> rwl option" where
  "read_2 s =
     (case at s 2 of
        YAgain \<Rightarrow> map_option (next_pc 2 YEnd) (rwlock_rdlock s)
      | _ \<Rightarrow> reader_thread ''2'' ''read_2'' [] YAgain 2 s)"

definition rwl_step :: "tid \<Rightarrow> rwl \<Rightarrow> rwl option" where
  "rwl_step t s =
     (if broken s then None
      else if t = 0 then write_1 s else if t = 1 then read_1 s else if t = 2 then read_2 s
      else if t = 3 then write_2 s else None)"

definition rwl_init :: "string option \<Rightarrow> string list \<Rightarrow> rwl" where
  "rwl_init f ws = \<lparr>lock_readers = 0, lock_writer = None, temp = f, typed = ws, str_of = (\<lambda>_. []),
     at = (\<lambda>t. if t = 1 \<or> t = 2 then YLock else XLock), said = [], broken = False\<rparr>"

definition rwl_main :: "main_op list" where
  "rwl_main = [Create 0 Ignored, Create 1 Ignored, Create 2 Ignored, Create 3 Ignored, Report 0,
     Joins 0 Ignored, Joins 1 Ignored, Joins 2 Ignored, Joins 3 Ignored, Return 0]"

definition rwl_dead :: "tid \<Rightarrow> rwl \<Rightarrow> bool" where
  "rwl_dead t s \<longleftrightarrow> at s t = (if t = 1 \<or> t = 2 then YEnd else XEnd)"

subsection \<open>The invariant\<close>

fun writing :: "x_pc \<Rightarrow> bool" where
  "writing XSay = True" | "writing XOpen = True" | "writing XScan = True" | "writing XPrint = True"
| "writing XClose = True" | "writing XUnlock = True" | "writing _ = False"

fun reads_held :: "x_pc \<Rightarrow> nat" where
  "reads_held YSay = 1" | "reads_held YOpen = 1" | "reads_held YScan = 1" | "reads_held YPrint = 1" | "reads_held YClose = 1"
| "reads_held YSaid = 1" | "reads_held YUnlock = 1" | "reads_held YAgain = 1" | "reads_held _ = 0"

definition held_2 :: "x_pc \<Rightarrow> nat" where
  "held_2 p = (if p = YEnd then 2 else reads_held p)"

fun x_side :: "x_pc \<Rightarrow> bool" where
  "x_side XLock = True" | "x_side XSaid = True" | "x_side XEnd = True" | "x_side p = writing p"

fun y_side :: "x_pc \<Rightarrow> bool" where
  "y_side YLock = True" | "y_side YEnd = True" | "y_side p = (reads_held p = 1)"

definition rwl_inv :: "rwl \<Rightarrow> bool" where
  "rwl_inv s \<longleftrightarrow> x_side (at s 0) \<and> x_side (at s 3) \<and> y_side (at s 1) \<and> y_side (at s 2) \<and>
     at s 1 \<noteq> YAgain \<and> at s 2 \<notin> {YSaid, YUnlock} \<and>
     lock_readers s = reads_held (at s 1) + held_2 (at s 2) \<and>
     (lock_writer s = Some 0 \<longleftrightarrow> writing (at s 0)) \<and> (lock_writer s = Some 3 \<longleftrightarrow> writing (at s 3)) \<and>
     (lock_writer s = None \<or> lock_readers s = 0 \<and> lock_writer s \<in> {Some 0, Some 3})"

lemmas rwl_ops = rwlock_wrlock_def rwlock_rdlock_def rwlock_unlock_def next_pc_def say_def break_def scan_word_def

text \<open>What a step of a writer or reader does to the lock and to the thread.\<close>

lemma writer_effect:
  assumes "writer_thread app me who t s = Some s'"
  shows "s' = break s \<or>
     at s' = (at s)(t := at s' t) \<and> x_side (at s' t) \<and>
       (if at s t = XLock then at s' t = XSay \<and> lock_readers s = 0 \<and> lock_writer s = None \<and> lock_readers s' = 0 \<and> lock_writer s' = Some t
        else if at s t = XUnlock then at s' t = XSaid \<and> lock_readers s' = lock_readers (rwlock_unlock t s) \<and> lock_writer s' = lock_writer (rwlock_unlock t s)
        else lock_readers s' = lock_readers s \<and> lock_writer s' = lock_writer s \<and> writing (at s' t) = writing (at s t))"
  using assms
  by (cases "at s t") (auto simp: writer_thread_def rwl_ops split: if_splits list.splits option.splits)

lemma reader_effect:
  assumes "reader_thread no me gap p t s = Some s'" "y_side p" "reads_held p = 1"
  shows "s' = break s \<or>
     at s' = (at s)(t := at s' t) \<and> y_side (at s' t) \<and> reads_held (at s' t) = 1 \<and> (at s' t = p \<or> at s' t \<notin> {YAgain, YSaid, YUnlock, YEnd}) \<and>
     lock_writer s' = lock_writer s \<and>
       (if at s t = YLock then lock_writer s = None \<and> lock_readers s' = lock_readers s + 1
        else lock_readers s' = lock_readers s \<and> reads_held (at s t) = 1)"
  using assms
  by (cases "at s t") (simp_all add: reader_thread_def rwl_ops split: if_splits option.splits, auto)

lemma rwl_inv_break [simp]: "rwl_inv (break s) = rwl_inv s"
  by (simp add: rwl_inv_def break_def)

lemma rwl_inv_writer:
  assumes "rwl_inv s" "writer_thread app me who t s = Some s'" "t \<in> {0, 3}"
  shows "rwl_inv s'"
proof (cases "s' = break s")
  case False
  note e = writer_effect [OF assms(2)]
  have h: "at s' = (at s)(t := at s' t)" "x_side (at s' t)" using e False by blast+
  then have o: "u \<noteq> t \<Longrightarrow> at s' u = at s u" for u by (metis fun_upd_other)
  have w: "lock_writer s = Some t \<longleftrightarrow> writing (at s t)" using assms(1,3) by (auto simp: rwl_inv_def)
  consider (lock) "at s t = XLock" | (unlock) "at s t = XUnlock" | (other) "at s t \<noteq> XLock" "at s t \<noteq> XUnlock" by blast
  then show ?thesis
  proof cases
    case lock
    then have "at s' t = XSay" "lock_readers s = 0" "lock_writer s = None" "lock_readers s' = 0" "lock_writer s' = Some t"
      using e False by auto
    then show ?thesis using assms(1,3) o by (auto simp: rwl_inv_def)
  next
    case unlock
    then have "lock_writer s = Some t" using w by simp
    with unlock have "at s' t = XSaid" "lock_readers s' = lock_readers s" "lock_writer s' = None"
      using e False by (auto simp: rwlock_unlock_def)
    then show ?thesis using assms(1,3) o \<open>lock_writer s = Some t\<close> by (auto simp: rwl_inv_def)
  next
    case other
    then have "lock_readers s' = lock_readers s" "lock_writer s' = lock_writer s" "writing (at s' t) = writing (at s t)"
      using e False by auto
    then show ?thesis using assms(1,3) o h(2) by (auto simp: rwl_inv_def)
  qed
qed (use assms(1) in simp)

lemma rwl_inv_reads:
  assumes "rwl_inv s" "lock_writer s' = lock_writer s" "\<And>u. u \<noteq> t \<Longrightarrow> at s' u = at s u" "t \<in> {1, 2}"
    and "y_side (at s' t)" "t = 1 \<longrightarrow> at s' t \<noteq> YAgain" "t = 2 \<longrightarrow> at s' t \<notin> {YSaid, YUnlock}"
    and "lock_readers s' + (if t = 1 then reads_held (at s t) else held_2 (at s t)) =
      lock_readers s + (if t = 1 then reads_held (at s' t) else held_2 (at s' t))"
    and "lock_writer s = None \<or> lock_readers s' = 0"
  shows "rwl_inv s'"
proof -
  have o: "at s' 0 = at s 0" "at s' 3 = at s 3" using assms(3,4) by auto
  consider "t = 1" "at s' 2 = at s 2" | "t = 2" "at s' 1 = at s 1" using assms(3,4) by auto
  then show ?thesis
  proof cases
    case 1
    then show ?thesis using assms(1,2,5-9) o unfolding rwl_inv_def by simp blast
  next
    case 2
    then show ?thesis using assms(1,2,5-9) o unfolding rwl_inv_def by simp blast
  qed
qed

lemma rwl_inv_reader:
  assumes "rwl_inv s" "reader_thread no me gap p t s = Some s'" "t = 1 \<and> p = YSaid \<or> t = 2 \<and> p = YAgain"
  shows "rwl_inv s'"
proof (cases "s' = break s")
  case False
  note e = reader_effect [OF assms(2)]
  have p: "y_side p" "reads_held p = 1" using assms(3) by auto
  have h: "at s' = (at s)(t := at s' t)" "y_side (at s' t)" "reads_held (at s' t) = 1"
    "at s' t = p \<or> at s' t \<notin> {YAgain, YSaid, YUnlock, YEnd}" "lock_writer s' = lock_writer s" using e p False by blast+
  then have o: "u \<noteq> t \<Longrightarrow> at s' u = at s u" for u by (metis fun_upd_other)
  have n: "held_2 (at s' t) = 1" using h(3) by (auto simp: held_2_def)
  have r: "lock_writer s = None \<and> lock_readers s' = lock_readers s + 1 \<and> reads_held (at s t) = 0 \<and> held_2 (at s t) = 0 \<or>
      lock_readers s' = lock_readers s \<and> reads_held (at s t) = 1 \<and> held_2 (at s t) = 1"
    using e p False by (cases "at s t = YLock") (auto simp: held_2_def)
  have w: "lock_writer s = None \<or> lock_readers s = 0" using assms(1) unfolding rwl_inv_def by linarith
  show ?thesis
  proof (rule rwl_inv_reads [OF assms(1) h(5) o])
    show "t = 1 \<longrightarrow> at s' t \<noteq> YAgain" "t = 2 \<longrightarrow> at s' t \<notin> {YSaid, YUnlock}" using h(4) assms(3) by auto
    show "lock_readers s' + (if t = 1 then reads_held (at s t) else held_2 (at s t)) =
      lock_readers s + (if t = 1 then reads_held (at s' t) else held_2 (at s' t))" using r n h(3) by auto
  qed (use assms(3) h(2) r w in auto)
qed (use assms(1) in simp)

lemma rwl_inv_read_1:
  assumes "rwl_inv s" "read_1 s = Some s'"
  shows "rwl_inv s'"
proof -
  have w: "lock_writer s \<noteq> Some 1" "lock_writer s = None \<or> lock_readers s = 0" "at s 1 \<in> {YSaid, YUnlock} \<Longrightarrow> 0 < lock_readers s"
    using assms(1) by (auto simp: rwl_inv_def)
  consider "at s 1 = YSaid" | "at s 1 = YUnlock" | "read_1 s = reader_thread ''1'' ''read_1'' '' '' YSaid 1 s"
    by (cases "at s 1") (simp_all add: read_1_def)
  then show ?thesis
  proof cases
    case 1
    then have "s' = next_pc 1 YUnlock (say ''read 1 Unlocking rwlock'' s)" using assms(2) by (simp add: read_1_def)
    then show ?thesis using 1 w by (intro rwl_inv_reads [OF assms(1), of s' 1]) (auto simp: next_pc_def say_def)
  next
    case 2
    then have "s' = next_pc 1 YEnd (rwlock_unlock 1 s)" using assms(2) by (simp add: read_1_def)
    then show ?thesis using 2 w by (intro rwl_inv_reads [OF assms(1), of s' 1]) (auto simp: next_pc_def rwlock_unlock_def)
  next
    case 3
    then show ?thesis using rwl_inv_reader [OF assms(1)] assms(2) by metis
  qed
qed

lemma rwl_inv_read_2:
  assumes "rwl_inv s" "read_2 s = Some s'"
  shows "rwl_inv s'"
proof (cases "at s 2 = YAgain")
  case True
  then have "s' = next_pc 2 YEnd (s\<lparr>lock_readers := lock_readers s + 1\<rparr>)" "lock_writer s = None"
    using assms(2) by (auto simp: read_2_def rwlock_rdlock_def split: if_splits)
  then show ?thesis using True by (intro rwl_inv_reads [OF assms(1), of s' 2]) (auto simp: next_pc_def held_2_def)
next
  case False
  then have "read_2 s = reader_thread ''2'' ''read_2'' [] YAgain 2 s" by (cases "at s 2") (simp_all add: read_2_def)
  then show ?thesis using rwl_inv_reader [OF assms(1)] assms(2) by metis
qed

lemma rwl_inv_step:
  assumes "rwl_inv s" "rwl_step t s = Some s'"
  shows "rwl_inv s'"
proof -
  consider "write_1 s = Some s'" | "write_2 s = Some s'" | "read_1 s = Some s'" | "read_2 s = Some s'"
    using assms(2) by (auto simp: rwl_step_def split: if_splits)
  then show ?thesis
  proof cases
    case 1
    then show ?thesis using rwl_inv_writer [OF assms(1), of _ _ _ 0] by (simp add: write_1_def)
  next
    case 2
    then show ?thesis using rwl_inv_writer [OF assms(1), of _ _ _ 3] by (simp add: write_2_def)
  qed (rule rwl_inv_read_1 [OF assms(1)] rwl_inv_read_2 [OF assms(1)]; assumption)+
qed

subsection \<open>Every run ends\<close>

fun x_rank :: "x_pc \<Rightarrow> nat" where
  "x_rank XLock = 8" | "x_rank XSay = 7" | "x_rank XOpen = 6" | "x_rank XScan = 5" | "x_rank XPrint = 4"
| "x_rank XClose = 3" | "x_rank XUnlock = 2" | "x_rank XSaid = 1" | "x_rank XEnd = 0"
| "x_rank YLock = 8" | "x_rank YSay = 7" | "x_rank YOpen = 6" | "x_rank YScan = 5" | "x_rank YPrint = 4"
| "x_rank YClose = 3" | "x_rank YSaid = 2" | "x_rank YUnlock = 1" | "x_rank YAgain = 1" | "x_rank YEnd = 0"

definition rwl_msr :: "rwl \<Rightarrow> nat" where
  "rwl_msr s = (if broken s then 0 else 1) + x_rank (at s 0) + x_rank (at s 1) + x_rank (at s 2) + x_rank (at s 3)"

text \<open>All that a run can come to: undefined behaviour, or the readers over and each writer over or waiting.\<close>

definition rwl_final :: "rwl \<Rightarrow> bool" where
  "rwl_final s \<longleftrightarrow> broken s \<or> rwl_dead 1 s \<and> rwl_dead 2 s \<and> at s 0 \<in> {XLock, XEnd} \<and> at s 3 \<in> {XLock, XEnd}"

lemma writer_rank:
  assumes "writer_thread app me who t s = Some s'"
  shows "s' = break s \<or> at s' = (at s)(t := at s' t) \<and> x_rank (at s' t) < x_rank (at s t) \<and> broken s' = broken s"
  using assms
  by (cases "at s t") (auto simp: writer_thread_def rwl_ops split: if_splits list.splits option.splits)

lemma reader_rank:
  assumes "reader_thread no me gap p t s = Some s'" "x_rank p \<le> 2"
  shows "s' = break s \<or> at s' = (at s)(t := at s' t) \<and> x_rank (at s' t) < x_rank (at s t) \<and> broken s' = broken s"
  using assms
  by (cases "at s t") (auto simp: reader_thread_def rwl_ops split: if_splits option.splits)

lemma rwl_step_rank:
  assumes "rwl_step t s = Some s'"
  shows "t < 4 \<and> \<not> broken s \<and>
    (s' = break s \<or> at s' = (at s)(t := at s' t) \<and> x_rank (at s' t) < x_rank (at s t) \<and> broken s' = broken s)"
proof -
  have "\<not> broken s" using assms by (auto simp: rwl_step_def split: if_splits)
  moreover consider "t = 0" "write_1 s = Some s'" | "t = 3" "write_2 s = Some s'" | "t = 1" "read_1 s = Some s'" | "t = 2" "read_2 s = Some s'"
    using assms by (auto simp: rwl_step_def split: if_splits)
  then have "t < 4 \<and> (s' = break s \<or> at s' = (at s)(t := at s' t) \<and> x_rank (at s' t) < x_rank (at s t) \<and> broken s' = broken s)"
  proof cases
    case 1
    then show ?thesis using writer_rank [of _ _ _ 0] by (simp add: write_1_def)
  next
    case 2
    then show ?thesis using writer_rank [of _ _ _ 3] by (simp add: write_2_def)
  next
    case 3
    then show ?thesis using reader_rank [of _ _ _ YSaid 1 s s']
      by (cases "at s 1") (auto simp: read_1_def rwl_ops split: if_splits)
  next
    case 4
    then show ?thesis using reader_rank [of _ _ _ YAgain 2 s s']
      by (cases "at s 2") (auto simp: read_2_def rwl_ops split: if_splits)
  qed
  ultimately show ?thesis by blast
qed

lemma rwl_msr_step:
  assumes "rwl_step t s = Some s'"
  shows "rwl_msr s' < rwl_msr s"
proof (cases "s' = break s")
  case True
  then show ?thesis using rwl_step_rank [OF assms] by (simp add: rwl_msr_def break_def)
next
  case False
  with rwl_step_rank [OF assms] have h: "t < 4" "at s' = (at s)(t := at s' t)" "x_rank (at s' t) < x_rank (at s t)" "broken s' = broken s"
    by blast+
  then have o: "u \<noteq> t \<Longrightarrow> at s' u = at s u" for u by (metis fun_upd_other)
  have "t = 0 \<or> t = 1 \<or> t = 2 \<or> t = 3" using h(1) by auto
  then show ?thesis using h(3,4) o by (auto simp: rwl_msr_def)
qed

lemma writer_can:
  assumes "x_side (at s t)" "at s t \<noteq> XLock" "at s t \<noteq> XEnd"
  shows "\<exists>s'. writer_thread app me who t s = Some s'"
  using assms by (cases "at s t") (auto simp: writer_thread_def split: list.splits option.splits)

lemma reader_can:
  assumes "y_side (at s t)" "at s t \<notin> {YSaid, YUnlock, YAgain, YEnd}" "lock_writer s = None"
  shows "\<exists>s'. reader_thread no me gap p t s = Some s'"
  using assms by (cases "at s t") (auto simp: reader_thread_def rwlock_rdlock_def split: option.splits)

lemma rwl_progress:
  assumes "rwl_inv s" "\<not> rwl_final s"
  shows "\<exists>t s'. rwl_step t s = Some s'"
proof -
  note i = assms(1) [unfolded rwl_inv_def]
  have nb: "\<not> broken s" using assms(2) by (simp add: rwl_final_def)
  consider "at s 0 \<notin> {XLock, XEnd}" | "at s 3 \<notin> {XLock, XEnd}" | (idle) "at s 0 \<in> {XLock, XEnd}" "at s 3 \<in> {XLock, XEnd}" by blast
  then show ?thesis
  proof cases
    case 1
    then have "\<exists>s'. rwl_step 0 s = Some s'" using i nb writer_can [of s 0] by (simp add: rwl_step_def write_1_def)
    then show ?thesis by blast
  next
    case 2
    then have "\<exists>s'. rwl_step 3 s = Some s'" using i nb writer_can [of s 3] by (simp add: rwl_step_def write_2_def)
    then show ?thesis by blast
  next
    case idle
    then have w: "lock_writer s = None" using i by auto
    have "at s 1 \<noteq> YEnd \<or> at s 2 \<noteq> YEnd" using assms(2) idle by (auto simp: rwl_final_def rwl_dead_def)
    then show ?thesis
    proof
      assume "at s 1 \<noteq> YEnd"
      then have "\<exists>s'. rwl_step 1 s = Some s'" using i nb w reader_can [of s 1]
        by (cases "at s 1") (simp_all add: rwl_step_def read_1_def)
      then show ?thesis by blast
    next
      assume "at s 2 \<noteq> YEnd"
      then have "\<exists>s'. rwl_step 2 s = Some s'" using i nb w reader_can [of s 2]
        by (cases "at s 2") (simp_all add: rwl_step_def read_2_def rwlock_rdlock_def)
      then show ?thesis by blast
    qed
  qed
qed

interpretation rwl: terminating_system rwl_step "rwl_init f ws" rwl_inv rwl_msr rwl_final for f ws
proof
  show "rwl_inv (rwl_init f ws)" by (simp add: rwl_inv_def rwl_init_def held_2_def)
qed (rule rwl_inv_step rwl_msr_step rwl_progress; assumption)+

lemma waits_step:
  assumes "rwl_inv s" "at s 2 = YEnd" "at s w = XLock" "w \<in> {0, 3}" "rwl_step t s = Some s'"
  shows "at s' 2 = YEnd \<and> at s' w = XLock"
proof (cases "s' = break s")
  case True
  then show ?thesis using assms(2,3) by (simp add: break_def)
next
  case False
  with rwl_step_rank [OF assms(5)] have h: "at s' = (at s)(t := at s' t)" "x_rank (at s' t) < x_rank (at s t)" by blast+
  have "0 < lock_readers s" using assms(1,2) by (simp add: rwl_inv_def held_2_def)
  then have "rwl_step w s = None"
    using assms(3,4) by (auto simp: rwl_step_def write_1_def write_2_def writer_thread_def rwlock_wrlock_def)
  then have "t \<noteq> w" "t \<noteq> 2" using assms(2,5) h(2) by auto
  then show ?thesis using assms(2,3) h(1) by (metis fun_upd_other)
qed

lemma waits_run:
  "rwl_inv s \<Longrightarrow> at s 2 = YEnd \<Longrightarrow> at s w = XLock \<Longrightarrow> w \<in> {0, 3} \<Longrightarrow> run rwl_step bs s = Some u \<Longrightarrow> at u w = XLock"
proof (induction bs arbitrary: s)
  case (Cons b bs)
  from Cons.prems(5) obtain v where v: "rwl_step b s = Some v" "run rwl_step bs v = Some u" by (auto split: option.splits)
  then show ?case
    using Cons.IH [of v] waits_step [OF Cons.prems(1-4) v(1)] rwl_inv_step [OF Cons.prems(1) v(1)] Cons.prems(4) by blast
qed simp

text \<open>
  C35: The four threads of \<open>read_write_lock.c\<close> make at most 33 steps, and a writer is alone with the
  file while it has the lock.  A run that is not undefined ends with every thread over, or
  with \<open>read_2\<close> over and a writer at its lock: \<open>read_2\<close> takes the read lock a second time where it should
  release it, and once it has, a writer still to come waits for ever, so that \<open>main\<close> never
  returns from its join.
\<close>

theorem read_write_lock_correct:
  assumes "run rwl_step as (rwl_init f ws) = Some s"
  shows "length as \<le> 33 \<and> \<not> (writing (at s 0) \<and> writing (at s 3)) \<and>
     (writing (at s 0) \<or> writing (at s 3) \<longrightarrow> reads_held (at s 1) = 0 \<and> reads_held (at s 2) = 0) \<and>
     (\<forall>w \<in> {0, 3}. at s 2 = YEnd \<and> at s w = XLock \<longrightarrow> (\<forall>bs u. run rwl_step bs s = Some u \<longrightarrow> \<not> rwl_dead w u)) \<and>
     (stuck rwl_step s \<and> \<not> broken s \<longrightarrow>
        rwl_dead 1 s \<and> rwl_dead 2 s \<and> (\<forall>w \<in> {0, 3}. rwl_dead w s \<or> at s w = XLock))"
proof -
  have r: "reachable rwl_step (rwl_init f ws) s" by (rule run_reachable [OF assms])
  note i = rwl.reachable_inv [OF r]
  have "length as \<le> 33" using rwl.run_bounded [OF assms] by (simp add: rwl_msr_def rwl_init_def)
  moreover have "\<not> (writing (at s 0) \<and> writing (at s 3))"
    "writing (at s 0) \<or> writing (at s 3) \<longrightarrow> reads_held (at s 1) = 0 \<and> reads_held (at s 2) = 0"
    using i by (auto simp: rwl_inv_def held_2_def split: if_splits)
  moreover have "\<not> rwl_dead w u" if "w \<in> {0, 3}" "at s 2 = YEnd" "at s w = XLock" "run rwl_step bs s = Some u" for w bs u
    using waits_run [OF i that(2,3,1,4)] that(1) by (auto simp: rwl_dead_def)
  moreover have "rwl_dead 1 s \<and> rwl_dead 2 s \<and> (\<forall>w \<in> {0, 3}. rwl_dead w s \<or> at s w = XLock)"
    if "stuck rwl_step s" "\<not> broken s"
    using rwl.reachable_stuck_final [OF r that(1)] that(2) by (auto simp: rwl_final_def rwl_dead_def)
  ultimately show ?thesis by blast
qed

theorem read_write_lock_correct_witness:
  "\<exists>s. run rwl_step (replicate 8 0 @ replicate 7 2 @ replicate 8 1) (rwl_init None [''one'', ''two'']) = Some s \<and>
     temp s = Some ''one'' \<and> str_of s 1 = ''one'' \<and> \<not> broken s \<and>
     \<not> (\<exists>bs u. run rwl_step bs s = Some u \<and> rwl_dead 3 u)"
proof -
  obtain s where s: "run rwl_step (replicate 8 0 @ replicate 7 2 @ replicate 8 1) (rwl_init None [''one'', ''two'']) = Some s"
    "temp s = Some ''one''" "str_of s 1 = ''one''" "\<not> broken s" "at s 2 = YEnd" "at s 3 = XLock"
    by (simp add: numeral_eq_Suc rwl_step_def rwl_init_def write_1_def read_1_def read_2_def writer_thread_def reader_thread_def
        rwl_ops first_word_def isspace_def)
  then show ?thesis using read_write_lock_correct [OF s(1)] by blast
qed

end
