(* ===== verification/OpenMP_Sorts.thy ===== *)
theory OpenMP_Sorts
  imports C_Runtime
begin

section \<open>OpenMP: \<open>poe_sort.c\<close>, \<open>oe_sort.c\<close> and \<open>b_sort.c\<close>\<close>

text \<open>
  Three exchange sorts.  \<open>poe_sort.c\<close> is the parallel odd-even sort: a round compares the pairs that start at an even
  index and then those that start at an odd one, each in an \<open>omp for\<close> with a \<open>+\<close>-reduction on
  \<open>changes\<close>, until a round changes nothing.  The iterations of an \<open>omp for\<close> happen in any order.  The threads of the
  team all execute \<open>changes = 0\<close> at the start of the region, with no barrier before the first loop: a late thread may erase what the first
  loop has already added, so after the first loop \<open>changes\<close> is any number up to the number of exchanges.
  The barrier at the end of the first loop is passed after every \<open>changes = 0\<close>, so nothing is lost after it.
  \<open>oe_sort.c\<close> and \<open>b_sort.c\<close> are sequential, and compare the last element with the one after it.
\<close>

text \<open>\<open>if (x[i] > x[i+1])\<close> with the exchange; the counter counts the exchanges.\<close>

definition exchange :: "nat \<Rightarrow> int list \<times> nat \<Rightarrow> (int list \<times> nat) c" where
  "exchange i s =
     (let (x, changes) = s
      in bindc (ld x i) (\<lambda>a. bindc (ld x (i + 1)) (\<lambda>b.
           if a > b then bindc (sto x i b) (\<lambda>x. bindc (sto x (i + 1) a) (\<lambda>x. Inr (x, changes + 1)))
           else Inr (x, changes))))"

fun pass :: "nat list \<Rightarrow> int list \<times> nat \<Rightarrow> (int list \<times> nat) c" where
  "pass [] s = Inr s"
| "pass (i # is) s = bindc (exchange i s) (pass is)"

subsection \<open>The programs\<close>

text \<open>\<open>x[i] = n - i\<close>.\<close>

definition descending :: "nat \<Rightarrow> int list" where
  "descending n = map (\<lambda>i. int n - int i) [0..<n]"

definition evens :: "nat \<Rightarrow> nat list" where "evens n = filter even [0..<n - 1]"

definition odds :: "nat \<Rightarrow> nat list" where "odds n = filter odd [0..<n - 1]"

definition omp_for :: "nat list \<Rightarrow> int list \<times> nat \<Rightarrow> (int list \<times> nat) c \<Rightarrow> bool" where
  "omp_for is s r \<longleftrightarrow> (\<exists>is'. mset is' = mset is \<and> r = pass is' s)"

text \<open>The parallel region: \<open>lost\<close> is what late stores of \<open>changes = 0\<close> erase.\<close>

definition poe_round :: "int list \<Rightarrow> (int list \<times> nat) c \<Rightarrow> bool" where
  "poe_round x r \<longleftrightarrow>
     (\<exists>r1. omp_for (evens (length x)) (x, 0) r1 \<and>
        (case r1 of
           Inl e \<Rightarrow> r = Inl e
         | Inr (x1, changes) \<Rightarrow> \<exists>lost \<le> changes. omp_for (odds (length x)) (x1, changes - lost) r))"

text \<open>\<open>while (changes)\<close>: a round that goes on, and a loop that ends.\<close>

definition poe_step :: "int list \<Rightarrow> int list \<Rightarrow> bool" where
  "poe_step x x' \<longleftrightarrow> (\<exists>changes. poe_round x (Inr (x', changes)) \<and> changes \<noteq> 0)"

inductive poe_loop :: "int list \<Rightarrow> int list c \<Rightarrow> bool" where
  poe_error: "poe_round x (Inl e) \<Longrightarrow> poe_loop x (Inl e)"
| poe_done: "poe_round x (Inr (x', 0)) \<Longrightarrow> poe_loop x (Inr x')"
| poe_again: "poe_step x x' \<Longrightarrow> poe_loop x' r \<Longrightarrow> poe_loop x r"

text \<open>\<open>main\<close>: the two numbers it prints.\<close>

definition poe_main :: "nat \<Rightarrow> (int \<times> int) c \<Rightarrow> bool" where
  "poe_main n r \<longleftrightarrow> (\<exists>l. poe_loop (descending n) l \<and>
     r = bindc l (\<lambda>x. bindc (ld x 0) (\<lambda>a. bindc (ld x (n - 1)) (\<lambda>b. Inr (a, b)))))"

text \<open>\<open>oe_sort.c\<close>, with the number of passes it may still take.\<close>

fun oe_loop :: "nat \<Rightarrow> nat \<Rightarrow> int list \<Rightarrow> int list c option" where
  "oe_loop 0 ev x = None"
| "oe_loop (Suc fuel) ev x =
     (case pass (filter (\<lambda>i. i mod 2 = ev) [0..<length x]) (x, 0) of
        Inl e \<Rightarrow> Some (Inl e)
      | Inr (x, changes) \<Rightarrow> if changes = 0 then Some (Inr x) else oe_loop fuel (1 - ev) x)"

definition oe_main :: "nat \<Rightarrow> nat \<Rightarrow> (int \<times> int) c option" where
  "oe_main fuel n = map_option (\<lambda>l. bindc l (\<lambda>x. bindc (ld x 0) (\<lambda>a. bindc (ld x (n - 1)) (\<lambda>b. Inr (a, b)))))
     (oe_loop fuel 0 (descending n))"

text \<open>\<open>b_sort.c\<close>: the argument is \<open>n\<close>, which every pass decrements; with \<open>n = 0\<close> a pass changes nothing.\<close>

fun b_loop :: "nat \<Rightarrow> int list \<Rightarrow> int list c" where
  "b_loop 0 x = Inr x"
| "b_loop (Suc n) x =
     bindc (pass [0..<Suc n] (x, 0)) (\<lambda>(x, changes). if changes = 0 then Inr x else b_loop n x)"

definition b_main :: "nat \<Rightarrow> int list c" where
  "b_main n = b_loop n (descending n)"

subsection \<open>An exchange removes one inversion\<close>

fun inversions :: "int list \<Rightarrow> nat" where
  "inversions [] = 0"
| "inversions (a # x) = length (filter (\<lambda>b. a > b) x) + inversions x"

lemma inversions_swap: "a > b \<Longrightarrow> inversions (p @ a # b # q) = Suc (inversions (p @ b # a # q))"
  by (induction p) auto

lemma split_pair:
  assumes "i + 1 < length x"
  obtains p a b q where "x = p @ a # b # q" "length p = i"
proof -
  have "x = take i x @ x ! i # drop (Suc i) x" using assms by (simp add: id_take_nth_drop)
  also have "drop (Suc i) x = x ! Suc i # drop (Suc (Suc i)) x" using assms by (simp add: Cons_nth_drop_Suc)
  finally show ?thesis using that [of "take i x"] assms by simp
qed

lemma exchange_pair:
  assumes "length p = i"
  shows "exchange i (p @ a # b # q, c) = Inr (if a > b then (p @ b # a # q, c + 1) else (p @ a # b # q, c))"
  using assms by (auto simp: exchange_def ld_def sto_def nth_append list_update_append)

lemma exchange_out: "length x \<le> i + 1 \<Longrightarrow> exchange i (x, c) = Inl OutOfBounds"
  by (auto simp: exchange_def ld_def)

lemma exchange_Inr:
  assumes "i + 1 < length x"
  shows "\<exists>x' c'. exchange i (x, c) = Inr (x', c') \<and> mset x' = mset x \<and> inversions x' + c' = inversions x + c"
  using assms by (elim split_pair) (auto simp: exchange_pair inversions_swap)

lemma pass_Inr:
  assumes "\<forall>i \<in> set is. i + 1 < length x"
  shows "\<exists>x' c'. pass is (x, c) = Inr (x', c') \<and> mset x' = mset x \<and> inversions x' + c' = inversions x + c"
  using assms
proof (induction "is" arbitrary: x c)
  case (Cons i "is")
  obtain x' c' where 1: "exchange i (x, c) = Inr (x', c')" "mset x' = mset x" "inversions x' + c' = inversions x + c"
    using exchange_Inr [of i x c] Cons.prems by auto
  then have "length x' = length x" by (metis size_mset)
  with Cons.IH [of x' c'] Cons.prems 1 show ?case by auto
qed simp

subsection \<open>What a loop over disjoint pairs leaves\<close>

lemma exchange_frame:
  assumes "exchange i (x, c) = Inr (x', c')" "j \<noteq> i" "j \<noteq> i + 1"
  shows "x' ! j = x ! j"
  using assms by (auto simp: exchange_def Let_def bindc_Inr_iff sto_def split: if_splits)

lemma pass_frame:
  "pass is (x, c) = Inr (x', c') \<Longrightarrow> j \<notin> set is \<Longrightarrow> \<forall>i \<in> set is. j \<noteq> i + 1 \<Longrightarrow> x' ! j = x ! j"
proof (induction "is" arbitrary: x c)
  case (Cons i "is")
  then obtain y d where 1: "exchange i (x, c) = Inr (y, d)" "pass is (y, d) = Inr (x', c')" by (auto simp: bindc_Inr_iff)
  from Cons.IH [OF this(2)] Cons.prems exchange_frame [OF 1(1), of j] show ?case by auto
qed simp

lemma exchange_orders: "exchange i (x, c) = Inr (x', c') \<Longrightarrow> x' ! i \<le> x' ! (i + 1)"
  by (auto simp: exchange_def Let_def bindc_Inr_iff ld_def sto_def split: if_splits)

lemma pass_orders:
  "pass is (x, c) = Inr (x', c') \<Longrightarrow> distinct is \<Longrightarrow> \<forall>i \<in> set is. i + 1 \<notin> set is \<Longrightarrow> \<forall>i \<in> set is. x' ! i \<le> x' ! (i + 1)"
proof (induction "is" arbitrary: x c)
  case (Cons i "is")
  then obtain y d where 1: "exchange i (x, c) = Inr (y, d)" "pass is (y, d) = Inr (x', c')" by (auto simp: bindc_Inr_iff)
  have "x' ! i = y ! i" "x' ! (i + 1) = y ! (i + 1)"
    using Cons.prems by (auto intro!: pass_frame [OF 1(2)])
  with exchange_orders [OF 1(1)] Cons.IH [OF 1(2)] Cons.prems show ?case by auto
qed simp

text \<open>A pass that counts nothing changes nothing, and finds its pairs ordered.\<close>

lemma exchange_count: "exchange i (x, c) = Inr (x', c') \<Longrightarrow> c \<le> c' \<and> (c' = c \<longrightarrow> x' = x \<and> x ! i \<le> x ! (i + 1))"
  by (auto simp: exchange_def Let_def bindc_Inr_iff ld_def sto_def split: if_splits)

lemma pass_count: "pass is (x, c) = Inr (x', c') \<Longrightarrow> c \<le> c' \<and> (c' = c \<longrightarrow> x' = x \<and> (\<forall>i \<in> set is. x ! i \<le> x ! (i + 1)))"
proof (induction "is" arbitrary: x c)
  case (Cons i "is")
  then obtain y d where 1: "exchange i (x, c) = Inr (y, d)" "pass is (y, d) = Inr (x', c')" by (auto simp: bindc_Inr_iff)
  from exchange_count [OF 1(1)] Cons.IH [OF 1(2)] show ?case by auto
qed simp

text \<open>The two loops of a round, whatever the order of their iterations.\<close>

lemma omp_for_Inr:
  assumes "omp_for is (x, c) r" "\<forall>i \<in> set is. i + 1 < length x" "distinct is" "\<forall>i \<in> set is. i + 1 \<notin> set is"
  obtains x' c' where "r = Inr (x', c')" "mset x' = mset x" "inversions x' + c' = inversions x + c" "c \<le> c'"
    "\<forall>i \<in> set is. x' ! i \<le> x' ! (i + 1)" "c' = c \<Longrightarrow> x' = x"
proof -
  obtain "is'" where is': "mset is' = mset is" "r = pass is' (x, c)" using assms(1) by (auto simp: omp_for_def)
  have s: "set is' = set is" "distinct is'" using is'(1) assms(3) by (metis mset_eq_setD, metis mset_eq_imp_distinct_iff)
  obtain x' c' where p: "pass is' (x, c) = Inr (x', c')" "mset x' = mset x" "inversions x' + c' = inversions x + c"
    using pass_Inr [of is' x c] s assms(2) by auto
  with is'(2) s assms(4) pass_count [OF p(1)] pass_orders [OF p(1) s(2)] show ?thesis by (intro that [of x' c']) auto
qed

lemma evens_odds:
  "i \<in> set (evens n) \<longleftrightarrow> even i \<and> i + 1 < n" "i \<in> set (odds n) \<longleftrightarrow> odd i \<and> i + 1 < n"
  "distinct (evens n)" "distinct (odds n)"
  by (auto simp: evens_def odds_def)

lemma poe_round_Inr:
  assumes "poe_round x r"
  obtains x' changes where "r = Inr (x', changes)" "mset x' = mset x" "inversions x' + changes \<le> inversions x"
    "changes = 0 \<Longrightarrow> sorted x'"
proof -
  obtain r1 where r1: "omp_for (evens (length x)) (x, 0) r1"
    and r: "case r1 of Inl e \<Rightarrow> r = Inl e
      | Inr (x1, changes) \<Rightarrow> \<exists>lost \<le> changes. omp_for (odds (length x)) (x1, changes - lost) r"
    using assms by (auto simp: poe_round_def)
  obtain x1 c1 where e: "r1 = Inr (x1, c1)" "mset x1 = mset x" "inversions x1 + c1 = inversions x"
    "\<forall>i \<in> set (evens (length x)). x1 ! i \<le> x1 ! (i + 1)"
    by (rule omp_for_Inr [OF r1]) (auto simp: evens_odds)
  obtain lost where lost: "lost \<le> c1" "omp_for (odds (length x)) (x1, c1 - lost) r" using r e(1) by auto
  have len: "length x1 = length x" using e(2) by (metis size_mset)
  obtain x' c' where o: "r = Inr (x', c')" "mset x' = mset x1" "inversions x' + c' = inversions x1 + (c1 - lost)"
    "c1 - lost \<le> c'" "\<forall>i \<in> set (odds (length x)). x' ! i \<le> x' ! (i + 1)" "c' = c1 - lost \<Longrightarrow> x' = x1"
    by (rule omp_for_Inr [OF lost(2)]) (auto simp: evens_odds len)
  have "sorted x'" if "c' = 0"
  proof -
    from that o(4,6) have "x' = x1" by simp
    with e(4) o(5) len show ?thesis by (auto simp: sorted_iff_nth_Suc evens_odds)
  qed
  with o e lost show ?thesis by (intro that [of x' c']) auto
qed

lemma poe_step_inversions: "poe_step x x' \<Longrightarrow> mset x' = mset x \<and> inversions x' < inversions x"
  by (auto simp: poe_step_def elim!: poe_round_Inr)

lemma poe_steps_bounded: "(poe_step ^^ k) x y \<Longrightarrow> inversions y + k \<le> inversions x"
proof (induction k arbitrary: y)
  case (Suc k)
  then obtain z where "(poe_step ^^ k) x z" "poe_step z y" by auto
  with Suc.IH [of z] poe_step_inversions [of z y] show ?case by auto
qed simp

lemma poe_loop_sorts: "poe_loop x r \<Longrightarrow> \<exists>y. r = Inr y \<and> sorted y \<and> mset y = mset x"
  by (induction rule: poe_loop.induct) (auto elim!: poe_round_Inr dest: poe_step_inversions)

lemma poe_round_exists: "\<exists>r. poe_round x r"
proof -
  have "omp_for is s (pass is s)" for "is" s by (auto simp: omp_for_def)
  moreover from this obtain r1 where "omp_for (evens (length x)) (x, 0) r1" by blast
  ultimately show ?thesis unfolding poe_round_def by (cases r1) (use le0 in \<open>fastforce\<close>)+
qed

lemma poe_loop_exists: "\<exists>r. poe_loop x r"
proof (induction "inversions x" arbitrary: x rule: less_induct)
  case less
  obtain r where r: "poe_round x r" using poe_round_exists by blast
  then obtain x' c where x': "r = Inr (x', c)" by (elim poe_round_Inr)
  show ?case
  proof (cases "c = 0")
    case True
    with r x' show ?thesis by (auto intro: poe_done)
  next
    case False
    with r x' have "poe_step x x'" by (auto simp: poe_step_def)
    with less poe_step_inversions show ?thesis by (blast intro: poe_again)
  qed
qed

text \<open>The sorted array of the program.\<close>

lemma sorted_descending:
  assumes "sorted y" "mset y = mset (descending n)"
  shows "y = map int [1..<n + 1]"
proof -
  have "rev (descending n) = map int [1..<n + 1]"
    by (intro nth_equalityI) (auto simp: descending_def rev_nth nth_append simp del: upt_Suc)
  then have "mset y = mset (map int [1..<n + 1])" using assms(2) by (metis mset_rev)
  moreover have "sorted (map int [1..<n + 1])" by (simp add: sorted_iff_nth_mono del: upt_Suc)
  ultimately show ?thesis using assms(1) by (metis properties_for_sort)
qed

text \<open>
  C23: the parallel odd-even sort is correct in spite of the race on \<open>changes\<close>.  Whatever the order of the iterations and whatever
  the late stores of \<open>changes = 0\<close> erase, every array is sorted: the loop takes at most as many rounds that go on as the array has
  inversions, some execution ends, and every execution that ends leaves a sorted permutation of the array without leaving its bounds.  The program
  prints 1 and 100000.
\<close>

theorem poe_sort_sorts:
  "(\<forall>k y. (poe_step ^^ k) x y \<longrightarrow> k \<le> inversions x) \<and> (\<exists>r. poe_loop x r) \<and>
   (\<forall>r. poe_loop x r \<longrightarrow> (\<exists>y. r = Inr y \<and> sorted y \<and> mset y = mset x)) \<and>
   (\<forall>r. poe_main 100000 r \<longrightarrow> r = Inr (1, 100000))"
proof (intro conjI allI impI)
  fix k y assume "(poe_step ^^ k) x y"
  then show "k \<le> inversions x" using poe_steps_bounded by fastforce
next
  fix r assume "poe_main 100000 r"
  then obtain l where l: "poe_loop (descending 100000) l"
    and r: "r = bindc l (\<lambda>x. bindc (ld x 0) (\<lambda>a. bindc (ld x (100000 - 1)) (\<lambda>b. Inr (a, b))))"
    by (auto simp: poe_main_def)
  from poe_loop_sorts [OF l] sorted_descending have "l = Inr (map int [1..<100000 + 1])" by blast
  moreover have "(0::nat) < length (map int [1..<100000 + 1])" "100000 - 1 < length (map int [1..<100000 + 1])"
    by (simp_all only: length_map length_upt)
  ultimately show "r = Inr (1, 100000)" unfolding r by (simp only: bindc_simps ld_in) (simp del: upt_Suc upt_rec_numeral)
qed (use poe_loop_exists poe_loop_sorts in blast)+

theorem poe_sort_sorts_witness:
  "\<exists>y. poe_loop [3, 1, 2] (Inr y) \<and> sorted y \<and> mset y = mset [3, 1, 2]"
  using poe_sort_sorts [of "[3, 1, 2]"] by blast

subsection \<open>The sequential sorts leave their arrays\<close>

lemma pass_append: "pass (is @ js) s = bindc (pass is s) (pass js)"
  by (induction "is" arbitrary: s) (auto simp: bindc_def split: sum.splits)

text \<open>A pass whose last pair is the last element and the one after it is undefined.\<close>

lemma pass_out:
  assumes "\<forall>i \<in> set is. i + 1 < length x" "length x \<le> j + 1"
  shows "pass (is @ [j]) (x, c) = Inl OutOfBounds"
proof -
  obtain x' c' where p: "pass is (x, c) = Inr (x', c')" "mset x' = mset x" using pass_Inr [OF assms(1)] by blast
  then have "length x' = length x" by (metis size_mset)
  with p exchange_out [of x' j c'] assms(2) show ?thesis by (simp add: pass_append)
qed

text \<open>
  \<open>b_sort.c\<close> compares the last element of every array with the one after it in its first pass, and
  \<open>oe_sort.c\<close> does so in its second, for every even size.
\<close>

theorem sequential_sorts_out_of_bounds:
  "b_main (Suc n) = Inl OutOfBounds" "oe_main (Suc (Suc fuel)) (2 * Suc n) = Some (Inl OutOfBounds)"
proof -
  have "pass ([0..<n] @ [n]) (descending (Suc n), 0) = Inl OutOfBounds"
    by (rule pass_out) (auto simp: descending_def)
  then show "b_main (Suc n) = Inl OutOfBounds" by (simp add: b_main_def)
next
  let ?n = "2 * Suc n" and ?i0 = "filter (\<lambda>i. i mod 2 = 0) [0..<2 * Suc n]"
  let ?d = "descending ?n"
  have len: "length ?d = ?n" by (simp add: descending_def)
  have "\<forall>i \<in> set ?i0. i + 1 < length ?d" unfolding len by auto
  then obtain x' c' where p: "pass ?i0 (?d, 0) = Inr (x', c')" "mset x' = mset ?d" using pass_Inr by blast
  have len': "length x' = ?n" using p(2) len by (metis size_mset)
  have "c' \<noteq> 0"
  proof
    assume "c' = 0"
    with pass_count [OF p(1)] have "\<forall>i \<in> set ?i0. ?d ! i \<le> ?d ! (i + 1)" by auto
    moreover have "0 \<in> set ?i0" by (simp del: upt_Suc)
    ultimately have "?d ! 0 \<le> ?d ! (0 + 1)" by blast
    then show False by (simp add: descending_def nth_append del: upt_Suc)
  qed
  moreover have "filter (\<lambda>i. i mod 2 = 1) [0..<?n] = filter (\<lambda>i. i mod 2 = 1) [0..<?n - 1] @ [?n - 1]"
    by (simp add: mod_Suc)
  then have "pass (filter (\<lambda>i. i mod 2 = 1) [0..<?n]) (x', 0) = Inl OutOfBounds"
    using pass_out [of "filter (\<lambda>i. i mod 2 = 1) [0..<?n - 1]" x' "?n - 1" 0] len' by auto
  ultimately show "oe_main (Suc (Suc fuel)) ?n = Some (Inl OutOfBounds)"
    using p(1) len len' by (simp add: oe_main_def del: upt_Suc)
qed

end
