(* ===== verification/OpenMP_Sums.thy ===== *)
theory OpenMP_Sums
  imports Pthread_Lib C_Runtime "HOL-Library.Multiset"
begin

section \<open>OpenMP: sums of a team of threads\<close>

text \<open>
  \<open>critical.c\<close>, \<open>critical1.c\<close>, \<open>atomic.c\<close>, \<open>lock.c\<close>, \<open>reduction.c\<close> and \<open>race.c\<close> of \<open>src/OpenMP\<close> add up ones in an
  \<open>int sum\<close>.  The iterations of an \<open>omp for\<close> are shared out to the threads of a team: \<open>chunks ! t\<close> are the
  values of \<open>i\<close> that thread \<open>t\<close> gets, in its order, and every way to share them out is allowed.  A thread
  is the list of the statements it still has to do.  A \<open>critical\<close> statement is one step, as is a
  statement on private variables; the unprotected \<open>sum += 1\<close> loads and stores.  Clock and printed
  times are left out.
\<close>

datatype omp_stmt = LocalZero | LocalAdd int | SumAdd int | Combine | SetLock | LoadSum | StoreSum int | UnsetLock

record team =
  sum_of :: int
  sumLocal :: "tid \<Rightarrow> int"
  loaded :: "tid \<Rightarrow> int"
  olock :: mutex
  rest :: "tid \<Rightarrow> omp_stmt list"
  overflow :: bool

definition set_sum :: "int \<Rightarrow> team \<Rightarrow> team" where
  "set_sum v s = (if in_int32 v then s\<lparr>sum_of := v\<rparr> else s\<lparr>overflow := True\<rparr>)"

definition set_local :: "tid \<Rightarrow> int \<Rightarrow> team \<Rightarrow> team" where
  "set_local t v s = (if in_int32 v then s\<lparr>sumLocal := (sumLocal s)(t := v)\<rparr> else s\<lparr>overflow := True\<rparr>)"

definition omp_exec :: "tid \<Rightarrow> omp_stmt \<Rightarrow> team \<Rightarrow> team option" where
  "omp_exec t st s =
     (case st of
        LocalZero \<Rightarrow> Some (set_local t 0 s)
      | LocalAdd v \<Rightarrow> Some (set_local t (sumLocal s t + v) s)
      | SumAdd v \<Rightarrow> Some (set_sum (sum_of s + v) s)
      | Combine \<Rightarrow> Some (set_sum (sum_of s + sumLocal s t) s)
      | SetLock \<Rightarrow> map_option (\<lambda>m. s\<lparr>olock := m\<rparr>) (mutex_lock t (olock s))
      | LoadSum \<Rightarrow> Some (s\<lparr>loaded := (loaded s)(t := sum_of s)\<rparr>)
      | StoreSum v \<Rightarrow> Some (set_sum (loaded s t + v) s)
      | UnsetLock \<Rightarrow> Some (s\<lparr>olock := mutex_unlock (olock s)\<rparr>))"

definition omp_step :: "nat \<Rightarrow> tid \<Rightarrow> team \<Rightarrow> team option" where
  "omp_step n t s =
     (if overflow s \<or> \<not> t < n then None
      else case rest s t of
        [] \<Rightarrow> None
      | st # r \<Rightarrow> map_option (\<lambda>u. u\<lparr>rest := (rest u)(t := r)\<rparr>) (omp_exec t st s))"

definition team_init :: "omp_stmt list list \<Rightarrow> team" where
  "team_init ps = \<lparr>sum_of = 0, sumLocal = (\<lambda>_. 0), loaded = (\<lambda>_. 0), olock = None,
     rest = (\<lambda>t. if t < length ps then ps ! t else []), overflow = False\<rparr>"

subsection \<open>The programs\<close>

text \<open>The loops run \<open>i\<close> from 0 to 9999, shared out, and \<open>j\<close> from 0 to 49999 for every \<open>i\<close>.\<close>

definition I_LIMIT :: nat where "I_LIMIT = 10000"

definition J_LIMIT :: nat where "J_LIMIT = 50000"

definition inner :: "omp_stmt list \<Rightarrow> nat list \<Rightarrow> omp_stmt list" where
  "inner body is = concat (map (\<lambda>i. concat (replicate J_LIMIT body)) is)"

definition atomic_thread :: "nat list \<Rightarrow> omp_stmt list" where
  "atomic_thread is = inner [SumAdd 1] is"

definition reduction_thread :: "nat list \<Rightarrow> omp_stmt list" where
  "reduction_thread is = LocalZero # inner [LocalAdd 1] is @ [Combine]"

definition lock_thread :: "nat list \<Rightarrow> omp_stmt list" where
  "lock_thread is = inner [SetLock, LoadSum, StoreSum 1, UnsetLock] is"

definition race_thread :: "nat list \<Rightarrow> omp_stmt list" where
  "race_thread is = inner [LoadSum, StoreSum 1] is"

text \<open>\<open>critical1.c\<close> has its directives commented out: one thread runs both loops.\<close>

definition critical1_thread :: "omp_stmt list" where
  "critical1_thread = race_thread [0..<I_LIMIT]"

text \<open>\<open>critical.c\<close> adds the elements of an array of ones.\<close>

definition ARRAY_SIZE :: nat where "ARRAY_SIZE = 1000000"

definition critical_array :: "int list" where
  "critical_array = replicate ARRAY_SIZE 1"

definition critical_thread :: "nat list \<Rightarrow> omp_stmt list" where
  "critical_thread is = LocalZero # map (\<lambda>i. LocalAdd (critical_array ! i)) is @ [Combine]"

definition shares :: "nat \<Rightarrow> nat list list \<Rightarrow> bool" where
  "shares n chunks \<longleftrightarrow> mset (concat chunks) = mset [0..<n]"

subsection \<open>What a thread still owes to the sum\<close>

fun owed :: "int \<Rightarrow> omp_stmt list \<Rightarrow> int" where
  "owed l [] = 0"
| "owed l (LocalZero # r) = owed 0 r"
| "owed l (LocalAdd v # r) = owed (l + v) r"
| "owed l (SumAdd v # r) = v + owed l r"
| "owed l (Combine # r) = l + owed l r"
| "owed l (SetLock # r) = owed l r"
| "owed l (LoadSum # r) = owed l r"
| "owed l (StoreSum v # r) = v + owed l r"
| "owed l (UnsetLock # r) = owed l r"

fun nonneg :: "omp_stmt \<Rightarrow> bool" where
  "nonneg (LocalAdd v) = (0 \<le> v)" | "nonneg (SumAdd v) = (0 \<le> v)" | "nonneg (StoreSum v) = (0 \<le> v)" | "nonneg _ = True"

lemma owed_nonneg: "list_all nonneg r \<Longrightarrow> 0 \<le> l \<Longrightarrow> 0 \<le> owed l r"
  by (induction l r rule: owed.induct) auto

text \<open>What is in a private sum is still to be combined, if a \<open>Combine\<close> comes before the next \<open>LocalZero\<close>.\<close>

fun live :: "omp_stmt list \<Rightarrow> bool" where
  "live [] = False" | "live (Combine # r) = True" | "live (LocalZero # r) = False" | "live (st # r) = live r"

fun combined :: "omp_stmt list \<Rightarrow> bool" where
  "combined [] = True" | "combined (LocalAdd v # r) = (live r \<and> combined r)" | "combined (st # r) = combined r"

lemma owed_live: "list_all nonneg r \<Longrightarrow> 0 \<le> l \<Longrightarrow> live r \<Longrightarrow> l \<le> owed l r"
proof (induction l r rule: owed.induct)
  case (5 l r)
  then show ?case using owed_nonneg by simp
qed auto

lemma sum_change:
  fixes f :: "nat \<Rightarrow> int"
  assumes "t < n" "\<And>u. u \<noteq> t \<Longrightarrow> f' u = f u"
  shows "(\<Sum>u < n. f' u) = (\<Sum>u < n. f u) - f t + f' t"
proof -
  have "(\<Sum>u \<in> {..<n} - {t}. f' u) = (\<Sum>u \<in> {..<n} - {t}. f u)" using assms(2) by (intro sum.cong) auto
  then show ?thesis using assms(1) by (simp add: sum.remove [of "{..<n}" t])
qed

subsection \<open>The invariant\<close>

definition plain :: "omp_stmt \<Rightarrow> bool" where
  "plain st \<longleftrightarrow> (case st of LocalZero \<Rightarrow> True | LocalAdd v \<Rightarrow> True | SumAdd v \<Rightarrow> True | Combine \<Rightarrow> True | _ \<Rightarrow> False)"

definition sections :: "nat \<Rightarrow> omp_stmt list" where
  "sections k = concat (replicate k [SetLock, LoadSum, StoreSum 1, UnsetLock])"

definition in_section :: "nat \<Rightarrow> tid \<Rightarrow> team \<Rightarrow> bool" where
  "in_section k t s \<longleftrightarrow>
     (if olock s = Some t
      then rest s t = LoadSum # StoreSum 1 # UnsetLock # sections k \<or>
           rest s t = StoreSum 1 # UnsetLock # sections k \<and> loaded s t = sum_of s \<or> rest s t = UnsetLock # sections k
      else rest s t = sections k)"

definition disciplined :: "nat \<Rightarrow> team \<Rightarrow> bool" where
  "disciplined n s \<longleftrightarrow> (\<forall>t < n. list_all plain (rest s t)) \<or>
     (\<forall>t < n. \<exists>k. in_section k t s) \<and> (\<forall>t. olock s = Some t \<longrightarrow> t < n)"

definition debt :: "team \<Rightarrow> tid \<Rightarrow> int" where
  "debt s t = owed (sumLocal s t) (rest s t)"

definition sums_up :: "nat \<Rightarrow> int \<Rightarrow> team \<Rightarrow> bool" where
  "sums_up n tot s \<longleftrightarrow> sum_of s + (\<Sum>t < n. debt s t) = tot \<and> 0 \<le> sum_of s \<and> \<not> overflow s \<and>
     (\<forall>t < n. 0 \<le> sumLocal s t \<and> list_all nonneg (rest s t) \<and> combined (rest s t))"

definition omp_inv :: "nat \<Rightarrow> int \<Rightarrow> team \<Rightarrow> bool" where
  "omp_inv n tot s \<longleftrightarrow> tot < 2 ^ 31 \<and> sums_up n tot s \<and> disciplined n s"

lemma debt_nonneg: "sums_up n tot s \<Longrightarrow> t < n \<Longrightarrow> 0 \<le> debt s t"
  unfolding debt_def by (rule owed_nonneg) (simp_all add: sums_up_def)

lemma debt_bound: "sums_up n tot s \<Longrightarrow> t < n \<Longrightarrow> sum_of s + debt s t \<le> tot"
proof -
  assume s: "sums_up n tot s" and t: "t < n"
  have "debt s t \<le> (\<Sum>t < n. debt s t)" using t debt_nonneg [OF s] by (intro member_le_sum) auto
  with s show ?thesis by (simp add: sums_up_def)
qed

lemma sections_simps [simp]:
  "sections 0 = []" "sections (Suc k) = SetLock # LoadSum # StoreSum 1 # UnsetLock # sections k"
  by (simp_all add: sections_def)

lemma sections_Cons: "sections k = st # r \<Longrightarrow> \<exists>j. k = Suc j \<and> st = SetLock \<and> r = LoadSum # StoreSum 1 # UnsetLock # sections j"
  by (cases k) auto

lemma omp_stepE:
  assumes "omp_step n t s = Some s'"
  obtains st r u where "t < n" "\<not> overflow s" "rest s t = st # r" "omp_exec t st s = Some u" "s' = u\<lparr>rest := (rest u)(t := r)\<rparr>"
  using assms by (auto simp: omp_step_def split: if_splits list.splits)

text \<open>A statement changes the sum by what the thread then no longer owes.\<close>

lemma sums_up_step:
  assumes "sums_up n tot s" "tot < 2 ^ 31" "omp_step n t s = Some s'"
    and store: "\<And>v r. rest s t = StoreSum v # r \<Longrightarrow> loaded s t = sum_of s"
  shows "sums_up n tot s'"
proof -
  obtain st r u where st: "t < n" "rest s t = st # r" "omp_exec t st s = Some u" "s' = u\<lparr>rest := (rest u)(t := r)\<rparr>"
    using omp_stepE [OF assms(3)] by metis
  have h: "0 \<le> sum_of s" "0 \<le> sumLocal s t" "list_all nonneg (st # r)" "combined (st # r)" "\<not> overflow s"
    using assms(1) st(1,2) by (auto simp: sums_up_def)
  have b: "sum_of s + owed (sumLocal s t) (st # r) \<le> tot" using debt_bound [OF assms(1) st(1)] st(2) by (simp add: debt_def)
  have o: "0 \<le> owed (sumLocal s t) r" "0 \<le> owed 0 r" using h by (auto intro: owed_nonneg)
  have key: "\<not> overflow s' \<and> 0 \<le> sum_of s' \<and> 0 \<le> sumLocal s' t \<and> (\<forall>v. v \<noteq> t \<longrightarrow> sumLocal s' v = sumLocal s v) \<and>
      rest s' = (rest s)(t := r) \<and> sum_of s' + debt s' t = sum_of s + debt s t"
  proof (cases st)
    case (LocalAdd v)
    have "live r" "0 \<le> v" using h LocalAdd by simp_all
    then have "sumLocal s t + v \<le> owed (sumLocal s t + v) r" using h LocalAdd by (intro owed_live) auto
    then have "sumLocal s t + v \<le> tot" using b LocalAdd h(1) by simp
    then have "in_int32 (sumLocal s t + v)" using h(2) \<open>0 \<le> v\<close> assms(2) by (simp add: in_int32_def)
    then show ?thesis using LocalAdd st h \<open>0 \<le> v\<close> by (auto simp: omp_exec_def set_local_def debt_def)
  next
    case (StoreSum v)
    then have "loaded s t = sum_of s" using store st(2) by simp
    moreover have "in_int32 (sum_of s + v)" "0 \<le> v" using StoreSum b o h assms(2) by (simp_all add: in_int32_def)
    ultimately show ?thesis using StoreSum st h by (auto simp: omp_exec_def set_sum_def debt_def)
  next
    case (SumAdd v)
    have "in_int32 (sum_of s + v)" "0 \<le> v" using SumAdd b o h assms(2) by (simp_all add: in_int32_def)
    then show ?thesis using SumAdd st h by (auto simp: omp_exec_def set_sum_def debt_def)
  next
    case Combine
    have "in_int32 (sum_of s + sumLocal s t)" using Combine b o h assms(2) by (simp add: in_int32_def)
    then show ?thesis using Combine st h by (auto simp: omp_exec_def set_sum_def debt_def)
  next
    case LocalZero
    then show ?thesis using st h by (auto simp: omp_exec_def set_local_def debt_def in_int32_def)
  qed (use st h in \<open>auto simp: omp_exec_def debt_def\<close>)
  have "(\<Sum>v < n. debt s' v) = (\<Sum>v < n. debt s v) - debt s t + debt s' t"
    using key by (intro sum_change [OF st(1)]) (simp add: debt_def)
  moreover have "list_all nonneg r" "combined r" using h by (cases st; simp)+
  ultimately show ?thesis using assms(1) key by (auto simp: sums_up_def)
qed

lemma plain_step:
  assumes "\<forall>t < n. list_all plain (rest s t)" "omp_step n t s = Some s'"
  shows "\<forall>t < n. list_all plain (rest s' t)"
proof -
  obtain st r u where st: "t < n" "rest s t = st # r" "omp_exec t st s = Some u" "s' = u\<lparr>rest := (rest u)(t := r)\<rparr>"
    using omp_stepE [OF assms(2)] by metis
  have "rest u = rest s" using st(3) by (cases st) (auto simp: omp_exec_def set_local_def set_sum_def split: if_splits)
  then show ?thesis using assms(1) st by auto
qed

text \<open>A step of a thread in the locked section keeps every other thread outside it.\<close>

lemma section_step:
  assumes s: "\<forall>t < n. \<exists>k. in_section k t s" "\<forall>t. olock s = Some t \<longrightarrow> t < n" and step: "omp_step n t s = Some s'" and "\<not> overflow s'"
  shows "(\<forall>t < n. \<exists>k. in_section k t s') \<and> (\<forall>t. olock s' = Some t \<longrightarrow> t < n)"
proof -
  obtain st r u where st: "t < n" "rest s t = st # r" "omp_exec t st s = Some u" "s' = u\<lparr>rest := (rest u)(t := r)\<rparr>"
    using omp_stepE [OF step] by metis
  obtain k where k: "in_section k t s" using s(1) st(1) by blast
  have "(olock s = Some t \<longrightarrow> olock s' \<in> {Some t, None}) \<and> (olock s \<noteq> Some t \<longrightarrow> olock s = None \<and> olock s' = Some t \<and> sum_of s' = sum_of s) \<and>
      (\<forall>v. v \<noteq> t \<longrightarrow> rest s' v = rest s v \<and> loaded s' v = loaded s v) \<and> (\<exists>k. in_section k t s')"
  proof (cases "olock s = Some t")
    case True
    then consider "rest s t = LoadSum # StoreSum 1 # UnsetLock # sections k" | "rest s t = StoreSum 1 # UnsetLock # sections k"
      | "rest s t = UnsetLock # sections k" using k by (auto simp: in_section_def)
    then show ?thesis
      by cases (use True st assms(4) in \<open>auto simp: omp_exec_def set_sum_def in_section_def split: if_splits intro!: exI [of _ k]\<close>)
  next
    case False
    then have "rest s t = sections k" using k by (simp add: in_section_def)
    then obtain j where "st = SetLock" "r = LoadSum # StoreSum 1 # UnsetLock # sections j" using sections_Cons st(2) by metis
    then show ?thesis using False st by (auto simp: omp_exec_def in_section_def intro!: exI [of _ j])
  qed
  note c = this
  have "\<exists>k. in_section k v s'" if "v < n" for v
  proof (cases "v = t")
    case False
    obtain j where "in_section j v s" using s(1) \<open>v < n\<close> by blast
    moreover have "olock s' \<noteq> Some v" "olock s \<noteq> Some v" using c False by auto
    ultimately have "in_section j v s'" using c False by (simp add: in_section_def)
    then show ?thesis by blast
  qed (use c in simp)
  moreover have "\<forall>v. olock s' = Some v \<longrightarrow> v < n" using c st(1) by auto
  ultimately show ?thesis by blast
qed

lemma omp_inv_step:
  assumes "omp_inv n tot s" "omp_step n t s = Some s'"
  shows "omp_inv n tot s'"
proof -
  have i: "tot < 2 ^ 31" "sums_up n tot s" "disciplined n s" using assms(1) by (simp_all add: omp_inv_def)
  have t: "t < n" using omp_stepE [OF assms(2)] by metis
  have "loaded s t = sum_of s" if "rest s t = StoreSum v # r" for v r
  proof -
    have "\<not> list_all plain (rest s t)" using that by (simp add: plain_def)
    then obtain k where "in_section k t s" using i(3) t by (auto simp: disciplined_def)
    then show ?thesis using that sections_Cons [of k] by (auto simp: in_section_def split: if_splits)
  qed
  then have su: "sums_up n tot s'" using sums_up_step i assms(2) by blast
  then have "\<not> overflow s'" by (simp add: sums_up_def)
  then have "disciplined n s'" using i(3) plain_step [OF _ assms(2)] section_step [OF _ _ assms(2)] unfolding disciplined_def by blast
  with su i(1) show ?thesis by (simp add: omp_inv_def)
qed

definition omp_msr :: "nat \<Rightarrow> team \<Rightarrow> nat" where
  "omp_msr n s = (\<Sum>t < n. length (rest s t))"

definition all_done :: "nat \<Rightarrow> team \<Rightarrow> bool" where
  "all_done n s \<longleftrightarrow> (\<forall>t < n. rest s t = [])"

lemma omp_msr_step:
  assumes "omp_step n t s = Some s'"
  shows "omp_msr n s' < omp_msr n s"
proof -
  obtain st r u where st: "t < n" "rest s t = st # r" "omp_exec t st s = Some u" "s' = u\<lparr>rest := (rest u)(t := r)\<rparr>"
    using omp_stepE [OF assms] by metis
  have "rest u = rest s" using st(3) by (cases st) (auto simp: omp_exec_def set_local_def set_sum_def split: if_splits)
  then have "rest s' = (rest s)(t := r)" using st(4) by simp
  then show ?thesis using st(1,2) by (simp add: omp_msr_def sum.remove [of "{..<n}" t])
qed

lemma omp_progress:
  assumes "omp_inv n tot s" "\<not> all_done n s"
  shows "\<exists>t s'. omp_step n t s = Some s'"
proof -
  have i: "\<not> overflow s" "disciplined n s" using assms(1) by (simp_all add: omp_inv_def sums_up_def)
  obtain t st r where t: "t < n" "rest s t = st # r" using assms(2) by (auto simp: all_done_def neq_Nil_conv)
  have go: ?thesis if "u < n" "rest s u = st' # r'" "omp_exec u st' s \<noteq> None" for u st' r'
  proof -
    have "omp_step n u s \<noteq> None" using that i(1) by (simp add: omp_step_def)
    then show ?thesis by blast
  qed
  show ?thesis
  proof (cases "\<forall>t < n. list_all plain (rest s t)")
    case True
    then have "plain st" using t by auto
    then have "omp_exec t st s \<noteq> None" by (cases st) (simp_all add: plain_def omp_exec_def)
    then show ?thesis using go t by blast
  next
    case False
    then have sec: "\<forall>t < n. \<exists>k. in_section k t s" "\<forall>t. olock s = Some t \<longrightarrow> t < n" using i(2) by (auto simp: disciplined_def)
    show ?thesis
    proof (cases "olock s")
      case (Some u)
      then obtain k where "in_section k u s" "u < n" using sec by blast
      then obtain st' r' where "rest s u = st' # r'" "st' \<noteq> SetLock" using Some by (auto simp: in_section_def)
      moreover from this have "omp_exec u st' s \<noteq> None" by (cases st') (simp_all add: omp_exec_def)
      ultimately show ?thesis using go \<open>u < n\<close> by blast
    next
      case None
      then obtain k where "rest s t = sections k" using sec(1) t(1) by (auto simp: in_section_def)
      then have "st = SetLock" using t(2) sections_Cons by metis
      then have "omp_exec t st s \<noteq> None" using None by (simp add: omp_exec_def)
      then show ?thesis using go t by blast
    qed
  qed
qed

lemma team_system:
  assumes "omp_inv (length ps) tot (team_init ps)"
  shows "terminating_system (omp_step (length ps)) (team_init ps) (omp_inv (length ps) tot) (omp_msr (length ps)) (all_done (length ps))"
  using assms omp_inv_step omp_msr_step omp_progress by unfold_locales

subsection \<open>The protected sums\<close>

lemma inner_replicate: "inner b is = concat (replicate (length is * J_LIMIT) b)"
proof -
  have "concat (replicate m (concat (replicate k b))) = concat (replicate (m * k) b)" for m k
    by (induction m) (simp_all add: replicate_add)
  then show ?thesis by (simp add: inner_def map_replicate_const)
qed

lemma lock_sections: "lock_thread is = sections (length is * J_LIMIT)"
  by (simp add: lock_thread_def sections_def inner_replicate)

lemma owed_repeat:
  "owed l (replicate k (SumAdd 1) @ r) = int k + owed l r"
  "owed l (replicate k (LocalAdd 1) @ r) = owed (l + int k) r"
  "owed l (sections k) = int k"
  by (induction k arbitrary: l) (simp_all add: algebra_simps)

lemma owed_local: "owed l (map (\<lambda>i. LocalAdd (f i)) is @ r) = owed (l + sum_list (map f is)) r"
  by (induction "is" arbitrary: l) (simp_all add: algebra_simps)

lemma sum_chunks: "(\<Sum>t < length chunks. int (length (chunks ! t))) = int (length (concat chunks))"
  by (simp add: length_concat sum_list_sum_nth atLeast0LessThan)

definition thread_ok :: "nat \<Rightarrow> nat \<Rightarrow> (nat list \<Rightarrow> omp_stmt list) \<Rightarrow> bool" where
  "thread_ok n w th \<longleftrightarrow> (\<forall>is. set is \<subseteq> {..<n} \<longrightarrow>
     list_all nonneg (th is) \<and> combined (th is) \<and> owed 0 (th is) = int (length is * w))"

lemma repeat_ok:
  "list_all nonneg (replicate k (SumAdd 1))" "combined (replicate k (SumAdd 1))"
  "list_all nonneg (replicate k (LocalAdd 1))" "live (replicate k (LocalAdd 1) @ [Combine])"
  "combined (replicate k (LocalAdd 1) @ [Combine])" "list_all nonneg (sections k)" "combined (sections k)"
  "list_all plain (replicate k (SumAdd 1))" "list_all plain (replicate k (LocalAdd 1))"
  by (induction k) (auto simp: plain_def)

lemma locals_ok:
  "(\<And>i. i \<in> set is \<Longrightarrow> 0 \<le> f i) \<Longrightarrow> list_all nonneg (map (\<lambda>i. LocalAdd (f i)) is)"
  "live (map (\<lambda>i. LocalAdd (f i)) is @ [Combine])" "combined (map (\<lambda>i. LocalAdd (f i)) is @ [Combine])"
  "list_all plain (map (\<lambda>i. LocalAdd (f i)) is)"
  by (induction "is") (auto simp: plain_def)

lemma critical_array_nth: "i < ARRAY_SIZE \<Longrightarrow> critical_array ! i = 1"
  unfolding critical_array_def by (rule nth_replicate)

lemma critical_array_sum: "set is \<subseteq> {..<ARRAY_SIZE} \<Longrightarrow> sum_list (map (\<lambda>i. critical_array ! i) is) = int (length is)"
  by (induction "is") (auto simp: critical_array_nth)

lemma threads_ok:
  "thread_ok I_LIMIT J_LIMIT atomic_thread" "thread_ok I_LIMIT J_LIMIT reduction_thread" "thread_ok I_LIMIT J_LIMIT lock_thread"
  "thread_ok ARRAY_SIZE 1 critical_thread"
proof -
  show "thread_ok I_LIMIT J_LIMIT atomic_thread"
    using owed_repeat(1) [where r = "[]"] by (simp add: thread_ok_def atomic_thread_def inner_replicate repeat_ok)
  show "thread_ok I_LIMIT J_LIMIT reduction_thread"
    by (simp add: thread_ok_def reduction_thread_def inner_replicate repeat_ok owed_repeat)
  show "thread_ok I_LIMIT J_LIMIT lock_thread" by (simp add: thread_ok_def lock_sections repeat_ok owed_repeat)
  show "thread_ok ARRAY_SIZE 1 critical_thread"
    by (auto simp: thread_ok_def critical_thread_def locals_ok owed_local critical_array_sum critical_array_nth subset_iff
        intro!: locals_ok(1))
qed

lemma team_disciplined:
  assumes "th \<in> {atomic_thread, reduction_thread, lock_thread, critical_thread}"
  shows "disciplined (length chunks) (team_init (map th chunks))"
proof (cases "th = lock_thread")
  case True
  then have "\<exists>k. in_section k t (team_init (map th chunks))" if "t < length chunks" for t
    using that by (auto simp: in_section_def team_init_def lock_sections)
  then show ?thesis by (simp add: disciplined_def team_init_def)
next
  case False
  then have "list_all plain (th is)" for "is"
    using assms by (auto simp: atomic_thread_def reduction_thread_def critical_thread_def inner_replicate repeat_ok locals_ok plain_def)
  then show ?thesis by (simp add: disciplined_def team_init_def)
qed

lemma team_sums_up:
  assumes "shares n chunks" "thread_ok n w th"
  shows "sums_up (length chunks) (int (n * w)) (team_init (map th chunks))"
proof -
  have "set (chunks ! t) \<subseteq> {..<n}" if "t < length chunks" for t
  proof -
    have "set (chunks ! t) \<subseteq> set (concat chunks)" using that nth_mem by fastforce
    also have "set (concat chunks) = {..<n}" using assms(1) unfolding shares_def by (metis atLeast_upt set_mset_mset)
    finally show ?thesis .
  qed
  then have ok: "list_all nonneg (th (chunks ! t)) \<and> combined (th (chunks ! t)) \<and> owed 0 (th (chunks ! t)) = int (length (chunks ! t) * w)"
    if "t < length chunks" for t using that assms(2) by (simp add: thread_ok_def)
  have "length (concat chunks) = n" using assms(1) unfolding shares_def by (metis diff_zero length_upt size_mset)
  have "(\<Sum>t < length chunks. debt (team_init (map th chunks)) t) = (\<Sum>t < length chunks. int (length (chunks ! t)) * int w)"
    by (intro sum.cong) (simp_all add: debt_def team_init_def ok)
  also have "\<dots> = int (n * w)"
    using sum_chunks [of chunks] \<open>length (concat chunks) = n\<close> by (simp flip: sum_distrib_right)
  finally show ?thesis using ok by (simp add: sums_up_def team_init_def)
qed

text \<open>
  C36: the protected sums are right.  However \<open>omp for\<close> shares the iterations out to the threads of the
  team, every schedule of \<open>atomic.c\<close> (which uses \<open>critical\<close>), \<open>reduction.c\<close>, \<open>lock.c\<close> and \<open>critical.c\<close> ends, without
  deadlock and without overflow of the \<open>int\<close>, and then \<open>sum\<close> is 500000000 (1000000 in \<open>critical.c\<close>).
\<close>

theorem team_sums_correct:
  assumes "(n, w, th) \<in> {(I_LIMIT, J_LIMIT, atomic_thread), (I_LIMIT, J_LIMIT, reduction_thread),
      (I_LIMIT, J_LIMIT, lock_thread), (ARRAY_SIZE, 1, critical_thread)}"
    and "shares n chunks" "run (omp_step (length chunks)) as (team_init (map th chunks)) = Some s"
  shows "length as \<le> (\<Sum>t < length chunks. length (th (chunks ! t))) \<and> \<not> overflow s \<and>
     (stuck (omp_step (length chunks)) s \<longrightarrow>
        all_done (length chunks) s \<and> sum_of s = (if n = ARRAY_SIZE then 1000000 else 500000000))"
proof -
  have w: "int (n * w) = (if n = ARRAY_SIZE then 1000000 else 500000000)" "thread_ok n w th"
    "th \<in> {atomic_thread, reduction_thread, lock_thread, critical_thread}"
    using assms(1) threads_ok by (auto simp: I_LIMIT_def J_LIMIT_def ARRAY_SIZE_def)
  have "omp_inv (length chunks) (int (n * w)) (team_init (map th chunks))"
    using team_sums_up [OF assms(2) w(2)] team_disciplined [OF w(3)] w(1) by (simp add: omp_inv_def)
  then have T: "terminating_system (omp_step (length chunks)) (team_init (map th chunks)) (omp_inv (length chunks) (int (n * w)))
      (omp_msr (length chunks)) (all_done (length chunks))"
    using team_system [of "map th chunks"] by simp
  have inv: "omp_inv (length chunks) (int (n * w)) s"
    by (rule invariant_system.run_inv [OF terminating_system.axioms(1) [OF T] assms(3)])
  have "length as \<le> (\<Sum>t < length chunks. length (th (chunks ! t)))"
    using terminating_system.run_bounded [OF T assms(3)] by (simp add: omp_msr_def team_init_def)
  moreover have "\<not> overflow s" using inv by (simp add: omp_inv_def sums_up_def)
  moreover have "all_done (length chunks) s \<and> sum_of s = (if n = ARRAY_SIZE then 1000000 else 500000000)"
    if "stuck (omp_step (length chunks)) s"
  proof -
    have d: "all_done (length chunks) s" by (rule terminating_system.stuck_final [OF T inv that])
    then have "(\<Sum>t < length chunks. debt s t) = 0" by (simp add: all_done_def debt_def)
    then have "sum_of s = int (n * w)" using inv by (simp add: omp_inv_def sums_up_def)
    with d w(1) show ?thesis by simp
  qed
  ultimately show ?thesis by blast
qed

lemma shares_halves: "k \<le> n \<Longrightarrow> shares n [[0..<k], [k..<n]]"
  using upt_add_eq_append [of 0 k "n - k"] by (simp add: shares_def flip: mset_append)

theorem team_sums_correct_witness:
  "\<exists>s. run (omp_step 2) [0, 1] (team_init (map reduction_thread [[0..<5000], [5000..<I_LIMIT]])) = Some s \<and>
     rest s 0 = inner [LocalAdd 1] [0..<5000] @ [Combine] \<and> \<not> overflow s"
proof -
  let ?chunks = "[[0..<5000], [5000..<I_LIMIT]]"
  obtain s where s: "run (omp_step 2) [0, 1] (team_init (map reduction_thread ?chunks)) = Some s"
    "rest s 0 = inner [LocalAdd 1] [0..<5000] @ [Combine]"
    by (simp add: omp_step_def omp_exec_def set_local_def team_init_def reduction_thread_def in_int32_def del: upt_rec_numeral)
  have "shares I_LIMIT ?chunks" by (rule shares_halves) (simp add: I_LIMIT_def)
  moreover have "run (omp_step (length ?chunks)) [0, 1] (team_init (map reduction_thread ?chunks)) = Some s"
    using s(1) by (simp add: numeral_2_eq_2 del: run.simps)
  ultimately have "\<not> overflow s"
    using team_sums_correct [of I_LIMIT J_LIMIT reduction_thread ?chunks "[0, 1]" s] by blast
  with s show ?thesis by blast
qed

subsection \<open>The unprotected sum\<close>

lemma race_replicate: "race_thread is = concat (replicate (length is * J_LIMIT) [LoadSum, StoreSum 1])"
  by (simp add: race_thread_def inner_replicate)

text \<open>A thread that runs alone adds one for each of its pairs of statements.\<close>

lemma alone_run:
  assumes "t < n" "\<not> overflow s" "0 \<le> sum_of s" "sum_of s + int k < 2 ^ 31"
    "rest s t = concat (replicate k [LoadSum, StoreSum 1]) @ r"
  shows "\<exists>u. run (omp_step n) (replicate (2 * k) t) s = Some u \<and> sum_of u = sum_of s + int k \<and> \<not> overflow u \<and>
     rest u = (rest s)(t := r) \<and> (\<forall>v. v \<noteq> t \<longrightarrow> loaded u v = loaded s v)"
  using assms
proof (induction k arbitrary: s)
  case 0
  then show ?case by (auto simp: fun_upd_idem_iff)
next
  case (Suc k)
  let ?r = "concat (replicate k [LoadSum, StoreSum 1]) @ r"
  let ?x = "s\<lparr>loaded := (loaded s)(t := sum_of s), sum_of := sum_of s + 1, rest := (rest s)(t := ?r)\<rparr>"
  have "in_int32 (sum_of s + 1)" using Suc.prems by (simp add: in_int32_def)
  then have x: "run (omp_step n) [t, t] s = Some ?x"
    using Suc.prems(1,2,5) by (simp add: omp_step_def omp_exec_def set_sum_def)
  have "\<exists>u. run (omp_step n) (replicate (2 * k) t) ?x = Some u \<and> sum_of u = sum_of ?x + int k \<and> \<not> overflow u \<and>
     rest u = (rest ?x)(t := r) \<and> (\<forall>v. v \<noteq> t \<longrightarrow> loaded u v = loaded ?x v)"
    by (rule Suc.IH) (use Suc.prems in simp_all)
  then obtain u where u: "run (omp_step n) (replicate (2 * k) t) ?x = Some u" "sum_of u = sum_of ?x + int k" "\<not> overflow u"
    "rest u = (rest ?x)(t := r)" "\<forall>v. v \<noteq> t \<longrightarrow> loaded u v = loaded ?x v"
    by blast
  have "replicate (2 * Suc k) t = [t, t] @ replicate (2 * k) t" by (simp add: replicate_add)
  then have "run (omp_step n) (replicate (2 * Suc k) t) s = Some u" using x u(1) run_append_Some by metis
  with u show ?case by auto
qed

text \<open>
  The loops of \<open>critical1.c\<close>, with all their directives commented out, count to 500000000 in one thread.
\<close>

theorem critical1_counts:
  "\<exists>s. run (omp_step 1) (replicate (2 * (I_LIMIT * J_LIMIT)) 0) (team_init [critical1_thread]) = Some s \<and>
     all_done 1 s \<and> sum_of s = 500000000 \<and> \<not> overflow s"
proof -
  let ?s = "team_init [critical1_thread]"
  have "\<exists>u. run (omp_step 1) (replicate (2 * (I_LIMIT * J_LIMIT)) 0) ?s = Some u \<and> sum_of u = sum_of ?s + int (I_LIMIT * J_LIMIT) \<and>
      \<not> overflow u \<and> rest u = (rest ?s)(0 := []) \<and> (\<forall>v. v \<noteq> 0 \<longrightarrow> loaded u v = loaded ?s v)"
    by (rule alone_run) (simp_all add: team_init_def critical1_thread_def race_replicate I_LIMIT_def J_LIMIT_def)
  then show ?thesis by (auto simp: all_done_def team_init_def I_LIMIT_def J_LIMIT_def)
qed

text \<open>The statements of \<open>race.c\<close> are pairs of a load and a store.\<close>

lemma pairs_Cons: "concat (replicate k [LoadSum, StoreSum 1]) = st # r \<Longrightarrow>
    \<exists>j. k = Suc j \<and> st = LoadSum \<and> r = StoreSum 1 # concat (replicate j [LoadSum, StoreSum 1])"
  by (cases k) auto

lemma owed_pairs: "owed l (concat (replicate k [LoadSum, StoreSum 1])) = int k"
  by (induction k) simp_all

definition race_form :: "omp_stmt list \<Rightarrow> bool" where
  "race_form r \<longleftrightarrow> (\<exists>k. r = concat (replicate k [LoadSum, StoreSum 1]) \<or> r = StoreSum 1 # concat (replicate k [LoadSum, StoreSum 1]))"

text \<open>What is loaded or stored is at most what has been added so far.\<close>

definition race_bound :: "nat \<Rightarrow> int \<Rightarrow> team \<Rightarrow> bool" where
  "race_bound n tot s \<longleftrightarrow> tot < 2 ^ 31 \<and> \<not> overflow s \<and> 0 \<le> sum_of s \<and> sum_of s + (\<Sum>t < n. debt s t) \<le> tot \<and>
     (\<forall>t < n. race_form (rest s t) \<and> 0 \<le> loaded s t \<and> loaded s t + (\<Sum>t < n. debt s t) \<le> tot)"

lemma race_form_Cons: "race_form (st # r) \<Longrightarrow> race_form r \<and> (st = LoadSum \<or> st = StoreSum 1)"
  by (auto simp: race_form_def dest!: pairs_Cons [OF sym])

lemma race_form_debt: "race_form (rest s t) \<Longrightarrow> 0 \<le> debt s t"
  by (auto simp: race_form_def debt_def owed_pairs)

lemma race_bound_step:
  assumes "race_bound n tot s" "omp_step n t s = Some s'"
  shows "race_bound n tot s'"
proof -
  obtain st r u where st: "t < n" "rest s t = st # r" "omp_exec t st s = Some u" "s' = u\<lparr>rest := (rest u)(t := r)\<rparr>"
    using omp_stepE [OF assms(2)] by metis
  have f: "race_form r" "st = LoadSum \<or> st = StoreSum 1" using assms(1) st(1,2) race_form_Cons [of st r] by (auto simp: race_bound_def)
  have forms: "race_form (((rest s)(t := r)) v)" if "v < n" for v using f(1) assms(1) that by (simp add: race_bound_def)
  from f(2) show ?thesis
  proof
    assume "st = LoadSum"
    then have s': "s' = s\<lparr>loaded := (loaded s)(t := sum_of s), rest := (rest s)(t := r)\<rparr>" using st by (auto simp: omp_exec_def)
    have "debt s' v = debt s v" for v using s' st(2) \<open>st = LoadSum\<close> by (simp add: debt_def)
    then show ?thesis using assms(1) forms s' by (simp add: race_bound_def)
  next
    assume "st = StoreSum 1"
    have l: "0 \<le> loaded s t" "loaded s t + (\<Sum>t < n. debt s t) \<le> tot" "tot < 2 ^ 31" using assms(1) st(1) by (simp_all add: race_bound_def)
    have d: "1 \<le> debt s t" using f(1) st(2) \<open>st = StoreSum 1\<close> race_form_debt [of "s\<lparr>rest := (rest s)(t := r)\<rparr>" t] by (simp add: debt_def)
    have "debt s t \<le> (\<Sum>t < n. debt s t)" using st(1) assms(1) race_form_debt by (intro member_le_sum) (auto simp: race_bound_def)
    then have "in_int32 (loaded s t + 1)" using l d by (simp add: in_int32_def)
    then have s': "s' = s\<lparr>sum_of := loaded s t + 1, rest := (rest s)(t := r)\<rparr>"
      using st \<open>st = StoreSum 1\<close> by (auto simp: omp_exec_def set_sum_def)
    have "(\<Sum>v < n. debt s' v) = (\<Sum>v < n. debt s v) - debt s t + debt s' t"
      by (rule sum_change [OF st(1)]) (simp add: s' debt_def)
    also have "debt s' t = debt s t - 1" using s' st(2) \<open>st = StoreSum 1\<close> by (simp add: debt_def)
    finally have "(\<Sum>v < n. debt s' v) = (\<Sum>v < n. debt s v) - 1" by simp
    then show ?thesis using assms(1) forms l s' by (force simp: race_bound_def)
  qed
qed

lemma race_bound_run: "race_bound n tot s \<Longrightarrow> run (omp_step n) as s = Some u \<Longrightarrow> race_bound n tot u"
  by (induction as arbitrary: s) (auto split: option.splits intro: race_bound_step)

lemma race_bound_init:
  assumes "shares I_LIMIT chunks"
  shows "race_bound (length chunks) (int (I_LIMIT * J_LIMIT)) (team_init (map race_thread chunks))"
proof -
  let ?s = "team_init (map race_thread chunks)"
  have "length (concat chunks) = I_LIMIT" using assms unfolding shares_def by (metis diff_zero length_upt size_mset)
  have "debt ?s t = int (length (chunks ! t)) * int J_LIMIT" if "t < length chunks" for t
    using that by (simp add: debt_def team_init_def race_replicate owed_pairs)
  then have "(\<Sum>t < length chunks. debt ?s t) = int (I_LIMIT * J_LIMIT)"
    using sum_chunks [of chunks] \<open>length (concat chunks) = I_LIMIT\<close> by (simp flip: sum_distrib_right)
  moreover have "race_form (rest ?s t)" if "t < length chunks" for t
    using that by (auto simp: team_init_def race_replicate race_form_def)
  ultimately show ?thesis by (simp add: race_bound_def) (simp add: team_init_def I_LIMIT_def J_LIMIT_def)
qed

text \<open>Two threads with half of the iterations each, one of which loads before the other runs.\<close>

lemma race_half:
  assumes "K = 5000 * J_LIMIT"
  shows "\<exists>s. run (omp_step 2) ([0] @ replicate (2 * K) 1 @ [0] @ replicate (2 * (K - 1)) 0)
       (team_init (map race_thread [[0..<5000], [5000..<I_LIMIT]])) = Some s \<and> all_done 2 s \<and> sum_of s = int K"
proof -
  let ?p = "\<lambda>k. concat (replicate k [LoadSum, StoreSum 1])"
  have k: "K = Suc (K - 1)" "int K < 2 ^ 31 - 1" using assms by (simp_all add: J_LIMIT_def)
  have l: "length [0..<5000::nat] * J_LIMIT = K" "length [5000..<I_LIMIT] * J_LIMIT = K"
    using assms by (simp_all only: length_upt I_LIMIT_def) simp_all
  let ?a = "team_init [?p K, ?p K]"
  have a: "team_init (map race_thread [[0..<5000], [5000..<I_LIMIT]]) = ?a" by (simp only: race_replicate list.map l)
  let ?b = "?a\<lparr>loaded := (loaded ?a)(0 := 0), rest := (rest ?a)(0 := StoreSum 1 # ?p (K - 1))\<rparr>"
  have "?p K = LoadSum # StoreSum 1 # ?p (K - 1)" by (subst k(1)) simp
  then have b: "run (omp_step 2) [0] ?a = Some ?b" by (simp add: omp_step_def omp_exec_def team_init_def)
  have "\<exists>u. run (omp_step 2) (replicate (2 * K) 1) ?b = Some u \<and> sum_of u = sum_of ?b + int K \<and> \<not> overflow u \<and>
      rest u = (rest ?b)(1 := []) \<and> (\<forall>v. v \<noteq> 1 \<longrightarrow> loaded u v = loaded ?b v)"
    by (rule alone_run) (use k(2) in \<open>simp_all add: team_init_def\<close>)
  then obtain c where c: "run (omp_step 2) (replicate (2 * K) 1) ?b = Some c" "\<not> overflow c" "rest c 0 = StoreSum 1 # ?p (K - 1)"
    "rest c 1 = []" "loaded c 0 = 0" by auto
  let ?d = "c\<lparr>sum_of := 1, rest := (rest c)(0 := ?p (K - 1))\<rparr>"
  have d: "run (omp_step 2) [0] c = Some ?d" using c by (simp add: omp_step_def omp_exec_def set_sum_def in_int32_def)
  have "\<exists>u. run (omp_step 2) (replicate (2 * (K - 1)) 0) ?d = Some u \<and> sum_of u = sum_of ?d + int (K - 1) \<and> \<not> overflow u \<and>
      rest u = (rest ?d)(0 := []) \<and> (\<forall>v. v \<noteq> 0 \<longrightarrow> loaded u v = loaded ?d v)"
    by (rule alone_run) (use k(2) c in simp_all)
  then obtain e where e: "run (omp_step 2) (replicate (2 * (K - 1)) 0) ?d = Some e" "sum_of e = 1 + int (K - 1)" "rest e = (rest ?d)(0 := [])"
    by auto
  have "run (omp_step 2) ([0] @ replicate (2 * K) 1 @ [0] @ replicate (2 * (K - 1)) 0) ?a = Some e"
    by (simp only: run_append_Some [OF b] run_append_Some [OF c(1)] run_append_Some [OF d] e(1))
  moreover have "all_done 2 e" using e(3) c(4) by (auto simp: all_done_def less_2_cases_iff)
  moreover have "sum_of e = int K" using e(2) k(1) by linarith
  ultimately show ?thesis unfolding a by blast
qed

text \<open>
  \<open>race.c\<close> adds without protection.  However the iterations are shared out, its sum never exceeds 500000000;
  but updates are lost, and with two threads there is a complete run that prints 250000000.
\<close>

theorem omp_race_loses_updates:
  assumes "shares I_LIMIT chunks" "run (omp_step (length chunks)) as (team_init (map race_thread chunks)) = Some s"
  shows "0 \<le> sum_of s \<and> sum_of s \<le> 500000000 \<and>
     (\<exists>bs u. run (omp_step 2) bs (team_init (map race_thread [[0..<5000], [5000..<I_LIMIT]])) = Some u \<and>
        all_done 2 u \<and> sum_of u = 250000000)"
proof -
  have b: "race_bound (length chunks) (int (I_LIMIT * J_LIMIT)) s" by (rule race_bound_run [OF race_bound_init [OF assms(1)] assms(2)])
  have "0 \<le> (\<Sum>t < length chunks. debt s t)" using b race_form_debt by (intro sum_nonneg) (auto simp: race_bound_def)
  then have "0 \<le> sum_of s" "sum_of s \<le> 500000000" using b by (simp_all add: race_bound_def I_LIMIT_def J_LIMIT_def)
  moreover have "\<exists>bs u. run (omp_step 2) bs (team_init (map race_thread [[0..<5000], [5000..<I_LIMIT]])) = Some u \<and>
        all_done 2 u \<and> sum_of u = 250000000"
  proof -
    have "int (5000 * J_LIMIT) = 250000000" by (simp add: J_LIMIT_def)
    then show ?thesis using race_half [OF refl] by metis
  qed
  ultimately show ?thesis by blast
qed

theorem omp_race_loses_updates_witness:
  "\<exists>bs u. run (omp_step 2) bs (team_init (map race_thread [[0..<5000], [5000..<I_LIMIT]])) = Some u \<and>
     all_done 2 u \<and> sum_of u = 250000000"
proof -
  have "shares I_LIMIT [[0..<I_LIMIT]]" by (simp add: shares_def)
  moreover have "run (omp_step (length [[0..<I_LIMIT]])) [] (team_init (map race_thread [[0..<I_LIMIT]])) =
      Some (team_init (map race_thread [[0..<I_LIMIT]]))" by simp
  ultimately show ?thesis using omp_race_loses_updates by blast
qed

end
