(* ===== verification/OpenMP_Loops.thy ===== *)
theory OpenMP_Loops
  imports Complex_Main C_Runtime "HOL-Library.Multiset"
begin

section \<open>OpenMP: loops whose iterations own their cells, and tasks\<close>

text \<open>
  \<open>matrix_times.c\<close>, \<open>matrix_times_omp.c\<close>, \<open>task_for.c\<close> and \<open>task.c\<close> of \<open>src/OpenMP\<close>.  The iterations of a
  parallel loop run on shared arrays, one statement at a time and interleaved in every way; this
  allows every schedule of the runtime.  Numbers are elements of a type with \<open>+\<close>, \<open>*\<close> and \<open>/\<close> of which
  no law is used, so that the results are equal to the last bit in floating point too.
\<close>

subsection \<open>A loop of C\<close>

fun for_c :: "nat list \<Rightarrow> (nat \<Rightarrow> 's \<Rightarrow> 's c) \<Rightarrow> 's \<Rightarrow> 's c" where
  "for_c [] f s = Inr s"
| "for_c (i # is) f s = bindc (f i s) (for_c is f)"

lemma for_c_append: "for_c (is @ js) f s = bindc (for_c is f s) (for_c js f)"
  by (induction "is" arbitrary: s) (auto simp: bindc_def split: sum.splits)

lemma for_c_invariant:
  assumes "\<And>i s. i < n \<Longrightarrow> P i s \<Longrightarrow> \<exists>s'. f i s = Inr s' \<and> P (Suc i) s'" and "P 0 s"
  shows "\<exists>s'. for_c [0..<n] f s = Inr s' \<and> P n s'"
  using assms
proof (induction n)
  case (Suc n)
  have "\<exists>s'. for_c [0..<n] f s = Inr s' \<and> P n s'" by (rule Suc.IH) (use Suc.prems in auto)
  then obtain s1 where "for_c [0..<n] f s = Inr s1" "P n s1" by blast
  moreover from this obtain s2 where "f n s1 = Inr s2" "P (Suc n) s2" using Suc.prems(1) by blast
  ultimately show ?case by (auto simp: for_c_append)
qed simp

subsection \<open>Interleaved iterations\<close>

text \<open>
  \<open>stmt i k\<close> is the \<open>k\<close>-th of the \<open>len\<close> statements of iteration \<open>i\<close>, a change of the shared memory that
  may be undefined.
\<close>

record 'm pfor =
  memory :: 'm
  progress_of :: "nat \<Rightarrow> nat"
  fault :: bool

definition pfor_step :: "nat \<Rightarrow> nat \<Rightarrow> (nat \<Rightarrow> nat \<Rightarrow> 'm \<Rightarrow> 'm c) \<Rightarrow> nat \<Rightarrow> 'm pfor \<Rightarrow> 'm pfor option" where
  "pfor_step n len stmt i s =
     (if fault s \<or> \<not> i < n \<or> \<not> progress_of s i < len then None
      else case stmt i (progress_of s i) (memory s) of
        Inl e \<Rightarrow> Some (s\<lparr>fault := True\<rparr>)
      | Inr m \<Rightarrow> Some (s\<lparr>memory := m, progress_of := (progress_of s)(i := progress_of s i + 1)\<rparr>))"

definition pfor_init :: "'m \<Rightarrow> 'm pfor" where
  "pfor_init m = \<lparr>memory = m, progress_of = (\<lambda>_. 0), fault = False\<rparr>"

definition pfor_done :: "nat \<Rightarrow> nat \<Rightarrow> 'm pfor \<Rightarrow> bool" where
  "pfor_done n len s \<longleftrightarrow> (\<forall>i < n. progress_of s i = len)"

text \<open>
  Interface: iteration \<open>i\<close> only changes cell \<open>i\<close> of an array, to a value that depends on that cell alone.
\<close>

locale owned_cells =
  fixes n len :: nat
    and stmt :: "nat \<Rightarrow> nat \<Rightarrow> 'a list \<Rightarrow> 'a list c"
    and val :: "nat \<Rightarrow> nat \<Rightarrow> 'a \<Rightarrow> 'a"
  assumes own: "i < n \<Longrightarrow> k < len \<Longrightarrow> length xs = n \<Longrightarrow> stmt i k xs = Inr (xs[i := val i k (xs ! i)])"
begin

fun cell :: "'a list \<Rightarrow> nat \<Rightarrow> nat \<Rightarrow> 'a" where
  "cell xs i 0 = xs ! i"
| "cell xs i (Suc k) = val i k (cell xs i k)"

definition loop_inv :: "'a list \<Rightarrow> 'a list pfor \<Rightarrow> bool" where
  "loop_inv xs s \<longleftrightarrow> \<not> fault s \<and> length (memory s) = n \<and> (\<forall>i < n. progress_of s i \<le> len \<and> memory s ! i = cell xs i (progress_of s i))"

definition loop_msr :: "'a list pfor \<Rightarrow> nat" where
  "loop_msr s = (\<Sum>i < n. len - progress_of s i)"

lemma loop_inv_step:
  assumes "loop_inv xs s" "pfor_step n len stmt i s = Some s'"
  shows "loop_inv xs s' \<and> loop_msr s' < loop_msr s"
proof -
  have i: "i < n" "progress_of s i < len" using assms(2) by (auto simp: pfor_step_def split: if_splits)
  then have s': "s' = s\<lparr>memory := (memory s)[i := val i (progress_of s i) (memory s ! i)],
      progress_of := (progress_of s)(i := progress_of s i + 1)\<rparr>"
    using assms own [of i "progress_of s i" "memory s"] by (simp add: pfor_step_def loop_inv_def)
  have "loop_inv xs s'" using assms(1) i s' by (auto simp: loop_inv_def nth_list_update)
  moreover have "loop_msr s' < loop_msr s"
    using i s' by (simp add: loop_msr_def sum.remove [of "{..<n}" i])
  ultimately show ?thesis by blast
qed

lemma loop_system:
  assumes "length xs = n"
  shows "terminating_system (pfor_step n len stmt) (pfor_init xs) (loop_inv xs) loop_msr (pfor_done n len)"
proof
  show "loop_inv xs (pfor_init xs)" using assms by (simp add: loop_inv_def pfor_init_def)
  show "\<exists>i s'. pfor_step n len stmt i s = Some s'" if h: "loop_inv xs s" "\<not> pfor_done n len s" for s
  proof -
    obtain i where "i < n" "progress_of s i \<noteq> len" using h(2) by (auto simp: pfor_done_def)
    moreover from this have "progress_of s i < len" using h(1) by (simp add: loop_inv_def le_neq_implies_less)
    ultimately have "pfor_step n len stmt i s \<noteq> None" using h(1) own by (simp add: pfor_step_def loop_inv_def)
    then show ?thesis by blast
  qed
qed (use loop_inv_step in blast)+

lemma loop_result:
  assumes "length xs = n" "run (pfor_step n len stmt) as (pfor_init xs) = Some s"
  shows "length as \<le> n * len" and "\<not> fault s"
    and "stuck (pfor_step n len stmt) s \<Longrightarrow> memory s = map (\<lambda>i. cell xs i len) [0..<n]"
proof -
  note T = loop_system [OF assms(1)]
  have inv: "loop_inv xs s" by (rule invariant_system.run_inv [OF terminating_system.axioms(1) [OF T] assms(2)])
  show "length as \<le> n * len" using terminating_system.run_bounded [OF T assms(2)] by (simp add: loop_msr_def pfor_init_def)
  show "\<not> fault s" using inv by (simp add: loop_inv_def)
  assume "stuck (pfor_step n len stmt) s"
  then have "pfor_done n len s" by (rule terminating_system.stuck_final [OF T inv])
  then show "memory s = map (\<lambda>i. cell xs i len) [0..<n]" using inv by (intro nth_equalityI) (auto simp: loop_inv_def pfor_done_def)
qed

end

subsection \<open>\<open>matrix_times.c\<close> and \<open>matrix_times_omp.c\<close>\<close>

definition mxv_zero :: "nat \<Rightarrow> 'a::zero list \<Rightarrow> 'a list c" where
  "mxv_zero i a = sto a i 0"

definition mxv_add :: "nat \<Rightarrow> 'a::{plus,times} list \<Rightarrow> 'a list \<Rightarrow> nat \<Rightarrow> nat \<Rightarrow> 'a list \<Rightarrow> 'a list c" where
  "mxv_add n b c i j a =
     bindc (ld a i) (\<lambda>x. bindc (ld b (i * n + j)) (\<lambda>y. bindc (ld c j) (\<lambda>z. sto a i (x + y * z))))"

definition mxv :: "nat \<Rightarrow> nat \<Rightarrow> 'a::{zero,plus,times} list \<Rightarrow> 'a list \<Rightarrow> 'a list \<Rightarrow> 'a list c" where
  "mxv m n a b c = for_c [0..<m] (\<lambda>i a. bindc (mxv_zero i a) (for_c [0..<n] (mxv_add n b c i))) a"

text \<open>\<open>omp_mxv\<close>: the statements of iteration \<open>i\<close> are \<open>a[i] = 0.0\<close> and then, for each \<open>j\<close>, the addition.\<close>

definition omp_mxv_stmt :: "nat \<Rightarrow> 'a::{zero,plus,times} list \<Rightarrow> 'a list \<Rightarrow> nat \<Rightarrow> nat \<Rightarrow> 'a list \<Rightarrow> 'a list c" where
  "omp_mxv_stmt n b c i k a = (case k of 0 \<Rightarrow> mxv_zero i a | Suc j \<Rightarrow> mxv_add n b c i j a)"

text \<open>The reference: row \<open>i\<close> of the product, added up from the left.\<close>

fun row_sum :: "nat \<Rightarrow> 'a::{zero,plus,times} list \<Rightarrow> 'a list \<Rightarrow> nat \<Rightarrow> nat \<Rightarrow> 'a" where
  "row_sum n b c i 0 = 0"
| "row_sum n b c i (Suc j) = row_sum n b c i j + b ! (i * n + j) * c ! j"

definition mat_vec :: "nat \<Rightarrow> nat \<Rightarrow> 'a::{zero,plus,times} list \<Rightarrow> 'a list \<Rightarrow> 'a list" where
  "mat_vec m n b c = map (\<lambda>i. row_sum n b c i n) [0..<m]"

lemma cell_index: "i < m \<Longrightarrow> j < n \<Longrightarrow> i * n + j < m * (n::nat)"
proof -
  assume "i < m" "j < n"
  then have "i * n + j < Suc i * n" by simp
  also have "\<dots> \<le> m * n" using \<open>i < m\<close> by (intro mult_le_mono1) simp
  finally show ?thesis .
qed

lemma mxv_add_own:
  "i < m \<Longrightarrow> j < n \<Longrightarrow> length a = m \<Longrightarrow> length b = m * n \<Longrightarrow> length c = n \<Longrightarrow>
    mxv_add n b c i j a = Inr (a[i := a ! i + b ! (i * n + j) * c ! j])"
  using cell_index [of i m j n] by (simp add: mxv_add_def)

lemma mxv_row:
  assumes "i < m" "length a = m" "length b = m * n" "length c = n"
  shows "bindc (mxv_zero i a) (for_c [0..<n] (mxv_add n b c i)) = Inr (a[i := row_sum n b c i n])"
proof -
  have "\<exists>a'. for_c [0..<n] (mxv_add n b c i) (a[i := 0]) = Inr a' \<and> a' = a[i := row_sum n b c i n]"
    by (rule for_c_invariant [where P = "\<lambda>j a'. a' = a[i := row_sum n b c i j]"])
      (use assms in \<open>auto simp: mxv_add_own [of i m]\<close>)
  then show ?thesis using assms by (simp add: mxv_zero_def)
qed

lemma mxv_result:
  assumes "length a = m" "length b = m * n" "length c = n"
  shows "mxv m n a b c = Inr (mat_vec m n b c)"
proof -
  have "\<exists>a'. mxv m n a b c = Inr a' \<and> length a' = m \<and> (\<forall>i < m. a' ! i = row_sum n b c i n)"
    unfolding mxv_def
    by (rule for_c_invariant [where P = "\<lambda>k a'. length a' = m \<and> (\<forall>i < k. a' ! i = row_sum n b c i n)"])
      (use assms in \<open>auto simp: mxv_row [of _ m] nth_list_update less_Suc_eq\<close>)
  then show ?thesis by (auto simp: mat_vec_def intro!: nth_equalityI)
qed

definition mxv_val :: "nat \<Rightarrow> 'a::{zero,plus,times} list \<Rightarrow> 'a list \<Rightarrow> nat \<Rightarrow> nat \<Rightarrow> 'a \<Rightarrow> 'a" where
  "mxv_val n b c i k x = (case k of 0 \<Rightarrow> 0 | Suc j \<Rightarrow> x + b ! (i * n + j) * c ! j)"

lemma mxv_val_simps: "mxv_val n b c i 0 x = 0" "mxv_val n b c i (Suc j) x = x + b ! (i * n + j) * c ! j"
  by (simp_all add: mxv_val_def)

lemma mxv_owned:
  assumes "length b = m * n" "length c = n"
  shows "owned_cells m (Suc n) (omp_mxv_stmt n b c) (mxv_val n b c)"
  by unfold_locales
    (use assms in \<open>auto simp: omp_mxv_stmt_def mxv_val_def mxv_zero_def mxv_add_own split: nat.splits\<close>)

lemma mxv_cell:
  assumes "length b = m * n" "length c = n"
  shows "owned_cells.cell (mxv_val n b c) a i (Suc k) = row_sum n b c i k"
proof -
  note C = owned_cells.cell.simps [OF mxv_owned [OF assms]]
  show ?thesis by (induction k) (simp_all add: C mxv_val_simps)
qed

text \<open>
  C37: the parallel matrix-vector product of \<open>matrix_times_omp.c\<close> is the sequential one, to the last bit:
  for all sizes, matrices and vectors both stay inside their arrays, the statements of the rows may be
  interleaved in any way, and when all are done \<open>a\<close> is what \<open>mxv\<close> computes, the product row by row.
\<close>

theorem omp_mxv_equals_mxv:
  assumes "length a = m" "length d = m" "length b = m * n" "length c = n"
    and "run (pfor_step m (Suc n) (omp_mxv_stmt n b c)) as (pfor_init a) = Some s"
  shows "length as \<le> m * Suc n \<and> \<not> fault s \<and>
     (stuck (pfor_step m (Suc n) (omp_mxv_stmt n b c)) s \<longrightarrow>
        mxv m n d b c = Inr (memory s) \<and> memory s = mat_vec m n b c)"
proof -
  note R = owned_cells.loop_result [OF mxv_owned [OF assms(3,4)] assms(1,5)]
  have "memory s = mat_vec m n b c" if "stuck (pfor_step m (Suc n) (omp_mxv_stmt n b c)) s"
    using R(3) [OF that] by (simp add: mat_vec_def mxv_cell [OF assms(3,4)])
  then show ?thesis using R(1,2) mxv_result [OF assms(2-4)] by simp
qed

theorem omp_mxv_equals_mxv_witness:
  "\<exists>s. run (pfor_step 2 (Suc 2) (omp_mxv_stmt 2 [1, 2, 3, 4::int] [5, 6])) [1, 0, 1, 1, 0, 0] (pfor_init [7, 8]) = Some s \<and>
     mxv 2 2 [0, 0] [1, 2, 3, 4] [5, 6] = Inr (memory s) \<and> memory s = [17, 39]"
proof -
  let ?st = "pfor_step 2 (Suc 2) (omp_mxv_stmt 2 [1, 2, 3, 4::int] [5, 6])"
  obtain s where s: "run ?st [1, 0, 1, 1, 0, 0] (pfor_init [7, 8]) = Some s" "progress_of s 0 = 3" "progress_of s 1 = 3" "memory s = [17, 39]"
    by (simp add: pfor_step_def pfor_init_def omp_mxv_stmt_def mxv_zero_def mxv_add_def ld_def sto_def numeral_2_eq_2 numeral_3_eq_3)
  have "?st i s = None" for i using s(2,3) by (auto simp: pfor_step_def less_2_cases_iff)
  then have "stuck ?st s" by (simp add: stuck_def)
  then show ?thesis using omp_mxv_equals_mxv [of "[7, 8]" 2 "[0, 0]" "[1, 2, 3, 4]" 2 "[5, 6]", OF _ _ _ _ s(1)] s by auto
qed

text \<open>
  The programs fill the matrix and the vector with \<open>(rand () % 100 + 1) / 50\<close>; \<open>dbl\<close> is the conversion to
  \<open>double\<close> and \<open>r k\<close> the \<open>k\<close>-th random number.  \<open>matrix_times.c\<close> (100 by 200) prints matrix, vector and product;
  \<open>matrix_times_omp.c\<close> (4000 by 4000) computes the product a hundred times in \<open>A\<close> and then in \<open>D\<close>.
\<close>

definition rand_entry :: "(int \<Rightarrow> 'a::inverse) \<Rightarrow> nat \<Rightarrow> 'a" where
  "rand_entry dbl r = dbl (int (r mod 100) + 1) / dbl 50"

definition init_B :: "(int \<Rightarrow> 'a::inverse) \<Rightarrow> (nat \<Rightarrow> nat) \<Rightarrow> nat \<Rightarrow> nat \<Rightarrow> 'a list \<Rightarrow> 'a list c" where
  "init_B dbl r m n B = for_c [0..<m] (\<lambda>i. for_c [0..<n] (\<lambda>j B. sto B (i * n + j) (rand_entry dbl (r (i * n + j))))) B"

definition init_C :: "(int \<Rightarrow> 'a::inverse) \<Rightarrow> (nat \<Rightarrow> nat) \<Rightarrow> nat \<Rightarrow> 'a list \<Rightarrow> 'a list c" where
  "init_C dbl r n C = for_c [0..<n] (\<lambda>j C. sto C j (rand_entry dbl (r j))) C"

lemma init_C_result:
  "length C = n \<Longrightarrow> init_C dbl r n C = Inr (map (\<lambda>j. rand_entry dbl (r j)) [0..<n])"
proof -
  assume l: "length C = n"
  have "\<exists>C'. init_C dbl r n C = Inr C' \<and> length C' = n \<and> (\<forall>j < n. C' ! j = rand_entry dbl (r j))"
    unfolding init_C_def
    by (rule for_c_invariant [where P = "\<lambda>k C'. length C' = n \<and> (\<forall>j < k. C' ! j = rand_entry dbl (r j))"])
      (use l in \<open>auto simp: nth_list_update less_Suc_eq\<close>)
  then show ?thesis by (auto intro!: nth_equalityI)
qed

lemma init_B_result:
  assumes l: "length B = m * n"
  shows "init_B dbl r m n B = Inr (map (\<lambda>k. rand_entry dbl (r k)) [0..<m * n])"
proof -
  have "\<exists>B'. init_B dbl r m n B = Inr B' \<and> length B' = m * n \<and> (\<forall>k < m * n. B' ! k = rand_entry dbl (r k))"
    unfolding init_B_def
  proof (rule for_c_invariant [where P = "\<lambda>i B'. length B' = m * n \<and> (\<forall>k < i * n. B' ! k = rand_entry dbl (r k))"])
    fix i and B' :: "'a list"
    assume i: "i < m" and B': "length B' = m * n \<and> (\<forall>k < i * n. B' ! k = rand_entry dbl (r k))"
    have "\<exists>B''. for_c [0..<n] (\<lambda>j B. sto B (i * n + j) (rand_entry dbl (r (i * n + j)))) B' = Inr B'' \<and>
        (length B'' = m * n \<and> (\<forall>k < i * n + n. B'' ! k = rand_entry dbl (r k)))"
      by (rule for_c_invariant [where P = "\<lambda>j B''. length B'' = m * n \<and> (\<forall>k < i * n + j. B'' ! k = rand_entry dbl (r k))"])
        (use B' i cell_index [of i m _ n] in \<open>auto simp: nth_list_update less_Suc_eq\<close>)
    then show "\<exists>B''. for_c [0..<n] (\<lambda>j B. sto B (i * n + j) (rand_entry dbl (r (i * n + j)))) B' = Inr B'' \<and>
        (length B'' = m * n \<and> (\<forall>k < Suc i * n. B'' ! k = rand_entry dbl (r k)))"
      by (simp add: add.commute)
  qed (use l in simp)
  then show ?thesis by (auto intro!: nth_equalityI)
qed

text \<open>\<open>output_B\<close>, \<open>output_C\<close> and \<open>output_A\<close> print their arrays line by line.\<close>

definition output_lines :: "('a \<Rightarrow> string) \<Rightarrow> nat \<Rightarrow> 'a list \<Rightarrow> string list c" where
  "output_lines fmt k X = for_c [0..<k] (\<lambda>j out. bindc (ld X j) (\<lambda>x. Inr (out @ [fmt x]))) []"

lemma output_lines_result: "length X = k \<Longrightarrow> output_lines fmt k X = Inr (map fmt X)"
proof -
  assume l: "length X = k"
  have "\<exists>out. output_lines fmt k X = Inr out \<and> out = map fmt (take k X)"
    unfolding output_lines_def
    by (rule for_c_invariant [where P = "\<lambda>j out. out = map fmt (take j X)"]) (use l in \<open>auto simp: take_Suc_conv_app_nth\<close>)
  then show ?thesis using l by auto
qed

definition matrix_times_main :: "(int \<Rightarrow> 'a::{zero,plus,times,inverse}) \<Rightarrow> ('a \<Rightarrow> string) \<Rightarrow> (nat \<Rightarrow> nat) \<Rightarrow>
    'a list \<Rightarrow> 'a list \<Rightarrow> 'a list \<Rightarrow> string list c" where
  "matrix_times_main dbl fmt r A B C =
     bindc (init_B dbl r 100 200 B) (\<lambda>B. bindc (init_C dbl (\<lambda>j. r (100 * 200 + j)) 200 C) (\<lambda>C.
     bindc (mxv 100 200 A B C) (\<lambda>A.
     bindc (output_lines fmt (100 * 200) B) (\<lambda>o1. bindc (output_lines fmt 200 C) (\<lambda>o2. bindc (output_lines fmt 100 A) (\<lambda>o3.
     Inr (o1 @ o2 @ o3)))))))"

text \<open>
  \<open>matrix_times.c\<close> stays inside its arrays whatever they held before, and prints the random matrix, the
  random vector and then their product.
\<close>

theorem matrix_times_prints:
  assumes "length A = 100" "length B = 100 * 200" "length C = 200"
  shows "matrix_times_main dbl fmt r A B C =
    (let B' = map (\<lambda>k. rand_entry dbl (r k)) [0..<100 * 200]; C' = map (\<lambda>j. rand_entry dbl (r (100 * 200 + j))) [0..<200] in
     Inr (map fmt B' @ map fmt C' @ map fmt (mat_vec 100 200 B' C')))"
proof -
  define B' where "B' = map (\<lambda>k. rand_entry dbl (r k)) [0..<100 * 200]"
  define C' where "C' = map (\<lambda>j. rand_entry dbl (r (100 * 200 + j))) [0..<200]"
  have l: "length B' = 100 * 200" "length C' = 200" "length (mat_vec 100 200 B' C') = 100"
    by (simp_all only: B'_def C'_def mat_vec_def length_map length_upt diff_zero)
  have "init_B dbl r 100 200 B = Inr B'" unfolding B'_def by (rule init_B_result [OF assms(2)])
  moreover have "init_C dbl (\<lambda>j. r (100 * 200 + j)) 200 C = Inr C'" unfolding C'_def by (rule init_C_result [OF assms(3)])
  moreover have "mxv 100 200 A B' C' = Inr (mat_vec 100 200 B' C')" by (rule mxv_result [OF assms(1) l(1,2)])
  ultimately have "matrix_times_main dbl fmt r A B C = Inr (map fmt B' @ map fmt C' @ map fmt (mat_vec 100 200 B' C'))"
    by (simp only: matrix_times_main_def bindc_simps output_lines_result [OF l(1)] output_lines_result [OF l(2)] output_lines_result [OF l(3)])
  then show ?thesis by (simp only: B'_def C'_def Let_def)
qed

theorem matrix_times_prints_witness:
  "\<exists>o1. matrix_times_main (\<lambda>i. of_int i :: real) (\<lambda>x. ''x'') (\<lambda>k. k) (replicate 100 0) (replicate (100 * 200) 0) (replicate 200 0) = Inr o1"
  by (subst matrix_times_prints) (simp_all only: length_replicate Let_def, blast)

text \<open>One call of \<open>omp_mxv\<close>: any complete interleaving; \<open>main\<close> makes a hundred of them.\<close>

definition omp_mxv :: "nat \<Rightarrow> nat \<Rightarrow> 'a::{zero,plus,times} list \<Rightarrow> 'a list \<Rightarrow> 'a list \<Rightarrow> 'a list \<Rightarrow> bool" where
  "omp_mxv m n b c a a' \<longleftrightarrow> (\<exists>as s. run (pfor_step m (Suc n) (omp_mxv_stmt n b c)) as (pfor_init a) = Some s \<and>
     stuck (pfor_step m (Suc n) (omp_mxv_stmt n b c)) s \<and> \<not> fault s \<and> a' = memory s)"

definition matrix_times_omp_main :: "(int \<Rightarrow> 'a::{zero,plus,times,inverse}) \<Rightarrow> (nat \<Rightarrow> nat) \<Rightarrow> nat \<Rightarrow> nat \<Rightarrow>
    'a list \<Rightarrow> 'a list \<Rightarrow> 'a list \<Rightarrow> 'a list \<Rightarrow> 'a list \<Rightarrow> 'a list \<Rightarrow> bool" where
  "matrix_times_omp_main dbl r m n A B C D A' D' \<longleftrightarrow>
     (\<exists>B1 C1. init_B dbl r m n B = Inr B1 \<and> init_C dbl (\<lambda>j. r (m * n + j)) n C = Inr C1 \<and>
        for_c [0..<100] (\<lambda>_ a. mxv m n a B1 C1) A = Inr A' \<and> (omp_mxv m n B1 C1 ^^ 100) D D')"

lemma omp_mxv_result:
  assumes "length a = m" "length b = m * n" "length c = n"
  shows "omp_mxv m n b c a a' \<longleftrightarrow> a' = mat_vec m n b c"
proof
  assume "omp_mxv m n b c a a'"
  then show "a' = mat_vec m n b c"
    using owned_cells.loop_result(3) [OF mxv_owned [OF assms(2,3)] assms(1)]
    by (auto simp: omp_mxv_def mat_vec_def mxv_cell [OF assms(2,3)])
next
  note T = owned_cells.loop_system [OF mxv_owned [OF assms(2,3)] assms(1)]
  obtain as s where s: "run (pfor_step m (Suc n) (omp_mxv_stmt n b c)) as (pfor_init a) = Some s"
    "stuck (pfor_step m (Suc n) (omp_mxv_stmt n b c)) s"
    using terminating_system.reaches_stuck [OF T invariant_system.inv_init [OF terminating_system.axioms(1) [OF T]]] by blast
  note R = owned_cells.loop_result [OF mxv_owned [OF assms(2,3)] assms(1) s(1)]
  assume "a' = mat_vec m n b c"
  then have "a' = memory s" using R(3) [OF s(2)] by (simp add: mat_vec_def mxv_cell [OF assms(2,3)])
  then show "omp_mxv m n b c a a'" using s R(2) by (auto simp: omp_mxv_def)
qed

lemma omp_mxv_repeat:
  assumes "length b = m * n" "length c = n"
  shows "length a = m \<Longrightarrow> (omp_mxv m n b c ^^ Suc k) a a' \<longleftrightarrow> a' = mat_vec m n b c"
proof (induction k arbitrary: a')
  case 0
  then show ?case using omp_mxv_result assms by (simp add: relcompp_apply)
next
  case (Suc k)
  have "length (mat_vec m n b c) = m" by (simp add: mat_vec_def)
  with Suc show ?case using omp_mxv_result [of "mat_vec m n b c"] assms by (auto simp: relcompp_apply)
qed

lemma mxv_repeat:
  assumes "length b = m * n" "length c = n" "length a = m"
  shows "for_c [0..<Suc k] (\<lambda>_ a. mxv m n a b c) a = Inr (mat_vec m n b c)"
proof (induction k)
  case 0
  then show ?case by (simp add: mxv_result [OF assms(3,1,2)])
next
  case (Suc k)
  have "length (mat_vec m n b c) = m" by (simp add: mat_vec_def)
  then have "for_c [Suc k] (\<lambda>_ a. mxv m n a b c) (mat_vec m n b c) = Inr (mat_vec m n b c)"
    by (simp add: mxv_result [OF _ assms(1,2)])
  moreover have "[0..<Suc (Suc k)] = [0..<Suc k] @ [Suc k]" by simp
  ultimately show ?case by (simp only: for_c_append Suc bindc_simps)
qed

text \<open>
  \<open>main\<close> of \<open>matrix_times_omp.c\<close> computes the same product in \<open>A\<close> and in \<open>D\<close>: whatever the arrays held and
  however the runtime schedules the hundred parallel loops, both end as the product of the random
  matrix and the random vector, and the loops do end.
\<close>

theorem matrix_times_omp_agrees:
  assumes "length A = m" "length B = m * n" "length C = n" "length D = m"
  shows "matrix_times_omp_main dbl r m n A B C D A' D' \<longleftrightarrow>
     (let P = mat_vec m n (map (\<lambda>k. rand_entry dbl (r k)) [0..<m * n]) (map (\<lambda>j. rand_entry dbl (r (m * n + j))) [0..<n]) in
      A' = P \<and> D' = P)"
proof -
  define B' where "B' = map (\<lambda>k. rand_entry dbl (r k)) [0..<m * n]"
  define C' where "C' = map (\<lambda>j. rand_entry dbl (r (m * n + j))) [0..<n]"
  have l: "length B' = m * n" "length C' = n" by (simp_all add: B'_def C'_def)
  have h: "(100::nat) = Suc 99" by simp
  have "matrix_times_omp_main dbl r m n A B C D A' D' \<longleftrightarrow>
      for_c [0..<100] (\<lambda>_ a. mxv m n a B' C') A = Inr A' \<and> (omp_mxv m n B' C' ^^ 100) D D'"
    unfolding matrix_times_omp_main_def using init_B_result [OF assms(2)] init_C_result [OF assms(3)]
    by (simp add: B'_def C'_def)
  also have "\<dots> \<longleftrightarrow> A' = mat_vec m n B' C' \<and> D' = mat_vec m n B' C'"
    unfolding h mxv_repeat [OF l assms(1)] omp_mxv_repeat [OF l assms(4)] by auto
  finally show ?thesis by (simp only: B'_def C'_def Let_def)
qed

theorem matrix_times_omp_agrees_witness:
  "\<exists>P. matrix_times_omp_main (\<lambda>i. of_int i :: real) (\<lambda>k. k) 2 1 [0, 0] [0, 0] [0] [0, 0] P P"
  by (subst matrix_times_omp_agrees) (simp_all add: Let_def)

subsection \<open>\<open>task_for.c\<close>\<close>

text \<open>
  In \<open>saxpy_worksharing2\<close> iteration \<open>i\<close> first creates a task (no change of memory) and the task is executed
  later, by whatever thread.  The idle loops, which all threads run on one shared \<open>j\<close>, are left out.
\<close>

definition saxpy_body :: "'a::{plus,times} \<Rightarrow> 'a list \<Rightarrow> nat \<Rightarrow> 'a list \<Rightarrow> 'a list c" where
  "saxpy_body a x i y = bindc (ld y i) (\<lambda>v. bindc (ld x i) (\<lambda>u. sto y i (v + a * u)))"

definition saxpy_worksharing1 :: "'a::{plus,times} \<Rightarrow> 'a list \<Rightarrow> nat \<Rightarrow> nat \<Rightarrow> 'a list \<Rightarrow> 'a list c" where
  "saxpy_worksharing1 a x i k y = saxpy_body a x i y"

definition saxpy_worksharing2 :: "'a::{plus,times} \<Rightarrow> 'a list \<Rightarrow> nat \<Rightarrow> nat \<Rightarrow> 'a list \<Rightarrow> 'a list c" where
  "saxpy_worksharing2 a x i k y = (case k of 0 \<Rightarrow> Inr y | _ \<Rightarrow> saxpy_body a x i y)"

definition TASK_N :: nat where "TASK_N = 100"

definition main_x :: "'a::numeral list" where
  "main_x = replicate TASK_N 1"

definition main_y :: "'a::numeral list" where
  "main_y = replicate TASK_N 2"

lemma main_arrays [simp]:
  "length main_x = TASK_N" "length main_y = TASK_N" "i < TASK_N \<Longrightarrow> main_x ! i = 1" "i < TASK_N \<Longrightarrow> main_y ! i = 2"
  by (simp_all add: main_x_def main_y_def)

lemma saxpy_body_own: "i < n \<Longrightarrow> length y = n \<Longrightarrow> length x = n \<Longrightarrow> saxpy_body a x i y = Inr (y[i := y ! i + a * x ! i])"
  by (simp add: saxpy_body_def)

interpretation saxpy1: owned_cells TASK_N 1 "saxpy_worksharing1 a main_x" "\<lambda>i k v. v + a * main_x ! i" for a
  by unfold_locales (simp add: saxpy_worksharing1_def saxpy_body_own [of _ TASK_N])

interpretation saxpy2: owned_cells TASK_N 2 "saxpy_worksharing2 a main_x" "\<lambda>i k v. if k = 0 then v else v + a * main_x ! i" for a
  by unfold_locales (simp add: saxpy_worksharing2_def saxpy_body_own [of _ TASK_N] split: nat.splits)

text \<open>
  \<open>task_for.c\<close> computes \<open>y = y + a * x\<close> in every cell exactly once, whichever thread executes which
  task and when: every schedule of either version ends, in bounds, with all hundred cells \<open>2 + 2 * 1\<close>.
\<close>

theorem saxpy_tasks_correct:
  assumes "run (pfor_step TASK_N 2 (saxpy_worksharing2 2 main_x)) as (pfor_init main_y) = Some s"
    and "run (pfor_step TASK_N 1 (saxpy_worksharing1 2 main_x)) bs (pfor_init main_y) = Some u"
  shows "\<not> fault s \<and> \<not> fault u \<and> length as \<le> TASK_N * 2 \<and> length bs \<le> TASK_N \<and>
     (stuck (pfor_step TASK_N 2 (saxpy_worksharing2 2 main_x)) s \<longrightarrow> memory s = replicate TASK_N (2 + 2 * 1)) \<and>
     (stuck (pfor_step TASK_N 1 (saxpy_worksharing1 2 main_x)) u \<longrightarrow> memory u = replicate TASK_N (2 + 2 * 1))"
proof -
  have c1: "map (\<lambda>i. saxpy1.cell 2 main_y i 1) [0..<TASK_N] = replicate TASK_N (2 + 2 * 1)"
    by (intro nth_equalityI) simp_all
  have c2: "map (\<lambda>i. saxpy2.cell 2 main_y i 2) [0..<TASK_N] = replicate TASK_N (2 + 2 * 1)"
    by (intro nth_equalityI) (simp_all add: numeral_2_eq_2)
  show ?thesis
    using saxpy2.loop_result [OF main_arrays(2) assms(1)] saxpy1.loop_result [OF main_arrays(2) assms(2)] unfolding c1 c2 by simp
qed

theorem saxpy_tasks_correct_witness:
  "\<exists>s. run (pfor_step TASK_N 2 (saxpy_worksharing2 (2::int) main_x)) [5, 3, 5] (pfor_init main_y) = Some s \<and>
     memory s ! 5 = 4 \<and> \<not> fault s"
proof -
  have "(5::nat) < TASK_N" "(3::nat) < TASK_N" by (simp_all add: TASK_N_def)
  then obtain s where s: "run (pfor_step TASK_N 2 (saxpy_worksharing2 (2::int) main_x)) [5, 3, 5] (pfor_init main_y) = Some s"
    "memory s ! 5 = 4"
    by (simp add: pfor_step_def pfor_init_def saxpy_worksharing2_def saxpy_body_def)
  have "run (pfor_step TASK_N 1 (saxpy_worksharing1 (2::int) main_x)) [] (pfor_init main_y) = Some (pfor_init main_y)" by simp
  from saxpy_tasks_correct [OF s(1) this] s show ?thesis by blast
qed

subsection \<open>\<open>task.c\<close>\<close>

text \<open>
  \<open>ListInit\<close> builds a linked list: here the list of its nodes.  \<open>mallocs\<close> is how many calls of \<open>malloc\<close> succeed
  (the next one returns \<open>NULL\<close> and the program exits), \<open>r i\<close> the \<open>i\<close>-th random number.  The first node's
  \<open>no\<close> is overwritten with the number of nodes.
\<close>

record node =
  node_number :: nat
  node_no :: int

definition MAX_NUMBER :: nat where "MAX_NUMBER = 10"

fun list_init_loop :: "nat \<Rightarrow> (nat \<Rightarrow> nat) \<Rightarrow> int \<Rightarrow> nat \<Rightarrow> node list \<Rightarrow> node list option" where
  "list_init_loop mallocs r no i h =
     (if no = 0 then Some h
      else case mallocs of
        0 \<Rightarrow> None
      | Suc k \<Rightarrow> list_init_loop k r (no - 1) (i + 1)
          (h @ [\<lparr>node_number = r i mod MAX_NUMBER, node_no = (if h = [] then no else int i)\<rparr>]))"

definition ListInit :: "nat \<Rightarrow> (nat \<Rightarrow> nat) \<Rightarrow> int \<Rightarrow> node list option" where
  "ListInit mallocs r no = list_init_loop mallocs r no 0 []"

text \<open>
  The \<open>single\<close> thread walks the list: it creates a task for the node \<open>p\<close> points to (the task gets its own
  copy of \<open>p\<close>), prints, and moves \<open>p\<close> on.  The tasks that are ready are executed by any thread in any order.
\<close>

datatype task_act = CreateTask | ChangePointer | ExecTask nat nat

datatype task_msg = Changes | Works nat int nat

record tasks =
  pointer :: "node list"
  created :: bool
  ready :: "node list"
  task_log :: "task_msg list"

definition processwork :: "nat \<Rightarrow> node \<Rightarrow> task_msg" where
  "processwork t p = Works t (node_no p) (node_number p)"

definition task_step :: "task_act \<Rightarrow> tasks \<Rightarrow> tasks option" where
  "task_step a s =
     (case a of
        CreateTask \<Rightarrow> (case pointer s of
            [] \<Rightarrow> None
          | p # ps \<Rightarrow> if created s then None else Some (s\<lparr>ready := ready s @ [p], created := True\<rparr>))
      | ChangePointer \<Rightarrow> if created s then Some (s\<lparr>pointer := tl (pointer s), created := False, task_log := task_log s @ [Changes]\<rparr>) else None
      | ExecTask k t \<Rightarrow> if k < length (ready s)
          then Some (s\<lparr>ready := take k (ready s) @ drop (Suc k) (ready s), task_log := task_log s @ [processwork t (ready s ! k)]\<rparr>)
          else None)"

definition tasks_init :: "node list \<Rightarrow> tasks" where
  "tasks_init h = \<lparr>pointer = h, created = False, ready = [], task_log = []\<rparr>"

lemma list_init_result:
  "nat no \<le> mallocs \<Longrightarrow> 0 \<le> no \<Longrightarrow> \<exists>h'. list_init_loop mallocs r no i h = Some h' \<and> length h' = length h + nat no \<and>
     (\<forall>k < length h. h' ! k = h ! k) \<and>
     (\<forall>k. length h \<le> k \<and> k < length h' \<longrightarrow> node_number (h' ! k) = r (i + (k - length h)) mod MAX_NUMBER \<and>
        node_no (h' ! k) = (if k = 0 then no else int (i + (k - length h))))"
proof (induction mallocs r no i h rule: list_init_loop.induct)
  case (1 mallocs r no i h)
  show ?case
  proof (cases "no = 0")
    case False
    then obtain m where m: "mallocs = Suc m" using 1(2,3) by (cases mallocs) auto
    let ?n = "\<lparr>node_number = r i mod MAX_NUMBER, node_no = (if h = [] then no else int i)\<rparr>"
    have "\<exists>h'. list_init_loop m r (no - 1) (i + 1) (h @ [?n]) = Some h' \<and> length h' = length (h @ [?n]) + nat (no - 1) \<and>
      (\<forall>k < length (h @ [?n]). h' ! k = (h @ [?n]) ! k) \<and>
      (\<forall>k. length (h @ [?n]) \<le> k \<and> k < length h' \<longrightarrow> node_number (h' ! k) = r (i + 1 + (k - length (h @ [?n]))) mod MAX_NUMBER \<and>
        node_no (h' ! k) = (if k = 0 then no - 1 else int (i + 1 + (k - length (h @ [?n])))))"
      by (rule 1(1)) (use 1(2,3) m False in auto)
    then obtain h' where h': "list_init_loop m r (no - 1) (i + 1) (h @ [?n]) = Some h'" "length h' = Suc (length h) + nat (no - 1)"
      "\<forall>k < Suc (length h). h' ! k = (h @ [?n]) ! k"
      "\<forall>k. Suc (length h) \<le> k \<and> k < length h' \<longrightarrow> node_number (h' ! k) = r (i + 1 + (k - Suc (length h))) mod MAX_NUMBER \<and>
        node_no (h' ! k) = (if k = 0 then no - 1 else int (i + 1 + (k - Suc (length h))))" by auto
    have "node_number (h' ! k) = r (i + (k - length h)) mod MAX_NUMBER \<and> node_no (h' ! k) = (if k = 0 then no else int (i + (k - length h)))"
      if "length h \<le> k" "k < length h'" for k
    proof (cases "k = length h")
      case True
      then show ?thesis using h'(3) by simp
    next
      case False
      then have "i + 1 + (k - Suc (length h)) = i + (k - length h)" "k \<noteq> 0" using that by simp_all
      then show ?thesis using h'(4) that False by simp
    qed
    moreover have "\<forall>k < length h. h' ! k = h ! k" using h'(3) by (simp add: nth_append)
    moreover have "length h' = length h + nat no" using h'(2) 1(3) False by simp
    ultimately show ?thesis using h'(1) m False by auto
  qed simp
qed

fun works :: "task_msg list \<Rightarrow> (int \<times> nat) list" where
  "works [] = []" | "works (Changes # l) = works l" | "works (Works t no number # l) = (no, number) # works l"

definition todo_nodes :: "tasks \<Rightarrow> node list" where
  "todo_nodes s = (if created s then tl (pointer s) else pointer s)"

definition key_of :: "node \<Rightarrow> int \<times> nat" where
  "key_of p = (node_no p, node_number p)"

definition task_inv :: "node list \<Rightarrow> tasks \<Rightarrow> bool" where
  "task_inv h s \<longleftrightarrow> (created s \<longrightarrow> pointer s \<noteq> []) \<and>
     mset (works (task_log s)) + image_mset key_of (mset (ready s)) + image_mset key_of (mset (todo_nodes s)) = image_mset key_of (mset h)"

definition task_msr :: "tasks \<Rightarrow> nat" where
  "task_msr s = 3 * length (pointer s) + length (ready s) - (if created s then 2 else 0)"

lemma works_append: "works (l @ m) = works l @ works m"
  by (induction l rule: works.induct) auto

lemma mset_remove: "k < length xs \<Longrightarrow> mset xs = add_mset (xs ! k) (mset (take k xs @ drop (Suc k) xs))"
  by (subst (1) id_take_nth_drop [of k xs]) simp_all

lemma task_step_inv:
  assumes "task_inv h s" "task_step a s = Some s'"
  shows "task_inv h s' \<and> task_msr s' < task_msr s"
proof (cases a)
  case CreateTask
  then show ?thesis using assms
    by (auto simp: task_step_def task_inv_def task_msr_def todo_nodes_def split: list.splits if_splits)
next
  case ChangePointer
  then show ?thesis using assms
    by (cases "pointer s") (auto simp: task_step_def task_inv_def task_msr_def todo_nodes_def works_append split: if_splits)
next
  case (ExecTask k t)
  then have k: "k < length (ready s)" and s': "s' = s\<lparr>ready := take k (ready s) @ drop (Suc k) (ready s),
      task_log := task_log s @ [processwork t (ready s ! k)]\<rparr>"
    using assms(2) by (auto simp: task_step_def split: if_splits)
  have "todo_nodes s' = todo_nodes s" using s' by (simp add: todo_nodes_def)
  then have "task_inv h s'"
    using assms(1) mset_remove [OF k] s'
    by (simp add: task_inv_def works_append processwork_def key_of_def ac_simps)
  moreover have "task_msr s' < task_msr s"
    using assms(1) k s' by (cases "pointer s") (auto simp: task_msr_def task_inv_def)
  ultimately show ?thesis by blast
qed

interpretation task: terminating_system task_step "tasks_init h" "task_inv h" task_msr "\<lambda>s. pointer s = [] \<and> ready s = []" for h
proof
  show "task_inv h (tasks_init h)" by (simp add: task_inv_def tasks_init_def todo_nodes_def)
  show "\<exists>a t. task_step a s = Some t" if h: "task_inv h s" "\<not> (pointer s = [] \<and> ready s = [])" for s
  proof (cases "ready s")
    case Nil
    then have "task_step CreateTask s \<noteq> None \<or> task_step ChangePointer s \<noteq> None"
      using h(2) by (auto simp: task_step_def split: list.splits)
    then show ?thesis by blast
  next
    case (Cons p ps)
    then have "task_step (ExecTask 0 0) s \<noteq> None" by (simp add: task_step_def)
    then show ?thesis by blast
  qed
qed (use task_step_inv in blast)+

text \<open>
  C38: \<open>task.c\<close> processes every node of its list exactly once.  For \<open>n\<close> entered, \<open>ListInit\<close> gives a list of \<open>n\<close> nodes
  with numbers below 10 (the first one is numbered \<open>n\<close>, the others 1, 2, ...); whatever the order in which tasks are
  created and executed, the parallel region ends, and then the nodes the tasks have printed are those of the list.
\<close>

theorem task_processes_each_node_once:
  assumes "n \<le> mallocs"
  shows "\<exists>h. ListInit mallocs r (int n) = Some h \<and> length h = n \<and>
     map key_of h = map (\<lambda>k. (if k = 0 then int n else int k, r k mod 10)) [0..<n] \<and>
     (\<forall>as s. run task_step as (tasks_init h) = Some s \<longrightarrow> length as \<le> 3 * n \<and>
        (stuck task_step s \<longrightarrow> mset (works (task_log s)) = mset (map key_of h)))"
proof -
  obtain h where h: "ListInit mallocs r (int n) = Some h" "length h = n"
    "\<forall>k < n. node_number (h ! k) = r k mod MAX_NUMBER \<and> node_no (h ! k) = (if k = 0 then int n else int k)"
    using list_init_result [of "int n" mallocs r 0 "[]"] assms by (auto simp: ListInit_def)
  have "map key_of h = map (\<lambda>k. (if k = 0 then int n else int k, r k mod 10)) [0..<n]"
    using h(2,3) by (intro nth_equalityI) (simp_all add: key_of_def MAX_NUMBER_def)
  moreover have "length as \<le> 3 * n \<and> (stuck task_step s \<longrightarrow> mset (works (task_log s)) = mset (map key_of h))"
    if s: "run task_step as (tasks_init h) = Some s" for as s
  proof
    show "length as \<le> 3 * n" using task.run_bounded [OF s] h(2) by (simp add: task_msr_def tasks_init_def)
    have inv: "task_inv h s" by (rule task.run_inv [OF s])
    show "stuck task_step s \<longrightarrow> mset (works (task_log s)) = mset (map key_of h)"
      using task.stuck_final [OF inv] inv by (auto simp: task_inv_def todo_nodes_def)
  qed
  ultimately show ?thesis using h(1,2) by blast
qed

theorem task_processes_each_node_once_witness:
  "\<exists>h. ListInit 5 (\<lambda>i. 7 * i) 2 = Some h \<and> map key_of h = [(2, 0), (1, 7)]"
  using task_processes_each_node_once [of 2 5 "\<lambda>i. 7 * i"] by (auto simp: numeral_2_eq_2)

end
