(* ===== verification/OpenMP_Files.thy ===== *)
theory OpenMP_Files
  imports C_Runtime "HOL-Library.Multiset"
begin

section \<open>OpenMP: writing, reading and copying a thousand files\<close>

text \<open>
  The five programs of \<open>src/OpenMP/FileIO\<close>.  A disk maps file names to contents; \<open>can_write\<close> says for which
  names \<open>fopen (..., "w")\<close> succeeds.  The iterations of the parallel loops work on files of their own; they
  run in some order, a list of the file numbers.  \<open>rand ()\<close> is a parameter, the printed times are left
  out, and \<open>argv[1]\<close> only sets the number of threads.
\<close>

type_synonym disk = "string \<rightharpoonup> string"

definition MaxFileNum :: nat where "MaxFileNum = 1000"

definition MaxFileSize :: nat where "MaxFileSize = 4000000"

subsection \<open>File names\<close>

text \<open>\<open>%5d\<close> pads with blanks on the left, \<open>%d\<close> does not.\<close>

definition pad5 :: "string \<Rightarrow> string" where
  "pad5 s = replicate (5 - length s) CHR '' '' @ s"

definition name5 :: "nat \<Rightarrow> string c" where
  "name5 i = sprintf 30 (pad5 (show_nat i) @ ''.txt'')"

definition name_d :: "nat \<Rightarrow> string c" where
  "name_d i = sprintf 30 (show_nat i @ ''.txt'')"

subsection \<open>\<open>FileWrite.c\<close> and \<open>Thread_FileWrite.c\<close>\<close>

definition Letter :: "nat \<Rightarrow> char" where
  "Letter r = char_of (r mod (125 - 48 + 1) + 48)"

fun rand_loop :: "(nat \<Rightarrow> nat) \<Rightarrow> nat list \<Rightarrow> string \<Rightarrow> string" where
  "rand_loop r [] out = out"
| "rand_loop r (i # is) out = rand_loop r is (out @ [Letter (r i)])"

definition WriteFile :: "(string \<Rightarrow> bool) \<Rightarrow> (nat \<Rightarrow> nat) \<Rightarrow> string \<Rightarrow> nat \<Rightarrow> disk \<Rightarrow> disk c" where
  "WriteFile can_write r filename filesize d =
     (if can_write filename then Inr (d(filename \<mapsto> rand_loop r [0..<filesize] [])) else Inl NullDeref)"

fun cycle_loop :: "nat \<Rightarrow> nat \<Rightarrow> string \<Rightarrow> string" where
  "cycle_loop 0 ch out = out"
| "cycle_loop (Suc n) ch out = cycle_loop n (if ch + 1 > 125 then 48 else ch + 1) (out @ [char_of ch])"

definition Thread_WriteFile :: "(string \<Rightarrow> bool) \<Rightarrow> string \<Rightarrow> nat \<Rightarrow> disk \<Rightarrow> disk c" where
  "Thread_WriteFile can_write filename filesize d =
     (if can_write filename then Inr (d(filename \<mapsto> cycle_loop filesize 48 [])) else Inl NullDeref)"

text \<open>
  The parallel loops: file \<open>i\<close> gets the size \<open>size_rand i % MaxFileSize\<close> and, in \<open>FileWrite.c\<close>, the letters from \<open>r i\<close>.
\<close>

fun write_main :: "(string \<Rightarrow> bool) \<Rightarrow> (nat \<Rightarrow> nat \<Rightarrow> nat) \<Rightarrow> (nat \<Rightarrow> nat) \<Rightarrow> nat list \<Rightarrow> disk \<Rightarrow> disk c" where
  "write_main can_write r size_rand [] d = Inr d"
| "write_main can_write r size_rand (i # is) d =
     bindc (name5 i) (\<lambda>f. bindc (WriteFile can_write (r i) f (size_rand i mod MaxFileSize) d)
       (write_main can_write r size_rand is))"

fun thread_write_main :: "(string \<Rightarrow> bool) \<Rightarrow> (nat \<Rightarrow> nat) \<Rightarrow> nat list \<Rightarrow> disk \<Rightarrow> disk c" where
  "thread_write_main can_write size_rand [] d = Inr d"
| "thread_write_main can_write size_rand (i # is) d =
     bindc (name_d i) (\<lambda>f. bindc (Thread_WriteFile can_write f (size_rand i mod MaxFileSize) d)
       (thread_write_main can_write size_rand is))"

subsection \<open>\<open>FileRead.c\<close> and \<open>Thread_FileRead.c\<close>\<close>

text \<open>The loop of \<open>fgets\<close> calls; its result is the list of the buffers.\<close>

function read_loop :: "string \<Rightarrow> string list" where
  "read_loop s = (if s = [] then [] else let (l, r) = take_line 999 s in l # read_loop r)"
  by auto
termination
proof (relation "measure length")
  fix s :: string and x l r
  assume h: "s \<noteq> []" "x = take_line 999 s" "(l, r) = x"
  then have "take_line (Suc 998) s = (l, r)" by simp
  then have "l \<noteq> []" "s = l @ r" using take_line_nonempty take_line_split h(1) by blast+
  then show "(r, s) \<in> measure length" by simp
qed simp

declare read_loop.simps [simp del]

definition ReadFile :: "string \<Rightarrow> disk \<Rightarrow> string list c" where
  "ReadFile filename d = (case d filename of None \<Rightarrow> Inl NullDeref | Some s \<Rightarrow> Inr (read_loop s))"

fun read_main :: "(nat \<Rightarrow> string c) \<Rightarrow> nat list \<Rightarrow> disk \<Rightarrow> string list c" where
  "read_main name [] d = Inr []"
| "read_main name (i # is) d =
     bindc (name i) (\<lambda>f. bindc (ReadFile f d) (\<lambda>_. bindc (read_main name is d) (\<lambda>out. Inr ((''FileName='' @ f @ '' '') # out))))"

definition FileRead_main :: "nat list \<Rightarrow> disk \<Rightarrow> string list c" where
  "FileRead_main = read_main name5"

definition Thread_FileRead_main :: "nat list \<Rightarrow> disk \<Rightarrow> string list c" where
  "Thread_FileRead_main = read_main name_d"

subsection \<open>\<open>Thread_FileCopy.c\<close>\<close>

text \<open>
  \<open>ch\<close> is a (signed) \<open>char\<close>: a byte 255 becomes \<open>-1\<close>, which is \<open>EOF\<close>.
\<close>

definition as_char :: "char \<Rightarrow> int" where
  "as_char c = (let b = int (of_char c) in if b < 128 then b else b - 256)"

definition EOF :: int where "EOF = -1"

fun copy_loop :: "string \<Rightarrow> string \<Rightarrow> string" where
  "copy_loop [] out = out"
| "copy_loop (c # s) out = (if as_char c = EOF then out else copy_loop s (out @ [c]))"

datatype copied = Copied disk string | Exits disk string

definition CopyFile :: "(string \<Rightarrow> bool) \<Rightarrow> string \<Rightarrow> disk \<Rightarrow> copied c" where
  "CopyFile can_write filename d =
     bindc (sprintf 30 (''./Dest/'' @ filename)) (\<lambda>outfilename.
       let d1 = (if can_write outfilename then d(outfilename \<mapsto> []) else d) in
       case d filename of
         None \<Rightarrow> Inr (Exits d1 ''fopen error '')
       | Some s \<Rightarrow> if \<not> can_write outfilename then Inr (Exits d1 ''fopen error '')
                   else Inr (Copied (d1(outfilename \<mapsto> copy_loop s [])) (''copy '' @ filename @ '' to '' @ outfilename @ '' '')))"

text \<open>The loop of \<open>main\<close>, until a call exits the process; the last component says whether one did.\<close>

fun copy_main :: "(string \<Rightarrow> bool) \<Rightarrow> nat list \<Rightarrow> disk \<Rightarrow> string list \<Rightarrow> (disk \<times> string list \<times> bool) c" where
  "copy_main can_write [] d out = Inr (d, out, False)"
| "copy_main can_write (i # is) d out =
     bindc (name_d i) (\<lambda>f. bindc (CopyFile can_write f d) (\<lambda>x.
       case x of Exits d' m \<Rightarrow> Inr (d', out @ [m], True) | Copied d' m \<Rightarrow> copy_main can_write is d' (out @ [m])))"

subsection \<open>What a file holds\<close>

lemma rand_loop_map: "rand_loop r is out = out @ map (\<lambda>i. Letter (r i)) is"
  by (induction "is" arbitrary: out) auto

lemma cycle_loop_map: "j < 78 \<Longrightarrow> cycle_loop n (48 + j) out = out @ map (\<lambda>k. char_of (48 + (j + k) mod 78)) [0..<n]"
proof (induction n arbitrary: j out)
  case (Suc n)
  let ?j = "Suc j mod 78"
  have "(if 48 + j + 1 > 125 then 48 else 48 + j + 1) = 48 + ?j" using Suc.prems by (cases "j = 77") auto
  then have "cycle_loop (Suc n) (48 + j) out = cycle_loop n (48 + ?j) (out @ [char_of (48 + j)])"
    by (simp only: cycle_loop.simps)
  also have "\<dots> = out @ char_of (48 + j) # map (\<lambda>k. char_of (48 + (?j + k) mod 78)) [0..<n]" by (simp add: Suc.IH)
  also have "\<dots> = out @ map (\<lambda>k. char_of (48 + (j + k) mod 78)) [0..<Suc n]"
    using Suc.prems by (simp add: upt_conv_Cons map_Suc_upt [symmetric] mod_add_left_eq del: upt_Suc)
  finally show ?case .
qed simp

lemma as_char_EOF: "as_char c = EOF \<longleftrightarrow> c = CHR 0xFF"
proof -
  have "as_char c = EOF \<longleftrightarrow> (of_char c :: nat) = 255"
    using nat_of_char_less_256 [of c] by (auto simp: as_char_def EOF_def Let_def)
  also have "\<dots> \<longleftrightarrow> (of_char c :: nat) = of_char (CHR 0xFF)" by simp
  also have "\<dots> \<longleftrightarrow> c = CHR 0xFF" by (simp only: of_char_eq_iff)
  finally show ?thesis .
qed

lemma copy_loop_take: "copy_loop s out = out @ takeWhile (\<lambda>c. c \<noteq> CHR 0xFF) s"
  by (induction s out rule: copy_loop.induct) (simp_all add: as_char_EOF)

lemma read_loop_concat: "concat (read_loop s) = s \<and> (\<forall>l \<in> set (read_loop s). length l \<le> 999)"
proof (induction s rule: read_loop.induct)
  case (1 s)
  show ?case
  proof (cases "s = []")
    case False
    obtain l r where lr: "take_line 999 s = (l, r)" by (cases "take_line 999 s")
    then have "s = l @ r" "length l \<le> 999" by (rule take_line_split, rule take_line_length)
    moreover have "read_loop s = l # read_loop r" using False lr by (subst read_loop.simps) simp
    ultimately show ?thesis using 1(1) [OF False lr [symmetric] refl] by simp
  qed (simp add: read_loop.simps)
qed

text \<open>The names fit their buffers and are different for different numbers.\<close>

definition padded :: "nat \<Rightarrow> string" where
  "padded i = pad5 (show_nat i) @ ''.txt''"

definition plain_name :: "nat \<Rightarrow> string" where
  "plain_name i = show_nat i @ ''.txt''"

lemma names_fit: "i < MaxFileNum \<Longrightarrow> name5 i = Inr (padded i) \<and> name_d i = Inr (plain_name i) \<and> length (show_nat i) \<le> 3"
  using length_show_nat [of i 3] by (simp add: MaxFileNum_def name5_def name_d_def padded_def plain_name_def sprintf_def pad5_def)

lemma digits_of_name: "digits_val 0 (plain_name i) = i"
proof -
  have "\<not> isdigit CHR ''.''" by (simp add: isdigit_def)
  then show ?thesis by (simp add: plain_name_def digits_val_append show_nat_digits digits_val_show_nat)
qed

lemma plain_inj: "plain_name i = plain_name j \<longleftrightarrow> i = j"
  by (metis digits_of_name)

lemma padded_plain: "dropWhile (\<lambda>c. c = CHR '' '') (padded i) = plain_name i"
proof -
  have "hd (show_nat i) \<noteq> CHR '' ''"
    using show_nat_digits [of i] show_nat_nonempty [of i] by (cases "show_nat i") (auto simp: isdigit_def)
  then have "dropWhile (\<lambda>c. c = CHR '' '') (show_nat i @ ''.txt'') = show_nat i @ ''.txt''"
    using show_nat_nonempty [of i] by (cases "show_nat i") auto
  moreover have "dropWhile (\<lambda>c. c = CHR '' '') (replicate k CHR '' '' @ s) = dropWhile (\<lambda>c. c = CHR '' '') s" for k s
    by (induction k) auto
  ultimately show ?thesis by (simp add: padded_def pad5_def plain_name_def)
qed

lemma padded_inj: "padded i = padded j \<longleftrightarrow> i = j"
  by (metis padded_plain plain_inj)

lemma names_inj: "inj padded" "inj plain_name"
  using padded_inj plain_inj by (auto intro!: injI)

text \<open>A padded name starts with a blank, an unpadded one with a digit; none of them is below \<open>./Dest\<close>.\<close>

lemma names_differ:
  assumes "i < MaxFileNum"
  shows "padded i \<noteq> plain_name j" "''./Dest/'' @ plain_name i \<noteq> plain_name j"
proof -
  have d: "isdigit (hd (plain_name j))"
    using show_nat_digits [of j] show_nat_nonempty [of j] by (cases "show_nat j") (auto simp: plain_name_def)
  have "hd (padded i) = CHR '' ''" using names_fit [OF assms] by (cases "5 - length (show_nat i)") (auto simp: padded_def pad5_def)
  then show "padded i \<noteq> plain_name j" using d by (auto simp: isdigit_def)
  show "''./Dest/'' @ plain_name i \<noteq> plain_name j"
  proof
    assume "''./Dest/'' @ plain_name i = plain_name j"
    then have "hd (plain_name j) = CHR ''.''" by (metis append_Cons list.sel(1))
    then show False using d by (simp add: isdigit_def)
  qed
qed

subsection \<open>The programs one after the other\<close>

definition in_order :: "nat list \<Rightarrow> bool" where
  "in_order is \<longleftrightarrow> mset is = mset [0..<MaxFileNum]"

lemma in_orderD: "in_order is \<Longrightarrow> set is = {..<MaxFileNum}"
  unfolding in_order_def by (metis atLeast_upt set_mset_mset)

text \<open>What the loops store: the files of the numbers, and nothing else.\<close>

definition stores :: "(nat \<Rightarrow> string) \<Rightarrow> (nat \<Rightarrow> string) \<Rightarrow> nat set \<Rightarrow> disk \<Rightarrow> disk \<Rightarrow> bool" where
  "stores name cont I d d' \<longleftrightarrow> (\<forall>i \<in> I. d' (name i) = Some (cont i)) \<and> (\<forall>f. f \<notin> name ` I \<longrightarrow> d' f = d f)"

lemma stores_insert:
  assumes "inj name" "stores name cont I (d(name i \<mapsto> cont i)) d'"
  shows "stores name cont (insert i I) d d'"
proof -
  have "d' (name i) = Some (cont i)"
    using assms by (cases "i \<in> I") (simp_all add: stores_def inj_image_mem_iff)
  then show ?thesis using assms(2) by (simp add: stores_def)
qed

definition rand_text :: "(nat \<Rightarrow> nat \<Rightarrow> nat) \<Rightarrow> (nat \<Rightarrow> nat) \<Rightarrow> nat \<Rightarrow> string" where
  "rand_text r size_rand i = map (\<lambda>k. Letter (r i k)) [0..<size_rand i mod MaxFileSize]"

definition cycle_text :: "(nat \<Rightarrow> nat) \<Rightarrow> nat \<Rightarrow> string" where
  "cycle_text size_rand i = map (\<lambda>k. char_of (48 + k mod 78)) [0..<size_rand i mod MaxFileSize]"

lemma write_main_result:
  assumes "set is \<subseteq> {..<MaxFileNum}" "\<And>f. can_write f"
  shows "\<exists>d'. write_main can_write r size_rand is d = Inr d' \<and> stores padded (rand_text r size_rand) (set is) d d'"
  using assms(1)
proof (induction "is" arbitrary: d)
  case (Cons i "is")
  have "name5 i = Inr (padded i)" using names_fit Cons.prems by simp
  moreover have "WriteFile can_write (r i) (padded i) (size_rand i mod MaxFileSize) d = Inr (d(padded i \<mapsto> rand_text r size_rand i))"
    using assms(2) by (simp add: WriteFile_def rand_loop_map rand_text_def)
  moreover obtain d' where "write_main can_write r size_rand is (d(padded i \<mapsto> rand_text r size_rand i)) = Inr d'"
    "stores padded (rand_text r size_rand) (set is) (d(padded i \<mapsto> rand_text r size_rand i)) d'"
    using Cons.IH Cons.prems by (metis insert_subset list.simps(15))
  ultimately show ?case using stores_insert [OF names_inj(1)] by simp
qed (simp add: stores_def)

lemma thread_write_result:
  assumes "set is \<subseteq> {..<MaxFileNum}" "\<And>f. can_write f"
  shows "\<exists>d'. thread_write_main can_write size_rand is d = Inr d' \<and> stores plain_name (cycle_text size_rand) (set is) d d'"
  using assms(1)
proof (induction "is" arbitrary: d)
  case (Cons i "is")
  have "name_d i = Inr (plain_name i)" using names_fit Cons.prems by simp
  moreover have "Thread_WriteFile can_write (plain_name i) (size_rand i mod MaxFileSize) d = Inr (d(plain_name i \<mapsto> cycle_text size_rand i))"
    using assms(2) cycle_loop_map [of 0] by (simp add: Thread_WriteFile_def cycle_text_def)
  moreover obtain d' where "thread_write_main can_write size_rand is (d(plain_name i \<mapsto> cycle_text size_rand i)) = Inr d'"
    "stores plain_name (cycle_text size_rand) (set is) (d(plain_name i \<mapsto> cycle_text size_rand i)) d'"
    using Cons.IH Cons.prems by (metis insert_subset list.simps(15))
  ultimately show ?case using stores_insert [OF names_inj(2)] by simp
qed (simp add: stores_def)

text \<open>The copies: of each file what comes before its first byte 255.\<close>

definition dest :: "nat \<Rightarrow> string" where
  "dest i = ''./Dest/'' @ plain_name i"

lemma copy_main_result:
  assumes "set is \<subseteq> {..<MaxFileNum}" "\<And>f. can_write f" "\<And>i. i < MaxFileNum \<Longrightarrow> d (plain_name i) = Some (cont i)"
  shows "\<exists>d' out'. copy_main can_write is d out = Inr (d', out', False) \<and>
     stores dest (\<lambda>i. takeWhile (\<lambda>c. c \<noteq> CHR 0xFF) (cont i)) (set is) d d'"
  using assms(1,3)
proof (induction "is" arbitrary: d out)
  case (Cons i "is")
  let ?t = "takeWhile (\<lambda>c. c \<noteq> CHR 0xFF) (cont i)"
  let ?d = "d(dest i \<mapsto> ?t)"
  have i: "i < MaxFileNum" using Cons.prems(1) by simp
  have "name_d i = Inr (plain_name i)" "length (show_nat i) \<le> 3" using names_fit [OF i] by blast+
  moreover from this have "\<exists>m. CopyFile can_write (plain_name i) d = Inr (Copied ?d m)"
    using assms(2) Cons.prems(2) [OF i] by (simp add: CopyFile_def dest_def sprintf_def plain_name_def copy_loop_take)
  then obtain m where "CopyFile can_write (plain_name i) d = Inr (Copied ?d m)" by blast
  moreover have "?d (plain_name j) = Some (cont j)" if "j < MaxFileNum" for j
    using names_differ(2) [OF i, of j] Cons.prems(2) [OF that] by (auto simp: dest_def)
  then have "\<exists>d' out'. copy_main can_write is ?d (out @ [m]) = Inr (d', out', False) \<and>
      stores dest (\<lambda>i. takeWhile (\<lambda>c. c \<noteq> CHR 0xFF) (cont i)) (set is) ?d d'"
    using Cons.prems(1) by (intro Cons.IH) simp_all
  moreover have "inj dest" using plain_inj by (auto intro!: injI simp: dest_def)
  ultimately show ?case
    using stores_insert [where name = dest and cont = "\<lambda>i. takeWhile (\<lambda>c. c \<noteq> CHR 0xFF) (cont i)" and I = "set is" and d = d and i = i]
    by (auto simp del: fun_upd_apply)
qed (simp add: stores_def)

lemma cycle_text_clean: "takeWhile (\<lambda>c. c \<noteq> CHR 0xFF) (cycle_text size_rand i) = cycle_text size_rand i"
proof -
  have "char_of (48 + k mod 78 :: nat) \<noteq> CHR 0xFF" for k :: nat
  proof
    assume "char_of (48 + k mod 78 :: nat) = CHR 0xFF"
    then have "(of_char (char_of (48 + k mod 78 :: nat)) :: nat) = 255" by simp
    then show False using mod_less_divisor [of 78 k] by (simp del: mod_less_divisor)
  qed
  then show ?thesis by (simp add: cycle_text_def takeWhile_eq_all_conv)
qed

lemma read_main_result:
  "(\<And>i. i \<in> set is \<Longrightarrow> name i = Inr (nm i) \<and> d (nm i) \<noteq> None) \<Longrightarrow>
    read_main name is d = Inr (map (\<lambda>i. ''FileName='' @ nm i @ '' '') is)"
proof (induction "is")
  case (Cons i "is")
  then obtain s where "name i = Inr (nm i)" "d (nm i) = Some s" by fastforce
  moreover have "read_main name is d = Inr (map (\<lambda>i. ''FileName='' @ nm i @ '' '') is)" using Cons by simp
  ultimately show ?case by (simp add: ReadFile_def)
qed simp



text \<open>
  \<open>CopyFile\<close> copies a file up to its first byte 255 only, because it keeps the result of \<open>fgetc\<close> in a
  \<open>char\<close>: the copy is complete exactly if the file has no such byte.
\<close>

theorem copy_stops_at_255:
  assumes "i < MaxFileNum" "can_write (dest i)" "d (plain_name i) = Some s"
  shows "\<exists>d' m. CopyFile can_write (plain_name i) d = Inr (Copied d' m) \<and>
     d' (dest i) = Some (takeWhile (\<lambda>c. c \<noteq> CHR 0xFF) s) \<and> (d' (dest i) = Some s \<longleftrightarrow> CHR 0xFF \<notin> set s)"
proof -
  have "length (show_nat i) \<le> 3" using names_fit [OF assms(1)] by blast
  then obtain m where "CopyFile can_write (plain_name i) d = Inr (Copied (d(dest i \<mapsto> takeWhile (\<lambda>c. c \<noteq> CHR 0xFF) s)) m)"
    using assms(2,3) by (simp add: CopyFile_def dest_def sprintf_def plain_name_def copy_loop_take)
  moreover have "takeWhile (\<lambda>c. c \<noteq> CHR 0xFF) s = s \<longleftrightarrow> CHR 0xFF \<notin> set s" by (auto simp: takeWhile_eq_all_conv)
  ultimately show ?thesis
    by (intro exI [of _ "d(dest i \<mapsto> takeWhile (\<lambda>c. c \<noteq> CHR 0xFF) s)"] exI [of _ m]) (simp only: fun_upd_same option.inject)
qed

theorem copy_stops_at_255_witness:
  "\<exists>d' m. CopyFile (\<lambda>f. True) (plain_name 7) [plain_name 7 \<mapsto> [CHR ''a'', CHR 0xFF, CHR ''b'']] = Inr (Copied d' m) \<and> d' (dest 7) = Some ''a''"
proof -
  let ?s = "[CHR ''a'', CHR 0xFF, CHR ''b'']"
  have "7 < MaxFileNum" by (simp add: MaxFileNum_def)
  moreover have "[plain_name 7 \<mapsto> ?s] (plain_name 7) = Some ?s" by simp
  ultimately obtain d' m where "CopyFile (\<lambda>f. True) (plain_name 7) [plain_name 7 \<mapsto> ?s] = Inr (Copied d' m)"
    "d' (dest 7) = Some (takeWhile (\<lambda>c. c \<noteq> CHR 0xFF) ?s)"
    using copy_stops_at_255 [of 7 "\<lambda>f. True" _ ?s] by metis
  moreover have "takeWhile (\<lambda>c. c \<noteq> CHR 0xFF) ?s = ''a''" by simp
  ultimately show ?thesis by metis
qed

text \<open>
  The names of \<open>FileWrite.c\<close> are padded, those of the \<open>Thread_\<close> programs are not.  On a disk without
  unpadded names, after \<open>FileWrite.c\<close> the program \<open>FileRead.c\<close> finds every file, but \<open>Thread_FileCopy.c\<close> exits at once with
  \<open>fopen error\<close> and \<open>Thread_FileRead.c\<close> reads from a null stream.
\<close>

theorem padded_names_do_not_match:
  assumes "in_order p" "in_order q" "\<And>f. can_write f" "\<And>i. d (plain_name i) = None"
  shows "\<exists>d1 d2. write_main can_write r size_rand p d = Inr d1 \<and> stores padded (rand_text r size_rand) {..<MaxFileNum} d d1 \<and>
     FileRead_main q d1 = Inr (map (\<lambda>i. ''FileName='' @ padded i @ '' '') q) \<and>
     copy_main can_write q d1 [] = Inr (d2, [''fopen error ''], True) \<and> Thread_FileRead_main q d1 = Inl NullDeref"
proof -
  have pq: "set p = {..<MaxFileNum}" "set q = {..<MaxFileNum}" using assms(1,2) in_orderD by blast+
  obtain d1 where d1: "write_main can_write r size_rand p d = Inr d1" "stores padded (rand_text r size_rand) {..<MaxFileNum} d d1"
    using write_main_result [of p can_write r size_rand d] assms(3) pq by auto
  have "0 < MaxFileNum" by (simp add: MaxFileNum_def)
  then have "0 \<in> set q" unfolding pq(2) by simp
  then obtain i "is" where q: "q = i # is" by (cases q) auto
  then have "i \<in> set q" by simp
  then have i: "i < MaxFileNum" unfolding pq(2) by simp
  have "plain_name i \<notin> padded ` {..<MaxFileNum}" using names_differ(1) by (auto simp: eq_commute)
  then have n: "d1 (plain_name i) = None" using d1(2) assms(4) by (simp add: stores_def)
  have fit: "name_d i = Inr (plain_name i)" "length (show_nat i) \<le> 3" using names_fit [OF i] by blast+
  have "FileRead_main q d1 = Inr (map (\<lambda>i. ''FileName='' @ padded i @ '' '') q)"
    unfolding FileRead_main_def using pq(2) d1(2) names_fit by (intro read_main_result) (auto simp: stores_def)
  moreover have "\<exists>d2. copy_main can_write q d1 [] = Inr (d2, [''fopen error ''], True)"
    using n fit assms(3) by (simp add: q CopyFile_def sprintf_def plain_name_def)
  moreover have "Thread_FileRead_main q d1 = Inl NullDeref"
    unfolding Thread_FileRead_main_def using n fit by (simp add: q ReadFile_def)
  ultimately show ?thesis using d1 by blast
qed

theorem padded_names_do_not_match_witness:
  "\<exists>d1. write_main (\<lambda>f. True) (\<lambda>i k. k) (\<lambda>i. i) [0..<MaxFileNum] Map.empty = Inr d1 \<and>
     Thread_FileRead_main [0..<MaxFileNum] d1 = Inl NullDeref"
  using padded_names_do_not_match [of "[0..<MaxFileNum]" "[0..<MaxFileNum]" "\<lambda>f. True" Map.empty "\<lambda>i k. k" "\<lambda>i. i"]
  by (auto simp: in_order_def)

end
