(* ===== verification/Spec2Isabelle.thy ===== *)
theory Spec2Isabelle
  imports Web_Client Web_Workers Counters Products_Variants Reader_Writer Cuda_Vec_Add_Variants Cuda_Inner_Product
    Cuda_Hash Cuda_Cipher Stream_Programs Tensor_Gemm Score_Search Inc_Dec Cond_Programs Rendezvous Rw_Lock
    OpenMP_Sorts OpenMP_Sums OpenMP_Loops OpenMP_Files
begin

text \<open>
  \<^bold>\<open>The programs.\<close>  The repository is a collection of C, C++ and CUDA programs on parallel programming: a multithreaded
  web server with its client (\<open>src/Pthread/pthreads-web-server-master\<close>), small programs on POSIX threads
  (\<open>src/Pthread\<close>), on CUDA (\<open>src/CUDA_sample\<close>), on OpenMP (\<open>src/OpenMP\<close>) and on tensor cores (\<open>src/TensorCore\<close>).
  The programs do not call each other, except that client and server talk over a connection; they share the
  runtime of the language, the thread library and the device, which are theories of their own here.

  \<^bold>\<open>Foundations.\<close>
  \<^item> \<open>Prelude\<close>: executable labelled transition systems (\<open>run\<close>, \<open>reachable\<close>, \<open>stuck\<close>) and the locales
    \<open>invariant_system\<close>, \<open>terminating_system\<close> (a measure bounds every schedule; a state where nothing moves is final) and
    \<open>refining_system\<close> (simulation of an abstract system).  All threaded programs interpret one of them.
  \<^item> \<open>C_Runtime\<close>: undefined behaviour as a value (\<open>c_error\<close>), bounded arrays, C strings, \<open>sprintf\<close>, \<open>atoi\<close>, stdio streams,
    32-bit \<open>int\<close> wrap-around.
  \<^item> \<open>Pthread_Lib\<close>: mutexes, condition variables, semaphores; the locale \<open>lock\<close>, interpreted by the mutex and by the
    binary semaphore.
  \<^item> \<open>Thread_Program\<close>: a \<open>main\<close> that creates and joins threads around a system of threads (locale \<open>thread_program\<close>).
  \<^item> \<open>Cuda_Launch\<close>: a kernel as the stores of its threads; \<open>launch_result\<close> allows the stores of a launch in every order.
    The locale \<open>cuda_device\<close> is a device that picks some order, interpreted by \<open>launch\<close>; \<open>pointwise\<close> and \<open>elementwise\<close> say when the order does not matter.

  \<^bold>\<open>Web server and client\<close> (\<open>server.c\<close>, \<open>client.c\<close>).
  \<^item> \<open>Web_Request\<close>: \<open>read_command\<close>, the tokenizer with its token arrays; its result is the list of complete words of the request.
  \<^item> \<open>Web_Server\<close>: \<open>sendHeader\<close>, the handlers of \<open>GET\<close>, \<open>HEAD\<close>, \<open>OPTIONS\<close> and \<open>TRACE\<close>, and \<open>process_request\<close>, the part of \<open>process_requests\<close> that answers one
    request.  It refines the response function \<open>http_response\<close>; it returns for every request but a \<open>GET\<close>
    of a directory; short requests and long log lines are undefined; descriptors are never closed.
  \<^item> \<open>Web_Config\<close>: \<open>read_config\<close> and \<open>read_port\<close>, which read back what \<open>config_text\<close> writes.
  \<^item> \<open>Web_Workers\<close>: the worker pool as a transition system (\<open>pool_step\<close>); request numbers are unique and without gaps, and after \<open>exit\<close>
    every schedule joins all workers.
  \<^item> \<open>Web_Client\<close>: \<open>main\<close> of the client.  Below, client and server are put together.

  \<^bold>\<open>Thread programs\<close> (\<open>src/Pthread\<close>).
  \<^item> \<open>Counters\<close>: six programs with two threads that increment a counter, with a mutex, a semaphore or nothing.
    The locked ones print the full count under every schedule; the others print any number between bounds.
  \<^item> \<open>Products\<close>, \<open>Products_Variants\<close>: the bounded buffer of \<open>condition.c\<close> (locale \<open>bounded_queue\<close>, interpreted by the ring buffer)
    with its producer and consumer, spurious wakeups included, and three variants, two of them wrong.
  \<^item> \<open>Reader_Writer\<close>: six one-place buffers and \<open>deadlock.c\<close> as one parametrised system that refines a slot;
    \<open>deadlock.c\<close> deadlocks and the others do not.
  \<^item> \<open>Inc_Dec\<close>: six programs in which one thread increments and one decrements a count (\<open>inc_dec.c\<close>, \<open>inc_dec1.c\<close>, \<open>inc_dec2.c\<close>,
    \<open>inc_dec_cond.c\<close>, \<open>inc_dec_mutex.c\<close>, \<open>dotprod_mutex.c\<close>) as one system with a configuration.  They refine a counting semaphore with spurious
    wakeups, lose no wakeup, and never end.
  \<^item> \<open>Cond_Programs\<close>: \<open>mutex_cond.c\<close>, which returns under every schedule, and \<open>condvar.c\<close>, which never does.
  \<^item> \<open>Rendezvous\<close>: \<open>barrier.c\<close>, where nobody goes before everybody is ready, and \<open>race_mutex_cond.c\<close>, which starts its
    horses together or runs into a destroyed condition variable; both outcomes are shown to occur.
  \<^item> \<open>Rw_Lock\<close>: \<open>read_write_lock.c\<close>; writers are alone, and a reader that never unlocks can block a writer for ever.

  \<^bold>\<open>CUDA programs\<close> (\<open>src/CUDA_sample\<close>).
  \<^item> \<open>Cuda_Vec_Add\<close>: \<open>vec_add.cu\<close>, its nineteen kernels and launch configurations, the test loop and the statistics;
    \<open>Cuda_Vec_Add_Variants\<close>: \<open>Sample/vec_add.cu\<close>, \<open>old_vec_add.cu\<close> and \<open>vec_add_out_boundary.cu\<close>.
  \<^item> \<open>Cuda_Matmul\<close>: \<open>second_cuda.cu\<close> and \<open>second_cuda1.cu\<close> to \<open>second_cuda4.cu\<close>, five matrix products that all satisfy the locale \<open>matrix_multiplier\<close>,
    which the host's triple loop satisfies too.
  \<^item> \<open>Cuda_Inner_Product\<close>: \<open>inner_product.cu\<close> and \<open>inner_product1.cu\<close>, with the tree reduction and the race between the blocks of the second.
  \<^item> \<open>Cuda_Hash\<close>: \<open>test/C2/hash.cu\<close> and \<open>hash_cpu.cpp\<close> on 64-bit words; \<open>Cuda_Cipher\<close>: \<open>test/C4/cipher_breaker.cu\<close>, a
    search that is sound and complete for the cipher it attacks.
  \<^item> \<open>Cuda_Streams\<close>: streams of copies and kernels that run beside the host.  The locale \<open>race_free_program\<close> takes a host program
    that passes a static check and shows that every schedule of the device prints what the operations print one after the other; \<open>Stream_Programs\<close>
    interprets it for \<open>async.cu\<close>, \<open>block_stream.cu\<close>, \<open>block_stream1.cu\<close>, \<open>DynamicParallelism3.cu\<close> and the four programs of \<open>CUDA-Memory-Access-Pattern\<close>,
    and gives a schedule for which \<open>nonblock_stream.cu\<close> and \<open>nonblock_stream1.cu\<close> print a wrong result.

  \<^bold>\<open>Tensor cores\<close> (\<open>src/TensorCore\<close>).  \<open>Tensor_Gemm\<close>: the matrix products of \<open>gemm_compare.cu\<close>, \<open>gemm_4ways_fp16_simpler.cu\<close>, \<open>gemm_cuda_core.cu\<close>, \<open>gemm_tensor_core.cu\<close> and
  \<open>wmma_tensorcore_example.cu\<close>.  The kernels with one thread per element and with one warp per tile compute the same product, except the one of
  \<open>gemm_tensor_core.cu\<close>, which stores 16 rows only.  The products of cuBLAS and CUTLASS are parameters.

  \<^bold>\<open>The key search of \<open>test/C3/brute_force_gpu.cu\<close>.\<close>
  \<^item> \<open>Score_Heap\<close>: the binary heap (\<open>heap_push\<close>, \<open>heap_pop\<close>), which satisfies the locale \<open>priority_queue\<close>.  \<open>Score_Tree\<close>: the Huffman
    algorithm on a sorted forest, its prefix-free codes, and a bound on the height of its trees by Fibonacci numbers.
    \<open>Score_Build\<close>: \<open>d_build_huffman\<close> and \<open>d_get_code\<close>, which refine it with the heap, a flat array of nodes and an explicit stack.
  \<^item> \<open>Score_Deck\<close>: the pseudo-random decks, the substitution and the permutation.  \<open>Score_Sha\<close>: SHA-256 of this program and of \<open>tforce.cpp\<close>, equal
    to the standard.  \<open>Score_Seed\<close>: 128-bit seeds, their decimal digits and their scores modulo 997.
  \<^item> \<open>Score_Encrypt\<close>: the two rounds; they stay inside all buffers and are injective.  \<open>Score_Search\<close>: the kernel as an interleaving of
    its threads, the decoding of indices, and the soundness and completeness of the search.

  \<^bold>\<open>OpenMP programs\<close> (\<open>src/OpenMP\<close>).
  \<^item> \<open>OpenMP_Sorts\<close>: the parallel odd-even sort \<open>poe_sort.c\<close>, which sorts in spite of a race on its
    counter, and the sequential \<open>oe_sort.c\<close> and \<open>b_sort.c\<close>, which leave their arrays.
  \<^item> \<open>OpenMP_Sums\<close>: \<open>atomic.c\<close>, \<open>reduction.c\<close>, \<open>lock.c\<close>, \<open>critical.c\<close>, \<open>critical1.c\<close> and \<open>race.c\<close> as teams that run lists of
    statements; the protected ones compute the sum for every division of the loop, \<open>race.c\<close> loses updates.
  \<^item> \<open>OpenMP_Loops\<close>: interleaved iterations; the locale \<open>owned_cells\<close> (each iteration owns its element) is interpreted by the loops of \<open>task_for.c\<close>.
    \<open>matrix_times_omp.c\<close> equals \<open>matrix_times.c\<close> on element types without any law, so also for rounded numbers; \<open>task.c\<close> processes each node once.
  \<^item> \<open>OpenMP_Files\<close>: \<open>FileIO\<close>, files written, read and copied by parallel loops; a byte 255 ends a copy early.

  \<^bold>\<open>Assumptions.\<close>  The operating system, the network, the file system and the device are parameters, with what the code relies on as
  hypotheses.  Numbers of type \<open>float\<close> and \<open>double\<close> are elements of a ring or field: rounding is not modelled, and
  theorems on them are about exact arithmetic.  Memory accesses of threads are interleaved
  statement by statement and are atomic.  Spurious wakeups are modelled in \<open>Products\<close> and \<open>Inc_Dec\<close> only; the other programs wait in a loop or are shown to fail without them.  Time is not modelled: clocks and timers only reach the output.
  CUDA calls and allocations whose failure makes a program exit are taken to succeed, unless a definition says otherwise.

  \<^bold>\<open>Bounds and fuel.\<close>  Threaded programs end by a measure, not by fuel.  \<open>oe_loop\<close> has fuel, and
  two passes are enough for its result; \<open>code_loop\<close> of \<open>Score_Build\<close> is a partial function that is shown to return; \<open>get_loop\<close> in \<open>Web_Server\<close> returns \<open>None\<close> exactly when the loop of the code does not end.  Loop
  counters and indices are natural numbers where the theorems or the sizes show that they fit an \<open>int\<close>.

  \<^bold>\<open>Not modelled.\<close>
  \<^item> The copies of the CUDA programs in \<open>CUDA_67\<close>, \<open>Sample\<close> and \<open>backup\<close>, and \<open>vec_add.cu.save\<close>: duplicates of what is modelled, except \<open>Sample/vec_add.cu\<close>.
  \<^item> Programs that show one library call or measure time: \<open>memcpy.cu\<close>, \<open>multi_stream.cu\<close>, scheduling, priorities, attributes and stacks of threads in \<open>src/Pthread\<close>,
    hello programs, clauses and schedules of \<open>src/OpenMP\<close>, the small samples of dynamic parallelism, whose output is what the hardware decides.
  \<^item> \<open>ParallelReduction.cu\<close> and \<open>memcpy_not_complete.cu\<close>, which do not compile.
  \<^item> \<open>cuBLASLtTensorCoreGEMM.cu\<close> and \<open>CUTLASSFP16TensorCoreGEMM.cu\<close>, which only call libraries.
  \<^item> The image, audio and video programs under \<open>test\<close>, on decoders (\<open>stb_image.h\<close>, \<open>ffmpeg\<close>, OpenCV) that are not part of the code.
  \<^item> The other key searches of \<open>test/C3\<close> (\<open>tforce.cpp\<close> but for its hash, \<open>tlforce.cpp\<close>, \<open>eforce.cpp\<close>, \<open>old.cpp\<close>, \<open>treeforce.cpp\<close>, \<open>treeforce2.cpp\<close>): versions of the
    search that is modelled.
\<close>

section \<open>Client and server together\<close>

text \<open>The request a client sends for a path: its words are those the server dispatches on.\<close>

lemma request_words:
  assumes "\<And>c. c \<in> set path \<union> set h \<Longrightarrow> \<not> isspace c" "h \<noteq> []"
  shows "complete_words (''GET /'' @ path @ '' HTTP/1.1'' @ nl # ''Host: '' @ h @ [nl]) =
    [''GET'', ''/'' @ path, ''HTTP/1.1'', ''Host:'', h]"
proof -
  have sp: "isspace (CHR '' '')" "isspace nl" by (simp_all add: isspace_def nl_def)
  have letters: "\<forall>c \<in> set ''GET''. \<not> isspace c" "\<forall>c \<in> set (''/'' @ path). \<not> isspace c"
    "\<forall>c \<in> set ''HTTP/1.1''. \<not> isspace c" "\<forall>c \<in> set ''Host:''. \<not> isspace c" "\<forall>c \<in> set h. \<not> isspace c"
    using assms(1) by (auto simp: isspace_def)
  let ?r4 = "h @ nl # []" and ?r3 = "''Host:'' @ CHR '' '' # h @ nl # []"
  have "complete_words ?r4 = [h]"
    using complete_words_word [OF assms(2) letters(5) sp(2), where s = "[]"] by simp
  moreover have "complete_words ?r3 = ''Host:'' # complete_words ?r4"
    by (rule complete_words_word [OF _ letters(4) sp(1)]) simp_all
  moreover have "complete_words (''HTTP/1.1'' @ nl # ?r3) = ''HTTP/1.1'' # complete_words ?r3"
    by (rule complete_words_word [OF _ letters(3) sp(2)]) simp_all
  moreover have "complete_words ((''/'' @ path) @ CHR '' '' # ''HTTP/1.1'' @ nl # ?r3) =
      (''/'' @ path) # complete_words (''HTTP/1.1'' @ nl # ?r3)"
    by (rule complete_words_word [OF _ letters(2) sp(1)]) simp_all
  moreover have "complete_words (''GET'' @ CHR '' '' # (''/'' @ path) @ CHR '' '' # ''HTTP/1.1'' @ nl # ?r3) =
      ''GET'' # complete_words ((''/'' @ path) @ CHR '' '' # ''HTTP/1.1'' @ nl # ?r3)"
    by (rule complete_words_word [OF _ letters(1) sp(1)]) simp_all
  ultimately show ?thesis by simp
qed

text \<open>
  C25: client and server together.  A client that asks for a readable file of the server prints
  exactly the response the server sends for it, the 200 header with the length of the file followed by
  the file, when the request arrives in one piece and the network delivers what the server sends, in whatever pieces.
\<close>

theorem client_prints_served_file:
  assumes "p < 2 ^ 31" "0 < p" "n < 10 ^ 8" "nl \<notin> set logname" "length logname < 90"
    and path: "\<And>c. c \<in> set path \<union> set h \<Longrightarrow> \<not> isspace c \<and> c \<noteq> NUL" "h \<noteq> []" "length path + length h < 200"
    and net: "socket_ok w" "host_known w h" "connect_ok w" "close_ok w" "\<And>s. net_send_ret w s = int (length s)"
    and os: "full_io os" "servable_files os" "fopen_read os path = Some (Regular s)"
    and "in_int32 rid" "in_int32 ti" "length time < 30"
    and chunks: "replies w = map Received chunks" "\<forall>c \<in> set chunks. c \<noteq> [] \<and> NUL \<notin> set c"
      "concat chunks = header_text 200 ''OK'' time (int (length s)) @ s"
  shows "\<exists>ev pre tr'. client_main (Some (config_text p logname n)) (''GET /'' @ path @ '' HTTP/1.1'' @ nl # ''Host: '' @ h @ [nl]) w = Inr (0, ev) \<and>
    process_request os ti rid fd (Received (client_sent ev)) (Some time) [] = Some (Inr tr') \<and>
    sent_to fd tr' = header_text 200 ''OK'' time (int (length s)) @ s \<and> stdout_of ev = pre @ sent_to fd tr'"
proof -
  let ?msg = "''GET /'' @ path @ '' HTTP/1.1'' @ nl # ''Host: '' @ h @ [nl]"
  have ok: "nl \<notin> set (path @ h)" "NUL \<notin> set (path @ h)" using path(1) [of nl] path(1) [of NUL] by auto
  have "\<exists>ev pre. client_main (Some (config_text p logname n)) ((''GET /'' @ path @ '' HTTP/1.1'') @ nl # ''Host: '' @ h @ [nl]) w = Inr (0, ev) \<and>
     client_sent ev = (''GET /'' @ path @ '' HTTP/1.1'') @ nl # ''Host: '' @ h @ [nl] \<and> stdout_of ev = pre @ concat chunks"
    by (rule client_exchange) (use assms ok in \<open>auto simp: nl_def NUL_def CLIENT_MAXBUFF_def\<close>)
  then obtain ev pre where ev: "client_main (Some (config_text p logname n)) ?msg w = Inr (0, ev)"
    "client_sent ev = ?msg" "stdout_of ev = pre @ concat chunks" by auto
  have words: "complete_words ?msg = [''GET'', ''/'' @ path, ''HTTP/1.1'', ''Host:'', h]"
    by (rule request_words) (use path in auto)
  have cs: "cstr ?msg = ?msg" by (rule cstr_id) (use ok in \<open>auto simp: nl_def NUL_def\<close>)
  have resp: "http_response os time (cstr ?msg) = Some (header_text 200 ''OK'' time (int (length s)) @ s)"
    unfolding cs http_response_def words using os(3) by simp
  have rid: "length (show_int rid) \<le> 11" using assms(17) by (intro length_show_int) (auto simp: in_int32_def)
  have len: "length ?msg < MAXBUFF" "length (log_line rid (cstr ?msg)) < MAXBUFF"
    using path(3) rid unfolding cs log_line_def words by (auto simp: MAXBUFF_def Let_def)
  have "\<exists>tr'. process_request os ti rid fd (Received ?msg) (Some time) [] = Some (Inr tr') \<and>
      sent_to fd tr' = sent_to fd [] @ header_text 200 ''OK'' time (int (length s)) @ s"
    using request_answered [OF os(1,2) assms(17-19), of ?msg fd "[]"] len resp unfolding cs words by simp
  with ev chunks(3) show ?thesis by auto
qed

theorem client_prints_served_file_witness:
  "\<exists>w ev pre tr'. client_main (Some (config_text 8888 ''log.txt'' 5)) (''GET /a HTTP/1.1'' @ nl # ''Host: h'' @ [nl]) w = Inr (0, ev) \<and>
    process_request demo_os 0 7 4 (Received (client_sent ev)) (Some ''now'') [] = Some (Inr tr') \<and>
    sent_to 4 tr' = header_text 200 ''OK'' ''now'' 5 @ ''hello'' \<and> stdout_of ev = pre @ sent_to 4 tr'"
proof -
  let ?chunks = "[header_text 200 ''OK'' ''now'' 5, ''hello'']" and ?w = "demo_net\<lparr>replies := map Received [header_text 200 ''OK'' ''now'' 5, ''hello'']\<rparr>"
  have chunks: "\<forall>c \<in> set ?chunks. c \<noteq> [] \<and> NUL \<notin> set c"
    by (simp add: header_text_def nl_def NUL_def show_int_def show_nat.simps digit_simps)
  have "\<exists>ev pre tr'. client_main (Some (config_text 8888 ''log.txt'' 5)) (''GET /'' @ ''a'' @ '' HTTP/1.1'' @ nl # ''Host: '' @ ''h'' @ [nl]) ?w = Inr (0, ev) \<and>
    process_request demo_os 0 7 4 (Received (client_sent ev)) (Some ''now'') [] = Some (Inr tr') \<and>
    sent_to 4 tr' = header_text 200 ''OK'' ''now'' (int (length ''hello'')) @ ''hello'' \<and> stdout_of ev = pre @ sent_to 4 tr'"
    by (rule client_prints_served_file [where chunks = ?chunks])
      (use chunks in \<open>auto simp: nl_def NUL_def isspace_def demo_net_def demo_os_def full_io_def servable_files_def in_int32_def\<close>)
  then show ?thesis by (intro exI [of _ ?w]) simp
qed

end
